(* ===== verification/Rfx_Prelude.thy ===== *)
theory Rfx_Prelude
  imports Main "HOL-Library.Word"
begin

unbundle bit_operations_syntax

text \<open>
  Shared vocabulary of the development: the machine types of the C and C++ sources, the
  faults a C program can run into (undefined behaviour is a value here, never silently
  ignored), the error-propagating bind the stateful definitions are composed with, the
  collections \<open>fault_simps\<close> and \<open>store_simps\<close>, and generic facts on lists and bytes.
\<close>

section \<open>Machine types\<close>

type_synonym u8 = "8 word"
type_synonym u16 = "16 word"
type_synonym u32 = "32 word"
type_synonym u64 = "64 word"
type_synonym bytes = "8 word list"
type_synonym addr = nat

section \<open>Faults and results\<close>

text \<open>
  \<open>NullDeref\<close>: a null pointer is dereferenced. \<open>UseAfterFree\<close>: an object that is not (or no
  longer) allocated is accessed. \<open>OutOfBounds\<close>: a read or a write outside an object.
  \<open>Uninitialised\<close>: a value that was never written decides what the code does. \<open>DivisionByZero\<close>: a
  remainder of the division by zero is taken. \<open>SignedOverflow\<close>: a signed sum leaves its type.
\<close>

datatype fault = NullDeref | UseAfterFree | OutOfBounds | Uninitialised | DivisionByZero
  | SignedOverflow

type_synonym 'a res = "fault + 'a"

named_theorems fault_simps \<open>computation and inversion rules of the error-propagating bind\<close>
named_theorems store_simps \<open>frame and update rules of the packet store\<close>

definition rbind :: "'a res \<Rightarrow> ('a \<Rightarrow> 'b res) \<Rightarrow> 'b res" where
  "rbind m f = (case m of Inl e \<Rightarrow> Inl e | Inr x \<Rightarrow> f x)"

lemma rbind_Inl [simp, fault_simps]: "rbind (Inl e) f = Inl e"
  by (simp add: rbind_def)

lemma rbind_Inr [simp, fault_simps]: "rbind (Inr x) f = f x"
  by (simp add: rbind_def)

lemma rbind_eq_Inr [fault_simps]:
  "rbind m f = Inr y \<longleftrightarrow> (\<exists>x. m = Inr x \<and> f x = Inr y)"
  by (cases m) auto

lemma rbind_eq_Inl [fault_simps]:
  "rbind m f = Inl e \<longleftrightarrow> m = Inl e \<or> (\<exists>x. m = Inr x \<and> f x = Inl e)"
  by (cases m) auto

lemma rbind_assoc: "rbind (rbind m f) g = rbind m (\<lambda>x. rbind (f x) g)"
  by (cases m) auto

lemma rbind_cong [fundef_cong]:
  "m = m' \<Longrightarrow> (\<And>x. m' = Inr x \<Longrightarrow> f x = f' x) \<Longrightarrow> rbind m f = rbind m' f'"
  by (cases m') auto

text \<open>A dereference of an object that may be gone.\<close>

definition deref :: "('k \<rightharpoonup> 'v) \<Rightarrow> 'k \<Rightarrow> 'v res" where
  "deref h a = (case h a of None \<Rightarrow> Inl UseAfterFree | Some v \<Rightarrow> Inr v)"

lemma deref_Some [simp]: "h a = Some v \<Longrightarrow> deref h a = Inr v"
  by (simp add: deref_def)

lemma deref_None [simp]: "h a = None \<Longrightarrow> deref h a = Inl UseAfterFree"
  by (simp add: deref_def)

lemma deref_eq_Inr [fault_simps]: "deref h a = Inr v \<longleftrightarrow> h a = Some v"
  by (simp add: deref_def split: option.splits)

text \<open>A read of one element of an array, with its bounds check.\<close>

definition peek :: "'a list \<Rightarrow> nat \<Rightarrow> 'a res" where
  "peek xs i = (if i < length xs then Inr (xs ! i) else Inl OutOfBounds)"

lemma peek_in [simp]: "i < length xs \<Longrightarrow> peek xs i = Inr (xs ! i)"
  by (simp add: peek_def)

lemma peek_out [simp]: "\<not> i < length xs \<Longrightarrow> peek xs i = Inl OutOfBounds"
  by (simp add: peek_def)

lemma peek_eq_Inr [fault_simps]: "peek xs i = Inr v \<longleftrightarrow> i < length xs \<and> v = xs ! i"
  by (auto simp: peek_def)

text \<open>A read of \<open>n\<close> elements from offset \<open>off\<close> on, with its bounds check.\<close>

definition fetch :: "'a list \<Rightarrow> nat \<Rightarrow> nat \<Rightarrow> 'a list res" where
  "fetch xs off n = (if off + n \<le> length xs then Inr (take n (drop off xs)) else Inl OutOfBounds)"

lemma fetch_in [simp]: "off + n \<le> length xs \<Longrightarrow> fetch xs off n = Inr (take n (drop off xs))"
  by (simp add: fetch_def)

lemma fetch_out [simp]: "length xs < off + n \<Longrightarrow> fetch xs off n = Inl OutOfBounds"
  by (simp add: fetch_def)

text \<open>\<open>memcpy (dst + off, src, n)\<close> on a whole array, with its bounds check.\<close>

definition poke :: "'a list \<Rightarrow> nat \<Rightarrow> 'a list \<Rightarrow> 'a list res" where
  "poke dst off src =
     (if off + length src \<le> length dst
      then Inr (take off dst @ src @ drop (off + length src) dst) else Inl OutOfBounds)"

lemma poke_in [simp]:
  "off + length src \<le> length dst \<Longrightarrow>
   poke dst off src = Inr (take off dst @ src @ drop (off + length src) dst)"
  by (simp add: poke_def)

lemma poke_out [simp]: "length dst < off + length src \<Longrightarrow> poke dst off src = Inl OutOfBounds"
  by (simp add: poke_def)

lemma poke_length: "poke dst off src = Inr d \<Longrightarrow> length d = length dst"
  by (auto simp: poke_def split: if_splits)

lemma poke_take:
  "poke dst off src = Inr d \<Longrightarrow> take (off + length src) d = take off dst @ src"
  by (auto simp: poke_def split: if_splits)

section \<open>Lists\<close>

lemma butlast_not_last: "distinct xs \<Longrightarrow> x \<in> set (butlast xs) \<Longrightarrow> x \<noteq> last xs"
  by (cases xs rule: rev_cases) auto

lemma last_disjoint: "xs \<noteq> [] \<Longrightarrow> set xs \<inter> B = {} \<Longrightarrow> last xs \<notin> B"
  using last_in_set by blast

lemma hd_disjoint: "xs \<noteq> [] \<Longrightarrow> set xs \<inter> B = {} \<Longrightarrow> hd xs \<notin> B"
  using hd_in_set by blast

lemma take_drop_split: "take n (drop k xs) @ drop (k + n) xs = drop k xs"
  by (metis add.commute append_take_drop_id drop_drop)

lemma take_4: "4 \<le> length h \<Longrightarrow> take 4 h = [h ! 0, h ! 1, h ! 2, h ! 3]"
  by (rule nth_equalityI) (auto simp: less_Suc_eq numeral_eq_Suc)

section \<open>Bytes\<close>

lemma unat_of_nat_u32: "n < 2 ^ 32 \<Longrightarrow> unat (of_nat n :: u32) = n"
  by (simp add: unat_of_nat take_bit_nat_eq_self)

lemma unat_ucast_up:
  "LENGTH('a) \<le> LENGTH('b) \<Longrightarrow> unat (ucast (w :: 'a :: len word) :: 'b :: len word) = unat w"
  by (simp add: unsigned_ucast_eq take_bit_nat_eq_self less_le_trans [OF unsigned_less])

text \<open>\<open>GET_INT16\<close> of \<^verbatim>\<open>include/util.h\<close>: two bytes, least significant first.\<close>

definition get_int16 :: "u8 \<Rightarrow> u8 \<Rightarrow> u32" where
  "get_int16 b0 b1 = ucast b0 OR push_bit 8 (ucast b1)"

definition put_lo :: "u32 \<Rightarrow> u8" where
  "put_lo v = ucast (v AND 0xff)"

definition put_hi :: "u32 \<Rightarrow> u8" where
  "put_hi v = ucast (drop_bit 8 v AND 0xff)"

lemma bit_get_int16:
  "bit (get_int16 b0 b1) n \<longleftrightarrow> (if n < 8 then bit b0 n else n < 16 \<and> bit b1 (n - 8))"
  by (auto simp: get_int16_def bit_or_iff bit_push_bit_iff bit_ucast_iff dest: bit_imp_le_length)

lemma mask_lits: "(0xff :: u32) = mask 8" "(0xffff :: u32) = mask 16"
  by (simp_all add: mask_eq_exp_minus_1)

lemma bit_put_lo: "bit (put_lo v) n \<longleftrightarrow> n < 8 \<and> bit v n"
  by (auto simp: put_lo_def mask_lits bit_ucast_iff bit_and_iff bit_mask_iff)

lemma bit_put_hi: "bit (put_hi v) n \<longleftrightarrow> n < 8 \<and> bit v (n + 8)"
  by (auto simp: put_hi_def mask_lits bit_ucast_iff bit_and_iff bit_mask_iff bit_drop_bit_eq
      add.commute)

lemma get_int16_put: "get_int16 (put_lo v) (put_hi v) = take_bit 16 v"
  by (rule bit_eqI) (auto simp: bit_get_int16 bit_put_lo bit_put_hi bit_take_bit_iff)

lemma put_lo_get_int16: "put_lo (get_int16 b0 b1) = b0"
  by (rule bit_eqI) (auto simp: bit_get_int16 bit_put_lo dest: bit_imp_le_length)

lemma put_hi_get_int16: "put_hi (get_int16 b0 b1) = b1"
  by (rule bit_eqI) (auto simp: bit_get_int16 bit_put_hi dest: bit_imp_le_length)

lemma unat_get_int16_less: "unat (get_int16 b0 b1) < 65536"
proof -
  have "get_int16 b0 b1 = take_bit 16 (get_int16 b0 b1)"
    by (rule bit_eqI) (auto simp: bit_get_int16 bit_take_bit_iff)
  then have "unat (get_int16 b0 b1) = take_bit 16 (unat (get_int16 b0 b1))"
    by (metis unsigned_take_bit_eq)
  moreover have "take_bit 16 (unat (get_int16 b0 b1)) < 2 ^ 16"
    by (rule take_bit_nat_less_exp)
  moreover have "(2::nat) ^ 16 = 65536"
    by simp
  ultimately show ?thesis
    by linarith
qed

end
