(* ===== verification/Tailq.thy ===== *)
theory Tailq
  imports Rfx_Prelude
begin

text \<open>
  The tail queues of \<^verbatim>\<open>include/queue.h\<close> at pointer level: a head holds \<open>tqh_first\<close> and the
  address of the last \<open>next\<close> pointer (\<open>tqh_last\<close>), every element holds \<open>tqe_next\<close> and the
  address of the \<open>next\<close> pointer that points to it (\<open>tqe_prev\<close>). Every queue of the proxy
  (packets, events, filter instances, delayed packets) is one of these. The macros the program
  uses are translated assignment by assignment; \<open>tq\<close> says that the memory represents a list,
  and the lemmas show that each macro performs the list operation its name promises and leaves
  every other queue alone. The locale \<open>tail_queue\<close> is that contract; the pointer macros
  provide it (interpretation \<open>tqi\<close>).
\<close>

section \<open>Memory\<close>

text \<open>
  The address of a pointer cell: a head's \<open>tqh_first\<close> or an element's \<open>tqe_next\<close>.
\<close>

datatype 'q slot = HeadSlot 'q | NodeSlot addr

record 'q tq_mem =
  tqh_first :: "'q \<Rightarrow> addr option"
  tqh_last :: "'q \<Rightarrow> 'q slot"
  tqe_next :: "addr \<Rightarrow> addr option"
  tqe_prev :: "addr \<Rightarrow> 'q slot"

fun slot_get :: "'q tq_mem \<Rightarrow> 'q slot \<Rightarrow> addr option" where
  "slot_get m (HeadSlot q) = tqh_first m q"
| "slot_get m (NodeSlot a) = tqe_next m a"

fun slot_put :: "'q tq_mem \<Rightarrow> 'q slot \<Rightarrow> addr option \<Rightarrow> 'q tq_mem" where
  "slot_put m (HeadSlot q) v = m\<lparr>tqh_first := (tqh_first m)(q := v)\<rparr>"
| "slot_put m (NodeSlot a) v = m\<lparr>tqe_next := (tqe_next m)(a := v)\<rparr>"

section \<open>The macros\<close>

definition TAILQ_INIT :: "'q tq_mem \<Rightarrow> 'q \<Rightarrow> 'q tq_mem" where
  "TAILQ_INIT m q =
     m\<lparr>tqh_first := (tqh_first m)(q := None), tqh_last := (tqh_last m)(q := HeadSlot q)\<rparr>"

definition TAILQ_INSERT_TAIL :: "'q tq_mem \<Rightarrow> 'q \<Rightarrow> addr \<Rightarrow> 'q tq_mem" where
  "TAILQ_INSERT_TAIL m q e =
     (let m1 = m\<lparr>tqe_next := (tqe_next m)(e := None)\<rparr>;
          m2 = m1\<lparr>tqe_prev := (tqe_prev m1)(e := tqh_last m1 q)\<rparr>;
          m3 = slot_put m2 (tqh_last m2 q) (Some e)
      in m3\<lparr>tqh_last := (tqh_last m3)(q := NodeSlot e)\<rparr>)"

definition TAILQ_REMOVE :: "'q tq_mem \<Rightarrow> 'q \<Rightarrow> addr \<Rightarrow> 'q tq_mem" where
  "TAILQ_REMOVE m q e =
     (let m1 = (case tqe_next m e of
                  Some n \<Rightarrow> m\<lparr>tqe_prev := (tqe_prev m)(n := tqe_prev m e)\<rparr>
                | None \<Rightarrow> m\<lparr>tqh_last := (tqh_last m)(q := tqe_prev m e)\<rparr>)
      in slot_put m1 (tqe_prev m1 e) (tqe_next m1 e))"

definition TAILQ_FIRST :: "'q tq_mem \<Rightarrow> 'q \<Rightarrow> addr option" where
  "TAILQ_FIRST m q = tqh_first m q"

definition TAILQ_NEXT :: "'q tq_mem \<Rightarrow> addr \<Rightarrow> addr option" where
  "TAILQ_NEXT m e = tqe_next m e"

definition TAILQ_EMPTY :: "'q tq_mem \<Rightarrow> 'q \<Rightarrow> bool" where
  "TAILQ_EMPTY m q \<longleftrightarrow> tqh_first m q = None"

section \<open>The list a queue represents\<close>

fun seg :: "'q tq_mem \<Rightarrow> 'q slot \<Rightarrow> addr list \<Rightarrow> bool" where
  "seg m s [] \<longleftrightarrow> True"
| "seg m s (x # xs) \<longleftrightarrow> slot_get m s = Some x \<and> tqe_prev m x = s \<and> seg m (NodeSlot x) xs"

definition endslot :: "'q slot \<Rightarrow> addr list \<Rightarrow> 'q slot" where
  "endslot s xs = (if xs = [] then s else NodeSlot (last xs))"

definition tq :: "'q tq_mem \<Rightarrow> 'q \<Rightarrow> addr list \<Rightarrow> bool" where
  "tq m q xs \<longleftrightarrow> distinct xs \<and> seg m (HeadSlot q) xs \<and>
     tqh_last m q = endslot (HeadSlot q) xs \<and> slot_get m (tqh_last m q) = None"

lemma endslot_simps [simp]:
  "endslot s [] = s" "endslot s (x # xs) = endslot (NodeSlot x) xs"
  "endslot s (xs @ [x]) = NodeSlot x"
  by (simp_all add: endslot_def)

lemma endslot_append: "endslot s (xs @ ys) = endslot (endslot s xs) ys"
  by (simp add: endslot_def)

lemma endslot_Node: "endslot s xs = NodeSlot a \<Longrightarrow> a \<in> set xs \<or> s = NodeSlot a"
  by (auto simp: endslot_def split: if_splits)

lemma endslot_Head: "endslot (HeadSlot q) xs = HeadSlot q' \<longleftrightarrow> xs = [] \<and> q' = q"
  by (auto simp: endslot_def)

lemma seg_append: "seg m s (xs @ ys) \<longleftrightarrow> seg m s xs \<and> seg m (endslot s xs) ys"
  by (induction xs arbitrary: s) auto

text \<open>What a segment reads: the \<open>prev\<close> fields of its elements, the start slot, and the
  \<open>next\<close> pointers of all its elements but the last.\<close>

lemma seg_cong:
  assumes "\<And>x. x \<in> set xs \<Longrightarrow> tqe_prev m' x = tqe_prev m x"
    and "xs \<noteq> [] \<Longrightarrow> slot_get m' s = slot_get m s"
    and "\<And>x. x \<in> set (butlast xs) \<Longrightarrow> tqe_next m' x = tqe_next m x"
  shows "seg m' s xs = seg m s xs"
  using assms
proof (induction xs arbitrary: s)
  case Nil
  then show ?case by simp
next
  case (Cons x xs)
  have "seg m' (NodeSlot x) xs = seg m (NodeSlot x) xs"
  proof (rule Cons.IH)
    show "tqe_next m' y = tqe_next m y" if "y \<in> set (butlast xs)" for y
      using that Cons.prems(3)[of y] by (cases xs) auto
  qed (use Cons.prems in auto)
  then show ?case using Cons.prems(1)[of x] Cons.prems(2) by auto
qed

lemma slot_put_fields [simp]:
  "tqh_last (slot_put m s v) = tqh_last m" "tqe_prev (slot_put m s v) = tqe_prev m"
  by (cases s; simp)+

lemma slot_get_put: "slot_get (slot_put m s v) s' = (if s' = s then v else slot_get m s')"
  by (cases s; cases s') auto

lemma slot_get_update [simp]:
  "slot_get (m\<lparr>tqe_prev := f\<rparr>) s = slot_get m s" "slot_get (m\<lparr>tqh_last := g\<rparr>) s = slot_get m s"
  by (cases s; simp)+

lemma tq_distinct: "tq m q xs \<Longrightarrow> distinct xs"
  by (simp add: tq_def)

lemma tq_first: "tq m q xs \<Longrightarrow> TAILQ_FIRST m q = (case xs of [] \<Rightarrow> None | x # _ \<Rightarrow> Some x)"
  by (cases xs) (auto simp: tq_def TAILQ_FIRST_def)

lemma tq_empty: "tq m q xs \<Longrightarrow> TAILQ_EMPTY m q \<longleftrightarrow> xs = []"
  by (cases xs) (auto simp: tq_def TAILQ_EMPTY_def)

lemma tq_next:
  "tq m q (xs @ x # ys) \<Longrightarrow> TAILQ_NEXT m x = (case ys of [] \<Rightarrow> None | y # _ \<Rightarrow> Some y)"
  by (cases ys) (auto simp: tq_def TAILQ_NEXT_def seg_append endslot_append)

lemma tq_init: "tq (TAILQ_INIT m q) q []"
  by (simp add: tq_def TAILQ_INIT_def)

text \<open>A queue whose head and elements were not written represents the same list.\<close>

lemma tq_cong:
  assumes "tq m q xs"
    and "tqh_first m' q = tqh_first m q" and "tqh_last m' q = tqh_last m q"
    and "\<And>x. x \<in> set xs \<Longrightarrow> tqe_next m' x = tqe_next m x \<and> tqe_prev m' x = tqe_prev m x"
  shows "tq m' q xs"
proof -
  have "seg m' (HeadSlot q) xs = seg m (HeadSlot q) xs"
    by (rule seg_cong) (use assms in \<open>auto dest: in_set_butlastD\<close>)
  moreover have "slot_get m' (tqh_last m q) = slot_get m (tqh_last m q)"
    using assms by (auto simp: tq_def endslot_def)
  ultimately show ?thesis
    using assms(1,3) unfolding tq_def by metis
qed

lemma tq_init_frame: "tq m q' ys \<Longrightarrow> q' \<noteq> q \<Longrightarrow> tq (TAILQ_INIT m q) q' ys"
  by (erule tq_cong) (simp_all add: TAILQ_INIT_def)

section \<open>Appending an element\<close>

lemma insert_tail_fields:
  assumes "tq m q xs"
  shows "tqh_last (TAILQ_INSERT_TAIL m q e) = (tqh_last m)(q := NodeSlot e)"
    and "tqe_prev (TAILQ_INSERT_TAIL m q e) = (tqe_prev m)(e := endslot (HeadSlot q) xs)"
    and "tqh_first (TAILQ_INSERT_TAIL m q e) =
      (if xs = [] then (tqh_first m)(q := Some e) else tqh_first m)"
    and "xs \<noteq> [] \<Longrightarrow> tqe_next (TAILQ_INSERT_TAIL m q e) =
      (tqe_next m)(e := None, last xs := Some e)"
    and "xs = [] \<Longrightarrow> tqe_next (TAILQ_INSERT_TAIL m q e) = (tqe_next m)(e := None)"
  using assms by (simp_all add: TAILQ_INSERT_TAIL_def Let_def tq_def endslot_def)

lemma tq_insert_tail:
  assumes q: "tq m q xs" and e: "e \<notin> set xs"
  shows "tq (TAILQ_INSERT_TAIL m q e) q (xs @ [e])"
proof -
  let ?m = "TAILQ_INSERT_TAIL m q e"
  note f = insert_tail_fields [OF q, of e]
  have "seg ?m (HeadSlot q) xs = seg m (HeadSlot q) xs"
  proof (rule seg_cong)
    show "tqe_next ?m x = tqe_next m x" if "x \<in> set (butlast xs)" for x
      using e f(4) butlast_not_last [OF tq_distinct [OF q] that] in_set_butlastD [OF that]
      by (cases "xs = []") auto
  qed (use e f in auto)
  moreover have "slot_get ?m (endslot (HeadSlot q) xs) = Some e"
    using f e by (cases "xs = []") (auto simp: endslot_def)
  moreover have "tqe_next ?m e = None"
    using f e by (cases "xs = []") auto
  ultimately show ?thesis
    using q e f by (simp add: tq_def seg_append)
qed

lemma tq_insert_tail_frame:
  assumes q: "tq m q xs" and "tq m q' ys" "q' \<noteq> q" "e \<notin> set ys" "set xs \<inter> set ys = {}"
  shows "tq (TAILQ_INSERT_TAIL m q e) q' ys"
proof (rule tq_cong [OF assms(2)])
  fix x assume "x \<in> set ys"
  then show "tqe_next (TAILQ_INSERT_TAIL m q e) x = tqe_next m x \<and>
      tqe_prev (TAILQ_INSERT_TAIL m q e) x = tqe_prev m x"
    using assms insert_tail_fields [OF q, of e] last_disjoint [of xs "set ys"]
    by (cases "xs = []") auto
qed (use assms insert_tail_fields [OF q, of e] in auto)

section \<open>Removing an element\<close>

lemma seg_remove_prefix:
  assumes "distinct xs" and "seg m (HeadSlot q) xs"
    and "\<And>x. x \<in> set xs \<Longrightarrow> tqe_prev m' x = tqe_prev m x"
    and "\<And>s. s \<noteq> endslot (HeadSlot q) xs \<Longrightarrow> slot_get m' s = slot_get m s"
  shows "seg m' (HeadSlot q) xs"
proof -
  have "seg m' (HeadSlot q) xs = seg m (HeadSlot q) xs"
  proof (rule seg_cong)
    show "tqe_next m' x = tqe_next m x" if "x \<in> set (butlast xs)" for x
      using assms(4)[of "NodeSlot x"] butlast_not_last [OF assms(1) that] that
      by (auto simp: endslot_def)
  next
    show "slot_get m' (HeadSlot q) = slot_get m (HeadSlot q)" if "xs \<noteq> []"
      using assms(4)[of "HeadSlot q"] that by (simp add: endslot_def)
  qed (use assms in auto)
  with assms show ?thesis by simp
qed

lemma tq_remove:
  assumes q: "tq m q (xs @ e # ys)"
  shows "tq (TAILQ_REMOVE m q e) q (xs @ ys)"
proof -
  let ?m = "TAILQ_REMOVE m q e" and ?s = "endslot (HeadSlot q) xs"
  have d: "distinct (xs @ e # ys)" and s: "seg m (HeadSlot q) xs"
    and e: "tqe_prev m e = ?s" and t: "seg m (NodeSlot e) ys"
    and l: "tqh_last m q = endslot (NodeSlot e) ys" "slot_get m (tqh_last m q) = None"
    using q by (auto simp: tq_def seg_append endslot_append)
  show ?thesis
  proof (cases ys)
    case Nil
    then have m: "?m = slot_put (m\<lparr>tqh_last := (tqh_last m)(q := ?s)\<rparr>) ?s None"
      using e l by (simp add: TAILQ_REMOVE_def)
    have "seg ?m (HeadSlot q) xs"
      by (rule seg_remove_prefix [OF _ s]) (use d m in \<open>auto simp: slot_get_put\<close>)
    then show ?thesis
      using Nil d m by (simp add: tq_def slot_get_put)
  next
    case (Cons y ys')
    have y: "tqe_next m e = Some y" and ys': "seg m (NodeSlot y) ys'" "y \<noteq> e"
      using Cons t d by auto
    have m: "?m = slot_put (m\<lparr>tqe_prev := (tqe_prev m)(y := ?s)\<rparr>) ?s (Some y)"
      using e y ys' by (simp add: TAILQ_REMOVE_def)
    have ne: "NodeSlot x \<noteq> ?s" if "x \<in> set ys" for x
      using that d last_disjoint [of xs "set ys"] by (auto simp: endslot_def)
    have "seg ?m (HeadSlot q) xs"
      by (rule seg_remove_prefix [OF _ s]) (use d m Cons in \<open>auto simp: slot_get_put\<close>)
    moreover have "seg ?m (NodeSlot y) ys' = seg m (NodeSlot y) ys'"
    proof (rule seg_cong)
      show "tqe_next ?m x = tqe_next m x" if "x \<in> set (butlast ys')" for x
        using slot_get_put [of _ ?s "Some y" "NodeSlot x"] ne [of x] m that Cons
        by (auto dest: in_set_butlastD)
      show "slot_get ?m (NodeSlot y) = slot_get m (NodeSlot y)"
        using slot_get_put [of _ ?s "Some y" "NodeSlot y"] ne [of y] m Cons by auto
    qed (use d m Cons in auto)
    moreover have "slot_get ?m (tqh_last m q) = None"
      using l Cons m slot_get_put [of _ ?s "Some y" "tqh_last m q"] ne
      by (auto simp: endslot_def split: if_splits)
    ultimately show ?thesis
      using Cons d m l ys' by (simp add: tq_def seg_append endslot_append slot_get_put)
  qed
qed

lemma tq_remove_frame:
  assumes q: "tq m q (xs @ e # ys)" and q': "tq m q' zs" "q' \<noteq> q"
    and "set (xs @ e # ys) \<inter> set zs = {}"
  shows "tq (TAILQ_REMOVE m q e) q' zs"
proof (rule tq_cong [OF q'(1)])
  have e: "tqe_prev m e = endslot (HeadSlot q) xs" and n: "ys \<noteq> [] \<Longrightarrow> tqe_next m e = Some (hd ys)"
    and n': "ys = [] \<Longrightarrow> tqe_next m e = None"
    using q by (cases ys; auto simp: tq_def seg_append endslot_append)+
  have hd: "ys \<noteq> [] \<Longrightarrow> hd ys \<notin> set zs" and la: "xs \<noteq> [] \<Longrightarrow> last xs \<notin> set zs"
    using assms(4) hd_disjoint [of ys "set zs"] last_disjoint [of xs "set zs"] by auto
  show "tqh_first (TAILQ_REMOVE m q e) q' = tqh_first m q'"
    using e n n' q'(2) by (cases "ys = []"; cases "xs = []")
      (auto simp: TAILQ_REMOVE_def Let_def endslot_def fun_upd_apply)
  show "tqh_last (TAILQ_REMOVE m q e) q' = tqh_last m q'"
    using n n' q'(2) by (cases "ys = []") (auto simp: TAILQ_REMOVE_def Let_def)
  show "tqe_next (TAILQ_REMOVE m q e) x = tqe_next m x \<and>
      tqe_prev (TAILQ_REMOVE m q e) x = tqe_prev m x" if "x \<in> set zs" for x
    using that e n n' assms(4) hd la by (cases "ys = []"; cases "xs = []")
      (auto simp: TAILQ_REMOVE_def Let_def endslot_def fun_upd_apply)
qed

section \<open>The contract of a tail queue\<close>

text \<open>
  \<open>rep m q xs\<close> reads: in memory \<open>m\<close>, the head \<open>q\<close> represents the list \<open>xs\<close>. Clients use the
  queue only through these laws.
\<close>

locale tail_queue =
  fixes rep :: "'m \<Rightarrow> 'q \<Rightarrow> addr list \<Rightarrow> bool"
    and first :: "'m \<Rightarrow> 'q \<Rightarrow> addr option"
    and nextp :: "'m \<Rightarrow> addr \<Rightarrow> addr option"
    and insert_tail :: "'m \<Rightarrow> 'q \<Rightarrow> addr \<Rightarrow> 'm"
    and remove :: "'m \<Rightarrow> 'q \<Rightarrow> addr \<Rightarrow> 'm"
  assumes rep_distinct: "rep m q xs \<Longrightarrow> distinct xs"
    and first_rep: "rep m q xs \<Longrightarrow> first m q = (case xs of [] \<Rightarrow> None | x # _ \<Rightarrow> Some x)"
    and next_rep: "rep m q (xs @ x # ys) \<Longrightarrow>
      nextp m x = (case ys of [] \<Rightarrow> None | y # _ \<Rightarrow> Some y)"
    and insert_tail_rep: "rep m q xs \<Longrightarrow> e \<notin> set xs \<Longrightarrow> rep (insert_tail m q e) q (xs @ [e])"
    and insert_tail_frame: "rep m q xs \<Longrightarrow> rep m q' ys \<Longrightarrow> q' \<noteq> q \<Longrightarrow> e \<notin> set ys \<Longrightarrow>
      set xs \<inter> set ys = {} \<Longrightarrow> rep (insert_tail m q e) q' ys"
    and remove_rep: "rep m q (xs @ e # ys) \<Longrightarrow> rep (remove m q e) q (xs @ ys)"
    and remove_frame: "rep m q (xs @ e # ys) \<Longrightarrow> rep m q' zs \<Longrightarrow> q' \<noteq> q \<Longrightarrow>
      set (xs @ e # ys) \<inter> set zs = {} \<Longrightarrow> rep (remove m q e) q' zs"
begin

lemma pop_rep:
  assumes "rep m q (x # xs)"
  shows "first m q = Some x" and "rep (remove m q x) q xs"
  using first_rep [OF assms] remove_rep [of m q "[]" x xs] assms by auto

lemma remove_rep_mem:
  assumes "rep m q xs" and "e \<in> set xs"
  shows "rep (remove m q e) q (remove1 e xs)"
proof -
  from assms(2) obtain ys zs where xs: "xs = ys @ e # zs" and n: "e \<notin> set ys"
    by (meson split_list_first)
  then show ?thesis
    using remove_rep [of m q ys e zs] assms(1) by (simp add: remove1_append)
qed

text \<open>Moving an element from one queue to the tail of another.\<close>

lemma transfer_rep:
  assumes s: "rep m src (xs @ e # ys)" and d: "rep m dst zs" and ne: "dst \<noteq> src"
    and dis: "set (xs @ e # ys) \<inter> set zs = {}"
  shows "rep (insert_tail (remove m src e) dst e) src (xs @ ys)"
    and "rep (insert_tail (remove m src e) dst e) dst (zs @ [e])"
proof -
  have s': "rep (remove m src e) src (xs @ ys)"
    by (rule remove_rep [OF s])
  have d': "rep (remove m src e) dst zs"
    by (rule remove_frame [OF s d ne dis])
  show "rep (insert_tail (remove m src e) dst e) src (xs @ ys)"
    by (rule insert_tail_frame [OF d' s']) (use ne dis rep_distinct [OF s] in auto)
  show "rep (insert_tail (remove m src e) dst e) dst (zs @ [e])"
    by (rule insert_tail_rep [OF d']) (use dis in auto)
qed

text \<open>First in, first out: what was appended to an empty queue is popped back.\<close>

lemma fifo_rep:
  assumes "rep m q xs" and "e \<notin> set xs" and "xs = x # xs'"
  shows "first (insert_tail m q e) q = Some x"
    and "rep (remove (insert_tail m q e) q x) q (xs' @ [e])"
  using pop_rep [of "insert_tail m q e" q x "xs' @ [e]"] insert_tail_rep [OF assms(1,2)] assms(3)
  by simp_all

end

interpretation tqi: tail_queue tq TAILQ_FIRST TAILQ_NEXT TAILQ_INSERT_TAIL TAILQ_REMOVE
proof
  show "tq (TAILQ_INSERT_TAIL m q e) q' ys"
    if "tq m q xs" "tq m q' ys" "q' \<noteq> q" "e \<notin> set ys" "set xs \<inter> set ys = {}"
    for m :: "'q tq_mem" and q xs q' ys e
    using that by (rule tq_insert_tail_frame)
  show "tq (TAILQ_REMOVE m q e) q' zs"
    if "tq m q (xs @ e # ys)" "tq m q' zs" "q' \<noteq> q" "set (xs @ e # ys) \<inter> set zs = {}"
    for m :: "'q tq_mem" and q xs q' ys zs e
    using that by (rule tq_remove_frame)
qed (auto intro: tq_insert_tail tq_remove dest: tq_distinct tq_first tq_next)

end
