(* ===== verification/Pktq.thy ===== *)
theory Pktq
  imports Tailq
begin

text \<open>
  Packets and packet queues: \<^verbatim>\<open>pktq.h\<close> and \<^verbatim>\<open>pktq.c\<close>. Packets live in a store (the C heap)
  and are reference counted; a queue (\<open>pqhead\<close>) is the list of the addresses of its packets,
  in order, which theory \<open>Pktq_Impl\<close> shows to be what the pointer code maintains. Every access
  to a packet that is not allocated, and the header write of \<open>pkt_new\<close> into a packet of fewer
  than four bytes, is a fault. Allocation itself is taken to succeed.
\<close>

section \<open>Data\<close>

definition WRIVCNT :: nat where "WRIVCNT = 64"

datatype dir = CLI_TO_SRV | SRV_TO_CLI

record rf_packet =
  p_len :: u16
  p_type :: u16
  p_dir :: dir
  p_drop :: bool
  p_show :: bool
  p_refc :: u32
  p_delay :: u32
  p_desc :: "string option"
  p_dyn_desc :: "string option"
  p_data :: bytes

text \<open>The heap of packets: the allocated ones and the next fresh address.\<close>

record store =
  pkts :: "addr \<rightharpoonup> rf_packet"
  brk :: addr

type_synonym pqhead = "addr list"

text \<open>\<open>struct iovec\<close> over packet data: \<open>iov_base\<close> is \<open>pkt->data + iov_off\<close>.\<close>

record iovec =
  iov_pkt :: addr
  iov_off :: nat
  iov_len :: nat

definition store_ok :: "store \<Rightarrow> bool" where
  "store_ok st \<longleftrightarrow> (\<forall>a \<ge> brk st. pkts st a = None)"

section \<open>Packets\<close>

definition pkt_get :: "store \<Rightarrow> addr \<Rightarrow> rf_packet res" where
  "pkt_get st p = deref (pkts st) p"

definition pkt_modify :: "(rf_packet \<Rightarrow> rf_packet) \<Rightarrow> addr \<Rightarrow> store \<Rightarrow> store res" where
  "pkt_modify f p st =
     rbind (pkt_get st p) (\<lambda>pk. Inr (st\<lparr>pkts := (pkts st)(p \<mapsto> f pk)\<rparr>))"

definition pkt_new :: "u32 \<Rightarrow> u32 \<Rightarrow> dir \<Rightarrow> store \<Rightarrow> (store \<times> addr) res" where
  "pkt_new l ty d st =
     rbind (poke (replicate (unat l) 0) 0 [put_lo l, put_hi l, put_lo ty, put_hi ty]) (\<lambda>dat.
       let pk = \<lparr>p_len = ucast l, p_type = ucast ty, p_dir = d, p_drop = False, p_show = False,
                 p_refc = 1, p_delay = 0, p_desc = None, p_dyn_desc = None, p_data = dat\<rparr>
       in Inr (st\<lparr>pkts := (pkts st)(brk st \<mapsto> pk), brk := Suc (brk st)\<rparr>, brk st))"

definition pkt_ref :: "addr \<Rightarrow> store \<Rightarrow> store res" where
  "pkt_ref p st = pkt_modify (\<lambda>pk. pk\<lparr>p_refc := p_refc pk + 1\<rparr>) p st"

definition pkt_unref :: "addr \<Rightarrow> store \<Rightarrow> store res" where
  "pkt_unref p st =
     rbind (pkt_get st p) (\<lambda>pk.
       let r = p_refc pk - 1
       in if r = 0 then Inr (st\<lparr>pkts := (pkts st)(p := None)\<rparr>)
          else Inr (st\<lparr>pkts := (pkts st)(p \<mapsto> pk\<lparr>p_refc := r\<rparr>)\<rparr>))"

text \<open>
  \<open>vasprintf\<close> is the C library's: it is given by its return value and by what it leaves in
  \<open>desc\<close> (initially \<open>NULL\<close>).
\<close>

definition pkt_dsprintf ::
    "addr \<Rightarrow> int \<times> string option \<Rightarrow> store \<Rightarrow> (store \<times> string option) res" where
  "pkt_dsprintf p out st =
     (case out of (ret, desc) \<Rightarrow>
        if ret \<noteq> 0
        then rbind (pkt_modify (\<lambda>pk. pk\<lparr>p_dyn_desc := desc\<rparr>) p st) (\<lambda>st'. Inr (st', desc))
        else Inr (st, desc))"

section \<open>Queues\<close>

definition pqh_init :: pqhead where
  "pqh_init = []"

fun pqh_clear :: "pqhead \<Rightarrow> store \<Rightarrow> store res" where
  "pqh_clear [] st = Inr st"
| "pqh_clear (p # ps) st = rbind (pkt_unref p st) (pqh_clear ps)"

definition pqh_empty :: "pqhead \<Rightarrow> bool" where
  "pqh_empty q \<longleftrightarrow> q = []"

definition pqh_head :: "pqhead \<Rightarrow> addr option" where
  "pqh_head q = (case q of [] \<Rightarrow> None | p # _ \<Rightarrow> Some p)"

text \<open>\<open>TAILQ_NEXT\<close>: the element that follows \<open>p\<close> in its queue.\<close>

fun pqh_next :: "pqhead \<Rightarrow> addr \<Rightarrow> addr option" where
  "pqh_next [] p = None"
| "pqh_next (x # xs) p = (if x = p then pqh_head xs else pqh_next xs p)"

definition pqh_pop :: "pqhead \<Rightarrow> addr option \<times> pqhead" where
  "pqh_pop q = (case q of [] \<Rightarrow> (None, q) | p # q' \<Rightarrow> (Some p, q'))"

definition pqh_push :: "pqhead \<Rightarrow> addr \<Rightarrow> pqhead" where
  "pqh_push q p = q @ [p]"

definition pqh_discard :: "pqhead \<Rightarrow> store \<Rightarrow> (store \<times> pqhead) res" where
  "pqh_discard q st =
     (case q of [] \<Rightarrow> Inr (st, q)
      | p # q' \<Rightarrow> rbind (pkt_unref p st) (\<lambda>st'. Inr (st', q')))"

text \<open>
  The loop of \<open>pqh_pull\<close>: \<open>ps\<close> are the elements still to visit (\<open>TAILQ_FOREACH_SAFE\<close> reads the
  successor before the body runs), \<open>outv\<close> the entries written so far, so \<open>i\<close> is its length.
\<close>

fun pqh_pull_loop :: "dir \<Rightarrow> nat \<Rightarrow> u32 \<Rightarrow> addr list \<Rightarrow> store \<Rightarrow> pqhead \<Rightarrow> pqhead \<Rightarrow> iovec list \<Rightarrow>
    (store \<times> pqhead \<times> pqhead \<times> iovec list) res" where
  "pqh_pull_loop d outv_sz min_delay [] st src dst outv = Inr (st, src, dst, outv)"
| "pqh_pull_loop d outv_sz min_delay (p # ps) st src dst outv =
     (if length outv \<ge> outv_sz then Inr (st, src, dst, outv)
      else rbind (pkt_get st p) (\<lambda>pk.
        if p_delay pk > min_delay then pqh_pull_loop d outv_sz min_delay ps st src dst outv
        else if p_dir pk = d then
          (let src' = remove1 p src
           in if \<not> p_drop pk
              then pqh_pull_loop d outv_sz min_delay ps st src' (dst @ [p])
                     (outv @ [\<lparr>iov_pkt = p, iov_off = 0, iov_len = unat (p_len pk)\<rparr>])
              else rbind (pkt_unref p st) (\<lambda>st'.
                     pqh_pull_loop d outv_sz min_delay ps st' src' dst outv))
        else pqh_pull_loop d outv_sz min_delay ps st src dst outv))"

definition pqh_pull :: "pqhead \<Rightarrow> pqhead \<Rightarrow> dir \<Rightarrow> nat \<Rightarrow> u32 \<Rightarrow> store \<Rightarrow>
    (store \<times> pqhead \<times> pqhead \<times> iovec list) res" where
  "pqh_pull src dst d outv_sz min_delay st =
     pqh_pull_loop d outv_sz min_delay src st src dst []"

section \<open>The store\<close>

lemma pkt_get_eq_Inr [fault_simps]: "pkt_get st p = Inr pk \<longleftrightarrow> pkts st p = Some pk"
  by (simp add: pkt_get_def fault_simps)

lemma pkt_get_Some [simp]: "pkts st p = Some pk \<Longrightarrow> pkt_get st p = Inr pk"
  by (simp add: pkt_get_def)

lemma pkt_get_None [simp]: "pkts st p = None \<Longrightarrow> pkt_get st p = Inl UseAfterFree"
  by (simp add: pkt_get_def)

lemma pkt_modify_eq_Inr [fault_simps]:
  "pkt_modify f p st = Inr st' \<longleftrightarrow>
     (\<exists>pk. pkts st p = Some pk \<and> st' = st\<lparr>pkts := (pkts st)(p \<mapsto> f pk)\<rparr>)"
  by (auto simp: pkt_modify_def fault_simps)

lemma pkt_modify_Some [simp]:
  "pkts st p = Some pk \<Longrightarrow> pkt_modify f p st = Inr (st\<lparr>pkts := (pkts st)(p \<mapsto> f pk)\<rparr>)"
  by (simp add: pkt_modify_def)

lemma pkt_unref_eq_Inr:
  "pkt_unref p st = Inr st' \<longleftrightarrow> (\<exists>pk. pkts st p = Some pk \<and>
     st' = st\<lparr>pkts := (pkts st)(p := if p_refc pk = 1 then None
                                    else Some (pk\<lparr>p_refc := p_refc pk - 1\<rparr>))\<rparr>)"
  by (cases "pkts st p") (auto simp: pkt_unref_def Let_def)

lemma pkt_unref_total: "pkts st p = Some pk \<Longrightarrow> \<exists>st'. pkt_unref p st = Inr st'"
  by (simp add: pkt_unref_eq_Inr)

lemma pkt_unref_frame [store_simps]:
  "pkt_unref p st = Inr st' \<Longrightarrow> q \<noteq> p \<Longrightarrow> pkts st' q = pkts st q"
  by (auto simp: pkt_unref_eq_Inr)

lemma pkt_unref_brk [store_simps]: "pkt_unref p st = Inr st' \<Longrightarrow> brk st' = brk st"
  by (auto simp: pkt_unref_eq_Inr)

lemma pkt_unref_free [store_simps]:
  "pkt_unref p st = Inr st' \<Longrightarrow> pkts st p = Some pk \<Longrightarrow> p_refc pk = 1 \<Longrightarrow> pkts st' p = None"
  by (auto simp: pkt_unref_eq_Inr)

lemma pkt_new_eq_Inr:
  "pkt_new l ty d st = Inr (st', p) \<longleftrightarrow> 4 \<le> unat l \<and> p = brk st \<and>
     st' = st\<lparr>pkts := (pkts st)(p \<mapsto>
       \<lparr>p_len = ucast l, p_type = ucast ty, p_dir = d, p_drop = False, p_show = False,
        p_refc = 1, p_delay = 0, p_desc = None, p_dyn_desc = None,
        p_data = [put_lo l, put_hi l, put_lo ty, put_hi ty] @ replicate (unat l - 4) 0\<rparr>),
       brk := Suc p\<rparr>"
  by (auto simp: pkt_new_def poke_def Let_def numeral_eq_Suc)

lemma pkt_new_short: "unat l < 4 \<Longrightarrow> pkt_new l ty d st = Inl OutOfBounds"
  by (simp add: pkt_new_def)

lemma pkt_new_store_ok:
  "pkt_new l ty d st = Inr (st', p) \<Longrightarrow> store_ok st \<Longrightarrow> store_ok st' \<and> pkts st p = None"
  by (auto simp: pkt_new_eq_Inr store_ok_def)

lemma store_ok_unref: "pkt_unref p st = Inr st' \<Longrightarrow> store_ok st \<Longrightarrow> store_ok st'"
  by (auto simp: pkt_unref_eq_Inr store_ok_def)

lemma store_ok_modify: "pkt_modify f p st = Inr st' \<Longrightarrow> store_ok st \<Longrightarrow> store_ok st'"
  by (auto simp: fault_simps store_ok_def)

section \<open>Clearing a queue\<close>

lemma pqh_clear_frame:
  "pqh_clear ps st = Inr st' \<Longrightarrow> q \<notin> set ps \<Longrightarrow> pkts st' q = pkts st q"
  by (induction ps arbitrary: st) (auto simp: rbind_eq_Inr pkt_unref_frame)

lemma pqh_clear_total:
  "distinct ps \<Longrightarrow> (\<And>p. p \<in> set ps \<Longrightarrow> pkts st p \<noteq> None) \<Longrightarrow> \<exists>st'. pqh_clear ps st = Inr st'"
proof (induction ps arbitrary: st)
  case Nil
  then show ?case by simp
next
  case (Cons p ps)
  obtain st1 where st1: "pkt_unref p st = Inr st1"
    using Cons.prems(2)[of p] pkt_unref_total by fastforce
  have "\<exists>st'. pqh_clear ps st1 = Inr st'"
  proof (rule Cons.IH)
    show "pkts st1 q \<noteq> None" if "q \<in> set ps" for q
    proof -
      have "q \<noteq> p" using that Cons.prems(1) by auto
      then show ?thesis using pkt_unref_frame [OF st1] Cons.prems(2)[of q] that by simp
    qed
  qed (use Cons.prems in simp)
  then show ?case by (simp add: st1)
qed

section \<open>What \<open>pqh_pull\<close> moves\<close>

definition pull_match :: "store \<Rightarrow> dir \<Rightarrow> u32 \<Rightarrow> addr \<Rightarrow> bool" where
  "pull_match st d min_delay p \<longleftrightarrow>
     (case pkts st p of None \<Rightarrow> False | Some pk \<Rightarrow> p_delay pk \<le> min_delay \<and> p_dir pk = d)"

definition pkt_dropped :: "store \<Rightarrow> addr \<Rightarrow> bool" where
  "pkt_dropped st p \<longleftrightarrow> (case pkts st p of None \<Rightarrow> False | Some pk \<Rightarrow> p_drop pk)"

definition full_iov :: "store \<Rightarrow> addr \<Rightarrow> iovec" where
  "full_iov st p =
     \<lparr>iov_pkt = p, iov_off = 0,
      iov_len = (case pkts st p of None \<Rightarrow> 0 | Some pk \<Rightarrow> unat (p_len pk))\<rparr>"

definition pull_take :: "store \<Rightarrow> dir \<Rightarrow> u32 \<Rightarrow> addr list \<Rightarrow> addr list" where
  "pull_take st d md ps = filter (\<lambda>p. pull_match st d md p \<and> \<not> pkt_dropped st p) ps"

definition pull_free :: "store \<Rightarrow> dir \<Rightarrow> u32 \<Rightarrow> addr list \<Rightarrow> addr list" where
  "pull_free st d md ps = filter (\<lambda>p. pull_match st d md p \<and> pkt_dropped st p) ps"

definition pull_keep :: "store \<Rightarrow> dir \<Rightarrow> u32 \<Rightarrow> addr list \<Rightarrow> addr list" where
  "pull_keep st d md ps = filter (\<lambda>p. \<not> pull_match st d md p) ps"

lemmas pull_defs = pull_take_def pull_free_def pull_keep_def

lemma pull_cong:
  assumes "\<And>p. p \<in> set ps \<Longrightarrow> pkts st' p = pkts st p"
  shows "pull_take st' d md ps = pull_take st d md ps"
    and "pull_free st' d md ps = pull_free st d md ps"
    and "pull_keep st' d md ps = pull_keep st d md ps"
  unfolding pull_defs
  using assms by (auto simp: pull_match_def pkt_dropped_def intro!: filter_cong)

lemma pull_Cons_skip:
  assumes "\<not> pull_match st d md p"
  shows "pull_take st d md (p # ps) = pull_take st d md ps"
    and "pull_free st d md (p # ps) = pull_free st d md ps"
    and "pull_keep st d md (p # ps) = p # pull_keep st d md ps"
    and "length outv < n \<Longrightarrow> pkts st p \<noteq> None \<Longrightarrow>
      pqh_pull_loop d n md (p # ps) st src dst outv = pqh_pull_loop d n md ps st src dst outv"
  using assms by (auto simp: pull_defs pull_match_def)

lemma pull_Cons_take:
  assumes "pull_match st d md p" and "\<not> pkt_dropped st p"
  shows "pull_take st d md (p # ps) = p # pull_take st d md ps"
    and "pull_free st d md (p # ps) = pull_free st d md ps"
    and "pull_keep st d md (p # ps) = pull_keep st d md ps"
    and "length outv < n \<Longrightarrow> pqh_pull_loop d n md (p # ps) st src dst outv =
      pqh_pull_loop d n md ps st (remove1 p src) (dst @ [p]) (outv @ [full_iov st p])"
  using assms
  by (auto simp: pull_defs pull_match_def pkt_dropped_def full_iov_def split: option.splits)

lemma pull_Cons_free:
  assumes "pull_match st d md p" and "pkt_dropped st p" and "pkt_unref p st = Inr st1"
  shows "pull_take st d md (p # ps) = pull_take st d md ps"
    and "pull_free st d md (p # ps) = p # pull_free st d md ps"
    and "pull_keep st d md (p # ps) = pull_keep st d md ps"
    and "length outv < n \<Longrightarrow> pqh_pull_loop d n md (p # ps) st src dst outv =
      pqh_pull_loop d n md ps st1 (remove1 p src) dst outv"
  using assms by (auto simp: pull_defs pull_match_def pkt_dropped_def split: option.splits)

text \<open>
  \<open>pulled st d md k n pre post st'\<close>: with \<open>k\<close> entries in use, the loop has gone through exactly
  \<open>pre\<close>, has filled all \<open>n\<close> entries if it left anything unvisited, and has released the dropped
  packets on its way, which turns the store into \<open>st'\<close>.
\<close>

definition pulled ::
    "store \<Rightarrow> dir \<Rightarrow> u32 \<Rightarrow> nat \<Rightarrow> nat \<Rightarrow> addr list \<Rightarrow> addr list \<Rightarrow> store \<Rightarrow> bool" where
  "pulled st d md k n pre post st' \<longleftrightarrow>
     pqh_clear (pull_free st d md pre) st = Inr st' \<and> k + length (pull_take st d md pre) \<le> n \<and>
     (post \<noteq> [] \<longrightarrow> k + length (pull_take st d md pre) = n)"

text \<open>The result of the loop over \<open>ps\<close>, with the packets \<open>sk\<close> it has left in the queue before.\<close>

definition pulls :: "dir \<Rightarrow> nat \<Rightarrow> u32 \<Rightarrow> addr list \<Rightarrow> store \<Rightarrow> addr list \<Rightarrow> addr list \<Rightarrow> iovec list \<Rightarrow> bool" where
  "pulls d n md ps st sk dst outv \<longleftrightarrow>
     (\<exists>pre post st'. ps = pre @ post \<and> pulled st d md (length outv) n pre post st' \<and>
       pqh_pull_loop d n md ps st (sk @ ps) dst outv =
         Inr (st', sk @ pull_keep st d md pre @ post, dst @ pull_take st d md pre,
              outv @ map (full_iov st) (pull_take st d md pre)))"

lemma pulls_skip:
  assumes "pulls d n md ps st (sk @ [p]) dst outv" and "length outv < n" and "\<not> pull_match st d md p"
    and "pkts st p \<noteq> None"
  shows "pulls d n md (p # ps) st sk dst outv"
proof -
  note s = pull_Cons_skip [OF assms(3)]
  obtain pre post st' where IH: "ps = pre @ post" "pulled st d md (length outv) n pre post st'"
    "pqh_pull_loop d n md ps st ((sk @ [p]) @ ps) dst outv =
      Inr (st', (sk @ [p]) @ pull_keep st d md pre @ post, dst @ pull_take st d md pre,
           outv @ map (full_iov st) (pull_take st d md pre))"
    using assms(1) unfolding pulls_def by blast
  show ?thesis
    unfolding pulls_def
    by (rule exI [of _ "p # pre"], rule exI [of _ post], rule exI [of _ st'])
      (use IH s(1-3) s(4) [OF assms(2,4)] in \<open>simp add: pulled_def del: pqh_pull_loop.simps\<close>)
qed

lemma pulls_take:
  assumes "pulls d n md ps st sk (dst @ [p]) (outv @ [full_iov st p])" and "length outv < n"
    and "pull_match st d md p" and "\<not> pkt_dropped st p" and "p \<notin> set sk"
  shows "pulls d n md (p # ps) st sk dst outv"
proof -
  note s = pull_Cons_take [OF assms(3,4)]
  obtain pre post st' where IH: "ps = pre @ post" "pulled st d md (Suc (length outv)) n pre post st'"
    "pqh_pull_loop d n md ps st (sk @ ps) (dst @ [p]) (outv @ [full_iov st p]) =
      Inr (st', sk @ pull_keep st d md pre @ post, (dst @ [p]) @ pull_take st d md pre,
           (outv @ [full_iov st p]) @ map (full_iov st) (pull_take st d md pre))"
    using assms(1) unfolding pulls_def by auto
  show ?thesis
    unfolding pulls_def
    by (rule exI [of _ "p # pre"], rule exI [of _ post], rule exI [of _ st'])
      (use IH s(1-3) s(4) [OF assms(2)] assms(5) in \<open>simp add: pulled_def remove1_append del: pqh_pull_loop.simps\<close>)
qed

lemma pulls_free:
  assumes "pulls d n md ps st1 sk dst outv" and "length outv < n"
    and "pull_match st d md p" and "pkt_dropped st p" and "pkt_unref p st = Inr st1" and "p \<notin> set sk \<union> set ps"
  shows "pulls d n md (p # ps) st sk dst outv"
proof -
  note s = pull_Cons_free [OF assms(3-5)]
  obtain pre post st' where IH: "ps = pre @ post" "pulled st1 d md (length outv) n pre post st'"
    "pqh_pull_loop d n md ps st1 (sk @ ps) dst outv =
      Inr (st', sk @ pull_keep st1 d md pre @ post, dst @ pull_take st1 d md pre,
           outv @ map (full_iov st1) (pull_take st1 d md pre))"
    using assms(1) unfolding pulls_def by blast
  have pre: "pkts st1 q = pkts st q" if "q \<in> set pre" for q
    using pkt_unref_frame [OF assms(5), of q] that IH(1) assms(6) by auto
  have eqs: "pull_take st1 d md pre = pull_take st d md pre" "pull_free st1 d md pre = pull_free st d md pre"
    "pull_keep st1 d md pre = pull_keep st d md pre"
    "map (full_iov st1) (pull_take st d md pre) = map (full_iov st) (pull_take st d md pre)"
    using pre by (simp_all add: pull_cong [of pre st1 st]) (simp add: full_iov_def pull_take_def)
  show ?thesis
    unfolding pulls_def
    by (rule exI [of _ "p # pre"], rule exI [of _ post], rule exI [of _ st'])
      (use IH s(1-3) s(4) [OF assms(2)] assms(5,6) in
        \<open>simp add: pulled_def remove1_append eqs del: pqh_pull_loop.simps\<close>)
qed

lemma pull_loop:
  assumes "distinct (sk @ ps)" and "\<And>p. p \<in> set ps \<Longrightarrow> pkts st p \<noteq> None" and "length outv \<le> n"
  shows "pulls d n md ps st sk dst outv"
  using assms
proof (induction ps arbitrary: sk st dst outv)
  case Nil
  then show ?case by (simp add: pull_defs pulled_def pulls_def)
next
  case (Cons p ps)
  have d: "distinct ((sk @ [p]) @ ps)" "distinct (sk @ ps)" "p \<notin> set sk" "p \<notin> set ps"
    and p: "pkts st p \<noteq> None" and alive: "\<And>q. q \<in> set ps \<Longrightarrow> pkts st q \<noteq> None"
    using Cons.prems(1,2) by auto
  consider (full) "length outv = n" | (skip) "length outv < n" "\<not> pull_match st d md p"
    | (free) "length outv < n" "pull_match st d md p" "pkt_dropped st p"
    | (take) "length outv < n" "pull_match st d md p" "\<not> pkt_dropped st p"
    using Cons.prems(3) by fastforce
  then show ?case
  proof cases
    case full
    then show ?thesis by (simp add: pulls_def pulled_def pull_defs exI [of _ "[]"])
  next
    case skip
    then show ?thesis using pulls_skip Cons.IH [OF d(1) alive Cons.prems(3)] p by blast
  next
    case take
    then have "pulls d n md ps st sk (dst @ [p]) (outv @ [full_iov st p])"
      using Cons.IH [OF d(2) alive] by simp
    then show ?thesis using pulls_take take d(3) by blast
  next
    case free
    obtain st1 where st1: "pkt_unref p st = Inr st1"
      using pkt_unref_total p by blast
    have "pkts st1 q \<noteq> None" if "q \<in> set ps" for q
      using pkt_unref_frame [OF st1, of q] that d(4) alive by metis
    from Cons.IH [OF d(2) this Cons.prems(3)] show ?thesis
      using pulls_free free st1 d(3,4) by blast
  qed
qed

lemma pqh_pull_spec:
  assumes "distinct src" and "\<And>p. p \<in> set src \<Longrightarrow> pkts st p \<noteq> None"
  obtains pre post st' where "src = pre @ post" "pulled st d md 0 n pre post st'"
    "pqh_pull src dst d n md st =
      Inr (st', pull_keep st d md pre @ post, dst @ pull_take st d md pre,
           map (full_iov st) (pull_take st d md pre))"
  using pull_loop [of "[]" src st "[]" n d md dst, unfolded pulls_def] assms that by (auto simp: pqh_pull_def)

section \<open>Properties\<close>

text \<open>
  C21. \<open>pqh_pull\<close> on live packets: it visits a prefix of the source, all of it unless the entries
  ran out; of that prefix it moves the packets of the direction that are due, in order, to the end
  of the destination, with one entry each for the whole packet, releases the dropped ones, and
  leaves every other packet in its place.
\<close>

theorem pqh_pull_moves:
  assumes "distinct src" and "\<forall>p \<in> set src. pkts st p \<noteq> None"
  shows "\<exists>pre post st'. src = pre @ post \<and>
    pqh_pull src dst d n md st =
      Inr (st', pull_keep st d md pre @ post, dst @ pull_take st d md pre,
           map (full_iov st) (pull_take st d md pre)) \<and>
    pqh_clear (pull_free st d md pre) st = Inr st' \<and>
    length (pull_take st d md pre) \<le> n \<and>
    (post \<noteq> [] \<longrightarrow> length (pull_take st d md pre) = n)"
proof -
  obtain pre post st' where r: "src = pre @ post" "pulled st d md 0 n pre post st'"
    "pqh_pull src dst d n md st =
      Inr (st', pull_keep st d md pre @ post, dst @ pull_take st d md pre,
           map (full_iov st) (pull_take st d md pre))"
    by (rule pqh_pull_spec [OF assms(1), of st d md n dst]) (use assms(2) in blast)
  show ?thesis
    by (rule exI [of _ pre], rule exI [of _ post], rule exI [of _ st'])
      (use r in \<open>simp add: pulled_def\<close>)
qed

definition ex_one :: store where
  "ex_one = \<lparr>pkts = [3 \<mapsto> \<lparr>p_len = 4, p_type = 1, p_dir = CLI_TO_SRV, p_drop = False,
     p_show = False, p_refc = 2, p_delay = 0, p_desc = None, p_dyn_desc = None,
     p_data = [4, 0, 1, 0]\<rparr>], brk = 4\<rparr>"

lemma pqh_pull_moves_witness:
  "\<exists>st' r. pqh_pull [3] [] CLI_TO_SRV 64 0 ex_one = Inr (st', r)"
proof -
  have d: "distinct [3 :: addr]" by simp
  have a: "\<forall>p \<in> set [3]. pkts ex_one p \<noteq> None" by (simp add: ex_one_def)
  show ?thesis
    using pqh_pull_moves [OF d a, of "[]" CLI_TO_SRV 64 0]
    by (elim exE conjE) (rule exI, rule exI, assumption)
qed

lemma pkt_unref_keep:
  "pkts st p = Some pk \<Longrightarrow> p_refc pk - 1 \<noteq> 0 \<Longrightarrow>
   pkt_unref p st = Inr (st\<lparr>pkts := (pkts st)(p \<mapsto> pk\<lparr>p_refc := p_refc pk - 1\<rparr>)\<rparr>)"
  by (simp add: pkt_unref_def)

fun unref_times :: "nat \<Rightarrow> addr \<Rightarrow> store \<Rightarrow> store res" where
  "unref_times 0 p st = Inr st"
| "unref_times (Suc n) p st = rbind (unref_times n p st) (pkt_unref p)"

lemma unref_times_live:
  assumes "pkts st p = Some pk"
  shows "n < unat (p_refc pk) \<Longrightarrow> unref_times n p st =
      Inr (st\<lparr>pkts := (pkts st)(p \<mapsto> pk\<lparr>p_refc := p_refc pk - of_nat n\<rparr>)\<rparr>)"
proof (induction n)
  case 0
  have "(pkts st)(p \<mapsto> pk) = pkts st" using assms by auto
  then show ?case by simp
next
  case (Suc n)
  have "unat (p_refc pk) < 2 ^ 32"
    using unsigned_less [of "p_refc pk"] by simp
  then have "unat (of_nat (Suc n) :: u32) = Suc n"
    using Suc.prems by (simp add: unat_of_nat del: of_nat_Suc)
  then have "of_nat (Suc n) \<noteq> p_refc pk"
    using Suc.prems by auto
  then have ne: "p_refc pk - of_nat n - 1 \<noteq> 0" and
    eq: "p_refc pk - of_nat n - 1 = p_refc pk - of_nat (Suc n)"
    by (simp_all add: diff_diff_eq add.commute)
  let ?st = "st\<lparr>pkts := (pkts st)(p \<mapsto> pk\<lparr>p_refc := p_refc pk - of_nat n\<rparr>)\<rparr>"
  have "unref_times n p st = Inr ?st"
    by (rule Suc.IH) (use Suc.prems in simp)
  then have "unref_times (Suc n) p st = pkt_unref p ?st"
    by (simp only: unref_times.simps rbind_Inr)
  also have "\<dots> = Inr (st\<lparr>pkts := (pkts st)(p \<mapsto> pk\<lparr>p_refc := p_refc pk - of_nat n - 1\<rparr>)\<rparr>)"
    by (subst pkt_unref_keep [of _ _ "pk\<lparr>p_refc := p_refc pk - of_nat n\<rparr>"]) (use ne in simp_all)
  finally show ?case by (simp only: eq)
qed

text \<open>
  C23. Reference counting: a packet with \<open>n\<close> references survives up to \<open>n - 1\<close> releases unchanged but
  for its count and is freed, with nothing else touched, by the last one; one more is a use after
  free.
\<close>

theorem pkt_unref_count:
  assumes "pkts st p = Some pk" and "0 < unat (p_refc pk)"
  shows "(\<forall>n < unat (p_refc pk). unref_times n p st =
      Inr (st\<lparr>pkts := (pkts st)(p \<mapsto> pk\<lparr>p_refc := p_refc pk - of_nat n\<rparr>)\<rparr>)) \<and>
    unref_times (unat (p_refc pk)) p st = Inr (st\<lparr>pkts := (pkts st)(p := None)\<rparr>) \<and>
    unref_times (Suc (unat (p_refc pk))) p st = Inl UseAfterFree"
proof -
  obtain n where n: "unat (p_refc pk) = Suc n" using assms(2) by (cases "unat (p_refc pk)") auto
  then have "p_refc pk = of_nat (Suc n)" by (metis of_nat_unat ucast_id)
  then have "p_refc pk - of_nat n - 1 = 0" by simp
  then have "unref_times (Suc n) p st = Inr (st\<lparr>pkts := (pkts st)(p := None)\<rparr>)"
    using unref_times_live [OF assms(1), of n] n by (simp add: pkt_unref_def)
  then show ?thesis
    using unref_times_live [OF assms(1)] n by (simp add: pkt_unref_def)
qed

lemma pkt_unref_count_witness:
  "unref_times 2 3 ex_one = Inr (ex_one\<lparr>pkts := Map.empty\<rparr>) \<and>
   unref_times 3 3 ex_one = Inl UseAfterFree"
  using pkt_unref_count [of ex_one 3 "the (pkts ex_one 3)"] by (simp add: ex_one_def numeral_3_eq_3)

end
