(* ===== verification/Tailq_Ends.thy ===== *)
theory Tailq_Ends
  imports Tailq
begin

text \<open>
  The rest of the tail queue macros of \<^verbatim>\<open>include/queue.h\<close>: insertion at the head and next to an
  element, concatenation, the way backwards and the loops. The way backwards reads an entry as if
  it were a head: both begin with a pointer to an element and go on with the address of such a
  pointer, so behind the cell \<open>NodeSlot a\<close> lies the field \<open>tqe_prev\<close> of \<open>a\<close>. Shown, over the
  representation \<open>tq\<close> of theory \<open>Tailq\<close>: every macro performs the list operation its name
  promises, and the loops end and visit the elements in order, or in reverse order. The locale
  \<open>two_way_queue\<close> extends the contract of a tail queue by these operations (interpretation \<open>tqe\<close>).
\<close>

section \<open>The macros\<close>

definition TAILQ_INSERT_HEAD :: "'q tq_mem \<Rightarrow> 'q \<Rightarrow> addr \<Rightarrow> 'q tq_mem" where
  "TAILQ_INSERT_HEAD m q e =
     (let m1 = m\<lparr>tqe_next := (tqe_next m)(e := tqh_first m q)\<rparr>;
          m2 = (case tqe_next m1 e of
                  Some n \<Rightarrow> m1\<lparr>tqe_prev := (tqe_prev m1)(n := NodeSlot e)\<rparr>
                | None \<Rightarrow> m1\<lparr>tqh_last := (tqh_last m1)(q := NodeSlot e)\<rparr>);
          m3 = m2\<lparr>tqh_first := (tqh_first m2)(q := Some e)\<rparr>
      in m3\<lparr>tqe_prev := (tqe_prev m3)(e := HeadSlot q)\<rparr>)"

definition TAILQ_INSERT_AFTER :: "'q tq_mem \<Rightarrow> 'q \<Rightarrow> addr \<Rightarrow> addr \<Rightarrow> 'q tq_mem" where
  "TAILQ_INSERT_AFTER m q l e =
     (let m1 = m\<lparr>tqe_next := (tqe_next m)(e := tqe_next m l)\<rparr>;
          m2 = (case tqe_next m1 e of
                  Some n \<Rightarrow> m1\<lparr>tqe_prev := (tqe_prev m1)(n := NodeSlot e)\<rparr>
                | None \<Rightarrow> m1\<lparr>tqh_last := (tqh_last m1)(q := NodeSlot e)\<rparr>);
          m3 = m2\<lparr>tqe_next := (tqe_next m2)(l := Some e)\<rparr>
      in m3\<lparr>tqe_prev := (tqe_prev m3)(e := NodeSlot l)\<rparr>)"

definition TAILQ_INSERT_BEFORE :: "'q tq_mem \<Rightarrow> addr \<Rightarrow> addr \<Rightarrow> 'q tq_mem" where
  "TAILQ_INSERT_BEFORE m l e =
     (let m1 = m\<lparr>tqe_prev := (tqe_prev m)(e := tqe_prev m l)\<rparr>;
          m2 = m1\<lparr>tqe_next := (tqe_next m1)(e := Some l)\<rparr>;
          m3 = slot_put m2 (tqe_prev m2 l) (Some e)
      in m3\<lparr>tqe_prev := (tqe_prev m3)(l := NodeSlot e)\<rparr>)"

text \<open>A head with a null \<open>tqh_first\<close> is empty; the write through the null pointer is never reached.\<close>

definition TAILQ_CONCAT :: "'q tq_mem \<Rightarrow> 'q \<Rightarrow> 'q \<Rightarrow> 'q tq_mem" where
  "TAILQ_CONCAT m q1 q2 =
     (case tqh_first m q2 of None \<Rightarrow> m
      | Some f \<Rightarrow>
          (let m1 = slot_put m (tqh_last m q1) (Some f);
               m2 = m1\<lparr>tqe_prev := (tqe_prev m1)(f := tqh_last m1 q1)\<rparr>;
               m3 = m2\<lparr>tqh_last := (tqh_last m2)(q1 := tqh_last m2 q2)\<rparr>
           in TAILQ_INIT m3 q2))"

fun slot_back :: "'q tq_mem \<Rightarrow> 'q slot \<Rightarrow> 'q slot" where
  "slot_back m (HeadSlot q) = tqh_last m q"
| "slot_back m (NodeSlot a) = tqe_prev m a"

definition TAILQ_LAST :: "'q tq_mem \<Rightarrow> 'q \<Rightarrow> addr option" where
  "TAILQ_LAST m q = slot_get m (slot_back m (tqh_last m q))"

definition TAILQ_PREV :: "'q tq_mem \<Rightarrow> addr \<Rightarrow> addr option" where
  "TAILQ_PREV m e = slot_get m (slot_back m (tqe_prev m e))"

text \<open>
  The loops, the same in all families of \<^verbatim>\<open>queue.h\<close>. \<open>visit\<close>: the elements a loop visits whose body
  leaves the links alone. \<open>visit_safe\<close>: a loop whose body may remove or release the element, because the
  next one is read before the body runs.
\<close>

partial_function (option) visit :: "(addr \<Rightarrow> addr option) \<Rightarrow> addr option \<Rightarrow> addr list option" where
  "visit nxt var =
     (case var of None \<Rightarrow> Some [] | Some a \<Rightarrow> Option.bind (visit nxt (nxt a)) (\<lambda>as. Some (a # as)))"

partial_function (option) visit_safe :: "('s \<Rightarrow> addr \<Rightarrow> addr option) \<Rightarrow> (addr \<Rightarrow> 's \<Rightarrow> 's) \<Rightarrow> addr option \<Rightarrow> 's \<Rightarrow> 's option" where
  "visit_safe nxt body var s =
     (case var of None \<Rightarrow> Some s | Some a \<Rightarrow> (let tvar = nxt s a in visit_safe nxt body tvar (body a s)))"

definition TAILQ_FOREACH :: "'q tq_mem \<Rightarrow> addr option \<Rightarrow> addr list option" where
  "TAILQ_FOREACH m = visit (tqe_next m)"

definition TAILQ_FOREACH_REVERSE :: "'q tq_mem \<Rightarrow> addr option \<Rightarrow> addr list option" where
  "TAILQ_FOREACH_REVERSE m = visit (\<lambda>a. slot_get m (slot_back m (tqe_prev m a)))"

definition TAILQ_FOREACH_SAFE ::
    "(addr \<Rightarrow> 'q tq_mem \<times> 's \<Rightarrow> 'q tq_mem \<times> 's) \<Rightarrow> addr option \<Rightarrow> 'q tq_mem \<times> 's \<Rightarrow> ('q tq_mem \<times> 's) option" where
  "TAILQ_FOREACH_SAFE body = visit_safe (\<lambda>s. TAILQ_NEXT (fst s)) body"

definition TAILQ_FOREACH_REVERSE_SAFE ::
    "(addr \<Rightarrow> 'q tq_mem \<times> 's \<Rightarrow> 'q tq_mem \<times> 's) \<Rightarrow> addr option \<Rightarrow> 'q tq_mem \<times> 's \<Rightarrow> ('q tq_mem \<times> 's) option" where
  "TAILQ_FOREACH_REVERSE_SAFE body = visit_safe (\<lambda>s. TAILQ_PREV (fst s)) body"

text \<open>The first element of a list, as a pointer.\<close>

definition head_ptr :: "addr list \<Rightarrow> addr option" where
  "head_ptr xs = (case xs of [] \<Rightarrow> None | x # _ \<Rightarrow> Some x)"

lemma head_ptr_simps [simp]: "head_ptr [] = None" "head_ptr (x # xs) = Some x"
  by (simp_all add: head_ptr_def)

lemma visit_path:
  assumes "\<And>ys y zs. xs = ys @ y # zs \<Longrightarrow> nxt y = head_ptr zs"
  shows "visit nxt (head_ptr xs) = Some xs"
  using assms
proof (induction xs)
  case Nil
  then show ?case by (simp add: visit.simps)
next
  case (Cons x xs)
  have "nxt x = head_ptr xs" using Cons.prems [of "[]" x xs] by simp
  moreover have "visit nxt (head_ptr xs) = Some xs"
    by (rule Cons.IH) (use Cons.prems [of "x # _"] in simp)
  ultimately show ?case by (simp add: visit.simps [of nxt "Some x"])
qed

text \<open>A body that keeps an invariant over the elements still to come is run once for each of them.\<close>

lemma visit_safe_inv:
  assumes "P xs s"
    and "\<And>a as s. P (a # as) s \<Longrightarrow> nxt s a = head_ptr as \<and> P as (body a s)"
  shows "\<exists>s'. visit_safe nxt body (head_ptr xs) s = Some s' \<and> P [] s' \<and> s' = fold body xs s"
  using assms(1)
proof (induction xs arbitrary: s)
  case Nil
  then show ?case by (simp add: visit_safe.simps)
next
  case (Cons x xs)
  from Cons.IH [of "body x s"] assms(2) [OF Cons.prems] show ?case
    by (simp add: visit_safe.simps [of nxt body "Some x"] Let_def)
qed

section \<open>A queue split at an element\<close>

lemma tq_splitD:
  assumes "tq m q (xs @ e # ys)"
  shows "distinct (xs @ e # ys)" "seg m (HeadSlot q) xs" "slot_get m (endslot (HeadSlot q) xs) = Some e"
    "tqe_prev m e = endslot (HeadSlot q) xs" "seg m (NodeSlot e) ys"
    "tqe_next m e = (case ys of [] \<Rightarrow> None | y # _ \<Rightarrow> Some y)"
    "tqh_last m q = endslot (NodeSlot e) ys" "slot_get m (endslot (NodeSlot e) ys) = None"
  using assms by (cases ys; auto simp: tq_def seg_append endslot_append)+

lemma slot_get_if:
  "slot_get m s = (case s of HeadSlot q \<Rightarrow> tqh_first m q | NodeSlot a \<Rightarrow> tqe_next m a)"
  by (cases s) simp_all

lemma slot_get_update_next:
  "slot_get (m\<lparr>tqe_prev := g, tqe_next := (tqe_next m)(a := v)\<rparr>) s = (if s = NodeSlot a then v else slot_get m s)"
  by (cases s) auto

lemma slot_put_next: "tqe_next (slot_put m s v) a = (if s = NodeSlot a then v else tqe_next m a)"
  by (cases s) auto

text \<open>An insertion writes one slot, the fields of the new element and the \<open>prev\<close> field after it.\<close>

definition linked_in :: "'q tq_mem \<Rightarrow> 'q \<Rightarrow> addr list \<Rightarrow> addr \<Rightarrow> addr list \<Rightarrow> 'q tq_mem \<Rightarrow> bool" where
  "linked_in m q xs e ys m' \<longleftrightarrow>
     (\<forall>s. s \<noteq> endslot (HeadSlot q) xs \<and> s \<noteq> NodeSlot e \<longrightarrow> slot_get m' s = slot_get m s) \<and>
     slot_get m' (endslot (HeadSlot q) xs) = Some e \<and> tqe_next m' e = (case ys of [] \<Rightarrow> None | y # _ \<Rightarrow> Some y) \<and>
     tqe_prev m' e = endslot (HeadSlot q) xs \<and>
     (\<forall>a. a \<noteq> e \<and> (case ys of [] \<Rightarrow> True | y # _ \<Rightarrow> a \<noteq> y) \<longrightarrow> tqe_prev m' a = tqe_prev m a) \<and>
     (case ys of [] \<Rightarrow> True | y # _ \<Rightarrow> tqe_prev m' y = NodeSlot e) \<and>
     tqh_last m' = (if ys = [] then (tqh_last m)(q := NodeSlot e) else tqh_last m)"

lemma endslot_notin: "a \<notin> set xs \<Longrightarrow> NodeSlot a \<noteq> endslot (HeadSlot q) xs"
  by (auto simp: endslot_def)

lemma linked_in_tq:
  assumes q: "tq m q (xs @ ys)" and e: "e \<notin> set (xs @ ys)" and l: "linked_in m q xs e ys m'"
  shows "tq m' q (xs @ e # ys)"
proof -
  have d: "distinct (xs @ ys)" and s: "seg m (HeadSlot q) xs" "seg m (endslot (HeadSlot q) xs) ys"
    and last: "tqh_last m q = endslot (endslot (HeadSlot q) xs) ys" "slot_get m (tqh_last m q) = None"
    using q by (auto simp: tq_def seg_append endslot_append)
  have get: "slot_get m' t = slot_get m t" if "t \<noteq> endslot (HeadSlot q) xs" "t \<noteq> NodeSlot e" for t
    using l that unfolding linked_in_def by blast
  have prev: "tqe_prev m' a = tqe_prev m a" if "a \<in> set (xs @ ys)" "case ys of [] \<Rightarrow> True | y # _ \<Rightarrow> a \<noteq> y" for a
  proof -
    from that(1) e have "a \<noteq> e" by auto
    with l that(2) show ?thesis unfolding linked_in_def by blast
  qed
  have node: "slot_get m' (NodeSlot a) = slot_get m (NodeSlot a)" if "a \<in> set (butlast xs) \<or> a \<in> set ys" for a
  proof (rule get)
    show "NodeSlot a \<noteq> endslot (HeadSlot q) xs"
      using that d butlast_not_last [of xs a] last_disjoint [of xs "set ys"] by (auto simp: endslot_def)
  qed (use that e in \<open>auto dest: in_set_butlastD\<close>)
  have pre: "seg m' (HeadSlot q) xs = seg m (HeadSlot q) xs"
  proof (rule seg_cong)
    show "slot_get m' (HeadSlot q) = slot_get m (HeadSlot q)" if "xs \<noteq> []"
      using that get [of "HeadSlot q"] by (simp add: endslot_def)
    show "tqe_prev m' x = tqe_prev m x" if "x \<in> set xs" for x
      by (rule prev) (use that d in \<open>auto split: list.splits\<close>)
  qed (use node in auto)
  have post: "seg m' (NodeSlot e) ys"
  proof (cases ys)
    case (Cons y ys')
    have "seg m' (NodeSlot y) ys' = seg m (NodeSlot y) ys'"
      by (rule seg_cong) (use Cons d prev node in \<open>auto dest: in_set_butlastD\<close>)
    then show ?thesis using Cons s(2) l by (simp add: linked_in_def)
  qed simp
  have "slot_get m' (tqh_last m' q) = None" "tqh_last m' q = endslot (NodeSlot e) ys"
  proof (atomize (full), cases ys)
    case (Cons y ys')
    then have "last ys \<in> set ys" by simp
    from node [of "last ys"] this show "slot_get m' (tqh_last m' q) = None \<and> tqh_last m' q = endslot (NodeSlot e) ys"
      using Cons last l by (simp add: linked_in_def endslot_def)
  qed (use l in \<open>simp add: linked_in_def\<close>)
  then show ?thesis using d e s(1) pre post l by (simp add: tq_def seg_append endslot_append linked_in_def)
qed

text \<open>No other queue sees the insertion.\<close>

lemma linked_in_frame:
  assumes q': "tq m q' zs" "q' \<noteq> q" and l: "linked_in m q xs e ys m'"
    and dis: "e \<notin> set zs" "set (xs @ ys) \<inter> set zs = {}"
  shows "tq m' q' zs"
proof (rule tq_cong [OF q'(1)])
  have get: "slot_get m' s = slot_get m s" if "s \<noteq> endslot (HeadSlot q) xs" "s \<noteq> NodeSlot e" for s
    using l that unfolding linked_in_def by blast
  show "tqh_first m' q' = tqh_first m q'"
    using get [of "HeadSlot q'"] q'(2) by (simp add: endslot_def)
  show "tqh_last m' q' = tqh_last m q'"
    using l q'(2) by (simp add: linked_in_def)
  show "tqe_next m' x = tqe_next m x \<and> tqe_prev m' x = tqe_prev m x" if x: "x \<in> set zs" for x
  proof -
    have ne: "x \<noteq> e" "x \<notin> set xs" "x \<notin> set ys" using x dis by auto
    then have "tqe_prev m' x = tqe_prev m x" using l by (cases ys) (auto simp: linked_in_def)
    then show ?thesis using get [of "NodeSlot x"] endslot_notin [OF ne(2), of q] ne(1) by simp
  qed
qed

section \<open>Inserting\<close>

lemma tq_insert_head:
  assumes q: "tq m q xs" and e: "e \<notin> set xs"
  shows "tq (TAILQ_INSERT_HEAD m q e) q (e # xs)"
proof -
  have "linked_in m q [] e xs (TAILQ_INSERT_HEAD m q e)"
  proof (cases xs)
    case Nil
    then have "tqh_first m q = None" using tq_first [OF q] by (simp add: TAILQ_FIRST_def)
    then show ?thesis using Nil
      by (auto simp: linked_in_def TAILQ_INSERT_HEAD_def Let_def slot_get_if split: slot.splits)
  next
    case (Cons x xs')
    then have "tqh_first m q = Some x" "x \<noteq> e" using q e by (auto simp: tq_def)
    then show ?thesis using Cons
      by (auto simp: linked_in_def TAILQ_INSERT_HEAD_def Let_def slot_get_if split: slot.splits)
  qed
  with linked_in_tq [of m q "[]" xs e] q e show ?thesis by simp
qed

lemma tq_insert_after:
  assumes q: "tq m q (xs @ l # ys)" and e: "e \<notin> set (xs @ l # ys)"
  shows "tq (TAILQ_INSERT_AFTER m q l e) q (xs @ l # e # ys)"
proof -
  note sp = tq_splitD [OF q]
  have "linked_in m q (xs @ [l]) e ys (TAILQ_INSERT_AFTER m q l e)"
    using sp(1,6) e by (cases ys) (auto simp: linked_in_def TAILQ_INSERT_AFTER_def Let_def slot_get_if split: slot.splits)
  with linked_in_tq [of m q "xs @ [l]" ys e] q e show ?thesis by simp
qed

lemma tq_insert_before:
  assumes q: "tq m q (xs @ l # ys)" and e: "e \<notin> set (xs @ l # ys)"
  shows "tq (TAILQ_INSERT_BEFORE m l e) q (xs @ e # l # ys)"
proof -
  note sp = tq_splitD [OF q]
  have "NodeSlot e \<noteq> endslot (HeadSlot q) xs" using e by (intro endslot_notin) auto
  then have "linked_in m q xs e (l # ys) (TAILQ_INSERT_BEFORE m l e)"
    using sp(4) e by (auto simp: linked_in_def TAILQ_INSERT_BEFORE_def Let_def slot_get_put slot_put_next slot_get_update_next)
  with linked_in_tq [of m q xs "l # ys" e] q e show ?thesis by simp
qed

section \<open>Concatenating\<close>

lemma tq_concat_fields:
  assumes "tq m q1 xs" and "tq m q2 (y # ys)" and "q1 \<noteq> q2"
  defines "m' \<equiv> TAILQ_CONCAT m q1 q2"
  shows "slot_get m' s = (if s = HeadSlot q2 then None else if s = endslot (HeadSlot q1) xs then Some y else slot_get m s)"
    and "tqe_prev m' = (tqe_prev m)(y := endslot (HeadSlot q1) xs)"
    and "tqh_last m' = (tqh_last m)(q1 := endslot (NodeSlot y) ys, q2 := HeadSlot q2)"
proof -
  have "tqh_first m q2 = Some y" "tqh_last m q1 = endslot (HeadSlot q1) xs" "tqh_last m q2 = endslot (NodeSlot y) ys"
    using assms(1,2) by (auto simp: tq_def)
  then have m': "m' = TAILQ_INIT ((slot_put m (endslot (HeadSlot q1) xs) (Some y))
      \<lparr>tqe_prev := (tqe_prev m)(y := endslot (HeadSlot q1) xs), tqh_last := (tqh_last m)(q1 := endslot (NodeSlot y) ys)\<rparr>) q2"
    using assms(3) by (simp add: m'_def TAILQ_CONCAT_def Let_def)
  show "slot_get m' s = (if s = HeadSlot q2 then None else if s = endslot (HeadSlot q1) xs then Some y else slot_get m s)"
    using slot_get_put [of m "endslot (HeadSlot q1) xs" "Some y" s] by (cases s) (auto simp: m' TAILQ_INIT_def)
  show "tqe_prev m' = (tqe_prev m)(y := endslot (HeadSlot q1) xs)"
    and "tqh_last m' = (tqh_last m)(q1 := endslot (NodeSlot y) ys, q2 := HeadSlot q2)"
    by (simp_all add: m' TAILQ_INIT_def)
qed

lemma tq_concat:
  assumes q1: "tq m q1 xs" and q2: "tq m q2 ys" and ne: "q1 \<noteq> q2" and dis: "set xs \<inter> set ys = {}"
  shows "tq (TAILQ_CONCAT m q1 q2) q1 (xs @ ys)" and "tq (TAILQ_CONCAT m q1 q2) q2 []"
proof (atomize (full), cases ys)
  case Nil
  then have "TAILQ_CONCAT m q1 q2 = m"
    using tq_first [OF q2] by (simp add: TAILQ_CONCAT_def TAILQ_FIRST_def)
  then show "tq (TAILQ_CONCAT m q1 q2) q1 (xs @ ys) \<and> tq (TAILQ_CONCAT m q1 q2) q2 []"
    using q1 q2 Nil by simp
next
  case (Cons y ys')
  let ?m = "TAILQ_CONCAT m q1 q2"
  note f = tq_concat_fields [OF q1 q2 [unfolded Cons] ne]
  from q2 Cons have "tq m q2 ([] @ y # ys')" by simp
  note sp = tq_splitD [OF this]
  have d: "distinct (xs @ ys)" and s1: "seg m (HeadSlot q1) xs"
    using q1 q2 dis by (auto simp: tq_def)
  have node: "slot_get ?m (NodeSlot a) = slot_get m (NodeSlot a)" if "a \<in> set (butlast xs) \<or> a \<in> set ys" for a
    using f(1) [of "NodeSlot a"] that d butlast_not_last [of xs a] last_disjoint [of xs "set ys"]
    by (auto simp: endslot_def split: if_splits)
  have "seg ?m (HeadSlot q1) xs = seg m (HeadSlot q1) xs"
  proof (rule seg_cong)
    show "slot_get ?m (HeadSlot q1) = slot_get m (HeadSlot q1)" if "xs \<noteq> []"
      using that ne f(1) [of "HeadSlot q1"] by (simp add: endslot_def)
    show "tqe_prev ?m x = tqe_prev m x" if "x \<in> set xs" for x
      using that dis Cons by (auto simp: f)
  qed (use node in auto)
  moreover have "seg ?m (NodeSlot y) ys' = seg m (NodeSlot y) ys'"
    by (rule seg_cong) (use node d Cons in \<open>auto simp: f(2) dest: in_set_butlastD\<close>)
  moreover have "slot_get ?m (endslot (NodeSlot y) ys') = None"
    using node [of "last ys"] sp(8) Cons by (cases "ys' = []") (auto simp: endslot_def)
  moreover have "tqh_first ?m q2 = None" "slot_get ?m (endslot (HeadSlot q1) xs) = Some y"
    using f(1) [of "HeadSlot q2"] f(1) [of "endslot (HeadSlot q1) xs"] ne by (simp_all add: endslot_Head)
  ultimately show "tq ?m q1 (xs @ ys) \<and> tq ?m q2 []"
    using d s1 sp ne Cons by (auto simp: tq_def seg_append endslot_append f(2,3))
qed

section \<open>The way backwards\<close>

lemma tq_last:
  assumes "tq m q xs"
  shows "TAILQ_LAST m q = (if xs = [] then None else Some (last xs))"
proof (cases xs rule: rev_cases)
  case Nil
  with assms have "tqh_last m q = HeadSlot q" "tqh_first m q = None"
    using tq_first [OF assms] by (simp_all add: tq_def TAILQ_FIRST_def)
  then show ?thesis using Nil by (simp add: TAILQ_LAST_def)
next
  case (snoc ys y)
  then show ?thesis using assms tq_splitD [of m q ys y "[]"] by (simp add: TAILQ_LAST_def)
qed

lemma tq_prev:
  assumes "tq m q (xs @ x # ys)"
  shows "TAILQ_PREV m x = (if xs = [] then None else Some (last xs))"
proof (cases xs rule: rev_cases)
  case Nil
  then show ?thesis using assms tq_splitD [OF assms] by (simp add: TAILQ_PREV_def)
next
  case (snoc ws w)
  then have "tq m q (ws @ w # x # ys)" using assms by simp
  from tq_splitD [OF this] tq_splitD [OF assms] snoc show ?thesis by (simp add: TAILQ_PREV_def)
qed

section \<open>The loops\<close>

lemma tq_foreach: "tq m q xs \<Longrightarrow> TAILQ_FOREACH m (TAILQ_FIRST m q) = Some xs"
  unfolding TAILQ_FOREACH_def using visit_path [of xs "tqe_next m"] tq_splitD(6) [of m q] tq_first [of m q xs]
  by (fastforce simp: head_ptr_def)

lemma tq_foreach_reverse:
  assumes "tq m q xs"
  shows "TAILQ_FOREACH_REVERSE m (TAILQ_LAST m q) = Some (rev xs)"
proof -
  have "visit (TAILQ_PREV m) (head_ptr (rev xs)) = Some (rev xs)"
  proof (rule visit_path)
    fix ys y zs assume "rev xs = ys @ y # zs"
    then have "xs = rev zs @ y # rev ys" by (metis rev_append rev_rev_ident rev.simps(2) append.assoc append_Cons append_Nil)
    then show "TAILQ_PREV m y = head_ptr zs" using tq_prev [of m q "rev zs" y "rev ys"] assms
      by (cases zs) (auto simp: last_rev)
  qed
  moreover have "TAILQ_LAST m q = head_ptr (rev xs)"
    using tq_last [OF assms] by (cases xs rule: rev_cases) auto
  moreover have "TAILQ_FOREACH_REVERSE m = visit (TAILQ_PREV m)"
    by (simp add: TAILQ_FOREACH_REVERSE_def TAILQ_PREV_def [abs_def])
  ultimately show ?thesis by simp
qed

section \<open>The contracts\<close>

text \<open>
  What all linked families share: a list that can be entered at its head, extended behind an element and rid
  of an element. Removing may have to search: it returns a fault, or not at all, when the element is missing.
\<close>

locale linked_seq =
  fixes rep :: "'m \<Rightarrow> 'q \<Rightarrow> addr list \<Rightarrow> bool"
    and first :: "'m \<Rightarrow> 'q \<Rightarrow> addr option"
    and nextp :: "'m \<Rightarrow> addr \<Rightarrow> addr option"
    and insert_head :: "'m \<Rightarrow> 'q \<Rightarrow> addr \<Rightarrow> 'm"
    and insert_after :: "'m \<Rightarrow> 'q \<Rightarrow> addr \<Rightarrow> addr \<Rightarrow> 'm"
    and unlink :: "'m \<Rightarrow> 'q \<Rightarrow> addr \<Rightarrow> 'm res option"
  assumes first_ptr: "rep m q xs \<Longrightarrow> first m q = head_ptr xs"
    and next_ptr: "rep m q (xs @ x # ys) \<Longrightarrow> nextp m x = head_ptr ys"
    and push_rep: "rep m q xs \<Longrightarrow> e \<notin> set xs \<Longrightarrow> rep (insert_head m q e) q (e # xs)"
    and after_rep: "rep m q (xs @ l # ys) \<Longrightarrow> e \<notin> set (xs @ l # ys) \<Longrightarrow>
      rep (insert_after m q l e) q (xs @ l # e # ys)"
    and unlink_rep: "rep m q (xs @ e # ys) \<Longrightarrow> \<exists>m'. unlink m q e = Some (Inr m') \<and> rep m' q (xs @ ys)"
begin

lemma visit_rep:
  assumes "rep m q xs"
  shows "visit (nextp m) (first m q) = Some xs"
  unfolding first_ptr [OF assms] by (rule visit_path) (use assms in \<open>auto intro: next_ptr\<close>)

text \<open>What was put in is taken out again.\<close>

lemma push_unlink:
  assumes "rep m q xs" and "e \<notin> set xs"
  shows "\<exists>m'. unlink (insert_head m q e) q e = Some (Inr m') \<and> rep m' q xs"
  using unlink_rep [of "insert_head m q e" q "[]" e xs] push_rep [OF assms] by simp

lemma after_unlink:
  assumes "rep m q (xs @ l # ys)" and "e \<notin> set (xs @ l # ys)"
  shows "\<exists>m'. unlink (insert_after m q l e) q e = Some (Inr m') \<and> rep m' q (xs @ l # ys)"
  using unlink_rep [of "insert_after m q l e" q "xs @ [l]" e ys] after_rep [OF assms] by simp

lemma unlink_mem:
  assumes "rep m q xs" and "e \<in> set xs"
  shows "\<exists>m'. unlink m q e = Some (Inr m') \<and> rep m' q (remove1 e xs)"
proof -
  from assms(2) obtain ys zs where xs: "xs = ys @ e # zs" "e \<notin> set ys"
    by (meson split_list_first)
  then show ?thesis using unlink_rep [of m q ys e zs] assms(1) by (simp add: remove1_append)
qed

end

text \<open>A queue that can be used from both ends.\<close>

locale two_way_queue = tail_queue +
  fixes last_elem :: "'a \<Rightarrow> 'b \<Rightarrow> addr option"
    and prevp :: "'a \<Rightarrow> addr \<Rightarrow> addr option"
    and insert_head :: "'a \<Rightarrow> 'b \<Rightarrow> addr \<Rightarrow> 'a"
    and insert_after :: "'a \<Rightarrow> 'b \<Rightarrow> addr \<Rightarrow> addr \<Rightarrow> 'a"
    and insert_before :: "'a \<Rightarrow> addr \<Rightarrow> addr \<Rightarrow> 'a"
    and concat_onto :: "'a \<Rightarrow> 'b \<Rightarrow> 'b \<Rightarrow> 'a"
  assumes last_rep: "rep m q xs \<Longrightarrow> last_elem m q = (if xs = [] then None else Some (last xs))"
    and prev_rep: "rep m q (xs @ x # ys) \<Longrightarrow> prevp m x = (if xs = [] then None else Some (last xs))"
    and insert_head_rep: "rep m q xs \<Longrightarrow> e \<notin> set xs \<Longrightarrow> rep (insert_head m q e) q (e # xs)"
    and insert_after_rep: "rep m q (xs @ l # ys) \<Longrightarrow> e \<notin> set (xs @ l # ys) \<Longrightarrow>
      rep (insert_after m q l e) q (xs @ l # e # ys)"
    and insert_before_rep: "rep m q (xs @ l # ys) \<Longrightarrow> e \<notin> set (xs @ l # ys) \<Longrightarrow>
      rep (insert_before m l e) q (xs @ e # l # ys)"
    and concat_rep: "rep m q xs \<Longrightarrow> rep m q' ys \<Longrightarrow> q \<noteq> q' \<Longrightarrow> set xs \<inter> set ys = {} \<Longrightarrow>
      rep (concat_onto m q q') q (xs @ ys) \<and> rep (concat_onto m q q') q' []"
begin

text \<open>A stack at the head, and the way back from an insertion.\<close>

lemma push_pop_head:
  assumes "rep m q xs" and "e \<notin> set xs"
  shows "first (insert_head m q e) q = Some e" and "rep (remove (insert_head m q e) q e) q xs"
  using pop_rep [OF insert_head_rep [OF assms]] .

lemma insert_then_remove:
  assumes "rep m q (xs @ l # ys)" and "e \<notin> set (xs @ l # ys)"
  shows "rep (remove (insert_after m q l e) q e) q (xs @ l # ys)"
    and "rep (remove (insert_before m l e) q e) q (xs @ l # ys)"
  using remove_rep [of "insert_after m q l e" q "xs @ [l]" e ys] insert_after_rep [OF assms]
    remove_rep [of "insert_before m l e" q xs e "l # ys"] insert_before_rep [OF assms] by simp_all

text \<open>\<open>prev\<close> goes back where \<open>next\<close> came from.\<close>

lemma prev_next: "rep m q (xs @ x # y # ys) \<Longrightarrow> nextp m x = Some y \<and> prevp m y = Some x"
  using next_rep [of m q xs x "y # ys"] prev_rep [of m q "xs @ [x]" y ys] by simp

end

sublocale two_way_queue \<subseteq> lseq: linked_seq rep first nextp insert_head insert_after "\<lambda>m q e. Some (Inr (remove m q e))"
  by unfold_locales
    (auto simp: head_ptr_def first_rep next_rep insert_head_rep insert_after_rep remove_rep)

interpretation tqe: two_way_queue tq TAILQ_FIRST TAILQ_NEXT TAILQ_INSERT_TAIL TAILQ_REMOVE
    TAILQ_LAST TAILQ_PREV TAILQ_INSERT_HEAD TAILQ_INSERT_AFTER TAILQ_INSERT_BEFORE TAILQ_CONCAT
  by unfold_locales
    (auto intro: tq_insert_head tq_insert_after tq_insert_before tq_concat simp: tq_last tq_prev)

end
