(* ===== verification/Pktq_Impl.thy ===== *)
theory Pktq_Impl
  imports Pktq Tailq_Ends
begin

text \<open>
  The queue functions of \<^verbatim>\<open>pktq.c\<close> over the pointer memory of theory \<open>Tailq\<close>, and the
  refinement between them and the list operations of theory \<open>Pktq\<close>: when the memory represents
  the lists, the pointer code returns what the list code returns, and the memory it leaves
  represents the lists the list code leaves. The loop of \<open>pqh_pull_ptr\<close> follows pointers, so
  nothing bounds it but the shape of the queue; it is a partial function, and the refinement
  lemma includes that it returns.
\<close>

definition pqh_init_ptr :: "'q tq_mem \<Rightarrow> 'q \<Rightarrow> 'q tq_mem" where
  "pqh_init_ptr m q = TAILQ_INIT m q"

definition pqh_empty_ptr :: "'q tq_mem \<Rightarrow> 'q \<Rightarrow> bool" where
  "pqh_empty_ptr m q = TAILQ_EMPTY m q"

definition pqh_head_ptr :: "'q tq_mem \<Rightarrow> 'q \<Rightarrow> addr option" where
  "pqh_head_ptr m q = TAILQ_FIRST m q"

definition pqh_next_ptr :: "'q tq_mem \<Rightarrow> addr \<Rightarrow> addr option" where
  "pqh_next_ptr m p = TAILQ_NEXT m p"

definition pqh_push_ptr :: "'q tq_mem \<Rightarrow> 'q \<Rightarrow> addr \<Rightarrow> 'q tq_mem" where
  "pqh_push_ptr m q p = TAILQ_INSERT_TAIL m q p"

definition pqh_pop_ptr :: "'q tq_mem \<Rightarrow> 'q \<Rightarrow> addr option \<times> 'q tq_mem" where
  "pqh_pop_ptr m q =
     (case TAILQ_FIRST m q of None \<Rightarrow> (None, m) | Some p \<Rightarrow> (Some p, TAILQ_REMOVE m q p))"

definition pqh_discard_ptr :: "'q tq_mem \<Rightarrow> 'q \<Rightarrow> store \<Rightarrow> (store \<times> 'q tq_mem) res" where
  "pqh_discard_ptr m q st =
     (case TAILQ_FIRST m q of None \<Rightarrow> Inr (st, m)
      | Some p \<Rightarrow> (let m' = TAILQ_REMOVE m q p
                  in rbind (pkt_unref p st) (\<lambda>st'. Inr (st', m'))))"

partial_function (option) pqh_pull_loop_ptr ::
    "dir \<Rightarrow> nat \<Rightarrow> u32 \<Rightarrow> 'q \<Rightarrow> 'q \<Rightarrow> addr option \<Rightarrow> store \<Rightarrow> 'q tq_mem \<Rightarrow> iovec list \<Rightarrow>
     (store \<times> 'q tq_mem \<times> iovec list) res option" where
  "pqh_pull_loop_ptr d outv_sz min_delay src dst cur st m outv =
     (case cur of None \<Rightarrow> Some (Inr (st, m, outv))
      | Some p \<Rightarrow>
          (let tmp = TAILQ_NEXT m p
           in if length outv \<ge> outv_sz then Some (Inr (st, m, outv))
              else (case pkt_get st p of Inl e \<Rightarrow> Some (Inl e)
                | Inr pk \<Rightarrow>
                   if p_delay pk > min_delay
                   then pqh_pull_loop_ptr d outv_sz min_delay src dst tmp st m outv
                   else if p_dir pk = d then
                     (let m1 = TAILQ_REMOVE m src p
                      in if \<not> p_drop pk
                         then pqh_pull_loop_ptr d outv_sz min_delay src dst tmp st
                                (TAILQ_INSERT_TAIL m1 dst p)
                                (outv @ [\<lparr>iov_pkt = p, iov_off = 0, iov_len = unat (p_len pk)\<rparr>])
                         else (case pkt_unref p st of Inl e \<Rightarrow> Some (Inl e)
                           | Inr st' \<Rightarrow>
                              pqh_pull_loop_ptr d outv_sz min_delay src dst tmp st' m1 outv))
                   else pqh_pull_loop_ptr d outv_sz min_delay src dst tmp st m outv)))"

definition pqh_pull_ptr :: "'q tq_mem \<Rightarrow> 'q \<Rightarrow> 'q \<Rightarrow> dir \<Rightarrow> nat \<Rightarrow> u32 \<Rightarrow> store \<Rightarrow>
    (store \<times> 'q tq_mem \<times> iovec list) res option" where
  "pqh_pull_ptr m src dst d outv_sz min_delay st =
     pqh_pull_loop_ptr d outv_sz min_delay src dst (TAILQ_FIRST m src) st m []"

text \<open>
  \<open>pqh_clear\<close> releases the packets in a loop that has read the next one before. \<open>junk\<close>: what the
  link of a released packet holds; a fault of \<open>pkt_unref\<close> ends the program, here it stays in the state.
\<close>

definition pqh_clear_ptr :: "(addr \<Rightarrow> addr option) \<Rightarrow> 'q tq_mem \<Rightarrow> 'q \<Rightarrow> store \<Rightarrow> store res option" where
  "pqh_clear_ptr junk m q st =
     map_option snd (TAILQ_FOREACH_SAFE
       (\<lambda>p (m, st). (m\<lparr>tqe_next := (tqe_next m)(p := junk p)\<rparr>, rbind st (pkt_unref p)))
       (TAILQ_FIRST m q) (m, Inr st))"

section \<open>Refinement\<close>

lemma pqh_next_list: "distinct (xs @ x # ys) \<Longrightarrow> pqh_next (xs @ x # ys) x = pqh_head ys"
  by (induction xs) auto

lemma pqh_access_refine:
  assumes "tq m q xs"
  shows "pqh_empty_ptr m q = pqh_empty xs" and "pqh_head_ptr m q = pqh_head xs"
    and "x \<in> set xs \<Longrightarrow> pqh_next_ptr m x = pqh_next xs x"
proof -
  show "pqh_empty_ptr m q = pqh_empty xs"
    using tq_empty [OF assms] by (simp add: pqh_empty_ptr_def pqh_empty_def)
  show "pqh_head_ptr m q = pqh_head xs"
    using tqi.first_rep [OF assms] by (simp add: pqh_head_ptr_def pqh_head_def)
  assume "x \<in> set xs"
  then obtain ys zs where xs: "xs = ys @ x # zs"
    by (meson split_list)
  then show "pqh_next_ptr m x = pqh_next xs x"
    using tqi.next_rep [of m q ys x zs] tqi.rep_distinct [OF assms] assms
    by (simp add: pqh_next_ptr_def pqh_next_list pqh_head_def)
qed

lemma pqh_pop_refine:
  assumes "tq m q xs"
  shows "fst (pqh_pop_ptr m q) = fst (pqh_pop xs)"
    and "tq (snd (pqh_pop_ptr m q)) q (snd (pqh_pop xs))"
proof -
  have "fst (pqh_pop_ptr m q) = fst (pqh_pop xs) \<and>
      tq (snd (pqh_pop_ptr m q)) q (snd (pqh_pop xs))"
  proof (cases xs)
    case Nil
    then show ?thesis
      using assms tqi.first_rep [OF assms] by (simp add: pqh_pop_ptr_def pqh_pop_def)
  next
    case (Cons x xs')
    then show ?thesis
      using tqi.pop_rep [of m q x xs'] assms by (simp add: pqh_pop_ptr_def pqh_pop_def)
  qed
  then show "fst (pqh_pop_ptr m q) = fst (pqh_pop xs)"
    and "tq (snd (pqh_pop_ptr m q)) q (snd (pqh_pop xs))" by simp_all
qed

lemma fold_unref:
  "snd (fold (\<lambda>p (m, st). (f p m, rbind st (pkt_unref p))) xs (m, st)) = rbind st (pqh_clear xs)"
  by (induction xs arbitrary: m st) (auto simp: rbind_def split: sum.splits)

lemma pqh_clear_refine:
  assumes q: "tq m q xs"
  shows "pqh_clear_ptr junk m q st = Some (pqh_clear xs st)"
proof -
  define body where "body = (\<lambda>p (m :: 'a tq_mem, st). (m\<lparr>tqe_next := (tqe_next m)(p := junk p)\<rparr>, rbind st (pkt_unref p)))"
  define P where "P as s \<longleftrightarrow> (\<exists>bs. xs = bs @ as) \<and> (\<forall>a \<in> set as. tqe_next (fst s) a = tqe_next m a)"
    for as and s :: "'a tq_mem \<times> store res"
  have "\<exists>s'. visit_safe (\<lambda>s. TAILQ_NEXT (fst s)) body (head_ptr xs) (m, Inr st) = Some s' \<and> P [] s' \<and>
      s' = fold body xs (m, Inr st)"
  proof (rule visit_safe_inv)
    show "P xs (m, Inr st)" by (simp add: P_def)
    fix a as and s :: "'a tq_mem \<times> store res"
    assume P: "P (a # as) s"
    then obtain bs where bs: "xs = bs @ a # as" by (auto simp: P_def)
    then have "a \<notin> set as" using tqi.rep_distinct [OF q] by simp
    then have "P as (body a s)"
      using P bs by (auto simp: P_def body_def split: prod.splits intro: exI [of _ "bs @ [a]"])
    moreover have "TAILQ_NEXT (fst s) a = head_ptr as"
      using P tqe.lseq.next_ptr [of m q bs a as] q bs by (simp add: P_def TAILQ_NEXT_def)
    ultimately show "TAILQ_NEXT (fst s) a = head_ptr as \<and> P as (body a s)" by simp
  qed
  then have "TAILQ_FOREACH_SAFE body (TAILQ_FIRST m q) (m, Inr st) = Some (fold body xs (m, Inr st))"
    unfolding TAILQ_FOREACH_SAFE_def tqe.lseq.first_ptr [OF q] by metis
  then show ?thesis
    using fold_unref [of "\<lambda>p m. m\<lparr>tqe_next := (tqe_next m)(p := junk p)\<rparr>" xs m "Inr st"]
    unfolding pqh_clear_ptr_def body_def by simp
qed

lemma pqh_discard_refine:
  assumes "tq m q xs"
  shows "case pqh_discard xs st of Inl e \<Rightarrow> pqh_discard_ptr m q st = Inl e
    | Inr (st', xs') \<Rightarrow> \<exists>m'. pqh_discard_ptr m q st = Inr (st', m') \<and> tq m' q xs'"
proof (cases xs)
  case Nil
  then show ?thesis
    using assms tqi.first_rep [OF assms] by (simp add: pqh_discard_ptr_def pqh_discard_def)
next
  case (Cons x xs')
  then show ?thesis
    using tqi.pop_rep [of m q x xs'] assms
    by (cases "pkt_unref x st") (simp_all add: pqh_discard_ptr_def pqh_discard_def)
qed

text \<open>The relation between the results of the two pull loops.\<close>

fun pull_rel :: "'q \<Rightarrow> 'q \<Rightarrow> (store \<times> pqhead \<times> pqhead \<times> iovec list) res \<Rightarrow>
    (store \<times> 'q tq_mem \<times> iovec list) res option \<Rightarrow> bool" where
  "pull_rel src dst (Inl e) r \<longleftrightarrow> r = Some (Inl e)"
| "pull_rel src dst (Inr (st', ss', ds', outv')) r \<longleftrightarrow>
     (\<exists>m'. r = Some (Inr (st', m', outv')) \<and> tq m' src ss' \<and> tq m' dst ds')"

lemma pull_loop_refine:
  assumes "tq m src (sk @ ps)" and "tq m dst ds" and "src \<noteq> dst"
    and "set (sk @ ps) \<inter> set ds = {}"
  shows "pull_rel src dst (pqh_pull_loop d n md ps st (sk @ ps) ds outv)
    (pqh_pull_loop_ptr d n md src dst (pqh_head ps) st m outv)"
  using assms
proof (induction ps arbitrary: sk st m ds outv)
  case Nil
  then show ?case
    by (subst pqh_pull_loop_ptr.simps) (auto simp: pqh_head_def)
next
  case (Cons p ps)
  have dis: "distinct (sk @ p # ps)" by (rule tqi.rep_distinct [OF Cons.prems(1)])
  have next_p: "TAILQ_NEXT m p = pqh_head ps"
    using tqi.next_rep [OF Cons.prems(1)] by (simp add: pqh_head_def)
  have rm: "remove1 p (sk @ p # ps) = sk @ ps"
    using dis by (simp add: remove1_append)
  note unfold = pqh_pull_loop_ptr.simps [of d n md src dst "Some p"]
  consider (stop) "n \<le> length outv" | (gone) "length outv < n" "pkts st p = None"
    | (live) pk where "length outv < n" "pkts st p = Some pk"
    by fastforce
  then show ?case
  proof cases
    case stop
    then show ?thesis using Cons.prems(1,2) by (simp add: pqh_head_def unfold)
  next
    case gone
    then show ?thesis by (simp add: pqh_head_def unfold)
  next
    case live
    have skip: "pull_rel src dst (pqh_pull_loop d n md ps st (sk @ p # ps) ds outv)
        (pqh_pull_loop_ptr d n md src dst (pqh_head ps) st m outv)"
      using Cons.IH [of m "sk @ [p]" ds st outv] Cons.prems by simp
    have take: "pull_rel src dst (pqh_pull_loop d n md ps st (sk @ ps) (ds @ [p]) o')
        (pqh_pull_loop_ptr d n md src dst (pqh_head ps) st
          (TAILQ_INSERT_TAIL (TAILQ_REMOVE m src p) dst p) o')" for o'
      by (rule Cons.IH) (use tqi.transfer_rep [OF Cons.prems(1,2)] Cons.prems dis in auto)
    have free: "pull_rel src dst (pqh_pull_loop d n md ps st' (sk @ ps) ds outv)
        (pqh_pull_loop_ptr d n md src dst (pqh_head ps) st' (TAILQ_REMOVE m src p) outv)" for st'
      by (rule Cons.IH)
        (use tqi.remove_rep [OF Cons.prems(1)] tqi.remove_frame [OF Cons.prems(1,2)]
          Cons.prems in auto)
    show ?thesis
      using live skip take free
      by (cases "pkt_unref p st")
        (simp_all add: pqh_head_def [of "p # ps"] unfold next_p rm Let_def)
  qed
qed

section \<open>Properties\<close>

text \<open>
  C12. \<open>pqh_pull\<close> over the intrusive pointer queue implements \<open>pqh_pull\<close> over lists: the loop
  returns, gives the same entries, store and faults, and leaves two well-formed queues that
  represent the two result lists.
\<close>

theorem pqh_pull_refine:
  assumes "tq m src ss" and "tq m dst ds" and "src \<noteq> dst" and "set ss \<inter> set ds = {}"
  shows "pull_rel src dst (pqh_pull ss ds d n md st) (pqh_pull_ptr m src dst d n md st)"
  using pull_loop_refine [of m src "[]" ss dst ds d n md st "[]"] assms
    pqh_access_refine(2) [OF assms(1)]
  by (simp add: pqh_pull_def pqh_pull_ptr_def pqh_head_ptr_def)

definition ex_queues :: "bool tq_mem" where
  "ex_queues = TAILQ_INSERT_TAIL (TAILQ_INIT (TAILQ_INIT
     \<lparr>tqh_first = (\<lambda>_. None), tqh_last = HeadSlot, tqe_next = (\<lambda>_. None), tqe_prev = NodeSlot\<rparr>
     True) False) True 7"

lemma ex_queues_tq: "tq ex_queues True [7]" "tq ex_queues False []"
proof -
  let ?m = "TAILQ_INIT (TAILQ_INIT
     \<lparr>tqh_first = (\<lambda>_. None), tqh_last = HeadSlot, tqe_next = (\<lambda>_. None), tqe_prev = NodeSlot\<rparr>
     True) False"
  have e: "tq ?m True []" "tq ?m False []"
    by (simp_all add: tq_init tq_init_frame)
  show "tq ex_queues True [7]" "tq ex_queues False []"
    using tq_insert_tail [OF e(1), of 7] tq_insert_tail_frame [OF e, of 7]
    by (simp_all add: ex_queues_def)
qed

lemma pqh_pull_refine_witness:
  "pull_rel True False (pqh_pull [7] [] CLI_TO_SRV 1 0 \<lparr>pkts = Map.empty, brk = 9\<rparr>)
     (pqh_pull_ptr ex_queues True False CLI_TO_SRV 1 0 \<lparr>pkts = Map.empty, brk = 9\<rparr>)"
  by (rule pqh_pull_refine) (simp_all add: ex_queues_tq)

end
