(* ===== verification/Queue_Lists.thy ===== *)
theory Queue_Lists
  imports Tailq_Ends
begin

text \<open>
  The lists of \<^verbatim>\<open>include/queue.h\<close>, which have a head of one pointer: the singly linked \<open>SLIST\<close> and the
  doubly linked \<open>LIST\<close>. Shown: both provide the contract \<open>linked_seq\<close> and leave other lists alone; removing an
  element that is not in a singly linked list ends in the dereference of a null pointer; a doubly linked list is a
  tail queue that has lost the address of its last pointer, and each of its macros is the macro of that queue.
\<close>

section \<open>Chains of next pointers\<close>

text \<open>\<open>seqp nx p xs r\<close>: from the pointer \<open>p\<close> the elements \<open>xs\<close> lead to the pointer \<open>r\<close>.\<close>

fun seqp :: "(addr \<Rightarrow> addr option) \<Rightarrow> addr option \<Rightarrow> addr list \<Rightarrow> addr option \<Rightarrow> bool" where
  "seqp nx p [] r \<longleftrightarrow> p = r"
| "seqp nx p (x # xs) r \<longleftrightarrow> p = Some x \<and> seqp nx (nx x) xs r"

lemma seqp_append [simp]: "seqp nx p (xs @ ys) r \<longleftrightarrow> (\<exists>q. seqp nx p xs q \<and> seqp nx q ys r)"
  by (induction xs arbitrary: p) auto

lemma seqp_upd [simp]: "u \<notin> set xs \<Longrightarrow> seqp (nx(u := v)) p xs r = seqp nx p xs r"
  by (induction xs arbitrary: p) auto

lemma seqp_cong: "(\<And>x. x \<in> set xs \<Longrightarrow> nx' x = nx x) \<Longrightarrow> seqp nx' p xs r = seqp nx p xs r"
  by (induction xs arbitrary: p) auto

lemma seqp_head: "seqp nx p xs None \<Longrightarrow> p = head_ptr xs"
  by (cases xs) auto

lemma seqp_next: "seqp nx p (xs @ x # ys) None \<Longrightarrow> nx x = head_ptr ys"
  by (auto dest: seqp_head)

text \<open>The search for the element before \<open>e\<close>, as the macros that remove from a singly linked family do it.\<close>

partial_function (option) find_before :: "(addr \<Rightarrow> addr option) \<Rightarrow> addr \<Rightarrow> addr option \<Rightarrow> addr res option" where
  "find_before nx e curelm =
     (case curelm of None \<Rightarrow> Some (Inl NullDeref)
      | Some c \<Rightarrow> if nx c = Some e then Some (Inr c) else find_before nx e (nx c))"

lemma find_before_mem:
  "seqp nx p (xs @ [c]) (Some e) \<Longrightarrow> e \<notin> set xs \<Longrightarrow> e \<noteq> c \<Longrightarrow> find_before nx e p = Some (Inr c)"
proof (induction xs arbitrary: p)
  case Nil
  then show ?case by (simp add: find_before.simps)
next
  case (Cons x xs)
  then have "nx x \<noteq> Some e" by (cases xs) auto
  with Cons show ?case by (simp add: find_before.simps [of nx e "Some x"])
qed

lemma find_before_missing: "seqp nx p xs None \<Longrightarrow> e \<notin> set xs \<Longrightarrow> find_before nx e p = Some (Inl NullDeref)"
proof (induction xs arbitrary: p)
  case Nil
  then show ?case by (simp add: find_before.simps)
next
  case (Cons x xs)
  then have "nx x \<noteq> Some e" by (cases xs) auto
  with Cons show ?case by (simp add: find_before.simps [of nx e "Some x"])
qed

section \<open>Singly linked lists\<close>

record 'q slist_mem =
  slh_first :: "'q \<Rightarrow> addr option"
  sle_next :: "addr \<Rightarrow> addr option"

definition SLIST_INIT :: "'q slist_mem \<Rightarrow> 'q \<Rightarrow> 'q slist_mem" where
  "SLIST_INIT m q = m\<lparr>slh_first := (slh_first m)(q := None)\<rparr>"

definition SLIST_INSERT_AFTER :: "'q slist_mem \<Rightarrow> addr \<Rightarrow> addr \<Rightarrow> 'q slist_mem" where
  "SLIST_INSERT_AFTER m l e =
     (let m1 = m\<lparr>sle_next := (sle_next m)(e := sle_next m l)\<rparr>
      in m1\<lparr>sle_next := (sle_next m1)(l := Some e)\<rparr>)"

definition SLIST_INSERT_HEAD :: "'q slist_mem \<Rightarrow> 'q \<Rightarrow> addr \<Rightarrow> 'q slist_mem" where
  "SLIST_INSERT_HEAD m q e =
     (let m1 = m\<lparr>sle_next := (sle_next m)(e := slh_first m q)\<rparr>
      in m1\<lparr>slh_first := (slh_first m1)(q := Some e)\<rparr>)"

definition SLIST_REMOVE_HEAD :: "'q slist_mem \<Rightarrow> 'q \<Rightarrow> 'q slist_mem res" where
  "SLIST_REMOVE_HEAD m q =
     (case slh_first m q of None \<Rightarrow> Inl NullDeref
      | Some a \<Rightarrow> Inr (m\<lparr>slh_first := (slh_first m)(q := sle_next m a)\<rparr>))"

definition SLIST_REMOVE :: "'q slist_mem \<Rightarrow> 'q \<Rightarrow> addr \<Rightarrow> 'q slist_mem res option" where
  "SLIST_REMOVE m q e =
     (if slh_first m q = Some e then Some (SLIST_REMOVE_HEAD m q)
      else map_option (\<lambda>r. rbind r (\<lambda>c. case sle_next m c of None \<Rightarrow> Inl NullDeref
          | Some n \<Rightarrow> Inr (m\<lparr>sle_next := (sle_next m)(c := sle_next m n)\<rparr>)))
        (find_before (sle_next m) e (slh_first m q)))"

definition SLIST_FOREACH :: "'q slist_mem \<Rightarrow> addr option \<Rightarrow> addr list option" where
  "SLIST_FOREACH m = visit (sle_next m)"

definition SLIST_FOREACH_SAFE ::
    "(addr \<Rightarrow> 'q slist_mem \<times> 's \<Rightarrow> 'q slist_mem \<times> 's) \<Rightarrow> addr option \<Rightarrow> 'q slist_mem \<times> 's \<Rightarrow> ('q slist_mem \<times> 's) option" where
  "SLIST_FOREACH_SAFE body = visit_safe (\<lambda>s. sle_next (fst s)) body"

text \<open>The loop that also has the address of the pointer to the current element.\<close>

fun slist_at :: "'q slist_mem \<Rightarrow> 'q slot \<Rightarrow> addr option" where
  "slist_at m (HeadSlot q) = slh_first m q"
| "slist_at m (NodeSlot a) = sle_next m a"

partial_function (option) SLIST_FOREACH_PREVPTR :: "'q slist_mem \<Rightarrow> 'q slot \<Rightarrow> (addr \<times> 'q slot) list option" where
  "SLIST_FOREACH_PREVPTR m varp =
     (case slist_at m varp of None \<Rightarrow> Some []
      | Some var \<Rightarrow> Option.bind (SLIST_FOREACH_PREVPTR m (NodeSlot var)) (\<lambda>as. Some ((var, varp) # as)))"

definition SLIST_EMPTY :: "'q slist_mem \<Rightarrow> 'q \<Rightarrow> bool" where
  "SLIST_EMPTY m q \<longleftrightarrow> slh_first m q = None"

definition SLIST_FIRST :: "'q slist_mem \<Rightarrow> 'q \<Rightarrow> addr option" where
  "SLIST_FIRST m q = slh_first m q"

definition SLIST_NEXT :: "'q slist_mem \<Rightarrow> addr \<Rightarrow> addr option" where
  "SLIST_NEXT m e = sle_next m e"

text \<open>The list a head represents.\<close>

definition sl :: "'q slist_mem \<Rightarrow> 'q \<Rightarrow> addr list \<Rightarrow> bool" where
  "sl m q xs \<longleftrightarrow> distinct xs \<and> seqp (sle_next m) (slh_first m q) xs None"

lemma sl_cong:
  "sl m q xs \<Longrightarrow> slh_first m' q = slh_first m q \<Longrightarrow> (\<And>x. x \<in> set xs \<Longrightarrow> sle_next m' x = sle_next m x) \<Longrightarrow> sl m' q xs"
  using seqp_cong [of xs "sle_next m'" "sle_next m"] by (simp add: sl_def)

lemma sl_init: "sl (SLIST_INIT m q) q []"
  by (simp add: sl_def SLIST_INIT_def)

lemma sl_empty: "sl m q xs \<Longrightarrow> SLIST_EMPTY m q \<longleftrightarrow> xs = []"
  by (cases xs) (auto simp: sl_def SLIST_EMPTY_def)

lemma sl_remove_head: "sl m q (x # xs) \<Longrightarrow> \<exists>m'. SLIST_REMOVE_HEAD m q = Inr m' \<and> sl m' q xs"
  by (simp add: sl_def SLIST_REMOVE_HEAD_def)

lemma sl_remove:
  assumes "sl m q (xs @ e # ys)"
  shows "\<exists>m'. SLIST_REMOVE m q e = Some (Inr m') \<and> sl m' q (xs @ ys)"
proof (cases xs rule: rev_cases)
  case Nil
  then show ?thesis using assms sl_remove_head [of m q e ys] by (auto simp: SLIST_REMOVE_def sl_def)
next
  case (snoc ws w)
  have d: "distinct (ws @ w # e # ys)" and p: "seqp (sle_next m) (slh_first m q) (ws @ [w]) (Some e)"
    and r: "seqp (sle_next m) (sle_next m e) ys None"
    using assms snoc by (auto simp: sl_def)
  have "find_before (sle_next m) e (slh_first m q) = Some (Inr w)"
    by (rule find_before_mem [OF p]) (use d in auto)
  moreover have "slh_first m q \<noteq> Some e" using p d by (cases ws) auto
  ultimately show ?thesis using d p r snoc by (auto simp: SLIST_REMOVE_def sl_def)
qed

lemma sl_remove_missing: "sl m q xs \<Longrightarrow> e \<notin> set xs \<Longrightarrow> SLIST_REMOVE m q e = Some (Inl NullDeref)"
  using find_before_missing [of "sle_next m" "slh_first m q" xs e]
  by (cases xs) (auto simp: sl_def SLIST_REMOVE_def)

interpretation sls: linked_seq sl SLIST_FIRST SLIST_NEXT SLIST_INSERT_HEAD "\<lambda>m q. SLIST_INSERT_AFTER m" SLIST_REMOVE
proof
  show "sl (SLIST_INSERT_AFTER m l e) q (xs @ l # e # ys)"
    if "sl m q (xs @ l # ys)" "e \<notin> set (xs @ l # ys)" for m :: "'q slist_mem" and q xs l ys e
    using that by (auto simp: sl_def SLIST_INSERT_AFTER_def Let_def)
  show "\<exists>m'. SLIST_REMOVE m q e = Some (Inr m') \<and> sl m' q (xs @ ys)" if "sl m q (xs @ e # ys)"
    for m :: "'q slist_mem" and q xs e ys
    using that by (rule sl_remove)
qed (auto simp: sl_def SLIST_FIRST_def SLIST_NEXT_def SLIST_INSERT_HEAD_def Let_def dest: seqp_head)

lemma sl_foreach: "sl m q xs \<Longrightarrow> SLIST_FOREACH m (SLIST_FIRST m q) = Some xs"
  using sls.visit_rep [of m q xs] by (simp add: SLIST_FOREACH_def SLIST_NEXT_def [abs_def])

text \<open>The loop over pointers to pointers sees each element with the one pointer that leads to it.\<close>

lemma foreach_prevptr_from:
  "seqp (sle_next m) (slist_at m s) xs None \<Longrightarrow>
   SLIST_FOREACH_PREVPTR m s = Some (zip xs (s # map NodeSlot xs))"
proof (induction xs arbitrary: s)
  case Nil
  then show ?case by (simp add: SLIST_FOREACH_PREVPTR.simps)
next
  case (Cons x xs)
  then show ?case by (simp add: SLIST_FOREACH_PREVPTR.simps [of m s])
qed

lemma sl_foreach_prevptr:
  "sl m q xs \<Longrightarrow> SLIST_FOREACH_PREVPTR m (HeadSlot q) = Some (zip xs (HeadSlot q # map NodeSlot xs))"
  by (rule foreach_prevptr_from) (simp add: sl_def)

section \<open>Doubly linked lists\<close>

record 'q list_mem =
  lh_first :: "'q \<Rightarrow> addr option"
  le_next :: "addr \<Rightarrow> addr option"
  le_prev :: "addr \<Rightarrow> 'q slot"

fun list_put :: "'q list_mem \<Rightarrow> 'q slot \<Rightarrow> addr option \<Rightarrow> 'q list_mem" where
  "list_put m (HeadSlot q) v = m\<lparr>lh_first := (lh_first m)(q := v)\<rparr>"
| "list_put m (NodeSlot a) v = m\<lparr>le_next := (le_next m)(a := v)\<rparr>"

definition LIST_INIT :: "'q list_mem \<Rightarrow> 'q \<Rightarrow> 'q list_mem" where
  "LIST_INIT m q = m\<lparr>lh_first := (lh_first m)(q := None)\<rparr>"

definition LIST_INSERT_AFTER :: "'q list_mem \<Rightarrow> addr \<Rightarrow> addr \<Rightarrow> 'q list_mem" where
  "LIST_INSERT_AFTER m l e =
     (let m1 = m\<lparr>le_next := (le_next m)(e := le_next m l)\<rparr>;
          m2 = (case le_next m1 e of
                  Some n \<Rightarrow> m1\<lparr>le_prev := (le_prev m1)(n := NodeSlot e)\<rparr>
                | None \<Rightarrow> m1);
          m3 = m2\<lparr>le_next := (le_next m2)(l := Some e)\<rparr>
      in m3\<lparr>le_prev := (le_prev m3)(e := NodeSlot l)\<rparr>)"

definition LIST_INSERT_BEFORE :: "'q list_mem \<Rightarrow> addr \<Rightarrow> addr \<Rightarrow> 'q list_mem" where
  "LIST_INSERT_BEFORE m l e =
     (let m1 = m\<lparr>le_prev := (le_prev m)(e := le_prev m l)\<rparr>;
          m2 = m1\<lparr>le_next := (le_next m1)(e := Some l)\<rparr>;
          m3 = list_put m2 (le_prev m2 l) (Some e)
      in m3\<lparr>le_prev := (le_prev m3)(l := NodeSlot e)\<rparr>)"

definition LIST_INSERT_HEAD :: "'q list_mem \<Rightarrow> 'q \<Rightarrow> addr \<Rightarrow> 'q list_mem" where
  "LIST_INSERT_HEAD m q e =
     (let m1 = m\<lparr>le_next := (le_next m)(e := lh_first m q)\<rparr>;
          m2 = (case le_next m1 e of
                  Some n \<Rightarrow> m1\<lparr>le_prev := (le_prev m1)(n := NodeSlot e)\<rparr>
                | None \<Rightarrow> m1);
          m3 = m2\<lparr>lh_first := (lh_first m2)(q := Some e)\<rparr>
      in m3\<lparr>le_prev := (le_prev m3)(e := HeadSlot q)\<rparr>)"

definition LIST_REMOVE :: "'q list_mem \<Rightarrow> addr \<Rightarrow> 'q list_mem" where
  "LIST_REMOVE m e =
     (let m1 = (case le_next m e of
                  Some n \<Rightarrow> m\<lparr>le_prev := (le_prev m)(n := le_prev m e)\<rparr>
                | None \<Rightarrow> m)
      in list_put m1 (le_prev m1 e) (le_next m1 e))"

definition LIST_FOREACH :: "'q list_mem \<Rightarrow> addr option \<Rightarrow> addr list option" where
  "LIST_FOREACH m = visit (le_next m)"

definition LIST_FOREACH_SAFE ::
    "(addr \<Rightarrow> 'q list_mem \<times> 's \<Rightarrow> 'q list_mem \<times> 's) \<Rightarrow> addr option \<Rightarrow> 'q list_mem \<times> 's \<Rightarrow> ('q list_mem \<times> 's) option" where
  "LIST_FOREACH_SAFE body = visit_safe (\<lambda>s. le_next (fst s)) body"

definition LIST_EMPTY :: "'q list_mem \<Rightarrow> 'q \<Rightarrow> bool" where
  "LIST_EMPTY m q \<longleftrightarrow> lh_first m q = None"

definition LIST_FIRST :: "'q list_mem \<Rightarrow> 'q \<Rightarrow> addr option" where
  "LIST_FIRST m q = lh_first m q"

definition LIST_NEXT :: "'q list_mem \<Rightarrow> addr \<Rightarrow> addr option" where
  "LIST_NEXT m e = le_next m e"

text \<open>A tail queue that has lost \<open>tqh_last\<close>.\<close>

definition no_last :: "'q tq_mem \<Rightarrow> 'q list_mem" where
  "no_last M = \<lparr>lh_first = tqh_first M, le_next = tqe_next M, le_prev = tqe_prev M\<rparr>"

lemma no_last_put: "no_last (slot_put M s v) = list_put (no_last M) s v"
  by (cases s) (simp_all add: no_last_def)

lemma no_last_sim:
  "LIST_INIT (no_last M) q = no_last (TAILQ_INIT M q)"
  "LIST_INSERT_AFTER (no_last M) l e = no_last (TAILQ_INSERT_AFTER M q l e)"
  "LIST_INSERT_HEAD (no_last M) q e = no_last (TAILQ_INSERT_HEAD M q e)"
  "LIST_FIRST (no_last M) q = TAILQ_FIRST M q" "LIST_NEXT (no_last M) e = TAILQ_NEXT M e"
  "LIST_EMPTY (no_last M) q = TAILQ_EMPTY M q"
  by (simp_all add: LIST_INIT_def TAILQ_INIT_def LIST_INSERT_AFTER_def TAILQ_INSERT_AFTER_def LIST_INSERT_HEAD_def
      TAILQ_INSERT_HEAD_def LIST_FIRST_def TAILQ_FIRST_def LIST_NEXT_def TAILQ_NEXT_def LIST_EMPTY_def
      TAILQ_EMPTY_def no_last_def Let_def split: option.split)

lemma no_last_before: "LIST_INSERT_BEFORE (no_last M) l e = no_last (TAILQ_INSERT_BEFORE M l e)"
  by (cases "tqe_prev M l")
    (auto simp: LIST_INSERT_BEFORE_def TAILQ_INSERT_BEFORE_def Let_def no_last_def)

lemma no_last_remove: "LIST_REMOVE (no_last M) e = no_last (TAILQ_REMOVE M q e)"
  by (cases "tqe_prev M e"; cases "tqe_next M e")
    (auto simp: LIST_REMOVE_def TAILQ_REMOVE_def Let_def no_last_def)

definition ll :: "'q list_mem \<Rightarrow> 'q \<Rightarrow> addr list \<Rightarrow> bool" where
  "ll m q xs \<longleftrightarrow> (\<exists>M. m = no_last M \<and> tq M q xs)"

interpretation lls: linked_seq ll LIST_FIRST LIST_NEXT LIST_INSERT_HEAD "\<lambda>m q. LIST_INSERT_AFTER m"
    "\<lambda>m q e. Some (Inr (LIST_REMOVE m e))"
proof
  show "LIST_FIRST m q = head_ptr xs" if "ll m q xs" for m :: "'q list_mem" and q xs
    using that by (auto simp: ll_def no_last_sim dest: tqe.lseq.first_ptr)
  show "LIST_NEXT m x = head_ptr ys" if "ll m q (xs @ x # ys)" for m :: "'q list_mem" and q xs x ys
    using that by (auto simp: ll_def no_last_sim dest: tqe.lseq.next_ptr)
  show "ll (LIST_INSERT_HEAD m q e) q (e # xs)" if "ll m q xs" "e \<notin> set xs" for m :: "'q list_mem" and q xs e
    using that tq_insert_head [of _ q xs e] by (auto simp: ll_def no_last_sim)
  show "ll (LIST_INSERT_AFTER m l e) q (xs @ l # e # ys)"
    if "ll m q (xs @ l # ys)" "e \<notin> set (xs @ l # ys)" for m :: "'q list_mem" and q xs l ys e
    using that tq_insert_after [of _ q xs l ys e] no_last_sim(2) [of _ l e q] by (auto simp: ll_def)
  show "\<exists>m'. Some (Inr (LIST_REMOVE m e)) = Some (Inr m') \<and> ll m' q (xs @ ys)"
    if "ll m q (xs @ e # ys)" for m :: "'q list_mem" and q xs e ys
    using that tq_remove [of _ q xs e ys] no_last_remove [of _ e q] by (auto simp: ll_def)
qed

lemma no_last_surj: "\<exists>M. m = no_last M"
  by (rule exI [of _ "\<lparr>tqh_first = lh_first m, tqh_last = HeadSlot, tqe_next = le_next m, tqe_prev = le_prev m\<rparr>"])
    (simp add: no_last_def)

lemma ll_init: "ll (LIST_INIT m q) q []"
  using no_last_surj [of m] tq_init [of _ q] by (auto simp: ll_def no_last_sim)

lemma ll_insert_before:
  "ll m q (xs @ l # ys) \<Longrightarrow> e \<notin> set (xs @ l # ys) \<Longrightarrow> ll (LIST_INSERT_BEFORE m l e) q (xs @ e # l # ys)"
  using tq_insert_before [of _ q xs l ys e] by (auto simp: ll_def no_last_before)

lemma ll_foreach: "ll m q xs \<Longrightarrow> LIST_FOREACH m (LIST_FIRST m q) = Some xs"
  using lls.visit_rep [of m q xs] by (simp add: LIST_FOREACH_def LIST_NEXT_def [abs_def])

text \<open>Two lists lose their last pointers together, so the tail queue leaves the other list alone for both.\<close>

lemma ll_both:
  assumes "ll m q xs" and "ll m q' ys" and "q \<noteq> q'"
  shows "\<exists>M. m = no_last M \<and> tq M q xs \<and> tq M q' ys"
proof -
  obtain M where M: "m = no_last M" "tq M q xs" using assms(1) unfolding ll_def by blast
  obtain M' where M': "m = no_last M'" "tq M' q' ys" using assms(2) unfolding ll_def by blast
  let ?M = "M\<lparr>tqh_last := (tqh_last M)(q' := tqh_last M' q')\<rparr>"
  have "tq ?M q xs"
    by (rule tq_cong [OF M(2)]) (use assms(3) in simp_all)
  moreover have "tq ?M q' ys"
    by (rule tq_cong [OF M'(2)]) (use M(1) M'(1) in \<open>simp_all add: no_last_def\<close>)
  moreover have "m = no_last ?M"
    using M(1) by (simp add: no_last_def)
  ultimately show ?thesis by blast
qed

lemma ll_remove_frame:
  assumes "ll m q (xs @ e # ys)" and "ll m q' zs" and "q \<noteq> q'" and "set (xs @ e # ys) \<inter> set zs = {}"
  shows "ll (LIST_REMOVE m e) q' zs"
proof -
  obtain M where M: "m = no_last M" "tq M q (xs @ e # ys)" "tq M q' zs"
    using ll_both [OF assms(1-3)] by blast
  then have "tq (TAILQ_REMOVE M q e) q' zs"
    using tq_remove_frame [OF M(2,3)] assms(3,4) by simp
  then show ?thesis using M(1) no_last_remove [of M e q] by (auto simp: ll_def)
qed

end
