(* ===== verification/Queue_Simple.thy ===== *)
theory Queue_Simple
  imports Queue_Lists
begin

text \<open>
  The singly linked queues of \<^verbatim>\<open>include/queue.h\<close>, whose head also holds the address of the last pointer:
  \<open>STAILQ\<close> and \<open>SIMPLEQ\<close>, which have the same fields and, under other names, the same macros. Shown: both
  provide the contract \<open>linked_seq\<close>, append at their end, concatenate, and find their last element.
\<close>

record 'q sq_mem =
  sqh_first :: "'q \<Rightarrow> addr option"
  sqh_last :: "'q \<Rightarrow> 'q slot"
  sqe_next :: "addr \<Rightarrow> addr option"

fun sq_put :: "'q sq_mem \<Rightarrow> 'q slot \<Rightarrow> addr option \<Rightarrow> 'q sq_mem" where
  "sq_put m (HeadSlot q) v = m\<lparr>sqh_first := (sqh_first m)(q := v)\<rparr>"
| "sq_put m (NodeSlot a) v = m\<lparr>sqe_next := (sqe_next m)(a := v)\<rparr>"

section \<open>Singly linked tail queues\<close>

definition STAILQ_INIT :: "'q sq_mem \<Rightarrow> 'q \<Rightarrow> 'q sq_mem" where
  "STAILQ_INIT m q = m\<lparr>sqh_first := (sqh_first m)(q := None), sqh_last := (sqh_last m)(q := HeadSlot q)\<rparr>"

definition STAILQ_INSERT_HEAD :: "'q sq_mem \<Rightarrow> 'q \<Rightarrow> addr \<Rightarrow> 'q sq_mem" where
  "STAILQ_INSERT_HEAD m q e =
     (let m1 = m\<lparr>sqe_next := (sqe_next m)(e := sqh_first m q)\<rparr>;
          m2 = (if sqe_next m1 e = None then m1\<lparr>sqh_last := (sqh_last m1)(q := NodeSlot e)\<rparr> else m1)
      in m2\<lparr>sqh_first := (sqh_first m2)(q := Some e)\<rparr>)"

definition STAILQ_INSERT_TAIL :: "'q sq_mem \<Rightarrow> 'q \<Rightarrow> addr \<Rightarrow> 'q sq_mem" where
  "STAILQ_INSERT_TAIL m q e =
     (let m1 = m\<lparr>sqe_next := (sqe_next m)(e := None)\<rparr>;
          m2 = sq_put m1 (sqh_last m1 q) (Some e)
      in m2\<lparr>sqh_last := (sqh_last m2)(q := NodeSlot e)\<rparr>)"

text \<open>The last element, from the address of its \<open>next\<close> field.\<close>

definition STAILQ_LAST :: "'q sq_mem \<Rightarrow> 'q \<Rightarrow> addr option res" where
  "STAILQ_LAST m q =
     (if sqh_first m q = None then Inr None
      else (case sqh_last m q of NodeSlot a \<Rightarrow> Inr (Some a) | HeadSlot _ \<Rightarrow> Inl OutOfBounds))"

definition STAILQ_INSERT_AFTER :: "'q sq_mem \<Rightarrow> 'q \<Rightarrow> addr \<Rightarrow> addr \<Rightarrow> 'q sq_mem" where
  "STAILQ_INSERT_AFTER m q l e =
     (let m1 = m\<lparr>sqe_next := (sqe_next m)(e := sqe_next m l)\<rparr>;
          m2 = (if sqe_next m1 e = None then m1\<lparr>sqh_last := (sqh_last m1)(q := NodeSlot e)\<rparr> else m1)
      in m2\<lparr>sqe_next := (sqe_next m2)(l := Some e)\<rparr>)"

definition STAILQ_REMOVE_HEAD :: "'q sq_mem \<Rightarrow> 'q \<Rightarrow> 'q sq_mem res" where
  "STAILQ_REMOVE_HEAD m q =
     (case sqh_first m q of None \<Rightarrow> Inl NullDeref
      | Some a \<Rightarrow>
          (let m1 = m\<lparr>sqh_first := (sqh_first m)(q := sqe_next m a)\<rparr>
           in Inr (if sqh_first m1 q = None then m1\<lparr>sqh_last := (sqh_last m1)(q := HeadSlot q)\<rparr> else m1)))"

definition STAILQ_REMOVE :: "'q sq_mem \<Rightarrow> 'q \<Rightarrow> addr \<Rightarrow> 'q sq_mem res option" where
  "STAILQ_REMOVE m q e =
     (if sqh_first m q = Some e then Some (STAILQ_REMOVE_HEAD m q)
      else map_option (\<lambda>r. rbind r (\<lambda>c. case sqe_next m c of None \<Rightarrow> Inl NullDeref
          | Some n \<Rightarrow>
              (let m1 = m\<lparr>sqe_next := (sqe_next m)(c := sqe_next m n)\<rparr>
               in Inr (if sqe_next m1 c = None then m1\<lparr>sqh_last := (sqh_last m1)(q := NodeSlot c)\<rparr> else m1))))
        (find_before (sqe_next m) e (sqh_first m q)))"

definition STAILQ_FOREACH :: "'q sq_mem \<Rightarrow> addr option \<Rightarrow> addr list option" where
  "STAILQ_FOREACH m = visit (sqe_next m)"

definition STAILQ_CONCAT :: "'q sq_mem \<Rightarrow> 'q \<Rightarrow> 'q \<Rightarrow> 'q sq_mem" where
  "STAILQ_CONCAT m q1 q2 =
     (if sqh_first m q2 \<noteq> None then
        (let m1 = sq_put m (sqh_last m q1) (sqh_first m q2);
             m2 = m1\<lparr>sqh_last := (sqh_last m1)(q1 := sqh_last m1 q2)\<rparr>
         in STAILQ_INIT m2 q2)
      else m)"

definition STAILQ_EMPTY :: "'q sq_mem \<Rightarrow> 'q \<Rightarrow> bool" where
  "STAILQ_EMPTY m q \<longleftrightarrow> sqh_first m q = None"

definition STAILQ_FIRST :: "'q sq_mem \<Rightarrow> 'q \<Rightarrow> addr option" where
  "STAILQ_FIRST m q = sqh_first m q"

definition STAILQ_NEXT :: "'q sq_mem \<Rightarrow> addr \<Rightarrow> addr option" where
  "STAILQ_NEXT m e = sqe_next m e"

definition STAILQ_FOREACH_SAFE ::
    "(addr \<Rightarrow> 'q sq_mem \<times> 's \<Rightarrow> 'q sq_mem \<times> 's) \<Rightarrow> addr option \<Rightarrow> 'q sq_mem \<times> 's \<Rightarrow> ('q sq_mem \<times> 's) option" where
  "STAILQ_FOREACH_SAFE body = visit_safe (\<lambda>s. sqe_next (fst s)) body"

section \<open>Simple queues\<close>

definition SIMPLEQ_INIT :: "'q sq_mem \<Rightarrow> 'q \<Rightarrow> 'q sq_mem" where
  "SIMPLEQ_INIT m q = m\<lparr>sqh_first := (sqh_first m)(q := None), sqh_last := (sqh_last m)(q := HeadSlot q)\<rparr>"

definition SIMPLEQ_INSERT_HEAD :: "'q sq_mem \<Rightarrow> 'q \<Rightarrow> addr \<Rightarrow> 'q sq_mem" where
  "SIMPLEQ_INSERT_HEAD m q e =
     (let m1 = m\<lparr>sqe_next := (sqe_next m)(e := sqh_first m q)\<rparr>;
          m2 = (if sqe_next m1 e = None then m1\<lparr>sqh_last := (sqh_last m1)(q := NodeSlot e)\<rparr> else m1)
      in m2\<lparr>sqh_first := (sqh_first m2)(q := Some e)\<rparr>)"

definition SIMPLEQ_INSERT_TAIL :: "'q sq_mem \<Rightarrow> 'q \<Rightarrow> addr \<Rightarrow> 'q sq_mem" where
  "SIMPLEQ_INSERT_TAIL m q e =
     (let m1 = m\<lparr>sqe_next := (sqe_next m)(e := None)\<rparr>;
          m2 = sq_put m1 (sqh_last m1 q) (Some e)
      in m2\<lparr>sqh_last := (sqh_last m2)(q := NodeSlot e)\<rparr>)"

definition SIMPLEQ_INSERT_AFTER :: "'q sq_mem \<Rightarrow> 'q \<Rightarrow> addr \<Rightarrow> addr \<Rightarrow> 'q sq_mem" where
  "SIMPLEQ_INSERT_AFTER m q l e =
     (let m1 = m\<lparr>sqe_next := (sqe_next m)(e := sqe_next m l)\<rparr>;
          m2 = (if sqe_next m1 e = None then m1\<lparr>sqh_last := (sqh_last m1)(q := NodeSlot e)\<rparr> else m1)
      in m2\<lparr>sqe_next := (sqe_next m2)(l := Some e)\<rparr>)"

definition SIMPLEQ_REMOVE_HEAD :: "'q sq_mem \<Rightarrow> 'q \<Rightarrow> 'q sq_mem res" where
  "SIMPLEQ_REMOVE_HEAD m q =
     (case sqh_first m q of None \<Rightarrow> Inl NullDeref
      | Some a \<Rightarrow>
          (let m1 = m\<lparr>sqh_first := (sqh_first m)(q := sqe_next m a)\<rparr>
           in Inr (if sqh_first m1 q = None then m1\<lparr>sqh_last := (sqh_last m1)(q := HeadSlot q)\<rparr> else m1)))"

definition SIMPLEQ_REMOVE :: "'q sq_mem \<Rightarrow> 'q \<Rightarrow> addr \<Rightarrow> 'q sq_mem res option" where
  "SIMPLEQ_REMOVE m q e =
     (if sqh_first m q = Some e then Some (SIMPLEQ_REMOVE_HEAD m q)
      else map_option (\<lambda>r. rbind r (\<lambda>c. case sqe_next m c of None \<Rightarrow> Inl NullDeref
          | Some n \<Rightarrow>
              (let m1 = m\<lparr>sqe_next := (sqe_next m)(c := sqe_next m n)\<rparr>
               in Inr (if sqe_next m1 c = None then m1\<lparr>sqh_last := (sqh_last m1)(q := NodeSlot c)\<rparr> else m1))))
        (find_before (sqe_next m) e (sqh_first m q)))"

definition SIMPLEQ_FOREACH :: "'q sq_mem \<Rightarrow> addr option \<Rightarrow> addr list option" where
  "SIMPLEQ_FOREACH m = visit (sqe_next m)"

definition SIMPLEQ_EMPTY :: "'q sq_mem \<Rightarrow> 'q \<Rightarrow> bool" where
  "SIMPLEQ_EMPTY m q \<longleftrightarrow> sqh_first m q = None"

definition SIMPLEQ_FIRST :: "'q sq_mem \<Rightarrow> 'q \<Rightarrow> addr option" where
  "SIMPLEQ_FIRST m q = sqh_first m q"

definition SIMPLEQ_NEXT :: "'q sq_mem \<Rightarrow> addr \<Rightarrow> addr option" where
  "SIMPLEQ_NEXT m e = sqe_next m e"

section \<open>The list a head represents\<close>

definition sq :: "'q sq_mem \<Rightarrow> 'q \<Rightarrow> addr list \<Rightarrow> bool" where
  "sq m q xs \<longleftrightarrow> distinct xs \<and> seqp (sqe_next m) (sqh_first m q) xs None \<and> sqh_last m q = endslot (HeadSlot q) xs"

lemma sq_splitD:
  assumes "sq m q (xs @ e # ys)"
  shows "distinct (xs @ e # ys)" "seqp (sqe_next m) (sqh_first m q) xs (Some e)"
    "seqp (sqe_next m) (sqe_next m e) ys None" "sqh_last m q = endslot (NodeSlot e) ys" "sqe_next m e = head_ptr ys"
  using assms by (auto simp: sq_def endslot_append dest: seqp_head)

lemma sq_init: "sq (STAILQ_INIT m q) q []"
  by (simp add: sq_def STAILQ_INIT_def)

lemma sq_empty: "sq m q xs \<Longrightarrow> STAILQ_EMPTY m q \<longleftrightarrow> xs = []"
  by (cases xs) (auto simp: sq_def STAILQ_EMPTY_def)

lemma sq_insert_head: "sq m q xs \<Longrightarrow> e \<notin> set xs \<Longrightarrow> sq (STAILQ_INSERT_HEAD m q e) q (e # xs)"
  by (cases xs) (auto simp: sq_def STAILQ_INSERT_HEAD_def Let_def)

lemma sq_insert_after:
  assumes "sq m q (xs @ l # ys)" and "e \<notin> set (xs @ l # ys)"
  shows "sq (STAILQ_INSERT_AFTER m q l e) q (xs @ l # e # ys)"
  using assms(2) sq_splitD [OF assms(1)]
  by (cases ys) (auto simp: sq_def endslot_append STAILQ_INSERT_AFTER_def Let_def)

lemma sq_insert_tail:
  assumes "sq m q xs" and "e \<notin> set xs"
  shows "sq (STAILQ_INSERT_TAIL m q e) q (xs @ [e])"
proof (cases xs rule: rev_cases)
  case Nil
  then have "sqh_last m q = HeadSlot q" using assms(1) by (simp add: sq_def)
  then show ?thesis using Nil by (simp add: sq_def STAILQ_INSERT_TAIL_def Let_def)
next
  case (snoc ys y)
  with assms(1) have "sq m q (ys @ y # [])" by simp
  from sq_splitD [OF this] assms(2) snoc show ?thesis
    by (simp add: sq_def STAILQ_INSERT_TAIL_def Let_def endslot_append)
qed

lemma sq_last: "sq m q xs \<Longrightarrow> STAILQ_LAST m q = Inr (if xs = [] then None else Some (last xs))"
  by (cases xs) (auto simp: sq_def STAILQ_LAST_def endslot_def)

lemma sq_remove_head: "sq m q (x # xs) \<Longrightarrow> \<exists>m'. STAILQ_REMOVE_HEAD m q = Inr m' \<and> sq m' q xs"
  by (cases xs) (auto simp: sq_def STAILQ_REMOVE_HEAD_def Let_def)

lemma sq_remove:
  assumes "sq m q (xs @ e # ys)"
  shows "\<exists>m'. STAILQ_REMOVE m q e = Some (Inr m') \<and> sq m' q (xs @ ys)"
proof (cases xs rule: rev_cases)
  case Nil
  then show ?thesis using assms sq_remove_head [of m q e ys] by (auto simp: STAILQ_REMOVE_def sq_def)
next
  case (snoc ws w)
  note s = sq_splitD [OF assms]
  have d: "distinct (ws @ w # e # ys)" and p: "seqp (sqe_next m) (sqh_first m q) (ws @ [w]) (Some e)"
    using s(1,2) snoc by auto
  have "find_before (sqe_next m) e (sqh_first m q) = Some (Inr w)"
    by (rule find_before_mem [OF p]) (use d in auto)
  moreover have "sqh_first m q \<noteq> Some e" using p d by (cases ws) auto
  ultimately show ?thesis using d p s snoc
    by (cases ys) (auto simp: STAILQ_REMOVE_def sq_def endslot_append Let_def)
qed

lemma sq_remove_missing: "sq m q xs \<Longrightarrow> e \<notin> set xs \<Longrightarrow> STAILQ_REMOVE m q e = Some (Inl NullDeref)"
  using find_before_missing [of "sqe_next m" "sqh_first m q" xs e]
  by (cases xs) (auto simp: sq_def STAILQ_REMOVE_def)

lemma sq_concat:
  assumes "sq m q1 xs" and "sq m q2 ys" and "q1 \<noteq> q2" and "set xs \<inter> set ys = {}"
  shows "sq (STAILQ_CONCAT m q1 q2) q1 (xs @ ys) \<and> sq (STAILQ_CONCAT m q1 q2) q2 []"
proof (cases ys)
  case Nil
  then show ?thesis using assms by (simp add: sq_def STAILQ_CONCAT_def)
next
  case (Cons y ys')
  then have f: "sqh_first m q2 = Some y" using assms(2) by (simp add: sq_def)
  show ?thesis
  proof (cases xs rule: rev_cases)
    case Nil
    then have "sqh_last m q1 = HeadSlot q1" using assms(1) by (simp add: sq_def)
    then show ?thesis using assms(2,3) f Cons Nil by (simp add: sq_def STAILQ_CONCAT_def STAILQ_INIT_def Let_def)
  next
    case (snoc ws w)
    with assms(1) have "sq m q1 (ws @ w # [])" by simp
    from sq_splitD [OF this] assms(2-) f Cons snoc show ?thesis
      by (auto simp: sq_def STAILQ_CONCAT_def STAILQ_INIT_def Let_def endslot_append)
  qed
qed

interpretation sqs: linked_seq sq STAILQ_FIRST STAILQ_NEXT STAILQ_INSERT_HEAD STAILQ_INSERT_AFTER STAILQ_REMOVE
proof
  show "STAILQ_FIRST m q = head_ptr xs" if "sq m q xs" for m :: "'q sq_mem" and q xs
    using that by (auto simp: sq_def STAILQ_FIRST_def dest: seqp_head)
  show "STAILQ_NEXT m x = head_ptr ys" if "sq m q (xs @ x # ys)" for m :: "'q sq_mem" and q xs x ys
    using sq_splitD(5) [OF that] by (simp add: STAILQ_NEXT_def)
qed (auto intro: sq_insert_head sq_insert_after sq_remove simp del: set_append)

text \<open>Both families have the same macros.\<close>

lemma simpleq_stailq:
  "SIMPLEQ_INIT = STAILQ_INIT" "SIMPLEQ_INSERT_HEAD = STAILQ_INSERT_HEAD" "SIMPLEQ_INSERT_TAIL = STAILQ_INSERT_TAIL"
  "SIMPLEQ_INSERT_AFTER = STAILQ_INSERT_AFTER" "SIMPLEQ_REMOVE_HEAD = STAILQ_REMOVE_HEAD" "SIMPLEQ_REMOVE = STAILQ_REMOVE"
  "SIMPLEQ_FOREACH = STAILQ_FOREACH" "SIMPLEQ_EMPTY = STAILQ_EMPTY" "SIMPLEQ_FIRST = STAILQ_FIRST" "SIMPLEQ_NEXT = STAILQ_NEXT"
proof -
  show rh: "SIMPLEQ_REMOVE_HEAD = STAILQ_REMOVE_HEAD"
    by (intro ext) (simp add: SIMPLEQ_REMOVE_HEAD_def STAILQ_REMOVE_HEAD_def)
  show "SIMPLEQ_REMOVE = STAILQ_REMOVE" by (intro ext) (simp only: SIMPLEQ_REMOVE_def STAILQ_REMOVE_def rh)
qed (intro ext; simp add: SIMPLEQ_INIT_def STAILQ_INIT_def SIMPLEQ_INSERT_HEAD_def STAILQ_INSERT_HEAD_def
  SIMPLEQ_INSERT_TAIL_def STAILQ_INSERT_TAIL_def SIMPLEQ_INSERT_AFTER_def STAILQ_INSERT_AFTER_def SIMPLEQ_FOREACH_def
  STAILQ_FOREACH_def SIMPLEQ_EMPTY_def STAILQ_EMPTY_def SIMPLEQ_FIRST_def STAILQ_FIRST_def SIMPLEQ_NEXT_def STAILQ_NEXT_def)+

interpretation sms: linked_seq sq SIMPLEQ_FIRST SIMPLEQ_NEXT SIMPLEQ_INSERT_HEAD SIMPLEQ_INSERT_AFTER SIMPLEQ_REMOVE
  unfolding simpleq_stailq by (rule sqs.linked_seq_axioms)

lemma sq_foreach: "sq m q xs \<Longrightarrow> STAILQ_FOREACH m (STAILQ_FIRST m q) = Some xs"
  using sqs.visit_rep [of m q xs] by (simp add: STAILQ_FOREACH_def STAILQ_NEXT_def [abs_def])

end
