(* ===== verification/Queue_Circle.thy ===== *)
theory Queue_Circle
  imports Tailq_Ends
begin

text \<open>
  The circular queues of \<^verbatim>\<open>include/queue.h\<close>: the head takes part in the circle, its two pointers stand where
  an element has its links, and a pointer leads to an element or back to a head. Shown: every macro performs the
  list operation its name promises, at both ends and in both directions; walking on from the last element leads to the
  first. \<open>cq\<close> is the circle of the head and the elements of a list.
\<close>

datatype 'q cptr = CHead 'q | CElem addr

record 'q cq_mem =
  cqh_first :: "'q \<Rightarrow> 'q cptr"
  cqh_last :: "'q \<Rightarrow> 'q cptr"
  cqe_next :: "addr \<Rightarrow> 'q cptr"
  cqe_prev :: "addr \<Rightarrow> 'q cptr"

text \<open>
  The links of a member of the circle. The macros that write test for the head before they take a pointer for an element;
  the head of another queue, which a circle never contains, is written like the own one.
\<close>

fun succ_of :: "'q cq_mem \<Rightarrow> 'q cptr \<Rightarrow> 'q cptr" where
  "succ_of m (CHead q) = cqh_first m q"
| "succ_of m (CElem a) = cqe_next m a"

fun pred_of :: "'q cq_mem \<Rightarrow> 'q cptr \<Rightarrow> 'q cptr" where
  "pred_of m (CHead q) = cqh_last m q"
| "pred_of m (CElem a) = cqe_prev m a"

fun set_succ :: "'q cptr \<Rightarrow> 'q cptr \<Rightarrow> 'q cq_mem \<Rightarrow> 'q cq_mem" where
  "set_succ (CHead q) v m = m\<lparr>cqh_first := (cqh_first m)(q := v)\<rparr>"
| "set_succ (CElem a) v m = m\<lparr>cqe_next := (cqe_next m)(a := v)\<rparr>"

fun set_pred :: "'q cptr \<Rightarrow> 'q cptr \<Rightarrow> 'q cq_mem \<Rightarrow> 'q cq_mem" where
  "set_pred (CHead q) v m = m\<lparr>cqh_last := (cqh_last m)(q := v)\<rparr>"
| "set_pred (CElem a) v m = m\<lparr>cqe_prev := (cqe_prev m)(a := v)\<rparr>"

section \<open>The macros\<close>

definition CIRCLEQ_INIT :: "'q cq_mem \<Rightarrow> 'q \<Rightarrow> 'q cq_mem" where
  "CIRCLEQ_INIT m q = m\<lparr>cqh_first := (cqh_first m)(q := CHead q), cqh_last := (cqh_last m)(q := CHead q)\<rparr>"

definition CIRCLEQ_INSERT_AFTER :: "'q cq_mem \<Rightarrow> 'q \<Rightarrow> addr \<Rightarrow> addr \<Rightarrow> 'q cq_mem" where
  "CIRCLEQ_INSERT_AFTER m q l e =
     (let m1 = m\<lparr>cqe_next := (cqe_next m)(e := cqe_next m l)\<rparr>;
          m2 = m1\<lparr>cqe_prev := (cqe_prev m1)(e := CElem l)\<rparr>;
          m3 = (if cqe_next m2 l = CHead q then m2\<lparr>cqh_last := (cqh_last m2)(q := CElem e)\<rparr>
                else set_pred (cqe_next m2 l) (CElem e) m2)
      in m3\<lparr>cqe_next := (cqe_next m3)(l := CElem e)\<rparr>)"

definition CIRCLEQ_INSERT_BEFORE :: "'q cq_mem \<Rightarrow> 'q \<Rightarrow> addr \<Rightarrow> addr \<Rightarrow> 'q cq_mem" where
  "CIRCLEQ_INSERT_BEFORE m q l e =
     (let m1 = m\<lparr>cqe_next := (cqe_next m)(e := CElem l)\<rparr>;
          m2 = m1\<lparr>cqe_prev := (cqe_prev m1)(e := cqe_prev m1 l)\<rparr>;
          m3 = (if cqe_prev m2 l = CHead q then m2\<lparr>cqh_first := (cqh_first m2)(q := CElem e)\<rparr>
                else set_succ (cqe_prev m2 l) (CElem e) m2)
      in m3\<lparr>cqe_prev := (cqe_prev m3)(l := CElem e)\<rparr>)"

definition CIRCLEQ_INSERT_HEAD :: "'q cq_mem \<Rightarrow> 'q \<Rightarrow> addr \<Rightarrow> 'q cq_mem" where
  "CIRCLEQ_INSERT_HEAD m q e =
     (let m1 = m\<lparr>cqe_next := (cqe_next m)(e := cqh_first m q)\<rparr>;
          m2 = m1\<lparr>cqe_prev := (cqe_prev m1)(e := CHead q)\<rparr>;
          m3 = (if cqh_last m2 q = CHead q then m2\<lparr>cqh_last := (cqh_last m2)(q := CElem e)\<rparr>
                else set_pred (cqh_first m2 q) (CElem e) m2)
      in m3\<lparr>cqh_first := (cqh_first m3)(q := CElem e)\<rparr>)"

definition CIRCLEQ_INSERT_TAIL :: "'q cq_mem \<Rightarrow> 'q \<Rightarrow> addr \<Rightarrow> 'q cq_mem" where
  "CIRCLEQ_INSERT_TAIL m q e =
     (let m1 = m\<lparr>cqe_next := (cqe_next m)(e := CHead q)\<rparr>;
          m2 = m1\<lparr>cqe_prev := (cqe_prev m1)(e := cqh_last m1 q)\<rparr>;
          m3 = (if cqh_first m2 q = CHead q then m2\<lparr>cqh_first := (cqh_first m2)(q := CElem e)\<rparr>
                else set_succ (cqh_last m2 q) (CElem e) m2)
      in m3\<lparr>cqh_last := (cqh_last m3)(q := CElem e)\<rparr>)"

definition CIRCLEQ_REMOVE :: "'q cq_mem \<Rightarrow> 'q \<Rightarrow> addr \<Rightarrow> 'q cq_mem" where
  "CIRCLEQ_REMOVE m q e =
     (let m1 = (if cqe_next m e = CHead q then m\<lparr>cqh_last := (cqh_last m)(q := cqe_prev m e)\<rparr>
                else set_pred (cqe_next m e) (cqe_prev m e) m)
      in if cqe_prev m1 e = CHead q then m1\<lparr>cqh_first := (cqh_first m1)(q := cqe_next m1 e)\<rparr>
         else set_succ (cqe_prev m1 e) (cqe_next m1 e) m1)"

definition CIRCLEQ_EMPTY :: "'q cq_mem \<Rightarrow> 'q \<Rightarrow> bool" where
  "CIRCLEQ_EMPTY m q \<longleftrightarrow> cqh_first m q = CHead q"

definition CIRCLEQ_FIRST :: "'q cq_mem \<Rightarrow> 'q \<Rightarrow> 'q cptr" where
  "CIRCLEQ_FIRST m q = cqh_first m q"

definition CIRCLEQ_LAST :: "'q cq_mem \<Rightarrow> 'q \<Rightarrow> 'q cptr" where
  "CIRCLEQ_LAST m q = cqh_last m q"

definition CIRCLEQ_NEXT :: "'q cq_mem \<Rightarrow> addr \<Rightarrow> 'q cptr" where
  "CIRCLEQ_NEXT m e = cqe_next m e"

definition CIRCLEQ_PREV :: "'q cq_mem \<Rightarrow> addr \<Rightarrow> 'q cptr" where
  "CIRCLEQ_PREV m e = cqe_prev m e"

definition CIRCLEQ_LOOP_NEXT :: "'q cq_mem \<Rightarrow> 'q \<Rightarrow> addr \<Rightarrow> 'q cptr" where
  "CIRCLEQ_LOOP_NEXT m q e = (if cqe_next m e = CHead q then cqh_first m q else cqe_next m e)"

definition CIRCLEQ_LOOP_PREV :: "'q cq_mem \<Rightarrow> 'q \<Rightarrow> addr \<Rightarrow> 'q cptr" where
  "CIRCLEQ_LOOP_PREV m q e = (if cqe_prev m e = CHead q then cqh_last m q else cqe_prev m e)"

text \<open>The loops end at the head.\<close>

fun elem_ptr :: "'q cptr \<Rightarrow> addr option" where
  "elem_ptr (CHead q) = None"
| "elem_ptr (CElem a) = Some a"

text \<open>
  The loops end at their own head only; the head of another queue would be taken for an element and its links
  read from outside it.
\<close>

partial_function (option) circle_visit :: "(addr \<Rightarrow> 'q cptr) \<Rightarrow> 'q \<Rightarrow> 'q cptr \<Rightarrow> addr list res option" where
  "circle_visit nxt q var =
     (case var of
        CHead q' \<Rightarrow> Some (if q' = q then Inr [] else Inl OutOfBounds)
      | CElem a \<Rightarrow> Option.bind (circle_visit nxt q (nxt a)) (\<lambda>r. Some (rbind r (\<lambda>xs. Inr (a # xs)))))"

definition CIRCLEQ_FOREACH :: "'q cq_mem \<Rightarrow> 'q \<Rightarrow> addr list res option" where
  "CIRCLEQ_FOREACH m q = circle_visit (cqe_next m) q (cqh_first m q)"

definition CIRCLEQ_FOREACH_REVERSE :: "'q cq_mem \<Rightarrow> 'q \<Rightarrow> addr list res option" where
  "CIRCLEQ_FOREACH_REVERSE m q = circle_visit (cqe_prev m) q (cqh_last m q)"

section \<open>The circle\<close>

text \<open>Neighbours point to each other.\<close>

fun links :: "'q cq_mem \<Rightarrow> 'q cptr list \<Rightarrow> bool" where
  "links m (a # b # ns) \<longleftrightarrow> succ_of m a = b \<and> pred_of m b = a \<and> links m (b # ns)"
| "links m _ \<longleftrightarrow> True"

definition circle :: "'q \<Rightarrow> addr list \<Rightarrow> 'q cptr list" where
  "circle q xs = CHead q # map CElem xs @ [CHead q]"

definition cq :: "'q cq_mem \<Rightarrow> 'q \<Rightarrow> addr list \<Rightarrow> bool" where
  "cq m q xs \<longleftrightarrow> distinct xs \<and> links m (circle q xs)"

lemma links_append: "links m (as @ n # bs) \<longleftrightarrow> links m (as @ [n]) \<and> links m (n # bs)"
proof (induction as)
  case (Cons a as)
  then show ?case by (cases as) auto
qed simp

lemma links_cong:
  assumes "\<And>n. n \<in> set (butlast ns) \<Longrightarrow> succ_of m' n = succ_of m n"
    and "\<And>n. n \<in> set (tl ns) \<Longrightarrow> pred_of m' n = pred_of m n"
  shows "links m' ns = links m ns"
  using assms
proof (induction m ns rule: links.induct)
  case (1 m a b ns)
  have "links m' (b # ns) = links m (b # ns)"
    by (rule "1.IH") (use "1.prems" in \<open>auto dest: list.set_sel(2) split: if_splits\<close>)
  then show ?case using "1.prems"(1) [of a] "1.prems"(2) [of b] by simp
qed simp_all

text \<open>The members before and after a place in the circle.\<close>

definition before :: "'q \<Rightarrow> addr list \<Rightarrow> 'q cptr" where
  "before q xs = (if xs = [] then CHead q else CElem (last xs))"

definition after :: "'q \<Rightarrow> addr list \<Rightarrow> 'q cptr" where
  "after q ys = (case ys of [] \<Rightarrow> CHead q | y # _ \<Rightarrow> CElem y)"

lemma circle_place:
  obtains as bs where "CHead q # map CElem xs = as @ [before q xs]" "map CElem ys @ [CHead q] = after q ys # bs"
    "distinct xs \<Longrightarrow> before q xs \<notin> set as" "set as \<subseteq> insert (CHead q) (CElem ` set xs)"
    "distinct ys \<Longrightarrow> after q ys \<notin> set bs" "set bs \<subseteq> insert (CHead q) (CElem ` set ys)"
proof -
  let ?as = "butlast (CHead q # map CElem xs)" and ?bs = "tl (map CElem ys @ [CHead q])"
  have "CHead q # map CElem xs = ?as @ [before q xs]" "distinct xs \<Longrightarrow> before q xs \<notin> set ?as"
    "set ?as \<subseteq> insert (CHead q) (CElem ` set xs)"
    by (cases xs rule: rev_cases; force simp: before_def butlast_append)+
  moreover have "map CElem ys @ [CHead q] = after q ys # ?bs" "distinct ys \<Longrightarrow> after q ys \<notin> set ?bs"
    "set ?bs \<subseteq> insert (CHead q) (CElem ` set ys)"
    by (cases ys; force simp: after_def)+
  ultimately show thesis using that by blast
qed

lemma before_after_apart:
  "set xs \<inter> set ys = {} \<Longrightarrow> after q ys \<notin> CElem ` set xs \<and> before q xs \<notin> CElem ` set ys"
  using hd_disjoint [of ys "set xs"] last_disjoint [of xs "set ys"]
  by (cases ys) (auto simp: before_def after_def)

text \<open>A place in the circle whose two sides stay linked when only the links across it change.\<close>

lemma links_sides:
  assumes l: "links m (circle q (xs @ zs @ ys))" and d: "distinct xs" "distinct ys" "set xs \<inter> set ys = {}"
    and m': "\<And>n. n \<noteq> before q xs \<Longrightarrow> n \<notin> N \<Longrightarrow> succ_of m' n = succ_of m n"
      "\<And>n. n \<noteq> after q ys \<Longrightarrow> n \<notin> N \<Longrightarrow> pred_of m' n = pred_of m n"
    and N: "N \<inter> insert (CHead q) (CElem ` (set xs \<union> set ys)) = {}"
    and new: "links m' (before q xs # map CElem ws @ [after q ys])"
  shows "links m' (circle q (xs @ ws @ ys))"
proof -
  obtain as bs where ab: "CHead q # map CElem xs = as @ [before q xs]" "map CElem ys @ [CHead q] = after q ys # bs"
    "before q xs \<notin> set as" "set as \<subseteq> insert (CHead q) (CElem ` set xs)"
    "after q ys \<notin> set bs" "set bs \<subseteq> insert (CHead q) (CElem ` set ys)"
    using circle_place [of q xs ys] d(1,2) by metis
  have c: "circle q (xs @ vs @ ys) = as @ before q xs # map CElem vs @ after q ys # bs" for vs
    using ab(1,2) by (simp add: circle_def)
  have "links m (as @ [before q xs])"
    using l unfolding c by (subst (asm) links_append) blast
  moreover have "links m (after q ys # bs)"
    using l links_append [of m "as @ before q xs # map CElem zs" "after q ys" bs] unfolding c by simp
  moreover have "links m' (as @ [before q xs]) = links m (as @ [before q xs])"
  proof (rule links_cong)
    show "succ_of m' n = succ_of m n" if "n \<in> set (butlast (as @ [before q xs]))" for n
      by (rule m'(1)) (use that ab(3,4) N in auto)
    have "tl (as @ [before q xs]) = map CElem xs" unfolding ab(1) [symmetric] by simp
    then have "n \<in> CElem ` set xs" if "n \<in> set (tl (as @ [before q xs]))" for n
      using that by simp
    then show "pred_of m' n = pred_of m n" if "n \<in> set (tl (as @ [before q xs]))" for n
      using that before_after_apart [OF d(3), of q] N by (intro m'(2)) blast+
  qed
  moreover have "links m' (after q ys # bs) = links m (after q ys # bs)"
  proof (rule links_cong)
    have "butlast (after q ys # bs) = map CElem ys" unfolding ab(2) [symmetric] by simp
    then have "n \<in> CElem ` set ys" if "n \<in> set (butlast (after q ys # bs))" for n
      using that by simp
    then show "succ_of m' n = succ_of m n" if "n \<in> set (butlast (after q ys # bs))" for n
      using that before_after_apart [OF d(3), of q] N by (intro m'(1)) blast+
    show "pred_of m' n = pred_of m n" if "n \<in> set (tl (after q ys # bs))" for n
      by (rule m'(2)) (use that ab(5,6) N in auto)
  qed
  ultimately show ?thesis
    using new links_append [of m' as "before q xs" "map CElem ws @ after q ys # bs"]
      links_append [of m' "before q xs # map CElem ws" "after q ys" bs] unfolding c by simp
qed

lemma succ_set [simp]:
  "succ_of (set_succ n v m) n' = (if n' = n then v else succ_of m n')" "succ_of (set_pred n v m) n' = succ_of m n'"
  by (cases n; cases n'; auto)+

lemma pred_set [simp]:
  "pred_of (set_pred n v m) n' = (if n' = n then v else pred_of m n')" "pred_of (set_succ n v m) n' = pred_of m n'"
  by (cases n; cases n'; auto)+

lemma cq_neighbours:
  assumes "cq m q (xs @ e # ys)"
  shows "cqe_next m e = after q ys" and "cqe_prev m e = before q xs"
proof -
  obtain as bs where ab: "CHead q # map CElem xs = as @ [before q xs]" "map CElem ys @ [CHead q] = after q ys # bs"
    by (rule circle_place)
  have "circle q (xs @ e # ys) = as @ before q xs # CElem e # after q ys # bs"
    using ab by (simp add: circle_def)
  then show "cqe_next m e = after q ys" "cqe_prev m e = before q xs"
    using assms links_append [of m as "before q xs" "CElem e # after q ys # bs"] by (auto simp: cq_def)
qed

lemma cq_head:
  assumes "cq m q xs"
  shows "cqh_first m q = after q xs" and "cqh_last m q = before q xs"
proof -
  obtain as bs where ab: "CHead q # map CElem xs = as @ [before q xs]" "map CElem xs @ [CHead q] = after q xs # bs"
    using circle_place [of q xs xs] by metis
  have "circle q xs = CHead q # after q xs # bs" using ab(2) by (simp add: circle_def)
  then show "cqh_first m q = after q xs" using assms by (simp add: cq_def)
  have "circle q xs = as @ before q xs # [CHead q]" using ab(1) by (simp add: circle_def)
  then show "cqh_last m q = before q xs"
    using assms links_append [of m as "before q xs" "[CHead q]"] by (simp add: cq_def)
qed

text \<open>An insertion sets the four links around the new element, a removal the two that close the gap.\<close>

lemma cq_splice:
  assumes q: "cq m q (xs @ ys)" and e: "e \<notin> set (xs @ ys)"
    and m': "\<And>n. succ_of m' n = (if n = before q xs then CElem e else if n = CElem e then after q ys else succ_of m n)"
      "\<And>n. pred_of m' n = (if n = after q ys then CElem e else if n = CElem e then before q xs else pred_of m n)"
  shows "cq m' q (xs @ e # ys)"
proof -
  have "CElem e \<noteq> before q xs" "CElem e \<noteq> after q ys"
    using e by (cases ys; auto simp: before_def after_def)+
  then have "links m' (before q xs # map CElem [e] @ [after q ys])"
    using m' [of "before q xs"] m' [of "CElem e"] m' [of "after q ys"] by simp
  then have "links m' (circle q (xs @ [e] @ ys))"
    using links_sides [of m q xs "[]" ys "{CElem e}" m' "[e]"] q e m' by (auto simp: cq_def)
  then show ?thesis using q e by (auto simp: cq_def)
qed

lemma cq_join:
  assumes q: "cq m q (xs @ e # ys)"
    and m': "\<And>n. succ_of m' n = (if n = before q xs then after q ys else succ_of m n)"
      "\<And>n. pred_of m' n = (if n = after q ys then before q xs else pred_of m n)"
  shows "cq m' q (xs @ ys)"
proof -
  have "links m' (before q xs # map CElem [] @ [after q ys])" by (simp add: m')
  then have "links m' (circle q (xs @ [] @ ys))"
    using links_sides [of m q xs "[e]" ys "{}" m' "[]"] q m' by (auto simp: cq_def)
  then show ?thesis using q by (auto simp: cq_def)
qed

section \<open>The macros on the circle\<close>

lemma before_simps [simp]: "before q [] = CHead q" "before q (xs @ [x]) = CElem x"
  by (simp_all add: before_def)

lemma after_simps [simp]: "after q [] = CHead q" "after q (y # ys) = CElem y"
  by (simp_all add: after_def)

lemma before_head [simp]: "before q xs = CHead q \<longleftrightarrow> xs = []"
  by (simp add: before_def)

lemma after_head [simp]: "after q ys = CHead q \<longleftrightarrow> ys = []"
  by (cases ys) simp_all

lemma place_new: "e \<notin> set xs \<Longrightarrow> before q xs \<noteq> CElem e" "e \<notin> set xs \<Longrightarrow> after q xs \<noteq> CElem e"
  by (auto simp: before_def after_def split: list.splits)

lemma cq_init: "cq (CIRCLEQ_INIT m q) q []"
  by (simp add: cq_def circle_def CIRCLEQ_INIT_def)

lemma cq_empty: "cq m q xs \<Longrightarrow> CIRCLEQ_EMPTY m q \<longleftrightarrow> xs = []"
  by (simp add: CIRCLEQ_EMPTY_def cq_head)

text \<open>The four links, whichever branch the macros take.\<close>

definition splice :: "'q cptr \<Rightarrow> addr \<Rightarrow> 'q cptr \<Rightarrow> 'q cq_mem \<Rightarrow> 'q cq_mem" where
  "splice p e n m = set_succ p (CElem e) (set_pred n (CElem e) (set_pred (CElem e) p (set_succ (CElem e) n m)))"

lemma splice_cq:
  assumes "cq m q (xs @ ys)" and "e \<notin> set (xs @ ys)"
  shows "cq (splice (before q xs) e (after q ys) m) q (xs @ e # ys)"
  by (rule cq_splice [OF assms]) (use place_new [of e] assms(2) in \<open>auto simp: splice_def simp del: set_succ.simps set_pred.simps\<close>)

lemma cq_insert_after:
  assumes q: "cq m q (xs @ l # ys)" and e: "e \<notin> set (xs @ l # ys)"
  shows "cq (CIRCLEQ_INSERT_AFTER m q l e) q (xs @ l # e # ys)"
proof -
  have "CIRCLEQ_INSERT_AFTER m q l e = splice (CElem l) e (after q ys) m"
    using e cq_neighbours(1) [OF q] by (cases ys) (auto simp: CIRCLEQ_INSERT_AFTER_def splice_def Let_def)
  then show ?thesis using splice_cq [of m q "xs @ [l]" ys e] q e by simp
qed

lemma cq_insert_before:
  assumes q: "cq m q (xs @ l # ys)" and e: "e \<notin> set (xs @ l # ys)"
  shows "cq (CIRCLEQ_INSERT_BEFORE m q l e) q (xs @ e # l # ys)"
proof -
  have "CIRCLEQ_INSERT_BEFORE m q l e = splice (before q xs) e (CElem l) m"
    using e cq_neighbours(2) [OF q]
    by (cases xs rule: rev_cases) (auto simp: CIRCLEQ_INSERT_BEFORE_def splice_def Let_def)
  then show ?thesis using splice_cq [of m q xs "l # ys" e] q e by simp
qed

lemma cq_insert_head:
  assumes q: "cq m q xs" and e: "e \<notin> set xs"
  shows "cq (CIRCLEQ_INSERT_HEAD m q e) q (e # xs)"
proof -
  have "CIRCLEQ_INSERT_HEAD m q e = splice (CHead q) e (after q xs) m"
    using e cq_head [OF q] by (cases xs) (auto simp: CIRCLEQ_INSERT_HEAD_def splice_def Let_def)
  then show ?thesis using splice_cq [of m q "[]" xs e] q e by simp
qed

lemma cq_insert_tail:
  assumes q: "cq m q xs" and e: "e \<notin> set xs"
  shows "cq (CIRCLEQ_INSERT_TAIL m q e) q (xs @ [e])"
proof -
  have "CIRCLEQ_INSERT_TAIL m q e = splice (before q xs) e (CHead q) m"
    using e cq_head [OF q] by (cases xs rule: rev_cases) (auto simp: CIRCLEQ_INSERT_TAIL_def splice_def Let_def)
  then show ?thesis using splice_cq [of m q xs "[]" e] q e by simp
qed

lemma cq_remove:
  assumes q: "cq m q (xs @ e # ys)"
  shows "cq (CIRCLEQ_REMOVE m q e) q (xs @ ys)"
proof (rule cq_join [OF q])
  have "e \<notin> set xs" "e \<notin> set ys" using q by (auto simp: cq_def)
  note ne = place_new(1) [OF this(1), of q] place_new(2) [OF this(2), of q]
  have "CIRCLEQ_REMOVE m q e = set_succ (before q xs) (after q ys) (set_pred (after q ys) (before q xs) m)"
    using cq_neighbours [OF q] ne
    by (cases "after q ys"; cases "before q xs") (auto simp: CIRCLEQ_REMOVE_def Let_def)
  then show "succ_of (CIRCLEQ_REMOVE m q e) n = (if n = before q xs then after q ys else succ_of m n)"
    and "pred_of (CIRCLEQ_REMOVE m q e) n = (if n = after q ys then before q xs else pred_of m n)" for n
    by simp_all
qed

section \<open>Walking\<close>

lemma elem_ptr_after [simp]: "elem_ptr (after q ys) = head_ptr ys"
  by (cases ys) simp_all

lemma elem_ptr_before [simp]: "elem_ptr (before q xs) = head_ptr (rev xs)"
  by (cases xs rule: rev_cases) simp_all

interpretation cqs: linked_seq cq "\<lambda>m q. elem_ptr (CIRCLEQ_FIRST m q)" "\<lambda>m a. elem_ptr (CIRCLEQ_NEXT m a)"
    CIRCLEQ_INSERT_HEAD CIRCLEQ_INSERT_AFTER "\<lambda>m q e. Some (Inr (CIRCLEQ_REMOVE m q e))"
  by unfold_locales
    (auto simp: CIRCLEQ_FIRST_def CIRCLEQ_NEXT_def cq_head cq_neighbours
      intro: cq_insert_head cq_insert_after cq_remove simp del: set_append)

lemma circle_visit_path:
  assumes "\<And>ys y zs. xs = ys @ y # zs \<Longrightarrow> nxt y = after q zs"
  shows "circle_visit nxt q (after q xs) = Some (Inr xs)"
  using assms
proof (induction xs)
  case Nil
  then show ?case by (simp add: circle_visit.simps after_def)
next
  case (Cons x xs)
  have "nxt x = after q xs" using Cons.prems [of "[]" x xs] by simp
  moreover have "circle_visit nxt q (after q xs) = Some (Inr xs)"
    by (rule Cons.IH) (use Cons.prems [of "x # _"] in simp)
  ultimately show ?case by (simp add: circle_visit.simps [of nxt q "CElem x"] after_def [of q "x # xs"])
qed

lemma before_rev: "before q xs = after q (rev xs)"
  by (cases xs rule: rev_cases) (simp_all add: before_def after_def)

lemma cq_foreach:
  assumes "cq m q xs"
  shows "CIRCLEQ_FOREACH m q = Some (Inr xs)"
proof -
  have "circle_visit (cqe_next m) q (after q xs) = Some (Inr xs)"
    by (rule circle_visit_path) (use cq_neighbours(1) [of m q] assms in blast)
  then show ?thesis by (simp add: CIRCLEQ_FOREACH_def cq_head(1) [OF assms])
qed

lemma cq_foreach_reverse:
  assumes "cq m q xs"
  shows "CIRCLEQ_FOREACH_REVERSE m q = Some (Inr (rev xs))"
proof -
  have "circle_visit (cqe_prev m) q (after q (rev xs)) = Some (Inr (rev xs))"
  proof (rule circle_visit_path)
    fix ys y zs assume "rev xs = ys @ y # zs"
    then have "xs = rev zs @ y # rev ys" by (simp add: rev_swap)
    then show "cqe_prev m y = after q zs"
      using cq_neighbours(2) [of m q "rev zs"] assms by (simp add: before_rev)
  qed
  then show ?thesis by (simp add: CIRCLEQ_FOREACH_REVERSE_def cq_head(2) [OF assms] before_rev)
qed

text \<open>\<open>CIRCLEQ_LOOP_NEXT\<close> goes around: the successor in the list, and from the last element the first.\<close>

lemma cq_loop_next:
  assumes "cq m q (xs @ e # ys)"
  shows "CIRCLEQ_LOOP_NEXT m q e = CElem (hd (ys @ xs @ [e]))"
  using cq_neighbours(1) [OF assms] cq_head(1) [OF assms]
  by (cases ys; cases xs) (simp_all add: CIRCLEQ_LOOP_NEXT_def)

lemma cq_loop_prev:
  assumes "cq m q (xs @ e # ys)"
  shows "CIRCLEQ_LOOP_PREV m q e = CElem (last (e # ys @ xs))"
  using cq_neighbours(2) [OF assms] cq_head(2) [OF assms]
  by (cases xs rule: rev_cases) (auto simp: CIRCLEQ_LOOP_PREV_def before_def)

text \<open>A circle whose members and head were not written stays the same.\<close>

lemma cq_cong:
  assumes "cq m q xs" and "cqh_first m' q = cqh_first m q" and "cqh_last m' q = cqh_last m q"
    and "\<And>x. x \<in> set xs \<Longrightarrow> cqe_next m' x = cqe_next m x \<and> cqe_prev m' x = cqe_prev m x"
  shows "cq m' q xs"
proof -
  have "succ_of m' n = succ_of m n \<and> pred_of m' n = pred_of m n" if "n \<in> set (circle q xs)" for n
    using that assms(2-4) by (auto simp: circle_def)
  then have "links m' (circle q xs) = links m (circle q xs)"
    by (intro links_cong) (auto simp: circle_def dest: in_set_butlastD)
  then show ?thesis using assms(1) by (simp add: cq_def)
qed

end
