(* ===== verification/Queue_Families.thy ===== *)
theory Queue_Families
  imports Queue_Simple Queue_Circle
begin

text \<open>
  All families of \<^verbatim>\<open>include/queue.h\<close> next to each other: with the same list in each of them, each macro that
  removes an element leaves the same list, as their loops see it.
\<close>

lemma removed_tq: "tq m q xs \<Longrightarrow> e \<in> set xs \<Longrightarrow> tq (TAILQ_REMOVE m q e) q (remove1 e xs)"
  using tqe.lseq.unlink_mem [of m q xs e] by auto

lemma removed_ll: "ll m q xs \<Longrightarrow> e \<in> set xs \<Longrightarrow> ll (LIST_REMOVE m e) q (remove1 e xs)"
  using lls.unlink_mem [of m q xs e] by auto

lemma removed_cq: "cq m q xs \<Longrightarrow> e \<in> set xs \<Longrightarrow> cq (CIRCLEQ_REMOVE m q e) q (remove1 e xs)"
  using cqs.unlink_mem [of m q xs e] by auto

text \<open>
  C31. The six families are interchangeable: where their heads represent the same list, removing any element returns in all
  of them, the two that search included, and their loops then visit the same elements, the list without the one removed.
\<close>

theorem queue_families_agree:
  assumes "tq m1 q xs" and "ll m2 q xs" and "sl m3 q xs" and "sq m4 q xs" and "cq m5 q xs" and "e \<in> set xs"
  shows "(let m1 = TAILQ_REMOVE m1 q e in TAILQ_FOREACH m1 (TAILQ_FIRST m1 q) = Some (remove1 e xs)) \<and>
    (let m2 = LIST_REMOVE m2 e in LIST_FOREACH m2 (LIST_FIRST m2 q) = Some (remove1 e xs)) \<and>
    (\<exists>m. SLIST_REMOVE m3 q e = Some (Inr m) \<and> SLIST_FOREACH m (SLIST_FIRST m q) = Some (remove1 e xs)) \<and>
    (\<exists>m. STAILQ_REMOVE m4 q e = Some (Inr m) \<and> STAILQ_FOREACH m (STAILQ_FIRST m q) = Some (remove1 e xs) \<and>
      SIMPLEQ_REMOVE m4 q e = Some (Inr m) \<and> SIMPLEQ_FOREACH m (SIMPLEQ_FIRST m q) = Some (remove1 e xs)) \<and>
    (let m5 = CIRCLEQ_REMOVE m5 q e in CIRCLEQ_FOREACH m5 q = Some (Inr (remove1 e xs)) \<and>
      CIRCLEQ_FOREACH_REVERSE m5 q = Some (Inr (rev (remove1 e xs))))"
  using tq_foreach [OF removed_tq [OF assms(1,6)]] ll_foreach [OF removed_ll [OF assms(2,6)]]
    sls.unlink_mem [OF assms(3,6)] sqs.unlink_mem [OF assms(4,6)] removed_cq [OF assms(5,6)]
  by (auto simp: simpleq_stailq sl_foreach sq_foreach cq_foreach cq_foreach_reverse)

text \<open>Two elements, put in at the head of every family.\<close>

definition ex_tq :: "unit tq_mem" where
  "ex_tq = TAILQ_INSERT_HEAD (TAILQ_INSERT_HEAD (TAILQ_INIT
     \<lparr>tqh_first = \<lambda>_. None, tqh_last = HeadSlot, tqe_next = \<lambda>_. None, tqe_prev = \<lambda>_. HeadSlot ()\<rparr> ()) () 2) () 1"

definition ex_ll :: "unit list_mem" where
  "ex_ll = LIST_INSERT_HEAD (LIST_INSERT_HEAD (LIST_INIT
     \<lparr>lh_first = \<lambda>_. None, le_next = \<lambda>_. None, le_prev = \<lambda>_. HeadSlot ()\<rparr> ()) () 2) () 1"

definition ex_sl :: "unit slist_mem" where
  "ex_sl = SLIST_INSERT_HEAD (SLIST_INSERT_HEAD (SLIST_INIT \<lparr>slh_first = \<lambda>_. None, sle_next = \<lambda>_. None\<rparr> ()) () 2) () 1"

definition ex_sq :: "unit sq_mem" where
  "ex_sq = STAILQ_INSERT_HEAD (STAILQ_INSERT_HEAD (STAILQ_INIT
     \<lparr>sqh_first = \<lambda>_. None, sqh_last = HeadSlot, sqe_next = \<lambda>_. None\<rparr> ()) () 2) () 1"

definition ex_cq :: "unit cq_mem" where
  "ex_cq = CIRCLEQ_INSERT_HEAD (CIRCLEQ_INSERT_HEAD (CIRCLEQ_INIT
     \<lparr>cqh_first = CHead, cqh_last = CHead, cqe_next = \<lambda>_. CHead (), cqe_prev = \<lambda>_. CHead ()\<rparr> ()) () 2) () 1"

lemma ex_families: "tq ex_tq () [1, 2]" "ll ex_ll () [1, 2]" "sl ex_sl () [1, 2]" "sq ex_sq () [1, 2]" "cq ex_cq () [1, 2]"
  unfolding ex_tq_def ex_ll_def ex_sl_def ex_sq_def ex_cq_def
  by (rule tqe.insert_head_rep lls.push_rep sls.push_rep sqs.push_rep cqs.push_rep tq_init ll_init sl_init sq_init cq_init | simp)+

lemma queue_families_agree_witness:
  "CIRCLEQ_FOREACH (CIRCLEQ_REMOVE ex_cq () 1) () = Some (Inr [2]) \<and>
   (\<exists>m. SLIST_REMOVE ex_sl () 1 = Some (Inr m) \<and> SLIST_FOREACH m (SLIST_FIRST m ()) = Some [2])"
  using queue_families_agree [OF ex_families, of 1] by (simp add: Let_def)

end
