(* ===== verification/Ring_Buffer.thy ===== *)
theory Ring_Buffer
  imports Rfx_Prelude
begin

text \<open>
  The macros of \<^verbatim>\<open>include/ring_buffer.h\<close>: a circle of \<open>capacity + 1\<close> bytes, of which one always stays
  free, with positions that wrap around in 32 bits. Shown: over well-formed rings the macros are operations
  on the list of the bytes stored, however the circle lies in the buffer; \<open>ring_buffer_getchar\<close> takes the first
  byte, the count is the length of the list, and the ring is full when it holds \<open>capacity\<close> bytes. The functions of this
  header are declared there and defined nowhere.
\<close>

record ring =
  rb_head :: u32
  rb_tail :: u32
  rb_capacity :: u32
  rb_buf :: bytes

section \<open>The macros\<close>

text \<open>The remainder all positions are taken of: with the largest capacity it divides by zero.\<close>

definition ring_mod :: "ring \<Rightarrow> u32 \<Rightarrow> u32 res" where
  "ring_mod r x = (if rb_capacity r + 1 = 0 then Inl DivisionByZero else Inr (x mod (rb_capacity r + 1)))"

definition ring_buffer_is_empty :: "ring \<Rightarrow> bool" where
  "ring_buffer_is_empty r \<longleftrightarrow> rb_head r = rb_tail r"

definition ring_buffer_is_full :: "ring \<Rightarrow> bool res" where
  "ring_buffer_is_full r = rbind (ring_mod r (rb_head r + 1)) (\<lambda>h. Inr (h = rb_tail r))"

definition ring_buffer_bytes :: "ring \<Rightarrow> u32" where
  "ring_buffer_bytes r =
     (if rb_head r \<ge> rb_tail r then rb_head r - rb_tail r else rb_capacity r + 1 + rb_head r - rb_tail r)"

definition ring_buffer_getchar :: "ring \<Rightarrow> (u8 \<times> ring) res" where
  "ring_buffer_getchar r =
     rbind (peek (rb_buf r) (unat (rb_tail r))) (\<lambda>c.
     rbind (ring_mod r (rb_tail r + 1)) (\<lambda>t. Inr (c, r\<lparr>rb_tail := t\<rparr>)))"

text \<open>The offset in the buffer and the length of the vector entry to read into.\<close>

definition ring_buffer_iov :: "ring \<Rightarrow> nat \<times> u32" where
  "ring_buffer_iov r = (0, rb_capacity r)"

definition ring_buffer_set :: "u32 \<Rightarrow> u32 \<Rightarrow> ring \<Rightarrow> ring" where
  "ring_buffer_set skip tot r = r\<lparr>rb_head := tot, rb_tail := skip\<rparr>"

definition ring_buffer_adjust :: "u32 \<Rightarrow> ring \<Rightarrow> ring" where
  "ring_buffer_adjust nbytes r = r\<lparr>rb_head := rb_head r + nbytes\<rparr>"

section \<open>The bytes stored\<close>

definition ring_size :: "ring \<Rightarrow> nat" where
  "ring_size r = unat (rb_capacity r) + 1"

definition ring_ok :: "ring \<Rightarrow> bool" where
  "ring_ok r \<longleftrightarrow> ring_size r < 2 ^ 32 \<and> length (rb_buf r) = ring_size r \<and>
     unat (rb_head r) < ring_size r \<and> unat (rb_tail r) < ring_size r"

definition contents :: "ring \<Rightarrow> bytes" where
  "contents r = map (\<lambda>i. rb_buf r ! ((unat (rb_tail r) + i) mod ring_size r)) [0..<unat (ring_buffer_bytes r)]"

lemma unat_size: "ring_ok r \<Longrightarrow> unat (rb_capacity r + 1) = ring_size r"
  by (simp add: ring_ok_def ring_size_def unat_word_ariths)

lemma ring_mod_ok:
  assumes "ring_ok r" and "unat x < ring_size r"
  shows "\<exists>y. ring_mod r (x + 1) = Inr y \<and> unat y = (unat x + 1) mod ring_size r"
proof -
  have "unat (x + 1) = unat x + 1"
    using assms by (simp add: ring_ok_def unat_word_ariths)
  moreover have "rb_capacity r + 1 \<noteq> 0"
    using unat_size [OF assms(1)] by (auto simp: ring_size_def)
  ultimately show ?thesis
    using unat_size [OF assms(1)] by (simp add: ring_mod_def unat_mod_distrib)
qed

lemma unat_bytes:
  assumes "ring_ok r"
  shows "unat (ring_buffer_bytes r) =
    (if unat (rb_tail r) \<le> unat (rb_head r) then unat (rb_head r) - unat (rb_tail r)
     else ring_size r + unat (rb_head r) - unat (rb_tail r))"
proof (cases "unat (rb_tail r) \<le> unat (rb_head r)")
  case True
  then show ?thesis by (simp add: ring_buffer_bytes_def word_le_nat_alt unat_sub)
next
  case False
  let ?n = "ring_size r + unat (rb_head r) - unat (rb_tail r)"
  have "rb_capacity r + 1 + rb_head r - rb_tail r = (of_nat ?n :: u32)"
    using assms by (simp add: ring_ok_def of_nat_diff ring_size_def)
  moreover have "?n < 2 ^ 32" using assms False by (simp add: ring_ok_def) linarith
  then have "unat (of_nat ?n :: u32) = ?n" by (simp add: unsigned_of_nat take_bit_nat_eq_self)
  ultimately show ?thesis
    using False by (simp add: ring_buffer_bytes_def word_le_nat_alt)
qed

lemma contents_length: "length (contents r) = unat (ring_buffer_bytes r)"
  by (simp add: contents_def)

lemma ring_empty: "ring_ok r \<Longrightarrow> ring_buffer_is_empty r \<longleftrightarrow> contents r = []"
  using unat_bytes [of r] by (auto simp: ring_buffer_is_empty_def contents_def ring_ok_def word_unat_eq_iff split: if_splits)

text \<open>Less than the whole buffer is ever stored, and the ring is full when all but one byte are.\<close>

lemma ring_bounded: "ring_ok r \<Longrightarrow> length (contents r) \<le> unat (rb_capacity r)"
  using unat_bytes [of r] by (auto simp: contents_length ring_ok_def ring_size_def)

lemma ring_full:
  assumes "ring_ok r"
  shows "ring_buffer_is_full r = Inr (length (contents r) = unat (rb_capacity r))"
proof -
  have h: "unat (rb_head r) < ring_size r" "unat (rb_tail r) < ring_size r" using assms by (auto simp: ring_ok_def)
  obtain y where y: "ring_mod r (rb_head r + 1) = Inr y" "unat y = (unat (rb_head r) + 1) mod ring_size r"
    using ring_mod_ok [OF assms h(1)] by blast
  have "y = rb_tail r \<longleftrightarrow> (unat (rb_head r) + 1) mod ring_size r = unat (rb_tail r)"
    using y(2) by (metis unsigned_word_eqI)
  also have "\<dots> \<longleftrightarrow> length (contents r) = unat (rb_capacity r)"
    using h unat_bytes [OF assms] by (auto simp: contents_length ring_size_def mod_Suc split: if_splits)
  finally show ?thesis using y(1) by (simp add: ring_buffer_is_full_def)
qed

lemma count_step:
  fixes h t n :: nat
  assumes "h < n" and "t < n" and "t \<noteq> h"
  shows "(if (t + 1) mod n \<le> h then h - (t + 1) mod n else n + h - (t + 1) mod n) = (if t \<le> h then h - t else n + h - t) - 1"
  using assms by (cases "t + 1 = n") auto

text \<open>Taking a character takes the first one, also where the circle wraps around.\<close>

lemma ring_getchar:
  assumes "ring_ok r" and "contents r = c # cs"
  shows "\<exists>r'. ring_buffer_getchar r = Inr (c, r') \<and> ring_ok r' \<and> contents r' = cs"
proof -
  have h: "unat (rb_head r) < ring_size r" "unat (rb_tail r) < ring_size r" "length (rb_buf r) = ring_size r"
    using assms(1) by (auto simp: ring_ok_def)
  obtain y where y: "ring_mod r (rb_tail r + 1) = Inr y" "unat y = (unat (rb_tail r) + 1) mod ring_size r"
    using ring_mod_ok [OF assms(1) h(2)] by blast
  let ?r = "r\<lparr>rb_tail := y\<rparr>" and ?n = "unat (ring_buffer_bytes r)"
  have sz: "ring_size ?r = ring_size r" "rb_tail ?r = y" "rb_head ?r = rb_head r" by (simp_all add: ring_size_def)
  have ok: "ring_ok ?r" using assms(1) y(2) sz by (simp add: ring_ok_def)
  have n: "?n \<noteq> 0" using assms(2) contents_length [of r] by (metis length_0_conv list.discI)
  have ne: "unat (rb_tail r) \<noteq> unat (rb_head r)" using n unat_bytes [OF assms(1)] by auto
  have n': "unat (ring_buffer_bytes ?r) = ?n - 1"
    by (simp only: unat_bytes [OF ok] unat_bytes [OF assms(1)] sz y(2) count_step [OF h(1,2) ne])
  have split: "[0..<?n] = 0 # map Suc [0..<?n - 1]" 
    using n by (cases ?n) (simp_all add: upt_conv_Cons map_Suc_upt del: upt_Suc)
  have "contents r = rb_buf r ! unat (rb_tail r) # contents ?r"
    unfolding contents_def split n' sz using h y(2) by (simp add: mod_add_left_eq)
  then have "c = rb_buf r ! unat (rb_tail r)" "contents ?r = cs" using assms(2) by simp_all
  then show ?thesis using ok y(1) h by (simp add: ring_buffer_getchar_def)
qed

text \<open>Reading into the vector entry of an emptied ring: the ring holds what was read, behind what is skipped.\<close>

lemma ring_fill:
  assumes "ring_ok r" and "length bs \<le> unat (snd (ring_buffer_iov r))"
    and "poke (rb_buf r) (fst (ring_buffer_iov r)) bs = Inr buf"
  defines "r' \<equiv> ring_buffer_adjust (of_nat (length bs)) (ring_buffer_set 0 0 (r\<lparr>rb_buf := buf\<rparr>))"
  shows "ring_ok r' \<and> contents r' = bs"
proof -
  have b: "length bs < ring_size r" "ring_size r < 2 ^ 32"
    using assms(1,2) by (auto simp: ring_buffer_iov_def ring_size_def ring_ok_def)
  then have u: "unat (of_nat (length bs) :: u32) = length bs" by (simp add: unsigned_of_nat take_bit_nat_eq_self)
  have f: "rb_tail r' = 0" "rb_head r' = of_nat (length bs)" "rb_buf r' = buf" "ring_size r' = ring_size r"
    by (simp_all add: r'_def ring_buffer_adjust_def ring_buffer_set_def ring_size_def)
  have "buf = bs @ drop (length bs) (rb_buf r)"
    using assms(1,3) b by (simp add: ring_buffer_iov_def ring_ok_def)
  moreover have ok: "ring_ok r'"
    using assms(1) b u f poke_length [OF assms(3)] by (simp add: ring_ok_def)
  moreover have "unat (ring_buffer_bytes r') = length bs"
    using unat_bytes [OF ok] f u by simp
  ultimately show ?thesis
    using b f by (auto simp: contents_def nth_append intro: nth_equalityI)
qed

lemma ring_set:
  assumes "ring_ok r" and "skip \<le> tot" and "unat tot < ring_size r"
  shows "ring_ok (ring_buffer_set skip tot r)"
    and "contents (ring_buffer_set skip tot r) = drop (unat skip) (take (unat tot) (rb_buf r))"
proof -
  let ?r = "ring_buffer_set skip tot r"
  have f: "rb_tail ?r = skip" "rb_head ?r = tot" "rb_buf ?r = rb_buf r" "ring_size ?r = ring_size r"
    by (simp_all add: ring_buffer_set_def ring_size_def)
  have le: "unat skip \<le> unat tot" using assms(2) by (simp add: word_le_nat_alt)
  show ok: "ring_ok ?r" using assms(1,3) f le by (simp add: ring_ok_def)
  have "unat (ring_buffer_bytes ?r) = unat tot - unat skip" using unat_bytes [OF ok] f le by simp
  then show "contents ?r = drop (unat skip) (take (unat tot) (rb_buf r))"
    using assms(1,3) f by (auto simp: contents_def ring_ok_def intro!: nth_equalityI)
qed

end
