(* ===== verification/Text_Util.thy ===== *)
theory Text_Util
  imports Rfx_Prelude
begin

text \<open>
  Characters and numbers in byte strings: the C library's character classes in the C locale (a
  byte above 127 belongs to none of them), string literals as bytes, C strings in a buffer, the
  decimal conversion of \<open>printf\<close>, and the hexadecimal digit readers \<open>hex2i\<close> of
  \<^verbatim>\<open>rfx_modules.cpp\<close> and \<open>xdigit2i\<close> of \<^verbatim>\<open>lib/misc.c\<close>.
\<close>

definition asc :: "string \<Rightarrow> bytes" where
  "asc s = map of_char s"

definition isspace :: "u8 \<Rightarrow> bool" where
  "isspace c \<longleftrightarrow> c = 0x20 \<or> 9 \<le> c \<and> c \<le> 13"

definition isdigit :: "u8 \<Rightarrow> bool" where
  "isdigit c \<longleftrightarrow> 0x30 \<le> c \<and> c \<le> 0x39"

definition isxdigit :: "u8 \<Rightarrow> bool" where
  "isxdigit c \<longleftrightarrow> isdigit c \<or> 0x41 \<le> c \<and> c \<le> 0x46 \<or> 0x61 \<le> c \<and> c \<le> 0x66"

text \<open>The C string that starts at offset \<open>i\<close> of a buffer; without a NUL the reader runs off its end.\<close>

definition cstr_at :: "bytes \<Rightarrow> nat \<Rightarrow> bytes res" where
  "cstr_at buf i =
     (if 0 \<in> set (drop i buf) then Inr (takeWhile (\<lambda>c. c \<noteq> 0) (drop i buf)) else Inl OutOfBounds)"

text \<open>\<open>%u\<close>.\<close>

fun dec :: "nat \<Rightarrow> bytes" where
  "dec n = (if n < 10 then [0x30 + of_nat n] else dec (n div 10) @ [0x30 + of_nat (n mod 10)])"

declare dec.simps [simp del]

lemma dec_length: "10 ^ k \<le> n \<Longrightarrow> n < 10 ^ Suc k \<Longrightarrow> length (dec n) = Suc k"
proof (induction k arbitrary: n)
  case 0
  then show ?case by (subst dec.simps) simp
next
  case (Suc k)
  have "length (dec (n div 10)) = Suc k"
    by (rule Suc.IH) (use Suc.prems in auto)
  moreover have "(10 :: nat) \<le> 10 ^ Suc k" by simp
  then have "\<not> n < 10" using Suc.prems(1) by linarith
  ultimately show ?case by (subst dec.simps) simp
qed

section \<open>Hexadecimal digits\<close>

definition hex2i :: "u8 \<Rightarrow> u8" where
  "hex2i d = (if 0x30 \<le> d \<and> d \<le> 0x39 then d - 0x30
     else if 0x61 \<le> d \<and> d \<le> 0x66 then d - 0x61 + 10
     else if 0x41 \<le> d \<and> d \<le> 0x46 then d - 0x41 + 10 else 0)"

text \<open>The last line is meant for \<open>a\<close> to \<open>f\<close> but taken for every other character (a signed \<open>char\<close>).\<close>

definition xdigit2i :: "u8 \<Rightarrow> u32" where
  "xdigit2i c = (if 0x30 \<le> c \<and> c \<le> 0x39 then ucast c - 0x30
     else if 0x41 \<le> c \<and> c \<le> 0x46 then ucast c - 0x41 + 10
     else scast c - 0x61 + 10)"

definition hexdig :: "nat \<Rightarrow> u8" where
  "hexdig n = (if n < 10 then 0x30 + of_nat n else 0x61 + of_nat (n - 10))"

lemma less_16I: "list_all P [0..<16] \<Longrightarrow> n < 16 \<Longrightarrow> P n"
  by (simp add: list_all_iff)

lemma hexdig_facts:
  assumes "n < 16"
  shows "hex2i (hexdig n) = of_nat n" and "xdigit2i (hexdig n) = of_nat n" and "isxdigit (hexdig n)"
    and "\<not> isspace (hexdig n)" and "hexdig n \<noteq> 0" and "hexdig n \<noteq> 0x2b" and "hexdig n \<noteq> 0x2d"
  by (rule less_16I [OF _ assms]; code_simp)+

text \<open>The digits of \<open>%u\<close>.\<close>

lemma digit_facts:
  assumes "d < 10"
  shows "isdigit (0x30 + of_nat d)" and "uint (0x30 + of_nat d :: u8) - 0x30 = int d"
    and "\<not> isspace (0x30 + of_nat d)" and "(0x30 + of_nat d :: u8) \<notin> {0x2b, 0x2d, 0x2e, 0x3a, 0x66}"
proof -
  have 16: "d < 16" using assms by simp
  have "isdigit (0x30 + of_nat d) \<and> uint (0x30 + of_nat d :: u8) - 0x30 = int d \<and>
      \<not> isspace (0x30 + of_nat d) \<and> (0x30 + of_nat d :: u8) \<notin> {0x2b, 0x2d, 0x2e, 0x3a, 0x66} \<or> \<not> d < 10"
    by (rule less_16I [OF _ 16]) code_simp
  then show "isdigit (0x30 + of_nat d)" and "uint (0x30 + of_nat d :: u8) - 0x30 = int d"
    and "\<not> isspace (0x30 + of_nat d)" and "(0x30 + of_nat d :: u8) \<notin> {0x2b, 0x2d, 0x2e, 0x3a, 0x66}"
    using assms by auto
qed

lemma dec_digits: "c \<in> set (dec n) \<Longrightarrow> \<exists>d < 10. c = 0x30 + of_nat d"
proof (induction n rule: dec.induct)
  case (1 n)
  have "\<exists>d < 10. word_of_nat (n mod 10) = (word_of_nat d :: u8)"
    by (rule exI [of _ "n mod 10"]) simp
  then show ?case using 1 dec.simps [of n] by (cases "n < 10") auto
qed

lemma dec_not_Nil: "dec n \<noteq> []"
  by (subst dec.simps) simp

text \<open>The \<open>k\<close> lowest hexadecimal digits of a number, the highest first.\<close>

fun nibbles :: "nat \<Rightarrow> nat \<Rightarrow> nat list" where
  "nibbles 0 n = []"
| "nibbles (Suc k) n = nibbles k (n div 16) @ [n mod 16]"

lemma nibbles_length [simp]: "length (nibbles k n) = k"
  by (induction k arbitrary: n) auto

lemma nibbles_less: "d \<in> set (nibbles k n) \<Longrightarrow> d < 16"
  by (induction k arbitrary: n) auto

definition hex_step :: "u8 \<Rightarrow> u32 \<Rightarrow> u32" where
  "hex_step c acc = push_bit 4 acc OR ucast (hex2i c)"

lemma nibble_or:
  fixes acc :: u32
  assumes "d < 16"
  shows "push_bit 4 acc OR of_nat d = 16 * acc + of_nat d"
proof -
  have d: "(of_nat d :: u32) = take_bit 4 (of_nat d)"
    using assms by (simp add: take_bit_nat_eq_self flip: of_nat_take_bit)
  have "push_bit 4 acc OR of_nat d = push_bit 4 acc + of_nat d"
  proof (rule disjunctive_add [symmetric])
    show "\<not> bit (push_bit 4 acc) n \<or> \<not> bit (of_nat d :: u32) n" for n
      by (subst d) (auto simp: bit_push_bit_iff bit_take_bit_iff)
  qed
  then show ?thesis by (simp add: push_bit_eq_mult)
qed

lemma hex_step_hexdig:
  assumes "d < 16"
  shows "hex_step (hexdig d) acc = 16 * acc + of_nat d"
proof -
  have "(ucast (of_nat d :: u8) :: u32) = of_nat d"
    using assms by (simp add: unsigned_of_nat take_bit_nat_eq_self)
  then show ?thesis
    using assms by (simp add: hex_step_def hexdig_facts(1) nibble_or)
qed

lemma hex_fold_nibbles:
  "fold hex_step (map hexdig (nibbles k n)) acc = 16 ^ k * acc + of_nat (n mod 16 ^ k)"
proof (induction k arbitrary: n)
  case (Suc k)
  have "n mod 16 ^ Suc k = 16 * (n div 16 mod 16 ^ k) + n mod 16"
    by (simp add: mod_mult2_eq)
  then show ?case using Suc by (simp add: hex_step_hexdig algebra_simps)
qed simp

end
