(* ===== verification/Kernel_Io.thy ===== *)
theory Kernel_Io
  imports Rfx_Prelude
begin

text \<open>
  The descriptors the proxy reads and writes, as far as the code can observe them. What the
  kernel will do is a script, one outcome per system call; every statement about the code is
  about all scripts. A read script may hold more bytes than one \<open>readv\<close> asks for (the rest stays
  for the next call); a write script says how many bytes a \<open>writev\<close> accepts. A script that has
  ended behaves as a descriptor with nothing to do (\<open>EAGAIN\<close>). \<open>EWOULDBLOCK\<close> is \<open>EAGAIN\<close>, as
  on the platforms the program is built for.
\<close>

datatype errno = EINTR | EAGAIN | EOTHER

text \<open>The most bytes one call transfers on Linux (read(2), write(2)).\<close>

definition rw_max :: nat where
  "rw_max = 0x7ffff000"

section \<open>Reading\<close>

datatype rd_outcome = RdBytes bytes | RdEof | RdErr errno

text \<open>What \<open>readv\<close> returns: bytes (a positive count), 0, or -1 with \<open>errno\<close>.\<close>

datatype rd_result = RdGot bytes | RdZero | RdFail errno

fun readv :: "nat \<Rightarrow> rd_outcome list \<Rightarrow> rd_result \<times> rd_outcome list" where
  "readv cap [] = (RdFail EAGAIN, [])"
| "readv cap (RdEof # s) = (RdZero, RdEof # s)"
| "readv cap (RdErr e # s) = (RdFail e, s)"
| "readv cap (RdBytes bs # s) =
     (if bs = [] \<or> cap = 0 then (RdZero, s)
      else if length bs \<le> cap then (RdGot bs, s)
      else (RdGot (take cap bs), RdBytes (drop cap bs) # s))"

fun rd_size :: "rd_outcome list \<Rightarrow> nat" where
  "rd_size [] = 0"
| "rd_size (RdBytes bs # s) = Suc (length bs) + rd_size s"
| "rd_size (_ # s) = Suc (rd_size s)"

lemma readv_size:
  "readv cap s = (RdGot bs, s') \<Longrightarrow> rd_size s' < rd_size s"
  "readv cap s = (RdFail EINTR, s') \<Longrightarrow> rd_size s' < rd_size s"
  by (induction cap s rule: readv.induct) (auto split: if_splits)

lemma readv_bound: "readv cap s = (RdGot bs, s') \<Longrightarrow> bs \<noteq> [] \<and> length bs \<le> cap"
  by (induction cap s rule: readv.induct) (auto split: if_splits)

text \<open>
  The bytes a reader that reads until it is told to stop will see, and whether more may come
  later (\<open>EAGAIN\<close>) or the descriptor is finished (end of file, error).
\<close>

fun rd_avail :: "rd_outcome list \<Rightarrow> bytes" where
  "rd_avail (RdBytes bs # s) = (if bs = [] then [] else bs @ rd_avail s)"
| "rd_avail (RdErr EINTR # s) = rd_avail s"
| "rd_avail _ = []"

fun rd_more :: "rd_outcome list \<Rightarrow> bool" where
  "rd_more [] = True"
| "rd_more (RdBytes bs # s) = (bs \<noteq> [] \<and> rd_more s)"
| "rd_more (RdEof # s) = False"
| "rd_more (RdErr EINTR # s) = rd_more s"
| "rd_more (RdErr EAGAIN # s) = True"
| "rd_more (RdErr EOTHER # s) = False"

lemma readv_got_avail:
  "readv cap s = (RdGot bs, s') \<Longrightarrow> rd_avail s = bs @ rd_avail s' \<and> rd_more s = rd_more s'"
  by (induction cap s rule: readv.induct) (auto split: if_splits)

lemma readv_intr_avail:
  "readv cap s = (RdFail EINTR, s') \<Longrightarrow> rd_avail s = rd_avail s' \<and> rd_more s = rd_more s'"
  by (induction cap s rule: readv.induct) (auto split: if_splits)

lemma readv_stop_avail:
  "readv cap s = (RdZero, s') \<Longrightarrow> 0 < cap \<Longrightarrow> rd_avail s = [] \<and> \<not> rd_more s"
  "readv cap s = (RdFail EAGAIN, s') \<Longrightarrow> rd_avail s = [] \<and> rd_more s"
  "readv cap s = (RdFail EOTHER, s') \<Longrightarrow> rd_avail s = [] \<and> \<not> rd_more s"
  by (induction cap s rule: readv.induct) (auto split: if_splits)

section \<open>Writing\<close>

text \<open>
  \<open>WrOk n\<close>: the descriptor accepts at most \<open>n\<close> bytes in this call. \<open>WrErr e\<close>: the call
  returns -1 with \<open>errno = e\<close>. A call that transfers nothing returns 0 and leaves \<open>errno\<close> as it
  was. \<open>wr_out\<close> are the bytes accepted so far.
\<close>

datatype wr_outcome = WrOk nat | WrErr errno

record wrfd =
  wr_script :: "wr_outcome list"
  wr_errno :: errno
  wr_out :: bytes

text \<open>\<open>writev\<close> of the gathered bytes: the return value (\<open>None\<close> for -1) and the new state.\<close>

fun writev :: "bytes \<Rightarrow> wrfd \<Rightarrow> nat option \<times> wrfd" where
  "writev bs fd =
     (case wr_script fd of
        [] \<Rightarrow> (None, fd\<lparr>wr_errno := EAGAIN\<rparr>)
      | WrErr e # s \<Rightarrow> (None, fd\<lparr>wr_script := s, wr_errno := e\<rparr>)
      | WrOk n # s \<Rightarrow>
          (Some (min n (length bs)), fd\<lparr>wr_script := s, wr_out := wr_out fd @ take n bs\<rparr>))"

lemma writev_got:
  assumes "writev bs fd = (Some n, fd')"
  shows "n \<le> length bs" and "wr_out fd' = wr_out fd @ take n bs"
    and "length (wr_script fd') < length (wr_script fd)"
proof -
  have "take (min m (length bs)) bs = take m bs" for m
    by (simp add: min_def)
  with assms show "n \<le> length bs" and "wr_out fd' = wr_out fd @ take n bs"
    and "length (wr_script fd') < length (wr_script fd)"
    by (auto split: list.splits wr_outcome.splits)
qed

lemma writev_nothing:
  "writev bs fd = (r, fd') \<Longrightarrow> r = None \<or> r = Some 0 \<Longrightarrow> wr_out fd' = wr_out fd"
  by (auto simp: min_def split: list.splits wr_outcome.splits if_splits)

lemma writev_script:
  "writev bs fd = (r, fd') \<Longrightarrow>
   length (wr_script fd') < length (wr_script fd) \<or> r = None \<and> wr_errno fd' = EAGAIN"
  by (auto split: list.splits wr_outcome.splits)

end
