(* ===== verification/Misc.thy ===== *)
theory Misc
  imports Text_Util Kernel_Io
begin

text \<open>
  The helpers of \<^verbatim>\<open>lib/misc.c\<close>: the Murmur hash, URI decoding into a bounded buffer, the hex
  dump, the clock difference and the file reader. (\<open>perror_fatal\<close> and \<open>ignore_signal\<close> only call
  the C library.) Shown: a change in one block of the input changes the hash; \<open>uri_decode\<close> returns the
  whole decoded length and never writes past the buffer, and decodes what an encoder produces; the
  dump's line buffers are never overrun, and its data only when its size lets the index wrap; \<open>clock_diff\<close> is the difference in microseconds modulo
  2^32; the file reader writes every chunk of a file over the start of its buffer.
\<close>

section \<open>\<open>murmur_hash2\<close>\<close>

definition MURMUR_M :: u32 where "MURMUR_M = 0x5bd1e995"

definition murmur_key :: "u8 \<Rightarrow> u8 \<Rightarrow> u8 \<Rightarrow> u8 \<Rightarrow> u32" where
  "murmur_key a b c d = ucast a OR push_bit 8 (ucast b) OR push_bit 16 (ucast c) OR push_bit 24 (ucast d)"

definition murmur_block :: "u32 \<Rightarrow> u32 \<Rightarrow> u32" where
  "murmur_block h k0 =
     (let k1 = k0 * MURMUR_M; k2 = k1 XOR drop_bit 24 k1; k3 = k2 * MURMUR_M
      in (h * MURMUR_M) XOR k3)"

fun murmur_loop :: "u32 \<Rightarrow> bytes \<Rightarrow> u32 \<times> bytes" where
  "murmur_loop h (a # b # c # d # r) = murmur_loop (murmur_block h (murmur_key a b c d)) r"
| "murmur_loop h r = (h, r)"

text \<open>The \<open>switch\<close> falls through from three bytes to one.\<close>

fun murmur_tail :: "u32 \<Rightarrow> bytes \<Rightarrow> u32" where
  "murmur_tail h [a, b, c] = (h XOR push_bit 16 (ucast c) XOR push_bit 8 (ucast b) XOR ucast a) * MURMUR_M"
| "murmur_tail h [a, b] = (h XOR push_bit 8 (ucast b) XOR ucast a) * MURMUR_M"
| "murmur_tail h [a] = (h XOR ucast a) * MURMUR_M"
| "murmur_tail h _ = h"

definition murmur_final :: "u32 \<Rightarrow> u32" where
  "murmur_final h =
     (let h1 = h XOR drop_bit 13 h; h2 = h1 * MURMUR_M in h2 XOR drop_bit 15 h2)"

definition murmur_hash2 :: "bytes \<Rightarrow> u32" where
  "murmur_hash2 data =
     (case murmur_loop (0 XOR of_nat (length data)) data of (h, r) \<Rightarrow> murmur_final (murmur_tail h r))"

text \<open>Every step is a bijection.\<close>

lemma mult_M_inject: "a * MURMUR_M = b * MURMUR_M \<longleftrightarrow> a = b"
proof
  assume "a * MURMUR_M = b * MURMUR_M"
  then have "a * MURMUR_M * 3852147133 = b * MURMUR_M * 3852147133" by simp
  moreover have "MURMUR_M * 3852147133 = 1" by (simp add: MURMUR_M_def)
  ultimately show "a = b" by (simp add: mult.assoc)
qed simp

lemma xor_drop_bit_inject:
  fixes a b :: u32
  assumes "0 < s" and "a XOR drop_bit s a = b XOR drop_bit s b"
  shows "a = b"
proof -
  have step: "bit a n = bit b n" if "bit a (n + s) = bit b (n + s)" for n
  proof -
    have "bit (a XOR drop_bit s a) n = bit (b XOR drop_bit s b) n" using assms(2) by simp
    then show ?thesis
      using that by (cases "bit b (n + s)") (auto simp: bit_xor_iff bit_drop_bit_eq add.commute)
  qed
  have "bit a n = bit b n" for n
  proof (induction "32 - n" arbitrary: n rule: less_induct)
    case less
    show ?case
    proof (cases "n < 32")
      case True
      then show ?thesis using step less [of "n + s"] assms(1) by simp
    qed (simp add: bit_word.rep_eq not_less impossible_bit)
  qed
  then show ?thesis by (simp add: bit_eq_iff)
qed

lemma xor_inject: "(a XOR b = a XOR c) = (b = c)" "(b XOR a = c XOR a) = (b = c)" for a b c :: u32
proof -
  show l: "(a XOR b = a XOR c) = (b = c)"
  proof
    assume "a XOR b = a XOR c"
    then have "a XOR (a XOR b) = a XOR (a XOR c)" by simp
    then show "b = c" by (simp flip: xor.assoc)
  qed simp
  show "(b XOR a = c XOR a) = (b = c)" using l by (simp add: xor.commute)
qed

lemma murmur_block_inject:
  "murmur_block h k = murmur_block h k' \<longleftrightarrow> k = k'"
  "murmur_block h k = murmur_block h' k \<longleftrightarrow> h = h'"
proof -
  have "k * MURMUR_M = k' * MURMUR_M" if "k * MURMUR_M XOR drop_bit 24 (k * MURMUR_M) =
      k' * MURMUR_M XOR drop_bit 24 (k' * MURMUR_M)"
    by (rule xor_drop_bit_inject [OF _ that]) simp
  then show "murmur_block h k = murmur_block h k' \<longleftrightarrow> k = k'"
    by (auto simp: murmur_block_def Let_def xor_inject mult_M_inject)
  show "murmur_block h k = murmur_block h' k \<longleftrightarrow> h = h'"
    by (simp add: murmur_block_def Let_def xor_inject mult_M_inject)
qed

lemma murmur_final_inject: "murmur_final h = murmur_final h' \<longleftrightarrow> h = h'"
  by (auto simp: murmur_final_def Let_def mult_M_inject dest!: xor_drop_bit_inject [rotated])

lemma murmur_tail_inject: "murmur_tail h r = murmur_tail h' r \<longleftrightarrow> h = h'"
  by (induction h r rule: murmur_tail.induct) (simp_all add: mult_M_inject xor_inject)

lemma bit_murmur_key: "bit (murmur_key a b c d) n \<longleftrightarrow>
    n < 32 \<and> (bit a n \<or> 8 \<le> n \<and> bit b (n - 8) \<or> 16 \<le> n \<and> bit c (n - 16) \<or> 24 \<le> n \<and> bit d (n - 24))"
  by (auto simp: murmur_key_def bit_or_iff bit_push_bit_iff bit_ucast_iff dest: bit_imp_le_length)

lemma murmur_key_bytes:
  "ucast (murmur_key a b c d) = a" "ucast (drop_bit 8 (murmur_key a b c d)) = b"
  "ucast (drop_bit 16 (murmur_key a b c d)) = c" "ucast (drop_bit 24 (murmur_key a b c d)) = d"
  by (rule bit_word_eqI; auto simp: bit_ucast_iff bit_murmur_key bit_drop_bit_eq dest: bit_imp_le_length)+

lemma murmur_key_inject:
  "murmur_key a b c d = murmur_key a' b' c' d' \<longleftrightarrow> a = a' \<and> b = b' \<and> c = c' \<and> d = d'"
  by (metis murmur_key_bytes)

lemma murmur_loop_append:
  "length a mod 4 = 0 \<Longrightarrow> murmur_loop h (a @ r) = murmur_loop (fst (murmur_loop h a)) r"
  by (induction h a rule: murmur_loop.induct) (auto simp: mod_Suc split: if_splits)

lemma murmur_loop_inject:
  "fst (murmur_loop h r) = fst (murmur_loop h' r) \<longleftrightarrow> h = h'"
  "snd (murmur_loop h r) = snd (murmur_loop h' r)"
  by (induction h r arbitrary: h' rule: murmur_loop.induct) (simp_all add: murmur_block_inject)

section \<open>\<open>uri_decode\<close>\<close>

text \<open>
  One step of the reader: the decoded byte and the rest of the source. A percent sign is special
  only with two hexadecimal digits behind it inside the source.
\<close>

definition uri_byte :: "u8 \<Rightarrow> u8 \<Rightarrow> u8" where
  "uri_byte a b = ucast (push_bit 4 (xdigit2i a) OR xdigit2i b)"

fun uri_step :: "bytes \<Rightarrow> u8 \<times> bytes" where
  "uri_step (c # a # b # s) =
     (if c = 0x25 \<and> isxdigit a \<and> isxdigit b then (uri_byte a b, s) else (c, a # b # s))"
| "uri_step (c # s) = (c, s)"
| "uri_step [] = (0, [])"

lemma uri_step_length [termination_simp]:
  "s \<noteq> [] \<Longrightarrow> uri_step s = (c, s') \<Longrightarrow> length s' < length s"
  by (induction s rule: uri_step.induct) (auto split: if_splits)

text \<open>The second loop only counts.\<close>

function uri_skip :: "nat \<Rightarrow> bytes \<Rightarrow> nat" where
  "uri_skip n s = (if s = [] then n else uri_skip (Suc n) (snd (uri_step s)))"
  by pat_completeness auto
termination
  by (relation "measure (\<lambda>(n, s). length s)") (auto intro: uri_step_length [OF _ prod.collapse [symmetric]])

declare uri_skip.simps [simp del]

text \<open>\<open>n\<close> bytes have been written to \<open>dst\<close>.\<close>

function uri_loop :: "bytes \<Rightarrow> nat \<Rightarrow> bytes \<Rightarrow> (nat \<times> bytes) res" where
  "uri_loop dst n s =
     (if s = [] then Inr (n, dst)
      else if length dst \<le> n then Inr (uri_skip n s, dst)
      else case uri_step s of (c, s') \<Rightarrow> rbind (poke dst n [c]) (\<lambda>dst'. uri_loop dst' (Suc n) s'))"
  by pat_completeness auto
termination
  by (relation "measure (\<lambda>(dst, n, s). length s)") (auto dest: uri_step_length [OF _ sym])

declare uri_loop.simps [simp del]

definition uri_decode :: "bytes \<Rightarrow> bytes \<Rightarrow> (nat \<times> bytes) res" where
  "uri_decode dst src = uri_loop dst 0 src"

text \<open>The specification: decode everything.\<close>

function uri_decoded :: "bytes \<Rightarrow> bytes" where
  "uri_decoded s = (if s = [] then [] else fst (uri_step s) # uri_decoded (snd (uri_step s)))"
  by pat_completeness auto
termination
  by (relation "measure length") (auto intro: uri_step_length [OF _ prod.collapse [symmetric]])

declare uri_decoded.simps [simp del]

lemma uri_skip_eq: "uri_skip n s = n + length (uri_decoded s)"
  by (induction s arbitrary: n rule: uri_decoded.induct) (simp add: uri_skip.simps uri_decoded.simps)

lemma uri_loop_eq:
  "n \<le> length dst \<Longrightarrow> uri_loop dst n s = Inr (n + length (uri_decoded s),
     take n dst @ take (length dst - n) (uri_decoded s) @ drop (n + length (uri_decoded s)) dst)"
proof (induction s arbitrary: dst n rule: uri_decoded.induct)
  case (1 s)
  consider (nil) "s = []" | (full) "s \<noteq> []" "n = length dst" | (step) "s \<noteq> []" "n < length dst"
    using "1.prems" by linarith
  then show ?case
  proof cases
    case nil
    then show ?thesis by (simp add: uri_loop.simps [of _ _ "[]"] uri_decoded.simps [of "[]"])
  next
    case full
    then show ?thesis by (simp add: uri_loop.simps [of _ _ s] uri_skip_eq)
  next
    case step
    obtain c s' where c: "uri_step s = (c, s')" by fastforce
    let ?d = "take n dst @ [c] @ drop (Suc n) dst"
    have d: "length ?d = length dst" "take (Suc n) ?d = take n dst @ [c]" "n < length dst"
      using step by auto
    have "uri_loop dst n s = uri_loop ?d (Suc n) s'"
      using step c by (simp add: uri_loop.simps [of _ _ s] poke_def)
    also have "\<dots> = Inr (Suc n + length (uri_decoded s'), take (Suc n) ?d @
        take (length ?d - Suc n) (uri_decoded s') @ drop (Suc n + length (uri_decoded s')) ?d)"
      using "1.IH" [OF step(1), of "Suc n" ?d] c d by simp
    finally have r: "uri_loop dst n s = \<dots>" .
    have u: "uri_decoded s = c # uri_decoded s'" using step c by (simp add: uri_decoded.simps [of s])
    have dr: "drop (Suc n + k) ?d = drop (Suc n + k) dst" for k
      using step(2) by (simp add: add.commute)
    have "length dst - n = Suc (length dst - Suc n)" using d(3) by simp
    then show ?thesis unfolding r u dr d(1,2) by simp
  qed
qed

section \<open>\<open>hexdump\<close>\<close>

text \<open>
  One frame of up to 16 bytes: \<open>hex\<close> (56 bytes) and \<open>cc\<close> (17 bytes) are the local buffers, \<open>j\<close> and
  \<open>k\<close> the positions in them.
\<close>

definition hexdump_char :: "u8 \<Rightarrow> u8" where
  "hexdump_char b = (if 0x20 \<le> b \<and> b \<le> 127 then b else 0x2e)"

fun hexdump_frame_loop ::
    "nat \<Rightarrow> nat \<Rightarrow> bytes \<Rightarrow> bytes \<Rightarrow> bytes \<Rightarrow> (nat \<times> nat \<times> bytes \<times> bytes) res" where
  "hexdump_frame_loop j k [] hex cc = Inr (j, k, hex, cc)"
| "hexdump_frame_loop j k (b # bs) hex cc =
     rbind (poke hex k [0x20, hexdig (unat (drop_bit 4 b)), hexdig (unat (b AND 0xf))]) (\<lambda>hex1.
     rbind (if (j + 1) mod 4 = 0 \<and> j + 1 \<noteq> 16
            then rbind (poke hex1 (k + 3) [0x20, 0x7c]) (\<lambda>hex2. Inr (k + 5, hex2))
            else Inr (k + 3, hex1)) (\<lambda>(k', hex').
     rbind (poke cc j [hexdump_char b]) (\<lambda>cc'.
       hexdump_frame_loop (j + 1) k' bs hex' cc')))"

definition hexdump_frame :: "u32 \<Rightarrow> bytes \<Rightarrow> bytes \<Rightarrow> bytes \<Rightarrow> bytes res" where
  "hexdump_frame addr bs hex cc =
     rbind (hexdump_frame_loop 0 0 bs hex cc) (\<lambda>(j, k, hex1, cc1).
     rbind (poke hex1 k (replicate (56 - k) 0x20)) (\<lambda>hex2.
     rbind (poke hex2 55 [0]) (\<lambda>hex3.
     rbind (poke cc1 j [0]) (\<lambda>cc2.
     rbind (cstr_at hex3 0) (\<lambda>h. rbind (cstr_at cc2 0) (\<lambda>c.
       Inr (map hexdig (nibbles 8 (unat addr)) @ [0x20] @ h @ [0x20, 0x20] @ c @ [0x0a])))))))"

text \<open>
  The outer loop; \<open>hex\<close> and \<open>cc\<close> are the uninitialised locals of each iteration. The index \<open>i\<close> is
  \<open>unsigned\<close>: it wraps, and so does the sum that decides whether a frame is full.
\<close>

partial_function (option) hexdump_loop ::
    "u32 \<Rightarrow> bytes \<Rightarrow> u32 \<Rightarrow> u32 \<Rightarrow> bytes \<Rightarrow> bytes \<Rightarrow> bytes res option" where
  "hexdump_loop rel data sz i hex cc =
     (if i < sz then
        (let n = (if i + 16 < sz then 16 else sz - i)
         in case rbind (fetch data (unat i) (unat n)) (\<lambda>bs. hexdump_frame (rel + i) bs hex cc) of
              Inl e \<Rightarrow> Some (Inl e)
            | Inr l \<Rightarrow> Option.bind (hexdump_loop rel data sz (i + 16) hex cc)
                (\<lambda>r. Some (rbind r (\<lambda>ls. Inr (l @ ls)))))
      else Some (Inr []))"

definition hexdump :: "bytes \<Rightarrow> bytes \<Rightarrow> u32 \<Rightarrow> bytes \<Rightarrow> u32 \<Rightarrow> bytes res option" where
  "hexdump hex cc rel data sz = hexdump_loop rel data sz 0 hex cc"

text \<open>What a line is meant to look like.\<close>

definition hex_sep :: "nat \<Rightarrow> bytes" where
  "hex_sep j = (if (j + 1) mod 4 = 0 \<and> j + 1 \<noteq> 16 then [0x20, 0x7c] else [])"

fun hex_text :: "nat \<Rightarrow> bytes \<Rightarrow> bytes" where
  "hex_text j [] = []"
| "hex_text j (b # bs) = [0x20, hexdig (unat (drop_bit 4 b)), hexdig (unat (b AND 0xf))] @ hex_sep j
     @ hex_text (Suc j) bs"

definition asc_text :: "bytes \<Rightarrow> bytes" where
  "asc_text = map hexdump_char"

definition hexdump_line :: "u32 \<Rightarrow> bytes \<Rightarrow> bytes" where
  "hexdump_line addr bs = map hexdig (nibbles 8 (unat addr)) @ [0x20] @
     hex_text 0 bs @ replicate (55 - length (hex_text 0 bs)) 0x20 @ [0x20, 0x20] @ asc_text bs @ [0x0a]"

function hexdump_text :: "u32 \<Rightarrow> bytes \<Rightarrow> bytes" where
  "hexdump_text addr data =
     (if data = [] then [] else hexdump_line addr (take 16 data) @ hexdump_text (addr + 16) (drop 16 data))"
  by pat_completeness auto
termination
  by (relation "measure (\<lambda>(a, data). length data)") auto

declare hexdump_text.simps [simp del]

definition hex_pos :: "nat \<Rightarrow> nat" where
  "hex_pos j = 3 * j + 2 * (min j 15 div 4)"

lemma hex_pos_Suc: "j < 16 \<Longrightarrow> hex_pos (Suc j) = hex_pos j + 3 + length (hex_sep j)"
  by (rule less_16I [of "\<lambda>j. hex_pos (Suc j) = hex_pos j + 3 + length (hex_sep j)"]) code_simp

lemma hex_text_length: "j + length bs \<le> 16 \<Longrightarrow> hex_pos j + length (hex_text j bs) = hex_pos (j + length bs)"
proof (induction bs arbitrary: j)
  case (Cons b bs)
  then show ?case using Cons.IH [of "Suc j"] hex_pos_Suc [of j] by simp
qed simp

lemma hex_pos_bound: "j \<le> 16 \<Longrightarrow> hex_pos j \<le> 54"
  by (auto simp: hex_pos_def min_def)

lemma hexdump_frame_loop_eq:
  assumes "j + length bs \<le> 16" and "length pre = hex_pos j" and "length (pre @ hex) = 56"
    and "length cp = j" and "length (cp @ cc) = 17"
  shows "\<exists>hex' cc'. hexdump_frame_loop j (length pre) bs (pre @ hex) (cp @ cc) =
      Inr (j + length bs, length pre + length (hex_text j bs), pre @ hex_text j bs @ hex', cp @ asc_text bs @ cc') \<and>
    length (pre @ hex_text j bs @ hex') = 56 \<and> length (cp @ asc_text bs @ cc') = 17"
  using assms
proof (induction bs arbitrary: j pre hex cp cc)
  case Nil
  then show ?case by (auto simp: asc_text_def)
next
  case (Cons b bs)
  have j: "j < 16" using Cons.prems(1) by simp
  let ?t = "[0x20, hexdig (unat (drop_bit 4 b)), hexdig (unat (b AND 0xf))]"
  let ?c = "[hexdump_char b]"
  have room: "length pre + 3 + length (hex_sep j) \<le> 54"
    using hex_pos_bound [of "Suc j"] hex_pos_Suc [OF j] j Cons.prems(2) by simp
  let ?pre = "pre @ ?t @ hex_sep j" and ?hex = "drop (3 + length (hex_sep j)) hex"
  have len: "length ?pre = hex_pos (Suc j)" "length (?pre @ ?hex) = 56"
    using Cons.prems(2,3) hex_pos_Suc [OF j] room by (simp_all add: hex_sep_def)
  have p1: "poke (pre @ hex) (length pre) ?t = Inr (pre @ ?t @ drop 3 hex)"
    using room Cons.prems(3) by (simp add: poke_def)
  have p2: "poke (pre @ ?t @ drop 3 hex) (length pre + 3) [0x20, 0x7c] =
      Inr (pre @ ?t @ [0x20, 0x7c] @ drop 5 hex)" if "hex_sep j \<noteq> []"
  proof -
    have "length (hex_sep j) = 2" using that by (auto simp: hex_sep_def split: if_splits)
    then show ?thesis using room Cons.prems(3) by (simp add: poke_def)
  qed
  have p3: "poke (cp @ cc) j ?c = Inr ((cp @ ?c) @ drop 1 cc)"
    using Cons.prems(4,5) j by (simp add: poke_def)
  have suc5: "Suc (Suc (Suc (Suc (Suc n)))) = n + 5" and suc3: "Suc (Suc (Suc n)) = n + 3" for n by simp_all
  have step: "hexdump_frame_loop j (length pre) (b # bs) (pre @ hex) (cp @ cc) =
      hexdump_frame_loop (Suc j) (length ?pre) bs (?pre @ ?hex) ((cp @ ?c) @ drop 1 cc)"
  proof (cases "(j + 1) mod 4 = 0 \<and> j + 1 \<noteq> 16")
    case True
    then have sep: "hex_sep j = [0x20, 0x7c]" by (simp add: hex_sep_def)
    show ?thesis 
      using p1 p2 p3 True by (simp add: sep suc5)
  next
    case False
    then have sep: "hex_sep j = []" by (simp add: hex_sep_def)
    show ?thesis 
      using p1 p3 False by (cases "j = 15") (simp_all add: sep suc3 hex_sep_def)
  qed
  have "\<exists>hex' cc'. hexdump_frame_loop (Suc j) (length ?pre) bs (?pre @ ?hex) ((cp @ ?c) @ drop 1 cc) =
      Inr (Suc j + length bs, length ?pre + length (hex_text (Suc j) bs), ?pre @ hex_text (Suc j) bs @ hex',
        (cp @ ?c) @ asc_text bs @ cc') \<and>
    length (?pre @ hex_text (Suc j) bs @ hex') = 56 \<and> length ((cp @ ?c) @ asc_text bs @ cc') = 17"
    by (rule Cons.IH) (use Cons.prems len in auto)
  then show ?case unfolding step by (simp add: asc_text_def add.assoc)
qed

lemma hex_text_nonzero: "0 \<notin> set (hex_text j bs)" "0 \<notin> set (asc_text bs)"
proof -
  have "unat (drop_bit 4 b) < 16" "unat (b AND 0xf) < 16" for b :: u8
    using unsigned_less [of b, where 'a = nat] take_bit_eq_mask [of 4 b] unsigned_take_bit_eq [of 4 b, where 'a = nat]
    by (simp_all add: drop_bit_eq_div unat_div_distrib mask_eq_exp_minus_1 take_bit_eq_mod)
  then have "hexdig (unat (drop_bit 4 b)) \<noteq> 0" "hexdig (unat (b AND 0xf)) \<noteq> 0" for b :: u8
    using hexdig_facts(5) by auto
  then show "0 \<notin> set (hex_text j bs)"
    by (induction bs arbitrary: j) (auto simp: hex_sep_def dest: sym)
  show "0 \<notin> set (asc_text bs)"
    by (auto simp: asc_text_def hexdump_char_def)
qed

lemma cstr_at_front: "0 \<notin> set s \<Longrightarrow> cstr_at (s @ 0 # r) 0 = Inr s"
proof -
  assume "0 \<notin> set s"
  then have "takeWhile (\<lambda>c. c \<noteq> 0) (s @ 0 # r) = s @ takeWhile (\<lambda>c. c \<noteq> 0) (0 # r)"
    by (intro takeWhile_append2) auto
  then show ?thesis by (simp add: cstr_at_def)
qed

lemma hexdump_frame_eq:
  assumes "length bs \<le> 16" and "length hex = 56" and "length cc = 17"
  shows "hexdump_frame addr bs hex cc = Inr (hexdump_line addr bs)"
proof -
  let ?h = "hex_text 0 bs" and ?c = "asc_text bs"
  obtain hex' cc' where l: "hexdump_frame_loop 0 0 bs hex cc =
      Inr (length bs, length ?h, ?h @ hex', ?c @ cc')" "length (?h @ hex') = 56" "length (?c @ cc') = 17"
    using hexdump_frame_loop_eq [of 0 bs "[]" hex "[]" cc] assms by (auto simp: hex_pos_def)
  have hl: "length ?h \<le> 54"
    using hex_text_length [of 0 bs] hex_pos_bound [of "length bs"] assms(1) by (simp add: hex_pos_def)
  have p1: "poke (?h @ hex') (length ?h) (replicate (56 - length ?h) 0x20) =
      Inr (?h @ replicate (56 - length ?h) 0x20)"
    using l(2) hl by (simp add: poke_def)
  have "56 - length ?h = Suc (55 - length ?h)" using hl by simp
  then have p2: "poke (?h @ replicate (56 - length ?h) 0x20) 55 [0] =
      Inr ((?h @ replicate (55 - length ?h) 0x20) @ 0 # [])"
    using hl by (simp add: poke_def replicate_append_same [symmetric] del: replicate_Suc)
  have p3: "poke (?c @ cc') (length bs) [0] = Inr (?c @ 0 # drop 1 cc')"
    using l(3) assms(1) by (simp add: poke_def asc_text_def)
  have "0 \<notin> set (?h @ replicate (55 - length ?h) 0x20)"
    using hex_text_nonzero(1) by auto
  then show ?thesis
    unfolding hexdump_frame_def l(1)
    using p1 p2 p3 cstr_at_front [of "?h @ replicate (55 - length ?h) 0x20" "[]"]
      cstr_at_front [OF hex_text_nonzero(2), of bs "drop 1 cc'"]
    by (simp add: hexdump_line_def)
qed

text \<open>
  The index is a multiple of 16. Up to the size \<open>0xfffffff0\<close> it never wraps; beyond, the last frame
  is taken for a full one and read past the end of the data.
\<close>

lemma frame_index:
  fixes i sz :: u32
  assumes "16 dvd unat i" and "i < sz"
  obtains (wraps) "i = 0xfffffff0" "0xfffffff0 < sz"
    | (full) "i + 16 < sz" "unat (i + 16) = unat i + 16"
    | (last) "\<not> i + 16 < sz" "unat (i + 16) = unat i + 16" "unat sz \<le> unat i + 16" "sz \<le> 0xfffffff0"
proof -
  obtain k where k: "unat i = 16 * k" using assms(1) by (elim dvdE)
  have lt: "unat i < unat sz" "unat sz < 4294967296"
    using assms(2) unsigned_less [of sz] by (simp_all add: word_less_nat_alt)
  show thesis
  proof (cases "unat i = 4294967280")
    case True
    then have "i = 0xfffffff0" by (simp add: word_unat_eq_iff)
    then show thesis using wraps assms(2) by simp
  next
    case False
    then have "unat i + 16 < 4294967296" using k lt by presburger
    then have u: "unat (i + 16) = unat i + 16" using unat_add_lem [of i 16] by simp
    have "unat sz \<le> 4294967280" if "unat sz \<le> unat i + 16" using that k lt \<open>unat i + 16 < 4294967296\<close> by presburger
    then show thesis using full last u by (cases "i + 16 < sz") (simp_all add: word_less_nat_alt word_le_nat_alt)
  qed
qed

lemma hexdump_loop_eq:
  assumes "length hex = 56" and "length cc = 17" and "length data = unat sz" and "16 dvd unat i"
  shows "hexdump_loop rel data sz i hex cc =
    Some (if sz \<le> 0xfffffff0 then Inr (hexdump_text (rel + i) (drop (unat i) data)) else Inl OutOfBounds)"
  using assms(4)
proof (induction "4294967296 - unat i" arbitrary: i rule: less_induct)
  case less
  note unf = hexdump_loop.simps [of rel data sz i]
  let ?d = "drop (unat i) data"
  have frame: "hexdump_frame (rel + i) (take 16 ?d) hex cc = Inr (hexdump_line (rel + i) (take 16 ?d))"
    using hexdump_frame_eq assms(1,2) by simp
  show ?case
  proof (cases "i < sz")
    case False
    have "unat sz \<le> unat i" using False by (simp add: word_le_nat_alt not_less)
    moreover obtain k where "unat i = 16 * k" using less.prems by (elim dvdE)
    moreover have "unat i < 4294967296" using unsigned_less [of i] by simp
    ultimately have "unat sz \<le> 4294967280" by presburger
    then show ?thesis
      using False \<open>unat sz \<le> unat i\<close> assms(3) by (simp add: unf word_le_nat_alt hexdump_text.simps)
  next
    case True
    then have ne: "?d \<noteq> []" using assms(3) by (simp add: word_less_nat_alt)
    from less.prems True show ?thesis
    proof (cases rule: frame_index)
      case wraps
      moreover have "unat sz < 4294967296" using unsigned_less [of sz] by simp
      moreover have "i + 16 < sz" using wraps by (simp add: word_less_nat_alt)
      ultimately have "hexdump_loop rel data sz i hex cc = Some (Inl OutOfBounds)"
        using True assms(3) unfolding unf by simp
      then show ?thesis using wraps(2) by simp
    next
      case full
      have "hexdump_loop rel data sz (i + 16) hex cc = Some (if sz \<le> 0xfffffff0
          then Inr (hexdump_text (rel + i + 16) (drop 16 ?d)) else Inl OutOfBounds)"
        proof -
        have "unat (i + 16) < 4294967296" using unsigned_less [of "i + 16"] by simp
        then show ?thesis
          using less.hyps [of "i + 16"] full(2) less.prems by (simp add: ac_simps)
      qed
      moreover have "fetch data (unat i) 16 = Inr (take 16 ?d)"
        using full assms(3) by (simp add: word_less_nat_alt)
      ultimately show ?thesis
        using True full(1) frame ne by (simp add: unf hexdump_text.simps [of "rel + i" ?d])
    next
      case last
      have "hexdump_loop rel data sz (i + 16) hex cc = Some (Inr [])"
        using last(1) by (simp add: hexdump_loop.simps [of rel data sz "i + 16"])
      moreover have "fetch data (unat i) (unat (sz - i)) = Inr (take 16 ?d)"
        using last(3) True assms(3) by (simp add: unat_sub word_less_nat_alt word_le_nat_alt)
      moreover have "hexdump_text (rel + i + 16) (drop 16 ?d) = []"
        using last(3) assms(3) by (simp add: hexdump_text.simps)
      ultimately show ?thesis
        using True last(1,4) frame ne by (simp add: unf hexdump_text.simps [of "rel + i" ?d])
    qed
  qed
qed

section \<open>\<open>clock_diff\<close>\<close>

record timespec =
  tv_sec :: int
  tv_nsec :: int

text \<open>C division truncates.\<close>

definition cdiv :: "int \<Rightarrow> int \<Rightarrow> int" where
  "cdiv a b = sgn a * sgn b * (\<bar>a\<bar> div \<bar>b\<bar>)"

definition clock_diff :: "timespec \<Rightarrow> timespec \<Rightarrow> u32" where
  "clock_diff start stop =
     (if tv_nsec stop < tv_nsec start
      then word_of_int ((tv_sec stop - tv_sec start - 1) * 1000000
             + cdiv (1000000000 + tv_nsec stop - tv_nsec start) 1000)
      else word_of_int ((tv_sec stop - tv_sec start) * 1000000
             + cdiv (tv_nsec stop - tv_nsec start) 1000))"

section \<open>\<open>read_file_to_string\<close>\<close>

datatype file_string = FsNull | FsString bytes | FsAbort

text \<open>
  The loop: \<open>str\<close> is the buffer of \<open>size + 1\<close> bytes, every \<open>read\<close> goes to its start; the position
  is an \<open>int\<close>. It does not return while the descriptor keeps answering \<open>EAGAIN\<close>.
\<close>

partial_function (option) read_file_loop ::
    "nat \<Rightarrow> rd_outcome list \<Rightarrow> nat \<Rightarrow> bytes \<Rightarrow> file_string res option" where
  "read_file_loop fsz s pos str =
     (if pos < fsz then
        (case readv (min fsz rw_max) s of
           (RdGot bs, s') \<Rightarrow>
             (case poke str 0 bs of Inl e \<Rightarrow> Some (Inl e)
              | Inr str' \<Rightarrow> if 0x7fffffff < pos + length bs then Some (Inl SignedOverflow)
                          else read_file_loop fsz s' (pos + length bs) str')
         | (RdZero, s') \<Rightarrow> Some (rbind (poke str pos [0]) (\<lambda>str'. Inr (FsString str')))
         | (RdFail e, s') \<Rightarrow> if e = EAGAIN \<or> e = EINTR then read_file_loop fsz s' pos str
                           else Some (Inr FsAbort))
      else Some (rbind (poke str pos [0]) (\<lambda>str'. Inr (FsString str'))))"

text \<open>\<open>stat\<close> gives the size or fails; \<open>junk\<close> is the fresh buffer.\<close>

definition read_file_to_string ::
    "nat option \<Rightarrow> bytes \<Rightarrow> rd_outcome list \<Rightarrow> file_string res option" where
  "read_file_to_string st junk s =
     (case st of None \<Rightarrow> Some (Inr FsNull) | Some fsz \<Rightarrow> read_file_loop fsz s 0 junk)"

section \<open>Properties\<close>

text \<open>
  C32. The hash is sensitive to every block: replacing four aligned bytes of the input by others, and
  nothing else, always changes \<open>murmur_hash2\<close>; in particular no two four-byte keys collide.
\<close>

theorem murmur_hash2_block_sensitive:
  assumes "length a mod 4 = 0" and "length b = 4" and "length b' = 4"
  shows "murmur_hash2 (a @ b @ c) = murmur_hash2 (a @ b' @ c) \<longleftrightarrow> b = b'"
proof -
  obtain b0 b1 b2 b3 where b: "b = [b0, b1, b2, b3]"
    using assms(2) by (auto simp: length_Suc_conv numeral_eq_Suc)
  obtain d0 d1 d2 d3 where b': "b' = [d0, d1, d2, d3]"
    using assms(3) by (auto simp: length_Suc_conv numeral_eq_Suc)
  let ?h = "fst (murmur_loop (of_nat (length (a @ b @ c))) a)"
  let ?x = "murmur_loop (murmur_block ?h (murmur_key b0 b1 b2 b3)) c"
    and ?y = "murmur_loop (murmur_block ?h (murmur_key d0 d1 d2 d3)) c"
  have "murmur_hash2 (a @ b @ c) = murmur_final (murmur_tail (fst ?x) (snd ?x))"
    "murmur_hash2 (a @ b' @ c) = murmur_final (murmur_tail (fst ?y) (snd ?y))"
    using assms by (simp_all add: murmur_hash2_def murmur_loop_append b b' split: prod.split)
  moreover have "snd ?x = snd ?y" by (rule murmur_loop_inject(2))
  ultimately have "murmur_hash2 (a @ b @ c) = murmur_hash2 (a @ b' @ c) \<longleftrightarrow>
      murmur_key b0 b1 b2 b3 = murmur_key d0 d1 d2 d3"
    by (simp only: murmur_final_inject murmur_tail_inject murmur_loop_inject(1) murmur_block_inject)
  then show ?thesis by (simp add: b b' murmur_key_inject)
qed

lemma murmur_hash2_block_sensitive_witness:
  "murmur_hash2 [1, 2, 3, 4, 9] \<noteq> murmur_hash2 [1, 2, 3, 5, 9]"
  using murmur_hash2_block_sensitive [of "[]" "[1, 2, 3, 4]" "[1, 2, 3, 5]" "[9]"] by simp

text \<open>
  C33. \<open>uri_decode\<close> never writes outside the buffer: it fills it with as much of the decoded text as
  fits, leaves the rest of the buffer alone, and returns the length of the whole decoded text, so that
  the caller can tell that it was cut.
\<close>

theorem uri_decode_bounded:
  "uri_decode dst src = Inr (length (uri_decoded src),
     take (length dst) (uri_decoded src) @ drop (length (uri_decoded src)) dst)"
  using uri_loop_eq [of 0 dst src] by (simp add: uri_decode_def)

text \<open>An encoder that escapes every byte.\<close>

definition uri_encode :: "bytes \<Rightarrow> bytes" where
  "uri_encode bs = concat (map (\<lambda>b. [0x25, hexdig (unat b div 16), hexdig (unat b mod 16)]) bs)"

lemma uri_byte_hexdig:
  assumes "a < 16" and "b < 16"
  shows "uri_byte (hexdig a) (hexdig b) = of_nat (16 * a + b)"
proof -
  have "uri_byte (hexdig a) (hexdig b) = ucast (of_nat (16 * a + b) :: u32)"
    using nibble_or [OF assms(2), of "of_nat a"]
    by (simp add: uri_byte_def hexdig_facts(2) [OF assms(1)] hexdig_facts(2) [OF assms(2)])
  then show ?thesis
    using assms by (simp add: unsigned_of_nat take_bit_nat_eq_self del: of_nat_add of_nat_mult)
qed

text \<open>
  C34. Decoding undoes encoding: any byte string, escaped byte by byte, is decoded into itself when
  the buffer is large enough.
\<close>

theorem uri_decode_encode:
  assumes "length bs \<le> length dst"
  shows "uri_decode dst (uri_encode bs) = Inr (length bs, bs @ drop (length bs) dst)"
proof -
  have "uri_decoded (uri_encode bs) = bs"
  proof (induction bs)
    case (Cons b bs)
    have lt: "unat b div 16 < 16" "unat b mod 16 < 16"
      using unsigned_less [of b, where 'a = nat] by simp_all
    have "uri_byte (hexdig (unat b div 16)) (hexdig (unat b mod 16)) = b"
      unfolding uri_byte_hexdig [OF lt] by simp
    then have "uri_step (uri_encode (b # bs)) = (b, uri_encode bs)"
      using hexdig_facts(3) lt by (simp add: uri_encode_def)
    then show ?case using Cons by (subst uri_decoded.simps) (simp add: uri_encode_def)
  qed (simp add: uri_encode_def uri_decoded.simps)
  then show ?thesis
    using assms uri_loop_eq [of 0 dst "uri_encode bs"] by (simp add: uri_decode_def)
qed

lemma uri_decode_encode_witness:
  "uri_decode [0, 0, 0] (uri_encode [0x41, 0xff]) = Inr (2, [0x41, 0xff, 0])"
  using uri_decode_encode [of "[0x41, 0xff]" "[0, 0, 0]"] by simp

text \<open>
  C35. \<open>hexdump\<close> of data of the given size: up to a size of \<open>0xfffffff0\<close> it never overruns its line
  buffers nor the data, whatever the buffers held, and prints for each frame its address, the hex column
  padded to 55 characters, and the printable characters; for every larger size the index wraps and it
  reads past the end of the data.
\<close>

theorem hexdump_total:
  assumes "length hex = 56" and "length cc = 17" and "length data = unat sz"
  shows "hexdump hex cc rel data sz =
    Some (if sz \<le> 0xfffffff0 then Inr (hexdump_text rel data) else Inl OutOfBounds)"
  using hexdump_loop_eq [OF assms, of 0 rel] by (simp add: hexdump_def)

lemma hexdump_total_witness:
  "hexdump (replicate 56 0) (replicate 17 1) 0 [0x41, 0x7f] 2 = Some (Inr (hexdump_text 0 [0x41, 0x7f]))"
  using hexdump_total [of "replicate 56 0" "replicate 17 1" "[0x41, 0x7f]" 2 0] by simp

text \<open>
  \<open>clock_diff\<close> is the time between two normalised clock readings in whole microseconds, modulo
  2^32 (a difference of more than about 71 minutes wraps).
\<close>

theorem clock_diff_microseconds:
  assumes "0 \<le> tv_nsec a" and "tv_nsec a < 1000000000" and "0 \<le> tv_nsec b" and "tv_nsec b < 1000000000"
  shows "uint (clock_diff a b) =
    ((tv_sec b * 1000000000 + tv_nsec b) - (tv_sec a * 1000000000 + tv_nsec a)) div 1000 mod 2 ^ 32"
proof -
  have split: "(s * 1000000000 + n) div 1000 = s * 1000000 + n div 1000" for s n :: int
    by (simp add: div_add1_eq [of "s * 1000000000"]) 
  have c: "cdiv n 1000 = n div 1000" if "0 \<le> n" for n
    using that by (cases "n = 0") (simp_all add: cdiv_def)
  have e: "(tv_sec b * 1000000000 + tv_nsec b) - (tv_sec a * 1000000000 + tv_nsec a) =
      (tv_sec b - tv_sec a) * 1000000000 + (tv_nsec b - tv_nsec a)"
    "(tv_sec b * 1000000000 + tv_nsec b) - (tv_sec a * 1000000000 + tv_nsec a) =
      (tv_sec b - tv_sec a - 1) * 1000000000 + (1000000000 + tv_nsec b - tv_nsec a)"
    by (simp_all add: algebra_simps)
  have w: "uint (word_of_int k :: u32) = k mod 2 ^ 32" for k
    by (simp add: uint_word_of_int)
  show ?thesis
  proof (cases "tv_nsec b < tv_nsec a")
    case True
    have "0 \<le> 1000000000 + tv_nsec b - tv_nsec a" using assms by simp
    then show ?thesis
      using True c by (simp only: clock_diff_def e(2) split w if_True)
  next
    case False
    have "0 \<le> tv_nsec b - tv_nsec a" using False by simp
    then show ?thesis
      using False c by (simp only: clock_diff_def e(1) split w if_False)
  qed
qed

lemma clock_diff_microseconds_witness:
  "uint (clock_diff \<lparr>tv_sec = 1, tv_nsec = 999999000\<rparr> \<lparr>tv_sec = 2, tv_nsec = 1500\<rparr>) = 2"
  using clock_diff_microseconds [of "\<lparr>tv_sec = 1, tv_nsec = 999999000\<rparr>" "\<lparr>tv_sec = 2, tv_nsec = 1500\<rparr>"]
  by simp

text \<open>A file that arrives in the chunks \<open>cs\<close>, each written over the start of the buffer.\<close>

definition overlay :: "bytes list \<Rightarrow> bytes \<Rightarrow> bytes" where
  "overlay cs b = fold (\<lambda>c b. c @ drop (length c) b) cs b"

lemma overlay_simps [simp]:
  "overlay [] b = b" "overlay (c # cs) b = overlay cs (c @ drop (length c) b)"
  by (simp_all add: overlay_def)

lemma read_file_loop_chunks:
  assumes "length str = Suc fsz" and "fsz < 2 ^ 30" and "\<forall>c \<in> set cs. c \<noteq> [] \<and> length c \<le> fsz"
    and "cs \<noteq> [] \<Longrightarrow> pos + length (concat (butlast cs)) < fsz" and "fsz \<le> pos + length (concat cs)"
  shows "read_file_loop fsz (map RdBytes cs) pos str =
    Some (if pos + length (concat cs) = fsz then Inr (FsString (take fsz (overlay cs str) @ [0])) else Inl OutOfBounds)"
  using assms
proof (induction cs arbitrary: pos str)
  case Nil
  then show ?case by (simp add: read_file_loop.simps [of fsz "[]"] poke_def)
next
  case (Cons c cs)
  have small: "length c \<le> rw_max" "min fsz rw_max = fsz" "pos + length c \<le> 0x7fffffff" and pos: "pos < fsz"
    using Cons.prems by (auto simp: rw_max_def min_def)
  have "read_file_loop fsz (map RdBytes (c # cs)) pos str =
      read_file_loop fsz (map RdBytes cs) (pos + length c) (c @ drop (length c) str)"
    using Cons.prems(1,3) small pos by (simp add: read_file_loop.simps [of fsz "RdBytes c # map RdBytes cs" pos])
  also have "\<dots> = Some (if pos + length c + length (concat cs) = fsz
      then Inr (FsString (take fsz (overlay cs (c @ drop (length c) str)) @ [0])) else Inl OutOfBounds)"
    by (rule Cons.IH) (use Cons.prems in \<open>auto split: if_splits\<close>)
  finally show ?case by (simp add: add.assoc)
qed

text \<open>
  C36. \<open>read_file_to_string\<close> of a file that arrives in any number of chunks, the last of which completes the
  size \<open>stat\<close> gave (below \<open>2^30\<close>): every chunk is written over the start of the buffer, so the string is the last
  chunk, then what it left of the chunk before, and so on, then the fresh memory; one chunk alone gives
  the file. When the file has grown meanwhile the terminator is written outside the buffer.
\<close>

theorem read_file_to_string_chunks:
  assumes "length junk = Suc fsz" and "fsz < 2 ^ 30" and "\<forall>c \<in> set cs. c \<noteq> [] \<and> length c \<le> fsz"
    and "length (concat (butlast cs)) < fsz" and "fsz \<le> length (concat cs)"
  shows "read_file_to_string (Some fsz) junk (map RdBytes cs) =
    Some (if length (concat cs) = fsz
          then Inr (FsString (take fsz (fold (\<lambda>c b. c @ drop (length c) b) cs junk) @ [0]))
          else Inl OutOfBounds)"
  using read_file_loop_chunks [OF assms(1-3), of 0] assms(4,5) by (simp add: read_file_to_string_def overlay_def)

text \<open>The second of two reads is shorter: the end of the first survives behind it.\<close>

lemma read_file_to_string_chunks_witness:
  "read_file_to_string (Some 5) [9, 9, 9, 9, 9, 9] [RdBytes [1, 2, 3], RdBytes [4, 5]] =
     Some (Inr (FsString [4, 5, 3, 9, 9, 0]))"
  using read_file_to_string_chunks [of "[9, 9, 9, 9, 9, 9]" 5 "[[1, 2, 3], [4, 5]]"] by simp

end
