(* ===== verification/Pkt_Dump.thy ===== *)
theory Pkt_Dump
  imports Pktq Misc
begin

text \<open>
  The debugging output of a packet: \<open>pkt_dump\<close> of \<^verbatim>\<open>pktq.c\<close> with the colours of
  \<^verbatim>\<open>include/cconsole.h\<close>, as the bytes it prints. Shown: for a packet whose data is as long as its
  length says it prints a line with the facts of the packet and all bytes of its data.
\<close>

definition lcc_escape :: "string \<Rightarrow> bytes" where
  "lcc_escape x = 0x1b # asc ''[01;'' @ asc x @ asc ''m''"

definition lcc_RED :: bytes where "lcc_RED = lcc_escape ''31''"
definition lcc_GREEN :: bytes where "lcc_GREEN = lcc_escape ''32''"
definition lcc_YELLOW :: bytes where "lcc_YELLOW = lcc_escape ''33''"
definition lcc_PURPLE :: bytes where "lcc_PURPLE = lcc_escape ''35''"
definition lcc_CYAN :: bytes where "lcc_CYAN = lcc_escape ''36''"
definition lcc_NORMAL :: bytes where "lcc_NORMAL = 0x1b # asc ''[00m''"

definition pkt_dump_header :: "rf_packet \<Rightarrow> bytes" where
  "pkt_dump_header pk =
     (let state = (if p_drop pk then lcc_RED @ asc '' [DROPPED]'' else []);
          d = (if p_dir pk = SRV_TO_CLI then lcc_PURPLE @ asc ''==>> s2c'' else lcc_CYAN @ asc ''<<== c2s'')
      in lcc_YELLOW @ [10] @ d @ state @ lcc_NORMAL @ asc '' packet '' @ lcc_GREEN @ asc ''0x'' @
         map hexdig (nibbles 4 (unat (p_type pk))) @ lcc_NORMAL @ asc '', len = '' @ dec (unat (p_len pk)) @
         (case p_dyn_desc pk of Some s \<Rightarrow> lcc_PURPLE @ asc '' ('' @ asc s @ asc '')''
          | None \<Rightarrow> (case p_desc pk of Some s \<Rightarrow> lcc_PURPLE @ asc '' ('' @ asc s @ asc '')'' | None \<Rightarrow> [])) @
         lcc_NORMAL @ [10])"

text \<open>\<open>hex\<close> and \<open>cc\<close>: the line buffers of \<open>hexdump\<close>.\<close>

definition pkt_dump :: "bytes \<Rightarrow> bytes \<Rightarrow> rf_packet \<Rightarrow> bytes res option" where
  "pkt_dump hex cc pk =
     map_option (\<lambda>r. rbind r (\<lambda>t. Inr (pkt_dump_header pk @ t))) (hexdump hex cc 0 (p_data pk) (ucast (p_len pk)))"

lemma pkt_dump_text:
  assumes "length hex = 56" and "length cc = 17" and "unat (p_len pk) = length (p_data pk)"
  shows "pkt_dump hex cc pk = Some (Inr (pkt_dump_header pk @ hexdump_text 0 (p_data pk)))"
proof -
  have u: "unat (ucast (p_len pk) :: u32) = length (p_data pk)" using assms(3) by (simp add: unat_ucast_up)
  moreover have "length (p_data pk) < 2 ^ 16" using assms(3) unsigned_less [of "p_len pk", where 'a = nat] by simp
  ultimately show ?thesis
    using hexdump_loop_eq [OF assms(1,2), of "p_data pk" "ucast (p_len pk)" 0 0]
    by (simp add: pkt_dump_def hexdump_def word_le_nat_alt)
qed

end
