(* ===== verification/Recvq.thy ===== *)
theory Recvq
  imports Pktq Kernel_Io
begin

text \<open>
  The receive queue of \<^verbatim>\<open>proxy.h\<close>/\<^verbatim>\<open>proxy.cpp\<close>: it turns the byte stream of a socket into
  packets. A packet starts with its total length and its type, two bytes each, least significant
  first; \<open>recvq_recv\<close> reads until the descriptor is exhausted, with a scatter read into the
  packet (or header) being completed and into a buffer of 8192 bytes.

  The specification is \<open>frames\<close>, which cuts a byte string at the lengths its headers announce.
  The theorems show that the code delivers exactly the packets \<open>frames\<close> cuts, however the stream
  is split into reads, and that a header announcing fewer than four bytes is the one input that
  makes it write outside the packet it allocated.
\<close>

definition RECV_BUF :: nat where "RECV_BUF = 8192"

record recvq =
  rq_pq :: pqhead
  rq_rd :: "addr option"
  rq_rd_buf :: bytes
  rq_rd_pos :: nat
  rq_dir :: dir

text \<open>The constructor; \<open>junk\<close> is what the uninitialised \<open>rd_buf\<close> holds.\<close>

definition recvq_new :: "bytes \<Rightarrow> dir \<Rightarrow> recvq" where
  "recvq_new junk d =
     \<lparr>rq_pq = pqh_init, rq_rd = None, rq_rd_buf = junk, rq_rd_pos = 0, rq_dir = d\<rparr>"

text \<open>
  \<open>rd->len - rd_pos\<close>. The subtraction is unsigned in C: were \<open>rd_pos\<close> past the length, it would
  wrap and the copy that uses it would run outside the packet.
\<close>

definition rd_room :: "recvq \<Rightarrow> store \<Rightarrow> addr \<Rightarrow> nat res" where
  "rd_room q st p =
     rbind (pkt_get st p) (\<lambda>pk.
       if unat (p_len pk) < rq_rd_pos q then Inl OutOfBounds
       else Inr (unat (p_len pk) - rq_rd_pos q))"

text \<open>\<open>rv[0].iov_len\<close>.\<close>

definition recv_iov0 :: "recvq \<Rightarrow> store \<Rightarrow> nat res" where
  "recv_iov0 q st =
     (case rq_rd q of Some p \<Rightarrow> rd_room q st p
      | None \<Rightarrow> if 4 < rq_rd_pos q then Inl OutOfBounds else Inr (4 - rq_rd_pos q))"

text \<open>A write of \<open>bs\<close> at \<open>rd_pos\<close>, into the packet being read or into the header buffer.\<close>

definition recv_store :: "bytes \<Rightarrow> recvq \<Rightarrow> store \<Rightarrow> (store \<times> recvq) res" where
  "recv_store bs q st =
     (case rq_rd q of
        Some p \<Rightarrow> rbind (pkt_get st p) (\<lambda>pk. rbind (poke (p_data pk) (rq_rd_pos q) bs) (\<lambda>dat.
          Inr (st\<lparr>pkts := (pkts st)(p \<mapsto> pk\<lparr>p_data := dat\<rparr>)\<rparr>, q)))
      | None \<Rightarrow> rbind (poke (rq_rd_buf q) (rq_rd_pos q) bs) (\<lambda>buf.
          Inr (st, q\<lparr>rq_rd_buf := buf\<rparr>)))"

text \<open>\<open>pkt_new(GET_INT16(p), GET_INT16(p + 2), dir)\<close>.\<close>

definition recv_header :: "bytes \<Rightarrow> dir \<Rightarrow> store \<Rightarrow> (store \<times> addr) res" where
  "recv_header h d st =
     rbind (peek h 0) (\<lambda>b0. rbind (peek h 1) (\<lambda>b1. rbind (peek h 2) (\<lambda>b2. rbind (peek h 3) (\<lambda>b3.
       pkt_new (get_int16 b0 b1) (get_int16 b2 b3) d st))))"

text \<open>The packet is complete when \<open>rd_pos == rd->len\<close>: push it and start over.\<close>

definition recv_finish :: "addr \<Rightarrow> recvq \<Rightarrow> store \<Rightarrow> (store \<times> recvq) res" where
  "recv_finish p q st =
     rbind (pkt_get st p) (\<lambda>pk.
       if rq_rd_pos q = unat (p_len pk)
       then Inr (st, q\<lparr>rq_pq := pqh_push (rq_pq q) p, rq_rd := None, rq_rd_pos := 0\<rparr>)
       else Inr (st, q))"

text \<open>
  Progress of the inner loop: it consumes bytes, or the packet being read was complete already
  and leaves \<open>rd\<close>.
\<close>

definition extract_measure :: "bytes \<Rightarrow> recvq \<Rightarrow> nat" where
  "extract_measure bs q = 2 * length bs + (if rq_rd q = None then 0 else 1)"

lemma recv_store_same:
  assumes "recv_store bs q st = Inr (st1, q1)" and "rq_rd q = Some p"
  shows "q1 = q" and "\<exists>pk dat. pkts st p = Some pk \<and> pkts st1 p = Some (pk\<lparr>p_data := dat\<rparr>)"
  using assms by (auto simp: recv_store_def fault_simps)

lemma extract_progress:
  assumes "bs \<noteq> []" and p: "rq_rd q = Some p" and room: "rd_room q st p = Inr room"
    and c: "c = (if length bs < room then length bs else room)"
    and s: "recv_store (take c bs) q st = Inr (st1, q1)"
    and f: "recv_finish p (q1\<lparr>rq_rd_pos := rq_rd_pos q1 + c\<rparr>) st1 = Inr (st2, q2)"
  shows "extract_measure (drop c bs) q2 < extract_measure bs q"
proof (cases "c = 0")
  case False
  then show ?thesis
    using assms(1) p c by (auto simp: extract_measure_def)
next
  case True
  obtain pk dat where pk: "pkts st p = Some pk" "pkts st1 p = Some (pk\<lparr>p_data := dat\<rparr>)"
    using recv_store_same [OF s p] by auto
  have "room = 0"
    using True c assms(1) by (auto split: if_splits)
  then have "rq_rd_pos q = unat (p_len pk)"
    using room pk by (auto simp: rd_room_def split: if_splits)
  then have "rq_rd q2 = None"
    using f pk True recv_store_same(1) [OF s p] by (simp add: recv_finish_def) auto
  then show ?thesis
    using p by (simp add: extract_measure_def)
qed

lemma header_progress:
  assumes "4 \<le> length bs" and "recv_finish p q' st1 = Inr (st2, q2)"
  shows "extract_measure (drop 4 bs) q2 < extract_measure bs q"
  using assms by (auto simp: extract_measure_def)

text \<open>The inner loop: extract packets from the bytes left in \<open>buf\<close>.\<close>

function recv_extract :: "bytes \<Rightarrow> recvq \<Rightarrow> store \<Rightarrow> (store \<times> recvq) res" where
  "recv_extract bs q st =
     (if bs = [] then Inr (st, q)
      else case rq_rd q of
        Some p \<Rightarrow>
          rbind (rd_room q st p) (\<lambda>room.
            let c = (if length bs < room then length bs else room)
            in rbind (recv_store (take c bs) q st) (\<lambda>(st1, q1).
               rbind (recv_finish p (q1\<lparr>rq_rd_pos := rq_rd_pos q1 + c\<rparr>) st1) (\<lambda>(st2, q2).
                 recv_extract (drop c bs) q2 st2)))
      | None \<Rightarrow>
          if 4 \<le> length bs then
            rbind (recv_header bs (rq_dir q) st) (\<lambda>(st1, p).
            rbind (recv_finish p (q\<lparr>rq_rd := Some p, rq_rd_pos := rq_rd_pos q + 4\<rparr>) st1)
              (\<lambda>(st2, q2). recv_extract (drop 4 bs) q2 st2))
          else
            rbind (recv_store bs q st) (\<lambda>(st1, q1).
              Inr (st1, q1\<lparr>rq_rd_pos := rq_rd_pos q1 + length bs\<rparr>)))"
  by pat_completeness auto
termination
  by (relation "measure (\<lambda>(bs, q, st). extract_measure bs q)")
    (auto simp: Let_def intro: header_progress extract_progress [OF _ _ _ refl]
      split del: if_split)

declare recv_extract.simps [simp del]

text \<open>One successful \<open>readv\<close> of \<open>bs\<close>; \<open>room\<close> is \<open>rv[0].iov_len\<close>.\<close>

definition recv_got :: "nat \<Rightarrow> bytes \<Rightarrow> recvq \<Rightarrow> store \<Rightarrow> (store \<times> recvq) res" where
  "recv_got room bs q st =
     rbind (recv_store (take room bs) q st) (\<lambda>(st1, q1).
       if room \<le> length bs then
         rbind (case rq_rd q1 of
                  Some p \<Rightarrow>
                    Inr (st1, q1\<lparr>rq_pq := pqh_push (rq_pq q1) p, rq_rd := None, rq_rd_pos := 0\<rparr>)
                | None \<Rightarrow>
                    rbind (recv_header (rq_rd_buf q1) (rq_dir q1) st1) (\<lambda>(st2, p).
                      recv_finish p (q1\<lparr>rq_rd := Some p, rq_rd_pos := 4\<rparr>) st2))
           (\<lambda>(st3, q3). recv_extract (drop room bs) q3 st3)
       else Inr (st1, q1\<lparr>rq_rd_pos := rq_rd_pos q1 + length bs\<rparr>))"

text \<open>
  \<open>recvq::recv\<close>: the first component of the result is the return value, \<open>False\<close> for end of file
  or a broken descriptor, the second what is left of the script.
\<close>

function recvq_recv :: "rd_outcome list \<Rightarrow> recvq \<Rightarrow> store \<Rightarrow>
    (bool \<times> rd_outcome list \<times> store \<times> recvq) res" where
  "recvq_recv s q st =
     rbind (recv_iov0 q st) (\<lambda>room.
       case readv (room + RECV_BUF) s of
         (RdGot bs, s') \<Rightarrow>
           rbind (recv_got room bs q st) (\<lambda>(st', q'). recvq_recv s' q' st')
       | (RdZero, s') \<Rightarrow> Inr (False, s', st, q)
       | (RdFail EINTR, s') \<Rightarrow> recvq_recv s' q st
       | (RdFail EAGAIN, s') \<Rightarrow> Inr (True, s', st, q)
       | (RdFail EOTHER, s') \<Rightarrow> Inr (False, s', st, q))"
  by pat_completeness auto
termination
  by (relation "measure (\<lambda>(s, q, st). rd_size s)") (auto dest: readv_size [OF sym])

declare recvq_recv.simps [simp del]

section \<open>Specification\<close>

definition frame_len :: "bytes \<Rightarrow> nat" where
  "frame_len bs = unat (get_int16 (bs ! 0) (bs ! 1))"

text \<open>Cut a byte string into packets; the second component is the unfinished rest.\<close>

function frames :: "bytes \<Rightarrow> (bytes list \<times> bytes) res" where
  "frames bs =
     (if length bs < 4 then Inr ([], bs)
      else if frame_len bs < 4 then Inl OutOfBounds
      else if length bs < frame_len bs then Inr ([], bs)
      else rbind (frames (drop (frame_len bs) bs))
             (\<lambda>(fs, r). Inr (take (frame_len bs) bs # fs, r)))"
  by pat_completeness auto
termination
  by (relation "measure length") auto

declare frames.simps [simp del]

text \<open>The packet a frame becomes.\<close>

definition frame_pkt :: "dir \<Rightarrow> bytes \<Rightarrow> rf_packet" where
  "frame_pkt d bs =
     \<lparr>p_len = ucast (get_int16 (bs ! 0) (bs ! 1)), p_type = ucast (get_int16 (bs ! 2) (bs ! 3)),
      p_dir = d, p_drop = False, p_show = False, p_refc = 1, p_delay = 0,
      p_desc = None, p_dyn_desc = None, p_data = bs\<rparr>"

text \<open>The bytes received that are not part of a finished packet yet.\<close>

definition rd_partial :: "recvq \<Rightarrow> store \<Rightarrow> bytes" where
  "rd_partial q st =
     (case rq_rd q of None \<Rightarrow> take (rq_rd_pos q) (rq_rd_buf q)
      | Some p \<Rightarrow> (case pkts st p of None \<Rightarrow> [] | Some pk \<Rightarrow> take (rq_rd_pos q) (p_data pk)))"

text \<open>The invariant of the receive queue between two reads.\<close>

definition recvq_ok :: "recvq \<Rightarrow> store \<Rightarrow> bool" where
  "recvq_ok q st \<longleftrightarrow> store_ok st \<and> length (rq_rd_buf q) = 4 \<and> (\<forall>a \<in> set (rq_pq q). a < brk st) \<and>
     (case rq_rd q of None \<Rightarrow> rq_rd_pos q < 4
      | Some p \<Rightarrow> p \<notin> set (rq_pq q) \<and>
          (\<exists>x. pkts st p = Some (frame_pkt (rq_dir q) x) \<and> frame_len x = length x \<and>
               4 \<le> rq_rd_pos q \<and> rq_rd_pos q < length x))"

text \<open>
  \<open>recv_delivers q st fs r q' st'\<close>: from \<open>(q, st)\<close> the code reaches \<open>(q', st')\<close>, having appended
  exactly the packets of the frames \<open>fs\<close> to the queue and holding \<open>r\<close> as unfinished bytes. The
  addresses involved are the packet that was being read and freshly allocated ones, and no other
  packet of the store changed.
\<close>

definition recv_delivers ::
    "recvq \<Rightarrow> store \<Rightarrow> bytes list \<Rightarrow> bytes \<Rightarrow> recvq \<Rightarrow> store \<Rightarrow> bool" where
  "recv_delivers q st fs r q' st' \<longleftrightarrow>
     recvq_ok q' st' \<and> rq_dir q' = rq_dir q \<and> rd_partial q' st' = r \<and> brk st \<le> brk st' \<and>
     (\<forall>a < brk st. rq_rd q \<noteq> Some a \<longrightarrow> pkts st' a = pkts st a) \<and>
     (\<exists>ps. rq_pq q' = rq_pq q @ ps \<and> distinct ps \<and>
        map (pkts st') ps = map (\<lambda>x. Some (frame_pkt (rq_dir q) x)) fs \<and>
        set ps \<union> set_option (rq_rd q') = set_option (rq_rd q) \<union> {brk st..<brk st'})"

text \<open>The code's result against the specification's.\<close>

definition recv_sim ::
    "(bytes list \<times> bytes) res \<Rightarrow> recvq \<Rightarrow> store \<Rightarrow> (store \<times> recvq) res \<Rightarrow> bool" where
  "recv_sim F q st R \<longleftrightarrow>
     (case F of Inl e \<Rightarrow> R = Inl e
      | Inr (fs, r) \<Rightarrow> \<exists>q' st'. R = Inr (st', q') \<and> recv_delivers q st fs r q' st')"

section \<open>Facts about frames\<close>

lemma frame_len_append [simp]: "4 \<le> length xs \<Longrightarrow> frame_len (xs @ ys) = frame_len xs"
  by (cases xs) (auto simp: frame_len_def nth_append)

lemma frame_pkt_len [simp]: "unat (p_len (frame_pkt d x)) = frame_len x"
  using unat_get_int16_less [of "x ! 0" "x ! 1"]
  by (simp add: frame_pkt_def frame_len_def unsigned_ucast_eq take_bit_nat_eq_self)

lemma frame_pkt_data [simp]: "p_data (frame_pkt d x) = x"
  by (simp add: frame_pkt_def)

lemma frame_pkt_update:
  assumes "4 \<le> length x" and "4 \<le> length y" and "take 4 y = take 4 x"
  shows "frame_pkt d x\<lparr>p_data := y\<rparr> = frame_pkt d y" and "frame_len y = frame_len x"
proof -
  have "y ! i = x ! i" if "i < 4" for i
    using that assms(3) by (metis nth_take)
  then show "frame_pkt d x\<lparr>p_data := y\<rparr> = frame_pkt d y" and "frame_len y = frame_len x"
    by (simp_all add: frame_pkt_def frame_len_def)
qed

lemma frames_short: "length bs < 4 \<Longrightarrow> frames bs = Inr ([], bs)"
  by (subst frames.simps) simp

lemma frames_wait: "4 \<le> frame_len bs \<Longrightarrow> length bs < frame_len bs \<Longrightarrow> frames bs = Inr ([], bs)"
  by (subst frames.simps) simp

lemma frames_bad: "4 \<le> length bs \<Longrightarrow> frame_len bs < 4 \<Longrightarrow> frames bs = Inl OutOfBounds"
  by (subst frames.simps) simp

lemma frames_one:
  assumes "4 \<le> length x" and "frame_len x = length x"
  shows "frames (x @ bs) = rbind (frames bs) (\<lambda>(fs, r). Inr (x # fs, r))"
  using assms by (subst frames.simps) simp

lemma frames_full: "4 \<le> length x \<Longrightarrow> frame_len x = length x \<Longrightarrow> frames x = Inr ([x], [])"
  using frames_one [of x "[]"] by (simp add: frames_short)

text \<open>Cutting is incremental: what was cut stays cut, the rest is cut with what follows.\<close>

lemma frames_append:
  "frames bs = Inr (fs, r) \<Longrightarrow>
   frames (bs @ cs) = rbind (frames (r @ cs)) (\<lambda>(gs, r'). Inr (fs @ gs, r'))"
proof (induction bs arbitrary: fs r rule: frames.induct)
  case (1 bs)
  have eq: "rbind m (\<lambda>x. Inr x) = m" for m :: "(bytes list \<times> bytes) res"
    by (cases m) auto
  consider (wait) "fs = []" "r = bs"
    | (cut) "4 \<le> length bs" "4 \<le> frame_len bs" "frame_len bs \<le> length bs"
    using "1.prems" by (subst (asm) frames.simps) (auto split: if_splits)
  then show ?case
  proof cases
    case wait
    then show ?thesis by (simp add: eq)
  next
    case cut
    let ?n = "frame_len bs" and ?x = "take (frame_len bs) bs"
    have x: "4 \<le> length ?x" "frame_len ?x = length ?x"
      using cut frame_len_append [of ?x "drop ?n bs"] by simp_all
    obtain gs where gs: "frames (drop ?n bs) = Inr (gs, r)" "fs = ?x # gs"
      using "1.prems" cut by (subst (asm) frames.simps) (auto simp: rbind_eq_Inr)
    have "frames (drop ?n bs @ cs) = rbind (frames (r @ cs)) (\<lambda>(hs, r'). Inr (gs @ hs, r'))"
      using "1.IH" cut gs(1) by simp
    then have "frames (?x @ drop ?n bs @ cs) =
        rbind (frames (r @ cs)) (\<lambda>(hs, r'). Inr (?x # gs @ hs, r'))"
      using frames_one [OF x] by (cases "frames (r @ cs)") auto
    then show ?thesis
      using gs(2) by (simp flip: append_assoc)
  qed
qed

lemma frames_append_bad: "frames bs = Inl e \<Longrightarrow> frames (bs @ cs) = Inl e"
proof (induction bs rule: frames.induct)
  case (1 bs)
  consider (bad) "4 \<le> length bs" "frame_len bs < 4" "e = OutOfBounds"
    | (cut) "4 \<le> length bs" "4 \<le> frame_len bs" "frame_len bs \<le> length bs"
      "frames (drop (frame_len bs) bs) = Inl e"
    using "1.prems" by (subst (asm) frames.simps) (auto simp: rbind_eq_Inl split: if_splits)
  then show ?case
  proof cases
    case bad
    then show ?thesis by (simp add: frames_bad)
  next
    case cut
    then show ?thesis using "1.IH" by (subst frames.simps) simp
  qed
qed

text \<open>A frame survives the round trip through the stream.\<close>

lemma frames_concat:
  "(\<And>x. x \<in> set xs \<Longrightarrow> 4 \<le> length x \<and> frame_len x = length x) \<Longrightarrow>
   frames (concat xs) = Inr (xs, [])"
  by (induction xs) (simp_all add: frames_short frames_one)

section \<open>Single steps\<close>

lemma recvq_ok_rd:
  assumes "recvq_ok q st" and "rq_rd q = Some p"
  obtains x where "pkts st p = Some (frame_pkt (rq_dir q) x)" "frame_len x = length x"
    "4 \<le> rq_rd_pos q" "rq_rd_pos q < length x" "p < brk st" "p \<notin> set (rq_pq q)"
    "rd_partial q st = take (rq_rd_pos q) x" "store_ok st"
proof -
  obtain x where x: "pkts st p = Some (frame_pkt (rq_dir q) x)" "frame_len x = length x"
    "4 \<le> rq_rd_pos q" "rq_rd_pos q < length x"
    using assms by (auto simp: recvq_ok_def)
  moreover have "p < brk st"
    using assms(1) x(1) by (auto simp: recvq_ok_def store_ok_def not_le [symmetric])
  ultimately show ?thesis
    using that assms by (auto simp: recvq_ok_def rd_partial_def)
qed

text \<open>Some bytes go into the packet being read; the packet may become complete.\<close>

text \<open>The packet being read after more of its bytes were stored: still an allocated packet of the announced length.\<close>

definition body_written :: "recvq \<Rightarrow> store \<Rightarrow> addr \<Rightarrow> bytes \<Rightarrow> bytes \<Rightarrow> store \<Rightarrow> bool" where
  "body_written q st p bs y st1 \<longleftrightarrow>
     st1 = st\<lparr>pkts := (pkts st)(p \<mapsto> frame_pkt (rq_dir q) y)\<rparr> \<and> 4 \<le> length y \<and> frame_len y = length y \<and>
     4 \<le> rq_rd_pos q \<and> rq_rd_pos q + length bs \<le> length y \<and>
     take (rq_rd_pos q + length bs) y = rd_partial q st @ bs \<and> 4 \<le> length (rd_partial q st) \<and>
     frame_len (rd_partial q st) = length y \<and> length (rd_partial q st) = rq_rd_pos q \<and>
     store_ok st1 \<and> length (rq_rd_buf q) = 4 \<and> (\<forall>a \<in> set (rq_pq q). a < brk st) \<and> p < brk st \<and> p \<notin> set (rq_pq q)"

lemma body_store:
  assumes ok: "recvq_ok q st" and p: "rq_rd q = Some p"
    and len: "rd_room q st p = Inr room" "length bs \<le> room"
  obtains y st1 where "recv_store bs q st = Inr (st1, q)" "body_written q st p bs y st1" "room = length y - rq_rd_pos q"
proof -
  obtain x where x: "pkts st p = Some (frame_pkt (rq_dir q) x)" "frame_len x = length x"
    "4 \<le> rq_rd_pos q" "rq_rd_pos q < length x" "p < brk st" "p \<notin> set (rq_pq q)"
    "rd_partial q st = take (rq_rd_pos q) x" "store_ok st"
    by (rule recvq_ok_rd [OF ok p])
  let ?n = "rq_rd_pos q"
  define y where "y = take ?n x @ bs @ drop (?n + length bs) x"
  have room: "room = length x - ?n"
    using len(1) x by (auto simp: rd_room_def)
  have y: "length y = length x" "take (?n + length bs) y = take ?n x @ bs" "4 \<le> length y"
    "take 4 y = take 4 x"
    using x len room by (auto simp: y_def min_def)
  note u = frame_pkt_update [OF _ y(3,4)]
  have flen: "frame_len y = length y"
    using u(2) x y(1) by simp
  define st1 where "st1 = st\<lparr>pkts := (pkts st)(p \<mapsto> frame_pkt (rq_dir q) y)\<rparr>"
  have st: "recv_store bs q st = Inr (st1, q)"
    using p x len room u(1) by (simp add: recv_store_def st1_def y_def poke_def)
  have "store_ok st1"
    using x(5,8) by (auto simp: store_ok_def st1_def)
  moreover have "frame_len (rd_partial q st) = length y"
    using x(2,3,4,7) y(1) frame_len_append [of "take ?n x" "drop ?n x"] by simp
  ultimately have "body_written q st p bs y st1"
    using ok x y flen len(2) room by (simp add: body_written_def st1_def recvq_ok_def)
  then show thesis using that st room y(1) by simp
qed

lemma body_written_ok:
  assumes "body_written q st p bs y st1"
  shows "store_ok st1" "length (rq_rd_buf q) = 4" "\<forall>a \<in> set (rq_pq q). a < brk st" "p < brk st"
    "p \<notin> set (rq_pq q)" "pkts st1 = (pkts st)(p \<mapsto> frame_pkt (rq_dir q) y)" "brk st1 = brk st"
    "4 \<le> length y" "frame_len y = length y" "4 \<le> rq_rd_pos q" "rq_rd_pos q + length bs \<le> length y"
    "take (rq_rd_pos q + length bs) y = rd_partial q st @ bs" "length (rd_partial q st) = rq_rd_pos q"
    "frame_len (rd_partial q st @ bs) = length y"
  using assms unfolding body_written_def by (elim conjE, simp)+

lemma body_complete:
  assumes w: "body_written q st p bs y st1" and p: "rq_rd q = Some p" and all: "rq_rd_pos q + length bs = length y"
    and q2: "q2 = q\<lparr>rq_pq := pqh_push (rq_pq q) p, rq_rd := None, rq_rd_pos := 0\<rparr>"
  shows "recv_finish p (q\<lparr>rq_rd_pos := rq_rd_pos q + length bs\<rparr>) st1 = Inr (st1, q2)"
    and "frames (rd_partial q st @ bs) = Inr ([y], [])" and "recv_delivers q st [y] [] q2 st1"
proof -
  note ok = body_written_ok [OF w]
  show "recv_finish p (q\<lparr>rq_rd_pos := rq_rd_pos q + length bs\<rparr>) st1 = Inr (st1, q2)"
    using all by (simp add: recv_finish_def ok(6,9) q2)
  have "rd_partial q st @ bs = y" using ok(12) all by simp
  then show "frames (rd_partial q st @ bs) = Inr ([y], [])"
    using frames_full [OF ok(8,9)] by simp
  show "recv_delivers q st [y] [] q2 st1"
    using ok(1-5,7) p
    by (auto simp: recv_delivers_def recvq_ok_def rd_partial_def pqh_push_def ok(6) q2 intro: exI [of _ "[p]"])
qed

lemma body_partial:
  assumes w: "body_written q st p bs y st1" and p: "rq_rd q = Some p"
    and lt: "rq_rd_pos q + length bs < length y" and q2: "q2 = q\<lparr>rq_rd_pos := rq_rd_pos q + length bs\<rparr>"
  shows "recv_finish p q2 st1 = Inr (st1, q2)"
    and "frames (rd_partial q st @ bs) = Inr ([], rd_partial q st @ bs)"
    and "recv_delivers q st [] (rd_partial q st @ bs) q2 st1"
proof -
  note ok = body_written_ok [OF w]
  show "recv_finish p q2 st1 = Inr (st1, q2)"
    using lt by (simp add: recv_finish_def ok(6,9) q2)
  show "frames (rd_partial q st @ bs) = Inr ([], rd_partial q st @ bs)"
    by (rule frames_wait) (use lt in \<open>simp_all add: ok(8,13,14)\<close>)
  have "rd_partial q2 st1 = rd_partial q st @ bs"
    unfolding ok(12) [symmetric] using p by (simp add: rd_partial_def ok(6) q2)
  moreover have "recvq_ok q2 st1"
    using ok(1-5,7-11) p lt by (auto simp: recvq_ok_def ok(6) q2 intro: exI [of _ y])
  ultimately show "recv_delivers q st [] (rd_partial q st @ bs) q2 st1"
    using ok(5,7) p by (auto simp: recv_delivers_def ok(6) q2)
qed

lemma body_step:
  assumes ok: "recvq_ok q st" and p: "rq_rd q = Some p"
    and len: "rd_room q st p = Inr room" "length bs \<le> room"
  shows "\<exists>st1 st2 q2 fs r. recv_store bs q st = Inr (st1, q) \<and>
    recv_finish p (q\<lparr>rq_rd_pos := rq_rd_pos q + length bs\<rparr>) st1 = Inr (st2, q2) \<and>
    frames (rd_partial q st @ bs) = Inr (fs, r) \<and> recv_delivers q st fs r q2 st2 \<and>
    (rq_rd q2 = None \<longrightarrow> rq_rd_pos q2 = 0) \<and> (length bs = room \<longleftrightarrow> rq_rd q2 = None)"
proof -
  obtain y st1 where y: "recv_store bs q st = Inr (st1, q)" "body_written q st p bs y st1" "room = length y - rq_rd_pos q"
    by (rule body_store [OF assms])
  show ?thesis
  proof (cases "length bs = room")
    case True
    then have "rq_rd_pos q + length bs = length y"
      using y(3) body_written_ok(11) [OF y(2)] by simp
    from body_complete [OF y(2) p this refl] y(1) True show ?thesis by fastforce
  next
    case False
    then have "rq_rd_pos q + length bs < length y" using len(2) y(3) by simp
    from body_partial [OF y(2) p this refl] y(1) False p show ?thesis by fastforce
  qed
qed

text \<open>A complete header starts a packet, or is the whole of it.\<close>

lemma recv_header_eq:
  assumes "4 \<le> length h"
  shows "recv_header h d st =
    (if frame_len h < 4 then Inl OutOfBounds
     else Inr (st\<lparr>pkts := (pkts st)(brk st \<mapsto>
            frame_pkt d (take 4 h @ replicate (frame_len h - 4) 0)), brk := Suc (brk st)\<rparr>, brk st))"
proof -
  let ?l = "get_int16 (h ! 0) (h ! 1)" and ?t = "get_int16 (h ! 2) (h ! 3)"
  have l: "0 < length h" "1 < length h" "2 < length h" "3 < length h"
    using assms by linarith+
  have eq: "recv_header h d st = pkt_new ?l ?t d st"
    using l by (simp add: recv_header_def)
  show ?thesis
  proof (cases "frame_len h < 4")
    case True
    then show ?thesis by (simp add: eq pkt_new_short frame_len_def)
  next
    case False
    let ?pk = "\<lparr>p_len = ucast ?l, p_type = ucast ?t, p_dir = d, p_drop = False, p_show = False,
        p_refc = 1, p_delay = 0, p_desc = None, p_dyn_desc = None,
        p_data = [put_lo ?l, put_hi ?l, put_lo ?t, put_hi ?t] @ replicate (unat ?l - 4) 0\<rparr>"
    have pk: "?pk = frame_pkt d (take 4 h @ replicate (frame_len h - 4) 0)"
      by (simp add: frame_pkt_def take_4 [OF assms] put_lo_get_int16 put_hi_get_int16
          frame_len_def)
    have "pkt_new ?l ?t d st =
        Inr (st\<lparr>pkts := (pkts st)(brk st \<mapsto> ?pk), brk := Suc (brk st)\<rparr>, brk st)"
      using False by (subst pkt_new_eq_Inr) (simp add: frame_len_def)
    then show ?thesis using False by (simp only: eq pk if_False)
  qed
qed

lemma header_step:
  assumes ok: "store_ok st" and buf: "length (rq_rd_buf q) = 4" and rd: "rq_rd q = None"
    and pq: "\<And>a. a \<in> set (rq_pq q) \<Longrightarrow> a < brk st"
    and h: "4 \<le> length h" "4 \<le> frame_len h"
  shows "\<exists>p st1 st2 q2 fs r. recv_header h (rq_dir q) st = Inr (st1, p) \<and>
    recv_finish p (q\<lparr>rq_rd := Some p, rq_rd_pos := 4\<rparr>) st1 = Inr (st2, q2) \<and>
    frames (take 4 h) = Inr (fs, r) \<and> recv_delivers q st fs r q2 st2 \<and>
    (rq_rd q2 = None \<longrightarrow> rq_rd_pos q2 = 0)"
proof -
  define x where "x = take 4 h @ replicate (frame_len h - 4) 0"
  define st1 where "st1 = st\<lparr>pkts := (pkts st)(brk st \<mapsto> frame_pkt (rq_dir q) x),
    brk := Suc (brk st)\<rparr>"
  let ?p = "brk st"
  have flen: "frame_len (take 4 h) = frame_len h"
    using h(1) frame_len_append [of "take 4 h" "drop 4 h"] by simp
  have x: "4 \<le> length x" "frame_len x = length x" "length x = frame_len h" "take 4 x = take 4 h"
    using h flen by (simp_all add: x_def)
  have hd: "recv_header h (rq_dir q) st = Inr (st1, ?p)"
    using h by (simp add: recv_header_eq x_def st1_def)
  have ok1: "store_ok st1"
    using ok by (auto simp: store_ok_def st1_def)
  show ?thesis
  proof (cases "length x = 4")
    case True
    let ?q2 = "q\<lparr>rq_pq := pqh_push (rq_pq q) ?p, rq_rd := None, rq_rd_pos := 0\<rparr>"
    have fin: "recv_finish ?p (q\<lparr>rq_rd := Some ?p, rq_rd_pos := 4\<rparr>) st1 = Inr (st1, ?q2)"
      using True x by (simp add: recv_finish_def st1_def)
    have fr: "frames (take 4 h) = Inr ([x], [])"
      using frames_full [OF x(1,2)] x(4) True by simp
    have "recv_delivers q st [x] [] ?q2 st1"
      using ok1 buf rd x pq
      by (auto simp: recv_delivers_def recvq_ok_def rd_partial_def st1_def pqh_push_def
          intro!: exI [of _ "[?p]"] less_SucI)
    then show ?thesis using hd fin fr by auto
  next
    case False
    let ?q2 = "q\<lparr>rq_rd := Some ?p, rq_rd_pos := 4\<rparr>"
    have fin: "recv_finish ?p ?q2 st1 = Inr (st1, ?q2)"
      using False x by (simp add: recv_finish_def st1_def)
    have fr: "frames (take 4 h) = Inr ([], take 4 h)"
      by (rule frames_wait) (use False flen h x in simp_all)
    have "recv_delivers q st [] (take 4 h) ?q2 st1"
      using ok1 buf rd x False pq
      by (auto simp: recv_delivers_def recvq_ok_def rd_partial_def st1_def intro!: less_SucI)
    then show ?thesis using hd fin fr by auto
  qed
qed

section \<open>Sequences of steps\<close>

lemma recv_delivers_refl: "recvq_ok q st \<Longrightarrow> recv_delivers q st [] (rd_partial q st) q st"
  by (simp add: recv_delivers_def)

lemma recv_delivers_trans:
  assumes d1: "recv_delivers q st fs r q1 st1" and d2: "recv_delivers q1 st1 gs r' q2 st2"
    and rd: "\<And>a. rq_rd q = Some a \<Longrightarrow> a < brk st"
  shows "recv_delivers q st (fs @ gs) r' q2 st2"
proof -
  obtain ps where ps: "rq_pq q1 = rq_pq q @ ps" "distinct ps"
    "map (pkts st1) ps = map (\<lambda>x. Some (frame_pkt (rq_dir q) x)) fs"
    "set ps \<union> set_option (rq_rd q1) = set_option (rq_rd q) \<union> {brk st..<brk st1}"
    using d1 by (auto simp: recv_delivers_def)
  obtain qs where qs: "rq_pq q2 = rq_pq q1 @ qs" "distinct qs"
    "map (pkts st2) qs = map (\<lambda>x. Some (frame_pkt (rq_dir q1) x)) gs"
    "set qs \<union> set_option (rq_rd q2) = set_option (rq_rd q1) \<union> {brk st1..<brk st2}"
    using d2 by (auto simp: recv_delivers_def)
  have k: "brk st \<le> brk st1" "brk st1 \<le> brk st2" "rq_dir q1 = rq_dir q" "rq_dir q2 = rq_dir q1"
    "recvq_ok q2 st2" "rd_partial q2 st2 = r'"
    "\<And>a. a < brk st \<Longrightarrow> rq_rd q \<noteq> Some a \<Longrightarrow> pkts st1 a = pkts st a"
    "\<And>a. a < brk st1 \<Longrightarrow> rq_rd q1 \<noteq> Some a \<Longrightarrow> pkts st2 a = pkts st1 a"
    using d1 d2 by (auto simp: recv_delivers_def)
  have lt: "a < brk st1" if "a \<in> set ps" for a
    using that ps(4) rd k(1) by (cases "rq_rd q") (auto, force+)
  have ne: "rq_rd q1 \<noteq> Some a" if "a \<in> set ps" for a
    using that d1 ps(1) by (auto simp: recv_delivers_def recvq_ok_def)
  have old: "pkts st2 a = pkts st a" if "a < brk st" "rq_rd q \<noteq> Some a" for a
  proof -
    have "rq_rd q1 \<noteq> Some a"
      using that ps(4) by (auto simp: set_eq_iff)
    then show ?thesis using that k by auto
  qed
  have dis: "set ps \<inter> set qs = {}"
    using qs(4) lt ne by (fastforce simp: set_eq_iff)
  have "map (pkts st2) ps = map (pkts st1) ps"
    using lt ne k(8) by simp
  then have "map (pkts st2) (ps @ qs) = map (\<lambda>x. Some (frame_pkt (rq_dir q) x)) (fs @ gs)"
    using ps(3) qs(3) k(3) by simp
  moreover have "set (ps @ qs) \<union> set_option (rq_rd q2) = set_option (rq_rd q) \<union> {brk st..<brk st2}"
  proof -
    have "{brk st..<brk st2} = {brk st..<brk st1} \<union> {brk st1..<brk st2}"
      using k by auto
    then show ?thesis using ps(4) qs(4) by auto
  qed
  moreover have "distinct (ps @ qs)"
    using ps(2) qs(2) dis by simp
  ultimately show ?thesis
    using k ps(1) qs(1) old unfolding recv_delivers_def
    by (intro conjI allI impI exI [of _ "ps @ qs"]) auto
qed

lemma recv_sim_trans:
  assumes fr: "frames bs = Inr (fs, r)" and d: "recv_delivers q st fs r q1 st1"
    and sim: "recv_sim (frames (r @ cs)) q1 st1 R"
    and rd: "\<And>a. rq_rd q = Some a \<Longrightarrow> a < brk st"
  shows "recv_sim (frames (bs @ cs)) q st R"
  using sim recv_delivers_trans [OF d _ rd] frames_append [OF fr, of cs]
  by (fastforce simp: recv_sim_def split: sum.splits)

lemma recv_delivers_partial: "recv_delivers q st fs r q' st' \<Longrightarrow> recvq_ok q' st' \<and> r = rd_partial q' st'"
  by (simp add: recv_delivers_def)

lemma recvq_ok_rd_less: "recvq_ok q st \<Longrightarrow> rq_rd q = Some a \<Longrightarrow> a < brk st"
  by (erule (1) recvq_ok_rd)

lemma frames_partial:
  assumes "recvq_ok q st"
  shows "frames (rd_partial q st) = Inr ([], rd_partial q st)"
proof (cases "rq_rd q")
  case None
  then show ?thesis
    using assms by (simp add: recvq_ok_def rd_partial_def frames_short)
next
  case (Some p)
  obtain x where x: "frame_len x = length x" "4 \<le> rq_rd_pos q" "rq_rd_pos q < length x"
    "rd_partial q st = take (rq_rd_pos q) x"
    by (rule recvq_ok_rd [OF assms Some])
  then have "frame_len (rd_partial q st) = length x"
    using frame_len_append [of "take (rq_rd_pos q) x" "drop (rq_rd_pos q) x"] by simp
  then show ?thesis
    using x by (intro frames_wait) simp_all
qed

lemma recv_sim_refl: "recvq_ok q st \<Longrightarrow> recv_sim (frames (rd_partial q st)) q st (Inr (st, q))"
  by (simp add: frames_partial recv_sim_def recv_delivers_refl)

text \<open>The two kinds of turn the inner loop takes, and its exit.\<close>

lemma extract_body:
  assumes ok: "recvq_ok q st" and p: "rq_rd q = Some p" and bs: "bs \<noteq> []"
    and IH: "\<And>c q2 st2. 0 < c \<Longrightarrow> recvq_ok q2 st2 \<Longrightarrow> (rq_rd q2 = None \<Longrightarrow> rq_rd_pos q2 = 0) \<Longrightarrow>
      recv_sim (frames (rd_partial q2 st2 @ drop c bs)) q2 st2 (recv_extract (drop c bs) q2 st2)"
  shows "recv_sim (frames (rd_partial q st @ bs)) q st (recv_extract bs q st)"
proof -
  obtain x where x: "pkts st p = Some (frame_pkt (rq_dir q) x)" "frame_len x = length x"
    "rq_rd_pos q < length x" "p < brk st"
    by (rule recvq_ok_rd [OF ok p])
  define room where "room = length x - rq_rd_pos q"
  define c where "c = (if length bs < room then length bs else room)"
  have room: "rd_room q st p = Inr room" "0 < room"
    using x by (simp_all add: rd_room_def room_def)
  have c: "0 < c" "c \<le> room" "length (take c bs) = c"
    using bs room(2) by (auto simp: c_def)
  have "length (take c bs) \<le> room" using c by simp
  from body_step [OF ok p room(1) this] c(3)
  obtain st1 st2 q2 fs r where s: "recv_store (take c bs) q st = Inr (st1, q)"
    "recv_finish p (q\<lparr>rq_rd_pos := rq_rd_pos q + c\<rparr>) st1 = Inr (st2, q2)"
    "frames (rd_partial q st @ take c bs) = Inr (fs, r)" "recv_delivers q st fs r q2 st2"
    "rq_rd q2 = None \<longrightarrow> rq_rd_pos q2 = 0"
    by auto
  have ok2: "recvq_ok q2 st2" and r: "r = rd_partial q2 st2"
    using recv_delivers_partial [OF s(4)] by auto
  have "recv_sim (frames (r @ drop c bs)) q2 st2 (recv_extract (drop c bs) q2 st2)"
    using IH [OF c(1) ok2] s(5) r by simp
  then have "recv_sim (frames ((rd_partial q st @ take c bs) @ drop c bs)) q st
      (recv_extract (drop c bs) q2 st2)"
    by (rule recv_sim_trans [OF s(3,4)]) (use recvq_ok_rd_less [OF ok] in simp)
  moreover have "recv_extract bs q st = recv_extract (drop c bs) q2 st2"
    using bs p room(1) s(1,2)
    by (subst recv_extract.simps) (simp add: Let_def flip: c_def split del: if_split)
  ultimately show ?thesis by simp
qed

lemma extract_head:
  assumes ok: "recvq_ok q st" and p: "rq_rd q = None" "rq_rd_pos q = 0" and bs: "4 \<le> length bs"
    and IH: "\<And>q2 st2. recvq_ok q2 st2 \<Longrightarrow> (rq_rd q2 = None \<Longrightarrow> rq_rd_pos q2 = 0) \<Longrightarrow>
      recv_sim (frames (rd_partial q2 st2 @ drop 4 bs)) q2 st2 (recv_extract (drop 4 bs) q2 st2)"
  shows "recv_sim (frames (rd_partial q st @ bs)) q st (recv_extract bs q st)"
proof -
  have part: "rd_partial q st = []" and ne: "bs \<noteq> []"
    using p bs by (auto simp: rd_partial_def)
  show ?thesis
  proof (cases "frame_len bs < 4")
    case True
    then show ?thesis
      using bs p ne part
      by (subst recv_extract.simps) (simp add: frames_bad recv_header_eq recv_sim_def)
  next
    case False
    from header_step [of st q bs] ok p bs False
    obtain a st1 st2 q2 fs r where s: "recv_header bs (rq_dir q) st = Inr (st1, a)"
      "recv_finish a (q\<lparr>rq_rd := Some a, rq_rd_pos := 4\<rparr>) st1 = Inr (st2, q2)"
      "frames (take 4 bs) = Inr (fs, r)" "recv_delivers q st fs r q2 st2"
      "rq_rd q2 = None \<longrightarrow> rq_rd_pos q2 = 0"
      unfolding recvq_ok_def by auto
    have ok2: "recvq_ok q2 st2" and r: "r = rd_partial q2 st2"
      using recv_delivers_partial [OF s(4)] by auto
    have "recv_sim (frames (take 4 bs @ drop 4 bs)) q st (recv_extract (drop 4 bs) q2 st2)"
      by (rule recv_sim_trans [OF s(3,4)]) (use p r IH [OF ok2] s(5) in simp_all)
    then show ?thesis
      using ne p bs s(1,2) part by (subst recv_extract.simps) simp
  qed
qed

lemma extract_tail:
  assumes ok: "recvq_ok q st" and p: "rq_rd q = None" "rq_rd_pos q = 0"
    and bs: "bs \<noteq> []" "length bs < 4"
  shows "recv_sim (frames (rd_partial q st @ bs)) q st (recv_extract bs q st)"
  using assms
  by (subst recv_extract.simps)
    (auto simp: recv_sim_def rd_partial_def frames_short recv_store_def recvq_ok_def
      recv_delivers_def)

lemma extract_sim:
  "recvq_ok q st \<Longrightarrow> (rq_rd q = None \<Longrightarrow> rq_rd_pos q = 0) \<Longrightarrow>
   recv_sim (frames (rd_partial q st @ bs)) q st (recv_extract bs q st)"
proof (induction "length bs" arbitrary: bs q st rule: less_induct)
  case less
  note ok = less.prems(1)
  consider (stop) "bs = []" | (body) p where "bs \<noteq> []" "rq_rd q = Some p"
    | (head) "rq_rd q = None" "4 \<le> length bs" | (tail) "bs \<noteq> []" "rq_rd q = None" "length bs < 4"
    by (cases "rq_rd q"; cases "bs = []"; cases "4 \<le> length bs") (auto simp: not_le)
  then show ?case
  proof cases
    case stop
    then show ?thesis
      by (subst recv_extract.simps) (simp add: recv_sim_refl ok)
  next
    case body
    show ?thesis
      by (rule extract_body [OF ok body(2,1)]) (rule less.hyps, use body(1) in simp_all)
  next
    case head
    show ?thesis
      by (rule extract_head [OF ok head(1) less.prems(2) [OF head(1)] head(2)])
        (rule less.hyps, use head(2) in simp_all)
  next
    case tail
    show ?thesis
      by (rule extract_tail [OF ok tail(2) less.prems(2) [OF tail(2)] tail(1,3)])
  qed
qed

section \<open>The whole read loop\<close>

lemma recv_iov0_ok:
  assumes "recvq_ok q st"
  shows "\<exists>room. recv_iov0 q st = Inr room \<and> 0 < room \<and>
    (rq_rd q = None \<longrightarrow> room = 4 - rq_rd_pos q) \<and>
    (\<forall>p. rq_rd q = Some p \<longrightarrow> rd_room q st p = Inr room)"
proof (cases "rq_rd q")
  case None
  then show ?thesis using assms by (simp add: recv_iov0_def recvq_ok_def)
next
  case (Some p)
  obtain x where "pkts st p = Some (frame_pkt (rq_dir q) x)" "frame_len x = length x"
    "rq_rd_pos q < length x"
    by (rule recvq_ok_rd [OF assms Some])
  then show ?thesis using Some by (simp add: recv_iov0_def rd_room_def)
qed

lemma recv_finish_cases:
  assumes "recv_finish p q st = Inr (st', q')"
  shows "st' = st \<and> (q' = q \<or>
    q' = q\<lparr>rq_pq := pqh_push (rq_pq q) p, rq_rd := None, rq_rd_pos := 0\<rparr>)"
  using assms by (auto simp: recv_finish_def fault_simps split: if_splits)

lemma got_sim_body:
  assumes ok: "recvq_ok q st" and p: "rq_rd q = Some p" and room: "rd_room q st p = Inr room"
  shows "recv_sim (frames (rd_partial q st @ bs)) q st (recv_got room bs q st)"
proof -
  let ?b = "take room bs"
  from body_step [OF ok p room, of ?b]
  obtain st1 st2 q2 fs r where s: "recv_store ?b q st = Inr (st1, q)"
    "recv_finish p (q\<lparr>rq_rd_pos := rq_rd_pos q + length ?b\<rparr>) st1 = Inr (st2, q2)"
    "frames (rd_partial q st @ ?b) = Inr (fs, r)" "recv_delivers q st fs r q2 st2"
    "rq_rd q2 = None \<longrightarrow> rq_rd_pos q2 = 0" "length ?b = room \<longleftrightarrow> rq_rd q2 = None"
    by auto
  have ok2: "recvq_ok q2 st2" and r: "r = rd_partial q2 st2"
    using recv_delivers_partial [OF s(4)] by auto
  note fin = recv_finish_cases [OF s(2)]
  show ?thesis
  proof (cases "room \<le> length bs")
    case True
    then have q2: "q2 = q\<lparr>rq_pq := pqh_push (rq_pq q) p, rq_rd := None, rq_rd_pos := 0\<rparr>" "st2 = st1"
      using s(6) fin p by auto
    have "recv_sim (frames (r @ drop room bs)) q2 st2 (recv_extract (drop room bs) q2 st2)"
      using extract_sim [OF ok2] s(5) r by simp
    from recv_sim_trans [OF s(3,4) this recvq_ok_rd_less [OF ok]]
    show ?thesis
      using True s(1) q2 p by (simp add: recv_got_def)
  next
    case False
    then have q2: "q2 = q\<lparr>rq_rd_pos := rq_rd_pos q + length bs\<rparr>" "st2 = st1"
      using s(6) fin p by auto
    then show ?thesis
      using False s(1,3,4) by (simp add: recv_got_def recv_sim_def)
  qed
qed

text \<open>What \<open>recv_delivers\<close> says of the first queue concerns its packets only.\<close>

lemma recv_delivers_buf:
  "recv_delivers (q\<lparr>rq_rd_buf := b\<rparr>) st fs r q' st' = recv_delivers q st fs r q' st'"
  by (simp add: recv_delivers_def)

text \<open>A complete header begins a frame.\<close>

lemma header_sim:
  assumes ok: "recvq_ok q st" and p: "rq_rd q = None" and h: "length h = 4"
  defines "q1 \<equiv> q\<lparr>rq_rd_buf := h\<rparr>"
  shows "recv_sim (frames (h @ cs)) q st
    (rbind (recv_header h (rq_dir q1) st) (\<lambda>(st2, a).
       rbind (recv_finish a (q1\<lparr>rq_rd := Some a, rq_rd_pos := 4\<rparr>) st2) (\<lambda>(st3, q3). recv_extract cs q3 st3)))"
proof (cases "frame_len h < 4")
  case True
  then show ?thesis using h by (simp add: recv_header_eq frames_bad recv_sim_def)
next
  case False
  have pre: "store_ok st" "length (rq_rd_buf q1) = 4" "rq_rd q1 = None"
    "\<And>a. a \<in> set (rq_pq q1) \<Longrightarrow> a < brk st" "4 \<le> length h" "4 \<le> frame_len h"
    using ok p h False by (auto simp: recvq_ok_def q1_def)
  obtain a st1 st2 q2 fs r where s: "recv_header h (rq_dir q1) st = Inr (st1, a)"
    "recv_finish a (q1\<lparr>rq_rd := Some a, rq_rd_pos := 4\<rparr>) st1 = Inr (st2, q2)"
    "frames h = Inr (fs, r)" "recv_delivers q1 st fs r q2 st2"
    "rq_rd q2 = None \<longrightarrow> rq_rd_pos q2 = 0"
    using header_step [OF pre] h by auto
  have d: "recv_delivers q st fs r q2 st2"
    using s(4) by (simp add: q1_def recv_delivers_buf)
  have ok2: "recvq_ok q2 st2" and r: "r = rd_partial q2 st2"
    using recv_delivers_partial [OF d] by auto
  have "recv_sim (frames (r @ cs)) q2 st2 (recv_extract cs q2 st2)"
    using extract_sim [OF ok2] s(5) r by simp
  from recv_sim_trans [OF s(3) d this] p show ?thesis by (simp add: s(1,2))
qed

lemma got_sim_head:
  assumes ok: "recvq_ok q st" and p: "rq_rd q = None" and room: "room = 4 - rq_rd_pos q"
  shows "recv_sim (frames (rd_partial q st @ bs)) q st (recv_got room bs q st)"
proof -
  have pos: "rq_rd_pos q < 4" and buf: "length (rq_rd_buf q) = 4"
    and part: "rd_partial q st = take (rq_rd_pos q) (rq_rd_buf q)"
    using ok p by (auto simp: recvq_ok_def rd_partial_def)
  show ?thesis
  proof (cases "room \<le> length bs")
    case False
    then show ?thesis
      using ok p pos buf part room
      by (auto simp: recv_got_def recv_store_def poke_def recv_sim_def frames_short
          recv_delivers_def recvq_ok_def rd_partial_def)
  next
    case True
    define h where "h = take (rq_rd_pos q) (rq_rd_buf q) @ take room bs"
    define q1 where "q1 = q\<lparr>rq_rd_buf := h\<rparr>"
    have h: "length h = 4" "rd_partial q st @ bs = h @ drop room bs"
      using pos buf room True by (auto simp: h_def part)
    have "recv_store (take room bs) q st = Inr (st, q1)"
      using p pos buf room True by (simp add: recv_store_def poke_def q1_def h_def)
    then have "recv_got room bs q st = rbind (recv_header h (rq_dir q1) st) (\<lambda>(st2, a).
        rbind (recv_finish a (q1\<lparr>rq_rd := Some a, rq_rd_pos := 4\<rparr>) st2)
          (\<lambda>(st3, q3). recv_extract (drop room bs) q3 st3))"
      using True p by (simp add: recv_got_def q1_def rbind_assoc split_def)
    then show ?thesis using header_sim [OF ok p h(1), of "drop room bs"] h(2) by (simp add: q1_def)
  qed
qed

lemma got_sim:
  assumes "recvq_ok q st" and "recv_iov0 q st = Inr room"
  shows "recv_sim (frames (rd_partial q st @ bs)) q st (recv_got room bs q st)"
  using recv_iov0_ok [OF assms(1)] assms got_sim_body got_sim_head by (cases "rq_rd q") auto

text \<open>
  \<open>recvq::recv\<close> against the specification, for every script: the bytes available are cut into
  frames, the frames become packets in order, and the return value says whether more may come.
\<close>

definition recv_as_framed :: "rd_outcome list \<Rightarrow> recvq \<Rightarrow> store \<Rightarrow> bool" where
  "recv_as_framed s q st \<longleftrightarrow>
     (case frames (rd_partial q st @ rd_avail s) of
        Inl e \<Rightarrow> recvq_recv s q st = Inl e
      | Inr (fs, r) \<Rightarrow> \<exists>s' q' st'. recvq_recv s q st = Inr (rd_more s, s', st', q') \<and>
          recv_delivers q st fs r q' st')"

text \<open>A read that got bytes, a read that was interrupted, and the end of the loop.\<close>

lemma recv_framed_got:
  assumes ok: "recvq_ok q st" and room: "recv_iov0 q st = Inr room"
    and rv: "readv (room + RECV_BUF) s = (RdGot bs, s')"
    and IH: "\<And>q1 st1. recvq_ok q1 st1 \<Longrightarrow> recv_as_framed s' q1 st1"
  shows "recv_as_framed s q st"
proof -
  note unfold = recvq_recv.simps [of s q st]
  have av: "rd_avail s = bs @ rd_avail s'" "rd_more s = rd_more s'"
    using readv_got_avail [OF rv] by auto
  have sim: "recv_sim (frames (rd_partial q st @ bs)) q st (recv_got room bs q st)"
    by (rule got_sim [OF ok room])
  show ?thesis
  proof (cases "frames (rd_partial q st @ bs)")
    case (Inl e)
    then have "frames (rd_partial q st @ rd_avail s) = Inl e"
      using frames_append_bad [OF Inl, of "rd_avail s'"] av(1) by simp
    then show ?thesis
      using sim Inl rv room by (simp add: unfold recv_sim_def recv_as_framed_def)
  next
    case (Inr fr)
    then obtain fs r where fr: "frames (rd_partial q st @ bs) = Inr (fs, r)"
      by (cases fr) auto
    then obtain q1 st1 where q1: "recv_got room bs q st = Inr (st1, q1)" "recv_delivers q st fs r q1 st1"
      using sim by (auto simp: recv_sim_def)
    have ok1: "recvq_ok q1 st1" and r: "r = rd_partial q1 st1"
      using recv_delivers_partial [OF q1(2)] by auto
    have eq: "recvq_recv s q st = recvq_recv s' q1 st1"
      using rv room q1(1) by (simp add: unfold)
    have fr2: "frames (rd_partial q st @ rd_avail s) =
        rbind (frames (rd_partial q1 st1 @ rd_avail s')) (\<lambda>(gs, r'). Inr (fs @ gs, r'))"
      using frames_append [OF fr, of "rd_avail s'"] av(1) r by simp
    show ?thesis
      using IH [OF ok1] recv_delivers_trans [OF q1(2) _ recvq_ok_rd_less [OF ok]] av(2)
      by (fastforce simp: recv_as_framed_def eq fr2 split: sum.splits)
  qed
qed

lemma recv_framed_intr:
  assumes "recv_iov0 q st = Inr room" and "readv (room + RECV_BUF) s = (RdFail EINTR, s')" and "recv_as_framed s' q st"
  shows "recv_as_framed s q st"
proof -
  have "recvq_recv s q st = recvq_recv s' q st"
    using assms(1,2) by (simp add: recvq_recv.simps [of s])
  then show ?thesis
    using assms(3) readv_intr_avail [OF assms(2)] by (auto simp: recv_as_framed_def split: sum.splits)
qed

lemma recv_framed_stop:
  assumes ok: "recvq_ok q st" and room: "recv_iov0 q st = Inr room" "0 < room"
    and rv: "readv (room + RECV_BUF) s = (res, s')" and res: "res \<in> {RdZero, RdFail EAGAIN, RdFail EOTHER}"
  shows "recv_as_framed s q st"
proof -
  have "rd_avail s = [] \<and> rd_more s = (res = RdFail EAGAIN)"
    using res rv readv_stop_avail [of "room + RECV_BUF" s s'] room(2) by auto
  then show ?thesis
    using res rv room frames_partial [OF ok] recv_delivers_refl [OF ok]
    by (auto simp: recv_as_framed_def recvq_recv.simps [of s])
qed

lemma recvq_recv_framed: "recvq_ok q st \<Longrightarrow> recv_as_framed s q st"
proof (induction "rd_size s" arbitrary: s q st rule: less_induct)
  case less
  obtain room where room: "recv_iov0 q st = Inr room" "0 < room"
    using recv_iov0_ok [OF less.prems] by auto
  obtain res s' where rv: "readv (room + RECV_BUF) s = (res, s')" by fastforce
  consider bs where "res = RdGot bs" | "res = RdFail EINTR" | "res \<in> {RdZero, RdFail EAGAIN, RdFail EOTHER}"
    by (cases res; simp) (metis errno.exhaust)
  then show ?case
  proof cases
    case (1 bs)
    with rv have rv': "readv (room + RECV_BUF) s = (RdGot bs, s')" by simp
    show ?thesis by (rule recv_framed_got [OF less.prems room(1) rv' less.hyps [OF readv_size(1) [OF rv']]])
  next
    case 2
    with rv have rv': "readv (room + RECV_BUF) s = (RdFail EINTR, s')" by simp
    show ?thesis by (rule recv_framed_intr [OF room(1) rv' less.hyps [OF readv_size(2) [OF rv'] less.prems]])
  next
    case 3
    show ?thesis by (rule recv_framed_stop [OF less.prems room rv 3])
  qed
qed

lemmas recvq_recv_sim = recvq_recv_framed [unfolded recv_as_framed_def]

section \<open>Frames and byte strings\<close>

definition wf_frame :: "bytes \<Rightarrow> bool" where
  "wf_frame x \<longleftrightarrow> 4 \<le> length x \<and> frame_len x = length x"

definition unfinished :: "bytes \<Rightarrow> bool" where
  "unfinished r \<longleftrightarrow> length r < 4 \<or> 4 \<le> frame_len r \<and> length r < frame_len r"

lemma frames_Inr:
  "frames bs = Inr (fs, r) \<Longrightarrow> bs = concat fs @ r \<and> (\<forall>x \<in> set fs. wf_frame x) \<and> unfinished r"
proof (induction bs arbitrary: fs r rule: frames.induct)
  case (1 bs)
  consider (wait) "fs = []" "r = bs" "unfinished bs"
    | (cut) gs where "\<not> length bs < 4" "\<not> frame_len bs < 4" "\<not> length bs < frame_len bs"
      "fs = take (frame_len bs) bs # gs" "frames (drop (frame_len bs) bs) = Inr (gs, r)"
    using "1.prems"
    by (subst (asm) frames.simps) (auto simp: unfinished_def rbind_eq_Inr split: if_splits)
  then show ?case
  proof cases
    case cut
    have "wf_frame (take (frame_len bs) bs)"
      using cut(1-3) frame_len_append [of "take (frame_len bs) bs" "drop (frame_len bs) bs"]
      by (simp add: wf_frame_def)
    then show ?thesis using "1.IH" [OF cut(1-3,5)] cut(4) by (metis append.assoc
      append_take_drop_id concat.simps(2) set_ConsD)
  qed simp
qed

lemma frames_wf: "(\<forall>x \<in> set fs. wf_frame x) \<Longrightarrow> unfinished r \<Longrightarrow> frames (concat fs @ r) = Inr (fs, r)"
  by (induction fs) (auto simp: wf_frame_def unfinished_def frames_one frames_short frames_wait)

lemma frames_wf_bad:
  "(\<forall>x \<in> set fs. wf_frame x) \<Longrightarrow> 4 \<le> length r \<Longrightarrow> frame_len r < 4 \<Longrightarrow>
   frames (concat fs @ r) = Inl OutOfBounds"
  by (induction fs) (auto simp: wf_frame_def frames_one frames_bad)

lemma frames_Inl:
  "frames bs = Inl e \<Longrightarrow>
   \<exists>fs r. bs = concat fs @ r \<and> (\<forall>x \<in> set fs. wf_frame x) \<and> 4 \<le> length r \<and> frame_len r < 4"
proof (induction bs rule: frames.induct)
  case (1 bs)
  consider (bad) "4 \<le> length bs" "frame_len bs < 4"
    | (cut) "\<not> length bs < 4" "\<not> frame_len bs < 4" "\<not> length bs < frame_len bs"
      "frames (drop (frame_len bs) bs) = Inl e"
    using "1.prems"
    by (subst (asm) frames.simps) (auto simp: rbind_eq_Inl split: if_splits)
  then show ?case
  proof cases
    case bad
    then show ?thesis by (intro exI [of _ "[]"] exI [of _ bs]) simp
  next
    case cut
    obtain fs r where IH: "drop (frame_len bs) bs = concat fs @ r" "\<forall>x \<in> set fs. wf_frame x"
      "4 \<le> length r" "frame_len r < 4"
      using "1.IH" [OF cut] by blast
    have "wf_frame (take (frame_len bs) bs)"
      using cut(1-3) frame_len_append [of "take (frame_len bs) bs" "drop (frame_len bs) bs"]
      by (simp add: wf_frame_def)
    moreover have "bs = take (frame_len bs) bs @ concat fs @ r"
      using IH(1) by (metis append_take_drop_id)
    ultimately show ?thesis
      using IH(2-4) by (intro exI [of _ "take (frame_len bs) bs # fs"] exI [of _ r]) simp
  qed
qed

lemma recvq_new_ok:
  assumes "length junk = 4" and "store_ok st"
  shows "recvq_ok (recvq_new junk d) st" and "rd_partial (recvq_new junk d) st = []"
  using assms by (simp_all add: recvq_ok_def recvq_new_def rd_partial_def pqh_init_def)

lemma recvq_recv_ok:
  assumes "recvq_ok q st" and "frames (rd_partial q st @ rd_avail s) = Inr (fs, r)"
  obtains s' q' st' where "recvq_recv s q st = Inr (rd_more s, s', st', q')"
    "recv_delivers q st fs r q' st'"
  using recvq_recv_sim [OF assms(1), of s] assms(2) by auto

lemma recvq_recv_fault:
  assumes "recvq_ok q st" and "frames (rd_partial q st @ rd_avail s) = Inl e"
  shows "recvq_recv s q st = Inl e"
  using recvq_recv_sim [OF assms(1), of s] assms(2) by simp

section \<open>Properties\<close>

definition st_empty :: store where
  "st_empty = \<lparr>pkts = Map.empty, brk = 0\<rparr>"

lemma st_empty_ok: "store_ok st_empty"
  by (simp add: st_empty_def store_ok_def)

lemma recvq_new_empty:
  "recvq_ok (recvq_new [0, 0, 0, 0] d) st_empty"
  "rd_partial (recvq_new [0, 0, 0, 0] d) st_empty = []"
  using recvq_new_ok [of "[0, 0, 0, 0]"] st_empty_ok by simp_all

text \<open>
  C1. \<open>recvq::recv\<close> refines stream cutting: from any state between two reads, whatever the kernel
  returns and however it splits the bytes, the call terminates, appends exactly the packets of the
  received stream in order, keeps the unfinished rest, touches no other packet, re-establishes the
  invariant and returns whether the descriptor is still open; it faults exactly where the stream
  announces a packet shorter than its header.
\<close>

theorem recvq_recv_refines:
  assumes "recvq_ok q st"
  shows "case frames (rd_partial q st @ rd_avail s) of
      Inl e \<Rightarrow> recvq_recv s q st = Inl e
    | Inr (fs, r) \<Rightarrow> \<exists>s' q' st'. recvq_recv s q st = Inr (rd_more s, s', st', q') \<and>
        recv_delivers q st fs r q' st'"
  by (rule recvq_recv_sim [OF assms])

lemma recvq_recv_refines_witness:
  "\<exists>s' q' st'. recvq_recv [RdBytes [5, 0, 1], RdErr EINTR, RdBytes [0, 9, 4], RdEof]
       (recvq_new [0, 0, 0, 0] CLI_TO_SRV) st_empty = Inr (False, s', st', q') \<and>
     recv_delivers (recvq_new [0, 0, 0, 0] CLI_TO_SRV) st_empty [[5, 0, 1, 0, 9]] [4] q' st'"
proof -
  have "wf_frame [5, 0, 1, 0, 9]"
    by (simp add: wf_frame_def frame_len_def) code_simp
  then have "frames ([5, 0, 1, 0, 9] @ [4]) = Inr ([[5, 0, 1, 0, 9]], [4])"
    using frames_wf [of "[[5, 0, 1, 0, 9]]" "[4]"] by (simp add: unfinished_def)
  then show ?thesis
    using recvq_recv_refines [OF recvq_new_empty(1) [of CLI_TO_SRV], of
      "[RdBytes [5, 0, 1], RdErr EINTR, RdBytes [0, 9, 4], RdEof]"]
    by (simp add: recvq_new_empty(2))
qed

text \<open>
  C10. Round trip: packets written back to back by the peer, split into reads in any way, are
  received as exactly these packets, in order and byte for byte, and nothing is left over.
\<close>

theorem recvq_recv_roundtrip:
  assumes "store_ok st" and "length junk = 4" and "\<forall>x \<in> set fs. wf_frame x"
    and "rd_avail s = concat fs"
  shows "\<exists>s' q' st'. recvq_recv s (recvq_new junk d) st = Inr (rd_more s, s', st', q') \<and>
    map (pkts st') (rq_pq q') = map (\<lambda>x. Some (frame_pkt d x)) fs \<and> distinct (rq_pq q') \<and>
    rq_rd q' = None \<and> rq_rd_pos q' = 0"
proof -
  note new = recvq_new_ok [OF assms(2,1), of d]
  have "frames (rd_partial (recvq_new junk d) st @ rd_avail s) = Inr (fs, [])"
    using frames_wf [OF assms(3), of "[]"] new(2) assms(4) by (simp add: unfinished_def)
  then obtain s' q' st' where r: "recvq_recv s (recvq_new junk d) st = Inr (rd_more s, s', st', q')"
    "recv_delivers (recvq_new junk d) st fs [] q' st'"
    by (rule recvq_recv_ok [OF new(1)])
  have "recvq_ok q' st'" "rd_partial q' st' = []"
    using r(2) by (simp_all add: recv_delivers_def)
  then have "rq_rd q' = None \<and> rq_rd_pos q' = 0"
    by (auto simp: recvq_ok_def rd_partial_def frame_pkt_def split: option.splits)
  then show ?thesis
    using r by (auto simp: recv_delivers_def recvq_new_def pqh_init_def)
qed

lemma recvq_recv_roundtrip_witness:
  "\<exists>s' q' st'. recvq_recv [RdBytes [4, 0, 7], RdBytes [0, 5, 0, 1, 0], RdBytes [9]]
       (recvq_new [0, 0, 0, 0] SRV_TO_CLI) st_empty = Inr (True, s', st', q') \<and>
     map (pkts st') (rq_pq q') =
       map (\<lambda>x. Some (frame_pkt SRV_TO_CLI x)) [[4, 0, 7, 0], [5, 0, 1, 0, 9]] \<and>
     distinct (rq_pq q') \<and> rq_rd q' = None \<and> rq_rd_pos q' = 0"
proof -
  have "\<forall>x \<in> set [[4, 0, 7, 0], [5, 0, 1, 0, 9]]. wf_frame x"
    by (simp add: wf_frame_def frame_len_def) code_simp
  then show ?thesis
    using recvq_recv_roundtrip [OF st_empty_ok, of "[0, 0, 0, 0]" "[[4, 0, 7, 0], [5, 0, 1, 0, 9]]"
      "[RdBytes [4, 0, 7], RdBytes [0, 5, 0, 1, 0], RdBytes [9]]" SRV_TO_CLI] by simp
qed

text \<open>
  C22. How the kernel splits the bytes into reads does not matter: two descriptors that deliver the
  same bytes and end the same way give the same result, up to the addresses of the packets.
\<close>

theorem recvq_recv_chunking:
  assumes "recvq_ok q st" and "rd_avail s1 = rd_avail s2" and "rd_more s1 = rd_more s2"
    and "recvq_recv s1 q st = Inr (b1, s1', st1, q1)"
  shows "\<exists>s2' st2 q2. recvq_recv s2 q st = Inr (b1, s2', st2, q2) \<and>
    rd_partial q2 st2 = rd_partial q1 st1 \<and>
    map (pkts st2) (drop (length (rq_pq q)) (rq_pq q2)) =
      map (pkts st1) (drop (length (rq_pq q)) (rq_pq q1))"
proof (cases "frames (rd_partial q st @ rd_avail s1)")
  case (Inl e)
  then show ?thesis using recvq_recv_fault [OF assms(1) Inl] assms(4) by simp
next
  case (Inr fr)
  obtain fs r where fr: "frames (rd_partial q st @ rd_avail s1) = Inr (fs, r)"
    using Inr by (cases fr) auto
  obtain s2' q2 st2 where r2: "recvq_recv s2 q st = Inr (rd_more s2, s2', st2, q2)"
    "recv_delivers q st fs r q2 st2"
    by (rule recvq_recv_ok [OF assms(1), of s2]) (use fr assms(2) in auto)
  obtain s q' st' where r1: "recvq_recv s1 q st = Inr (rd_more s1, s, st', q')"
    "recv_delivers q st fs r q' st'"
    by (rule recvq_recv_ok [OF assms(1) fr])
  show ?thesis
    using r1 r2 assms(3,4) by (auto simp: recv_delivers_def)
qed

lemma recvq_recv_chunking_witness:
  "\<exists>s2' st2 q2. recvq_recv [RdBytes [1], RdErr EINTR, RdBytes [0, 0]]
       (recvq_new [0, 0, 0, 0] CLI_TO_SRV) st_empty = Inr (True, s2', st2, q2) \<and>
     rd_partial q2 st2 = [1, 0, 0]"
proof -
  let ?q = "recvq_new [0, 0, 0, 0] CLI_TO_SRV"
  obtain s' q' st' where r: "recvq_recv [RdBytes [1, 0, 0]] ?q st_empty = Inr (True, s', st', q')"
    "recv_delivers ?q st_empty [] [1, 0, 0] q' st'"
    by (rule recvq_recv_ok [OF recvq_new_empty(1) [of CLI_TO_SRV], of "[RdBytes [1, 0, 0]]" "[]" "[1, 0, 0]"])
      (simp_all add: frames_short recvq_new_empty(2))
  then show ?thesis
    using recvq_recv_chunking [OF recvq_new_empty(1) _ _ r(1),
        of "[RdBytes [1], RdErr EINTR, RdBytes [0, 0]]"]
    by (auto simp: recv_delivers_def)
qed

text \<open>
  C18. The call faults exactly when some packet of the stream announces a length below four, the
  size of its own header; a well-formed stream can never make it write outside a packet.
\<close>

theorem recvq_recv_safe_iff:
  assumes "recvq_ok q st"
  shows "(\<exists>e. recvq_recv s q st = Inl e) \<longleftrightarrow>
    (\<exists>fs r. rd_partial q st @ rd_avail s = concat fs @ r \<and> (\<forall>x \<in> set fs. wf_frame x) \<and>
       4 \<le> length r \<and> frame_len r < 4)"
proof
  assume "\<exists>e. recvq_recv s q st = Inl e"
  then obtain e where "frames (rd_partial q st @ rd_avail s) = Inl e"
    using recvq_recv_sim [OF assms, of s] by (auto split: sum.splits)
  then show "\<exists>fs r. rd_partial q st @ rd_avail s = concat fs @ r \<and> (\<forall>x \<in> set fs. wf_frame x) \<and>
       4 \<le> length r \<and> frame_len r < 4"
    by (rule frames_Inl)
next
  assume "\<exists>fs r. rd_partial q st @ rd_avail s = concat fs @ r \<and> (\<forall>x \<in> set fs. wf_frame x) \<and>
       4 \<le> length r \<and> frame_len r < 4"
  then obtain fs r where "rd_partial q st @ rd_avail s = concat fs @ r"
    "\<forall>x \<in> set fs. wf_frame x" "4 \<le> length r" "frame_len r < 4" by blast
  then have "frames (rd_partial q st @ rd_avail s) = Inl OutOfBounds"
    using frames_wf_bad by metis
  then show "\<exists>e. recvq_recv s q st = Inl e"
    using recvq_recv_fault [OF assms] by blast
qed

lemma recvq_recv_safe_iff_witness:
  "\<exists>e. recvq_recv [RdBytes [3, 0, 1, 0]] (recvq_new [0, 0, 0, 0] CLI_TO_SRV) st_empty = Inl e"
proof (subst recvq_recv_safe_iff [OF recvq_new_empty(1)], rule exI [of _ "[]"], rule exI [of _ "[3, 0, 1, 0]"],
    intro conjI)
  show "frame_len [3, 0, 1, 0] < 4"
    unfolding frame_len_def by code_simp
qed (simp_all add: recvq_new_empty(2))

end
