(* ===== verification/Sendq.thy ===== *)
theory Sendq
  imports Pktq Kernel_Io
begin

text \<open>
  The send queue of \<^verbatim>\<open>proxy.h\<close>/\<^verbatim>\<open>proxy.cpp\<close>: packets waiting to be written (\<open>sq_pq\<close>) and a window of
  at most \<open>WRIVCNT\<close> scatter/gather entries (\<open>sv\<close> points into \<open>svbuf\<close>, \<open>svc\<close> entries are in use)
  that \<open>sendq_send\<close> hands to \<open>writev\<close>. Every entry that has been written completely costs one
  packet at the head of the queue, so the code relies on the window describing the head of the
  queue. \<open>sendq_sync\<close> is that relation; the theorems show that \<open>sendq_send\<close> and pushing packets
  keep it and that with it the bytes leave in queue order, each exactly once, whatever the kernel
  accepts. \<open>sendq_pull\<close> appends entries for the packets it moves although packets without entries
  may be queued before them; what is then sent and released is shown for any such queue.
\<close>

record sendq =
  sq_pq :: pqhead
  sq_svc :: nat
  sq_sv :: nat
  sq_svbuf :: "iovec list"
  sq_dir :: dir

text \<open>The constructor; \<open>junk\<close> is what the uninitialised \<open>svbuf\<close> holds. \<open>sv\<close> is an index into it.\<close>

definition sendq_new :: "iovec list \<Rightarrow> dir \<Rightarrow> sendq" where
  "sendq_new junk d =
     \<lparr>sq_pq = pqh_init, sq_svc = 0, sq_sv = 0, sq_svbuf = junk, sq_dir = d\<rparr>"

definition sendq_is_full :: "sendq \<Rightarrow> bool" where
  "sendq_is_full q \<longleftrightarrow> sq_svc q = WRIVCNT"

definition sendq_is_empty :: "sendq \<Rightarrow> bool" where
  "sendq_is_empty q = pqh_empty (sq_pq q)"

section \<open>Sending\<close>

text \<open>The loop that fills the window from the head of the queue.\<close>

fun sq_fill_loop :: "addr list \<Rightarrow> store \<Rightarrow> nat \<Rightarrow> iovec list \<Rightarrow> (nat \<times> iovec list) res" where
  "sq_fill_loop [] st svc buf = Inr (svc, buf)"
| "sq_fill_loop (p # ps) st svc buf =
     (if svc < WRIVCNT
      then rbind (pkt_get st p) (\<lambda>pk.
             rbind (poke buf svc [\<lparr>iov_pkt = p, iov_off = 0, iov_len = unat (p_len pk)\<rparr>]) (\<lambda>buf'.
               sq_fill_loop ps st (Suc svc) buf'))
      else Inr (svc, buf))"

definition sq_fill :: "sendq \<Rightarrow> store \<Rightarrow> sendq res" where
  "sq_fill q st =
     (if sq_svc q = 0
      then rbind (sq_fill_loop (sq_pq q) st 0 (sq_svbuf q)) (\<lambda>(svc, buf).
             Inr (q\<lparr>sq_sv := 0, sq_svc := svc, sq_svbuf := buf\<rparr>))
      else Inr q)"

definition sq_window :: "sendq \<Rightarrow> iovec list" where
  "sq_window q = take (sq_svc q) (drop (sq_sv q) (sq_svbuf q))"

text \<open>The bytes an entry describes, and those of a whole \<open>writev\<close>.\<close>

definition iov_read :: "store \<Rightarrow> iovec \<Rightarrow> bytes res" where
  "iov_read st v =
     rbind (pkt_get st (iov_pkt v)) (\<lambda>pk.
       if iov_off v + iov_len v \<le> length (p_data pk)
       then Inr (take (iov_len v) (drop (iov_off v) (p_data pk))) else Inl OutOfBounds)"

fun gather :: "store \<Rightarrow> iovec list \<Rightarrow> bytes res" where
  "gather st [] = Inr []"
| "gather st (v # vs) =
     rbind (iov_read st v) (\<lambda>b. rbind (gather st vs) (\<lambda>bs. Inr (b @ bs)))"

text \<open>Entries written completely leave the window, each with the packet at the queue's head.\<close>

function sq_advance :: "nat \<Rightarrow> sendq \<Rightarrow> store \<Rightarrow> (nat \<times> store \<times> sendq) res" where
  "sq_advance n q st =
     (if sq_svc q = 0 then Inr (n, st, q)
      else rbind (peek (sq_svbuf q) (sq_sv q)) (\<lambda>v.
        if iov_len v \<le> n
        then rbind (pqh_discard (sq_pq q) st) (\<lambda>(st', pq').
               sq_advance (n - iov_len v)
                 (q\<lparr>sq_pq := pq', sq_sv := sq_sv q + 1, sq_svc := sq_svc q - 1\<rparr>) st')
        else Inr (n, st, q)))"
  by pat_completeness auto
termination
  by (relation "measure (\<lambda>(n, q, st). sq_svc q)") auto

declare sq_advance.simps [simp del]

text \<open>The bytes left over move the start of the first entry.\<close>

definition sq_shift :: "nat \<Rightarrow> sendq \<Rightarrow> sendq res" where
  "sq_shift n q =
     (if n = 0 then Inr q
      else rbind (peek (sq_svbuf q) (sq_sv q)) (\<lambda>v.
        Inr (q\<lparr>sq_svbuf := (sq_svbuf q)
          [sq_sv q := v\<lparr>iov_off := iov_off v + n, iov_len := iov_len v - n\<rparr>]\<rparr>)))"

text \<open>
  \<open>while (svc)\<close>: the first component of the result is the return value of \<open>sendq::send\<close>, the
  number of entries left or -1.
\<close>

function sq_loop :: "sendq \<Rightarrow> wrfd \<Rightarrow> store \<Rightarrow> (int \<times> wrfd \<times> store \<times> sendq) res" where
  "sq_loop q fd st =
     (if sq_svc q = 0 then Inr (0, fd, st, q)
      else rbind (gather st (sq_window q)) (\<lambda>bs.
        case writev bs fd of (r, fd') \<Rightarrow>
          if r \<noteq> None \<and> r \<noteq> Some 0 then
            rbind (sq_advance (the r) q st) (\<lambda>(n, st', q1).
            rbind (sq_shift n q1) (\<lambda>q2.
            rbind (sq_fill q2 st') (\<lambda>q3. sq_loop q3 fd' st')))
          else (case wr_errno fd' of
              EINTR \<Rightarrow> sq_loop q fd' st
            | EAGAIN \<Rightarrow> Inr (int (sq_svc q), fd', st, q)
            | EOTHER \<Rightarrow> Inr (-1, fd', st, q))))"
  by pat_completeness auto
termination
  by (relation "measure (\<lambda>(q, fd, st). length (wr_script fd))")
    (auto simp del: writev.simps dest!: writev_script [OF sym])

declare sq_loop.simps [simp del]

definition sendq_send :: "sendq \<Rightarrow> wrfd \<Rightarrow> store \<Rightarrow> (int \<times> wrfd \<times> store \<times> sendq) res" where
  "sendq_send q fd st = rbind (sq_fill q st) (\<lambda>q'. sq_loop q' fd st)"

section \<open>Taking packets over\<close>

text \<open>\<open>memmove(svbuf, sv, svc)\<close> and \<open>sv = svbuf\<close>.\<close>

definition sq_compact :: "sendq \<Rightarrow> sendq" where
  "sq_compact q = (if sq_sv q \<noteq> 0 \<and> sq_svc q \<noteq> 0
     then q\<lparr>sq_svbuf := sq_window q @ drop (sq_svc q) (sq_svbuf q), sq_sv := 0\<rparr> else q)"

text \<open>
  \<open>sendq::pull\<close>: move matching packets from \<open>src\<close> to the queue and append their entries behind
  the window, which is moved to the start of \<open>svbuf\<close> first. The first component is the return
  value.
\<close>

definition sendq_pull :: "sendq \<Rightarrow> pqhead \<Rightarrow> store \<Rightarrow> (nat \<times> store \<times> pqhead \<times> sendq) res" where
  "sendq_pull q src st =
     (if sq_svc q < WRIVCNT then
        let q1 = sq_compact q
        in rbind (pqh_pull src (sq_pq q1) (sq_dir q1) (WRIVCNT - sq_svc q1) 0 st)
             (\<lambda>(st', src', pq', outv).
               rbind (poke (sq_svbuf q1) (sq_svc q1) outv) (\<lambda>buf.
                 let svc' = sq_svc q1 + length outv
                 in Inr (svc', st', src', q1\<lparr>sq_pq := pq', sq_svbuf := buf, sq_svc := svc'\<rparr>)))
      else Inr (sq_svc q, st, src, q))"

definition sendq_push :: "sendq \<Rightarrow> addr \<Rightarrow> sendq" where
  "sendq_push q p = q\<lparr>sq_pq := pqh_push (sq_pq q) p\<rparr>"

section \<open>The window describes the head of the queue\<close>

definition pkt_bytes :: "store \<Rightarrow> addr \<Rightarrow> bytes" where
  "pkt_bytes st p = (case pkts st p of None \<Rightarrow> [] | Some pk \<Rightarrow> p_data pk)"

text \<open>A packet that can be sent: allocated, not empty, and as long as its length field says.\<close>

definition sendable :: "store \<Rightarrow> addr \<Rightarrow> bool" where
  "sendable st p \<longleftrightarrow>
     (\<exists>pk. pkts st p = Some pk \<and> length (p_data pk) = unat (p_len pk) \<and> p_data pk \<noteq> [])"

fun shift_hd :: "nat \<Rightarrow> iovec list \<Rightarrow> iovec list" where
  "shift_hd k [] = []"
| "shift_hd k (v # vs) = v\<lparr>iov_off := iov_off v + k, iov_len := iov_len v - k\<rparr> # vs"

text \<open>
  \<open>sq_rep q st k\<close>: the window lists the first \<open>svc\<close> packets of the queue, the first of them from
  its byte \<open>k\<close> on.
\<close>

definition sq_rep :: "sendq \<Rightarrow> store \<Rightarrow> nat \<Rightarrow> bool" where
  "sq_rep q st k \<longleftrightarrow>
     length (sq_svbuf q) = WRIVCNT \<and> sq_sv q + sq_svc q \<le> WRIVCNT \<and>
     sq_svc q \<le> length (sq_pq q) \<and> distinct (sq_pq q) \<and> (\<forall>p \<in> set (sq_pq q). sendable st p) \<and>
     sq_window q = shift_hd k (map (full_iov st) (take (sq_svc q) (sq_pq q))) \<and>
     (if sq_svc q = 0 then k = 0 else k < length (pkt_bytes st (hd (sq_pq q))))"

definition sendq_sync :: "sendq \<Rightarrow> store \<Rightarrow> nat \<Rightarrow> bool" where
  "sendq_sync q st k \<longleftrightarrow> sq_rep q st k \<and> (sq_svc q = 0 \<longrightarrow> sq_sv q = 0)"

text \<open>The bytes queued, the first \<open>k\<close> of which have left already.\<close>

definition sq_stream :: "sendq \<Rightarrow> store \<Rightarrow> bytes" where
  "sq_stream q st = concat (map (pkt_bytes st) (sq_pq q))"

lemma sendable_bytes: "sendable st p \<Longrightarrow> pkt_bytes st p \<noteq> [] \<and>
    full_iov st p = \<lparr>iov_pkt = p, iov_off = 0, iov_len = length (pkt_bytes st p)\<rparr>"
  by (auto simp: sendable_def pkt_bytes_def full_iov_def)

lemma iov_read_full:
  "sendable st p \<Longrightarrow> k \<le> length (pkt_bytes st p) \<Longrightarrow>
   iov_read st (full_iov st p\<lparr>iov_off := k, iov_len := length (pkt_bytes st p) - k\<rparr>)
     = Inr (drop k (pkt_bytes st p))"
  by (auto simp: sendable_def pkt_bytes_def full_iov_def iov_read_def)

lemma gather_full:
  "(\<And>p. p \<in> set ps \<Longrightarrow> sendable st p) \<Longrightarrow>
   gather st (map (full_iov st) ps) = Inr (concat (map (pkt_bytes st) ps))"
proof (induction ps)
  case Nil
  then show ?case by simp
next
  case (Cons p ps)
  have "iov_read st (full_iov st p) = Inr (pkt_bytes st p)"
    using iov_read_full [of st p 0] Cons.prems [of p] sendable_bytes [of st p] by simp
  then show ?case using Cons by simp
qed

lemma gather_window:
  assumes "sq_rep q st k"
  shows "gather st (sq_window q) =
    Inr (drop k (concat (map (pkt_bytes st) (take (sq_svc q) (sq_pq q)))))"
proof (cases "take (sq_svc q) (sq_pq q)")
  case Nil
  then show ?thesis using assms by (auto simp: sq_rep_def)
next
  case (Cons p ps)
  have "sendable st x" if "x \<in> set (p # ps)" for x
    using that assms Cons by (metis sq_rep_def in_set_takeD)
  moreover have "k < length (pkt_bytes st p)"
    using assms Cons by (cases "sq_pq q"; cases "sq_svc q") (auto simp: sq_rep_def)
  ultimately show ?thesis
    using assms Cons iov_read_full [of st p k] sendable_bytes [of st p] gather_full [of ps st]
    by (simp add: sq_rep_def)
qed

lemma pkt_bytes_unref:
  "pkt_unref p st = Inr st' \<Longrightarrow> q \<noteq> p \<Longrightarrow> pkt_bytes st' q = pkt_bytes st q"
  by (simp add: pkt_bytes_def pkt_unref_frame)

lemma sendable_unref: "pkt_unref p st = Inr st' \<Longrightarrow> q \<noteq> p \<Longrightarrow> sendable st' q = sendable st q"
  by (simp add: sendable_def pkt_unref_frame)

lemma full_iov_unref: "pkt_unref p st = Inr st' \<Longrightarrow> q \<noteq> p \<Longrightarrow> full_iov st' q = full_iov st q"
  by (simp add: full_iov_def pkt_unref_frame)

section \<open>Progress of the window\<close>

lemma window_Cons:
  assumes "sq_svc q \<noteq> 0" and "sq_sv q < length (sq_svbuf q)"
  shows "sq_window q = sq_svbuf q ! sq_sv q #
    sq_window (q\<lparr>sq_sv := sq_sv q + 1, sq_svc := sq_svc q - 1\<rparr>)"
  using assms
  by (cases "sq_svc q") (simp_all add: sq_window_def Cons_nth_drop_Suc [symmetric])

lemma shift_hd_0 [simp]: "shift_hd 0 vs = vs"
  by (cases vs) simp_all

text \<open>The first packet of the window and its entry.\<close>

lemma sq_rep_first:
  assumes rep: "sq_rep q st k" and svc: "sq_svc q \<noteq> 0"
  obtains p ps v where "sq_pq q = p # ps" "peek (sq_svbuf q) (sq_sv q) = Inr v"
    "v = \<lparr>iov_pkt = p, iov_off = k, iov_len = length (pkt_bytes st p) - k\<rparr>"
    "k < length (pkt_bytes st p)" "p \<notin> set ps" "sendable st p"
    "sq_window (q\<lparr>sq_sv := sq_sv q + 1, sq_svc := sq_svc q - 1\<rparr>) =
       map (full_iov st) (take (sq_svc q - 1) ps)"
proof -
  obtain p ps where pq: "sq_pq q = p # ps"
    using rep svc by (cases "sq_pq q") (auto simp: sq_rep_def)
  have sv: "sq_sv q < length (sq_svbuf q)"
    using rep svc by (simp add: sq_rep_def)
  have p: "k < length (pkt_bytes st p)" "p \<notin> set ps" "sendable st p"
    using rep svc pq by (auto simp: sq_rep_def)
  have "sq_window q = shift_hd k (map (full_iov st) (take (sq_svc q) (p # ps)))"
    using rep pq by (simp add: sq_rep_def)
  also have "\<dots> = full_iov st p\<lparr>iov_off := k, iov_len := length (pkt_bytes st p) - k\<rparr>
      # map (full_iov st) (take (sq_svc q - 1) ps)"
    using svc sendable_bytes [OF p(3)] by (cases "sq_svc q") simp_all
  finally show ?thesis
    using that [OF pq, of "sq_svbuf q ! sq_sv q"] window_Cons [OF svc sv] sv p
      sendable_bytes [OF p(3)] by simp
qed

text \<open>A finished entry: the packet leaves the queue and the store.\<close>

lemma sq_rep_pop:
  assumes rep: "sq_rep q st k" and svc: "sq_svc q \<noteq> 0"
    and pq: "sq_pq q = p # ps" and st': "pkt_unref p st = Inr st'"
  shows "sq_rep (q\<lparr>sq_pq := ps, sq_sv := sq_sv q + 1, sq_svc := sq_svc q - 1\<rparr>) st' 0"
    and "sq_stream (q\<lparr>sq_pq := ps, sq_sv := sq_sv q + 1, sq_svc := sq_svc q - 1\<rparr>) st' =
      drop (length (pkt_bytes st p)) (sq_stream q st)"
proof -
  have ps: "p \<notin> set ps" "distinct ps" "\<forall>x \<in> set ps. sendable st x"
    using rep pq by (auto simp: sq_rep_def)
  have ne: "x \<noteq> p" if "x \<in> set ps" for x
    using ps(1) that by auto
  have same: "pkt_bytes st' x = pkt_bytes st x" "sendable st' x = sendable st x"
    "full_iov st' x = full_iov st x" if "x \<in> set ps" for x
    using pkt_bytes_unref [OF st' ne [OF that]] sendable_unref [OF st' ne [OF that]]
      full_iov_unref [OF st' ne [OF that]] by auto
  have win: "sq_window (q\<lparr>sq_sv := sq_sv q + 1, sq_svc := sq_svc q - 1\<rparr>) =
      map (full_iov st) (take (sq_svc q - 1) ps)"
    using sq_rep_first [OF rep svc] pq by (metis list.inject)
  have "map (full_iov st') (take (sq_svc q - 1) ps) = map (full_iov st) (take (sq_svc q - 1) ps)"
    using same(3) by (auto dest: in_set_takeD)
  then have "sq_window (q\<lparr>sq_pq := ps, sq_sv := sq_sv q + 1, sq_svc := sq_svc q - 1\<rparr>) =
      map (full_iov st') (take (sq_svc q - 1) ps)"
    using win by (simp add: sq_window_def)
  moreover have "0 < length (pkt_bytes st' (hd ps))" if "sq_svc q - 1 \<noteq> 0"
  proof -
    have "ps \<noteq> []" using that rep pq by (auto simp: sq_rep_def)
    then show ?thesis using sendable_bytes [of st' "hd ps"] same(2) ps(3) by simp
  qed
  ultimately show "sq_rep (q\<lparr>sq_pq := ps, sq_sv := sq_sv q + 1, sq_svc := sq_svc q - 1\<rparr>) st' 0"
    using rep svc pq ps same(2) by (auto simp: sq_rep_def)
  show "sq_stream (q\<lparr>sq_pq := ps, sq_sv := sq_sv q + 1, sq_svc := sq_svc q - 1\<rparr>) st' =
      drop (length (pkt_bytes st p)) (sq_stream q st)"
    using same(1) pq by (simp add: sq_stream_def cong: map_cong)
qed

text \<open>How many bytes the window holds.\<close>

definition sq_wlen :: "sendq \<Rightarrow> store \<Rightarrow> nat" where
  "sq_wlen q st = length (concat (map (pkt_bytes st) (take (sq_svc q) (sq_pq q))))"

text \<open>
  \<open>sq_moved\<close>: from one state to another, whole packets left the head of the queue, released one
  by one, and the position in the byte stream advanced accordingly.
\<close>

definition sq_moved :: "sendq \<Rightarrow> store \<Rightarrow> nat \<Rightarrow> nat \<Rightarrow> sendq \<Rightarrow> store \<Rightarrow> nat \<Rightarrow> bool" where
  "sq_moved q st k n q' st' k' \<longleftrightarrow>
     drop (k + n) (sq_stream q st) = drop k' (sq_stream q' st') \<and> sq_dir q' = sq_dir q \<and>
     (\<exists>j. sq_pq q' = drop j (sq_pq q) \<and> pqh_clear (take j (sq_pq q)) st = Inr st')"

lemma sq_moved_refl: "sq_moved q st k 0 q st k"
  by (auto simp: sq_moved_def intro: exI [of _ 0])

lemma shift_rep:
  assumes rep: "sq_rep q st k" and n: "if sq_svc q = 0 then n = 0
    else n < length (pkt_bytes st (hd (sq_pq q))) - k"
  shows "\<exists>q'. sq_shift n q = Inr q' \<and> sq_rep q' st (k + n) \<and> sq_pq q' = sq_pq q \<and>
    sq_dir q' = sq_dir q \<and> sq_svc q' = sq_svc q \<and> sq_sv q' = sq_sv q"
proof (cases "n = 0 \<or> sq_svc q = 0")
  case True
  then show ?thesis using rep n by (auto simp: sq_shift_def split: if_splits)
next
  case False
  then have svc: "sq_svc q \<noteq> 0" and "n \<noteq> 0" by auto
  obtain p ps v where f: "sq_pq q = p # ps" "peek (sq_svbuf q) (sq_sv q) = Inr v"
    "v = \<lparr>iov_pkt = p, iov_off = k, iov_len = length (pkt_bytes st p) - k\<rparr>"
    "k < length (pkt_bytes st p)" "p \<notin> set ps" "sendable st p"
    "sq_window (q\<lparr>sq_sv := sq_sv q + 1, sq_svc := sq_svc q - 1\<rparr>) =
       map (full_iov st) (take (sq_svc q - 1) ps)"
    by (rule sq_rep_first [OF rep svc])
  have sv: "sq_sv q < length (sq_svbuf q)"
    using rep svc by (simp add: sq_rep_def)
  let ?v = "v\<lparr>iov_off := iov_off v + n, iov_len := iov_len v - n\<rparr>"
  let ?q = "q\<lparr>sq_svbuf := (sq_svbuf q)[sq_sv q := ?v]\<rparr>"
  have sh: "sq_shift n q = Inr ?q"
    using f(2) \<open>n \<noteq> 0\<close> by (simp add: sq_shift_def)
  have "sq_window ?q = ?v # map (full_iov st) (take (sq_svc q - 1) ps)"
    using window_Cons [of ?q] svc sv f(7) by (simp add: sq_window_def)
  also have "\<dots> = shift_hd (k + n) (map (full_iov st) (take (sq_svc q) (sq_pq q)))"
    using svc f(1,3) sendable_bytes [OF f(6)] by (cases "sq_svc q") simp_all
  finally have "sq_rep ?q st (k + n)"
    using rep n svc f(1,4) by (simp add: sq_rep_def)
  with sh show ?thesis by simp
qed

text \<open>The first entry leaves, with the packet at the head: what the window held, and what the move adds up to.\<close>

lemma sq_wlen_pop:
  assumes "sq_svc q \<noteq> 0" and "sq_pq q = p # ps" and "p \<notin> set ps" and "pkt_unref p st = Inr st1"
  shows "sq_wlen q st = length (pkt_bytes st p) + sq_wlen (q\<lparr>sq_pq := ps, sq_sv := i, sq_svc := sq_svc q - 1\<rparr>) st1"
proof -
  have "pkt_bytes st1 x = pkt_bytes st x" if "x \<in> set ps" for x
    using pkt_bytes_unref [OF assms(4)] assms(3) that by metis
  then have "map (pkt_bytes st1) (take s ps) = map (pkt_bytes st) (take s ps)" for s
    by (auto dest: in_set_takeD)
  then show ?thesis
    using assms(1,2) by (cases "sq_svc q") (simp_all add: sq_wlen_def del: map_eq_conv)
qed

lemma sq_moved_pop:
  assumes "sq_moved (q\<lparr>sq_pq := ps, sq_sv := i, sq_svc := j\<rparr>) st1 0 n q2 st2 k2" and "sq_pq q = p # ps"
    and "pkt_unref p st = Inr st1" and "k \<le> length (pkt_bytes st p)"
    and "sq_stream (q\<lparr>sq_pq := ps, sq_sv := i, sq_svc := j\<rparr>) st1 = drop (length (pkt_bytes st p)) (sq_stream q st)"
  shows "sq_moved q st k (length (pkt_bytes st p) - k + n) q2 st2 k2"
proof -
  obtain l where l: "sq_pq q2 = drop l ps" "pqh_clear (take l ps) st1 = Inr st2"
    using assms(1) by (auto simp: sq_moved_def)
  have "drop (k + (length (pkt_bytes st p) - k + n)) (sq_stream q st) =
      drop n (drop (length (pkt_bytes st p)) (sq_stream q st))"
    using assms(4) by (simp add: add.commute)
  then show ?thesis
    using assms(1,2,3,5) l unfolding sq_moved_def by (auto intro: exI [of _ "Suc l"])
qed

lemma advance_rep:
  assumes "sq_rep q st k" and "k + n \<le> sq_wlen q st"
  shows "\<exists>m st' q1 q2 k'. sq_advance n q st = Inr (m, st', q1) \<and> sq_shift m q1 = Inr q2 \<and>
    sq_rep q2 st' k' \<and> sq_moved q st k n q2 st' k'"
  using assms
proof (induction "sq_svc q" arbitrary: n q st k)
  case 0
  then have "n = 0" "k = 0" by (simp_all add: sq_wlen_def)
  moreover have "sq_advance n q st = Inr (n, st, q)" using 0(1) by (subst sq_advance.simps) simp
  ultimately show ?case
    using 0 sq_moved_refl [of q st 0] by (auto simp: sq_shift_def)
next
  case (Suc s)
  have svc: "sq_svc q \<noteq> 0" using Suc.hyps(2) by simp
  obtain p ps v where f: "sq_pq q = p # ps" "peek (sq_svbuf q) (sq_sv q) = Inr v"
    "v = \<lparr>iov_pkt = p, iov_off = k, iov_len = length (pkt_bytes st p) - k\<rparr>"
    "k < length (pkt_bytes st p)" "p \<notin> set ps" "sendable st p"
    by (rule sq_rep_first [OF Suc.prems(1) svc])
  show ?case
  proof (cases "iov_len v \<le> n")
    case False
    then have "sq_advance n q st = Inr (n, st, q)"
      using svc f(2) by (simp add: sq_advance.simps [of n])
    moreover obtain q' where "sq_shift n q = Inr q'" "sq_rep q' st (k + n)" "sq_pq q' = sq_pq q"
      "sq_dir q' = sq_dir q"
      using shift_rep [OF Suc.prems(1), of n] False svc f by auto
    moreover from this have "sq_moved q st k n q' st (k + n)"
      by (auto simp: sq_moved_def sq_stream_def intro: exI [of _ 0])
    ultimately show ?thesis by blast
  next
    case True
    obtain st1 where st1: "pkt_unref p st = Inr st1"
      using f(6) pkt_unref_total [of st p] by (auto simp: sendable_def)
    let ?q = "q\<lparr>sq_pq := ps, sq_sv := sq_sv q + 1, sq_svc := sq_svc q - 1\<rparr>"
    note pop = sq_rep_pop [OF Suc.prems(1) svc f(1) st1]
    have "s = sq_svc ?q" "0 + (n - iov_len v) \<le> sq_wlen ?q st1"
      using Suc.hyps(2) Suc.prems(2) sq_wlen_pop [OF svc f(1,5) st1, of "sq_sv q + 1"] f(3,4) True by auto
    from Suc.hyps(1) [OF this(1) pop(1) this(2)]
    obtain m st' q1 q2 k' where r: "sq_advance (n - iov_len v) ?q st1 = Inr (m, st', q1)"
      "sq_shift m q1 = Inr q2" "sq_rep q2 st' k'" "sq_moved ?q st1 0 (n - iov_len v) q2 st' k'"
      by blast
    have "sq_moved q st k n q2 st' k'"
      using sq_moved_pop [OF r(4) f(1) st1 less_imp_le [OF f(4)] pop(2)] True f(3) by simp
    moreover have "sq_advance n q st = sq_advance (n - iov_len v) ?q st1"
      using svc f(1,2) True st1 by (simp add: sq_advance.simps [of n] pqh_discard_def)
    ultimately show ?thesis using r(1-3) by auto
  qed
qed

section \<open>Filling the window\<close>

lemma fill_loop:
  assumes "\<And>p. p \<in> set ps \<Longrightarrow> sendable st p" and "length buf = WRIVCNT" and "svc \<le> WRIVCNT"
  shows "\<exists>buf'. sq_fill_loop ps st svc buf = Inr (min WRIVCNT (svc + length ps), buf') \<and>
    length buf' = WRIVCNT \<and>
    take (min WRIVCNT (svc + length ps)) buf' =
      take svc buf @ map (full_iov st) (take (WRIVCNT - svc) ps)"
  using assms
proof (induction ps arbitrary: svc buf)
  case Nil
  then show ?case by simp
next
  case (Cons p ps)
  show ?case
  proof (cases "svc < WRIVCNT")
    case False
    then show ?thesis using Cons.prems by simp
  next
    case True
    let ?v = "full_iov st p"
    let ?b = "take svc buf @ [?v] @ drop (Suc svc) buf"
    obtain pk where pk: "pkts st p = Some pk"
      using Cons.prems(1) [of p] by (auto simp: sendable_def)
    have "\<exists>buf'. sq_fill_loop ps st (Suc svc) ?b = Inr (min WRIVCNT (Suc svc + length ps), buf') \<and>
        length buf' = WRIVCNT \<and> take (min WRIVCNT (Suc svc + length ps)) buf' =
          take (Suc svc) ?b @ map (full_iov st) (take (WRIVCNT - Suc svc) ps)"
      by (rule Cons.IH) (use Cons.prems True in auto)
    moreover have "sq_fill_loop (p # ps) st svc buf = sq_fill_loop ps st (Suc svc) ?b"
      using True pk Cons.prems(2) by (simp add: full_iov_def poke_def)
    moreover have "take (Suc svc) ?b = take svc buf @ [?v]"
      using True Cons.prems(2) by simp
    moreover have "WRIVCNT - svc = Suc (WRIVCNT - Suc svc)"
      using True by simp
    ultimately show ?thesis by simp
  qed
qed

lemma fill_rep:
  assumes rep: "sq_rep q st k"
  shows "\<exists>q'. sq_fill q st = Inr q' \<and> sendq_sync q' st k \<and> sq_pq q' = sq_pq q \<and>
    sq_dir q' = sq_dir q \<and> (sq_svc q' = 0 \<longrightarrow> sq_pq q = [])"
proof (cases "sq_svc q = 0")
  case False
  then show ?thesis using rep by (simp add: sq_fill_def sendq_sync_def)
next
  case True
  let ?n = "min WRIVCNT (length (sq_pq q))"
  have alive: "sendable st p" if "p \<in> set (sq_pq q)" for p
    using rep that by (simp add: sq_rep_def)
  obtain buf' where b: "sq_fill_loop (sq_pq q) st 0 (sq_svbuf q) = Inr (?n, buf')"
    "length buf' = WRIVCNT" "take ?n buf' = map (full_iov st) (take WRIVCNT (sq_pq q))"
    using fill_loop [OF alive, of "sq_pq q" "sq_svbuf q" 0] rep by (auto simp: sq_rep_def)
  let ?q = "q\<lparr>sq_sv := 0, sq_svc := ?n, sq_svbuf := buf'\<rparr>"
  have "sq_fill q st = Inr ?q"
    using True b(1) by (simp add: sq_fill_def)
  moreover have "k = 0"
    using rep True by (simp add: sq_rep_def)
  moreover have "0 < length (pkt_bytes st (hd (sq_pq q)))" if "sq_pq q \<noteq> []"
    using sendable_bytes [OF alive [of "hd (sq_pq q)"]] that by simp
  moreover have "take ?n (sq_pq q) = take WRIVCNT (sq_pq q)"
    by (simp add: min_def)
  ultimately show ?thesis
    using rep b by (auto simp: sendq_sync_def sq_rep_def sq_window_def WRIVCNT_def)
qed

section \<open>Sending sends the queue\<close>

lemma pqh_clear_append:
  "pqh_clear (xs @ ys) st = rbind (pqh_clear xs st) (pqh_clear ys)"
proof (induction xs arbitrary: st)
  case (Cons x xs)
  have "pqh_clear (xs @ ys) = (\<lambda>s. rbind (pqh_clear xs s) (pqh_clear ys))"
    using Cons.IH by blast
  then show ?case by (simp add: rbind_assoc)
qed simp

text \<open>Moves compose.\<close>

lemma sq_moved_trans:
  assumes a: "sq_moved q st k n q1 st1 k1" and b: "sq_moved q1 st1 k1 n' q2 st2 k2"
  shows "sq_moved q st k (n + n') q2 st2 k2"
proof -
  obtain j j' where j: "sq_pq q1 = drop j (sq_pq q)" "pqh_clear (take j (sq_pq q)) st = Inr st1"
    "sq_pq q2 = drop j' (sq_pq q1)" "pqh_clear (take j' (sq_pq q1)) st1 = Inr st2"
    using a b by (auto simp: sq_moved_def)
  have "take (j + j') (sq_pq q) = take j (sq_pq q) @ take j' (drop j (sq_pq q))"
    by (simp add: take_add)
  then have c: "pqh_clear (take (j + j') (sq_pq q)) st = Inr st2"
    using j by (simp add: pqh_clear_append)
  have "drop (k + (n + n')) (sq_stream q st) = drop n' (drop (k + n) (sq_stream q st))"
    by (simp add: add.commute add.left_commute)
  also have "\<dots> = drop (k1 + n') (sq_stream q1 st1)"
    using a by (simp add: sq_moved_def add.commute)
  also have "\<dots> = drop k2 (sq_stream q2 st2)"
    using b by (simp add: sq_moved_def)
  finally show ?thesis
    using a b c j by (auto simp: sq_moved_def add.commute intro: exI [of _ "j + j'"])
qed

text \<open>
  \<open>sq_sent q st k fd n R\<close>: the result \<open>R\<close> of sending from \<open>(q, st)\<close> exists, the first \<open>n\<close> bytes of
  the queue were accepted by the descriptor, whole packets left the queue, the window still
  describes the queue's head, and a return value of 0 means that nothing is left.
\<close>

definition sq_sent :: "sendq \<Rightarrow> store \<Rightarrow> nat \<Rightarrow> wrfd \<Rightarrow> (int \<times> wrfd \<times> store \<times> sendq) res \<Rightarrow> bool" where
  "sq_sent q st k fd R \<longleftrightarrow>
     (\<exists>r fd' st' q' k' n. R = Inr (r, fd', st', q') \<and> sendq_sync q' st' k' \<and>
        sq_moved q st k n q' st' k' \<and>
        wr_out fd' = wr_out fd @ take n (drop k (sq_stream q st)) \<and>
        k + n \<le> length (sq_stream q st) \<and>
        (r = 0 \<longrightarrow> sq_pq q' = []) \<and> (r \<noteq> 0 \<longrightarrow> r = -1 \<or> r = int (sq_svc q')))"

lemma sq_sent_stop:
  assumes "sendq_sync q st k" and "k \<le> length (sq_stream q st)"
    and "wr_out fd' = wr_out fd" and "r = 0 \<Longrightarrow> sq_pq q = []" "r \<noteq> 0 \<Longrightarrow> r = -1 \<or> r = int (sq_svc q)"
  shows "sq_sent q st k fd (Inr (r, fd', st, q))"
  using assms sq_moved_refl [of q st k]
  unfolding sq_sent_def by (intro exI [of _ 0] exI conjI) auto

lemma sq_moved_same_pq:
  "sq_moved q st k n q' st' k' \<Longrightarrow> sq_pq q'' = sq_pq q' \<Longrightarrow> sq_dir q'' = sq_dir q' \<Longrightarrow>
   sq_moved q st k n q'' st' k'"
  by (simp add: sq_moved_def sq_stream_def)

lemma sq_sent_trans:
  assumes m: "sq_moved q st k n q1 st1 k1" and len: "k + n \<le> length (sq_stream q st)"
    and out: "wr_out fd1 = wr_out fd @ take n (drop k (sq_stream q st))"
    and sent: "sq_sent q1 st1 k1 fd1 R"
  shows "sq_sent q st k fd R"
proof -
  obtain r fd' st' q' k' n' where R: "R = Inr (r, fd', st', q')" "sendq_sync q' st' k'"
    "sq_moved q1 st1 k1 n' q' st' k'"
    "wr_out fd' = wr_out fd1 @ take n' (drop k1 (sq_stream q1 st1))"
    "k1 + n' \<le> length (sq_stream q1 st1)"
    "r = 0 \<longrightarrow> sq_pq q' = []" "r \<noteq> 0 \<longrightarrow> r = -1 \<or> r = int (sq_svc q')"
    using sent unfolding sq_sent_def by blast
  have eq: "drop (k + n) (sq_stream q st) = drop k1 (sq_stream q1 st1)"
    using m by (simp add: sq_moved_def)
  then have "length (sq_stream q st) - (k + n) = length (sq_stream q1 st1) - k1"
    by (metis length_drop)
  then have "k + (n + n') \<le> length (sq_stream q st)"
    using R(5) len by linarith
  moreover have "wr_out fd' = wr_out fd @ take (n + n') (drop k (sq_stream q st))"
    using R(4) out eq by (simp add: take_add add.commute)
  ultimately show ?thesis
    using R sq_moved_trans [OF m R(3)] unfolding sq_sent_def by blast
qed

lemma sq_rep_bounds:
  assumes "sq_rep q st k"
  shows "k \<le> length (sq_stream q st)" and "sq_wlen q st \<le> length (sq_stream q st)"
    and "sq_svc q \<noteq> 0 \<Longrightarrow> k < sq_wlen q st" and "k \<le> sq_wlen q st"
proof -
  have split: "sq_stream q st = concat (map (pkt_bytes st) (take (sq_svc q) (sq_pq q))) @
      concat (map (pkt_bytes st) (drop (sq_svc q) (sq_pq q)))"
    unfolding sq_stream_def by (metis append_take_drop_id concat_append map_append)
  then show w: "sq_wlen q st \<le> length (sq_stream q st)"
    by (simp add: sq_wlen_def)
  show lt: "k < sq_wlen q st" if svc: "sq_svc q \<noteq> 0"
  proof (rule sq_rep_first [OF assms svc])
    fix p ps assume "sq_pq q = p # ps" "k < length (pkt_bytes st p)"
    then show "k < sq_wlen q st" using svc by (cases "sq_svc q") (auto simp: sq_wlen_def)
  qed
  show le: "k \<le> sq_wlen q st"
    using lt assms by (cases "sq_svc q = 0") (auto simp: sq_rep_def)
  show "k \<le> length (sq_stream q st)" using le w by simp
qed

lemma sq_stream_prefix:
  "sq_stream q st = concat (map (pkt_bytes st) (take (sq_svc q) (sq_pq q))) @
     concat (map (pkt_bytes st) (drop (sq_svc q) (sq_pq q)))"
  unfolding sq_stream_def by (metis append_take_drop_id concat_append map_append)

text \<open>One accepted \<open>writev\<close>: the window advances and is filled again when it ran empty.\<close>

lemma sq_accepted:
  assumes rep: "sq_rep q st k" and n: "k + n \<le> sq_wlen q st"
  obtains m st' q1 q2 q3 k' where "sq_advance n q st = Inr (m, st', q1)"
    "sq_shift m q1 = Inr q2" "sq_fill q2 st' = Inr q3" "sendq_sync q3 st' k'"
    "sq_svc q3 = 0 \<longrightarrow> sq_pq q3 = []" "sq_moved q st k n q3 st' k'"
proof -
  obtain m st' q1 q2 k' where a: "sq_advance n q st = Inr (m, st', q1)" "sq_shift m q1 = Inr q2"
    "sq_rep q2 st' k'" "sq_moved q st k n q2 st' k'"
    using advance_rep [OF rep n] by (elim exE conjE) (rule that)
  obtain q3 where f: "sq_fill q2 st' = Inr q3" "sendq_sync q3 st' k'" "sq_pq q3 = sq_pq q2"
    "sq_dir q3 = sq_dir q2" "sq_svc q3 = 0 \<longrightarrow> sq_pq q2 = []"
    using fill_rep [OF a(3)] by (elim exE conjE) (rule that)
  have "sq_moved q st k n q3 st' k'"
    by (rule sq_moved_same_pq [OF a(4) f(3,4)])
  moreover have "sq_svc q3 = 0 \<longrightarrow> sq_pq q3 = []"
    using f(3,5) by simp
  ultimately show thesis
    using that [OF a(1,2) f(1,2)] by simp
qed

text \<open>The cases of one turn of \<open>while (svc)\<close>.\<close>

lemma sq_loop_turn:
  fixes q fd st
  defines "L \<equiv> sq_loop q fd st"
  assumes "gather st (sq_window q) = Inr bs"
  obtains (empty) "sq_svc q = 0" "L = Inr (0, fd, st, q)"
    | (got) n fd1 where "sq_svc q \<noteq> 0" "writev bs fd = (Some n, fd1)" "0 < n"
      "L = rbind (sq_advance n q st) (\<lambda>(m, st', q1). rbind (sq_shift m q1) (\<lambda>q2.
             rbind (sq_fill q2 st') (\<lambda>q3. sq_loop q3 fd1 st')))"
    | (again) fd1 where "wr_out fd1 = wr_out fd" "length (wr_script fd1) < length (wr_script fd)" "L = sq_loop q fd1 st"
    | (stop) r fd1 where "sq_svc q \<noteq> 0" "wr_out fd1 = wr_out fd" "L = Inr (r, fd1, st, q)" "r = -1 \<or> r = int (sq_svc q)"
proof -
  note unf = sq_loop.simps [of q fd st]
  obtain r fd1 where wv: "writev bs fd = (r, fd1)" by fastforce
  consider (e) "sq_svc q = 0" | (g) n where "sq_svc q \<noteq> 0" "r = Some n" "0 < n"
    | (n) "sq_svc q \<noteq> 0" "\<not> (r \<noteq> None \<and> r \<noteq> Some 0)"
    by fastforce
  then show thesis
  proof cases
    case e
    then show thesis using empty by (simp add: L_def unf)
  next
    case (g n)
    then show thesis
      using got [of n fd1] assms(2) wv by (simp add: L_def unf del: writev.simps)
  next
    case n
    then have L: "L = (case wr_errno fd1 of EINTR \<Rightarrow> sq_loop q fd1 st
        | EAGAIN \<Rightarrow> Inr (int (sq_svc q), fd1, st, q) | EOTHER \<Rightarrow> Inr (-1, fd1, st, q))"
      using assms(2) wv by (auto simp: L_def unf simp del: writev.simps)
    have out: "wr_out fd1 = wr_out fd" using writev_nothing [OF wv] n by auto
    show thesis
    proof (cases "wr_errno fd1 = EINTR")
      case True
      then show thesis using again [of fd1] out L writev_script [OF wv] n by auto
    next
      case False
      then show thesis using stop [of fd1] out L n by (cases "wr_errno fd1") auto
    qed
  qed
qed

lemma sq_loop_sent:
  assumes "sendq_sync q st k" and "sq_svc q = 0 \<Longrightarrow> sq_pq q = []"
  shows "sq_sent q st k fd (sq_loop q fd st)"
  using assms
proof (induction "length (wr_script fd)" arbitrary: q st k fd rule: less_induct)
  case less
  have rep: "sq_rep q st k" using less.prems(1) by (simp add: sendq_sync_def)
  note b = sq_rep_bounds [OF rep]
  let ?W = "drop k (concat (map (pkt_bytes st) (take (sq_svc q) (sq_pq q))))"
  show ?case
    using gather_window [OF rep]
  proof (cases rule: sq_loop_turn [where fd = fd])
    case empty
    then show ?thesis using sq_sent_stop [OF less.prems(1) b(1), of fd fd 0] less.prems(2) by simp
  next
    case (got n fd1)
    note g = writev_got [OF got(2)]
    have W: "length ?W = sq_wlen q st - k" by (simp add: sq_wlen_def)
    then have kn: "k + n \<le> sq_wlen q st" using g(1) b(4) by linarith
    obtain m st' q1 q2 q3 k' where a: "sq_advance n q st = Inr (m, st', q1)"
      "sq_shift m q1 = Inr q2" "sq_fill q2 st' = Inr q3" "sendq_sync q3 st' k'"
      "sq_svc q3 = 0 \<longrightarrow> sq_pq q3 = []" "sq_moved q st k n q3 st' k'"
      by (rule sq_accepted [OF rep kn])
    have "sq_sent q3 st' k' fd1 (sq_loop q3 fd1 st')"
      by (rule less.hyps [OF g(3) a(4)]) (use a(5) in simp)
    moreover have "take n ?W = take n (drop k (sq_stream q st))"
      using g(1) W sq_stream_prefix [of q st] by simp
    ultimately show ?thesis
      using sq_sent_trans [OF a(6) _ _] kn b(2) g(2) by (simp add: got(4) a(1-3))
  next
    case (again fd1)
    then show ?thesis using less.hyps [OF again(2) less.prems] by (simp add: sq_sent_def)
  next
    case (stop r fd1)
    then show ?thesis using sq_sent_stop [OF less.prems(1) b(1) stop(2), of r] by auto
  qed
qed

text \<open>
  \<open>sendq::send\<close> on a queue whose window is in step with it: it returns, reads only live packets,
  and the descriptor receives the queue's bytes in order, each exactly once.
\<close>

lemma sendq_send_sent:
  assumes "sendq_sync q st k"
  shows "sq_sent q st k fd (sendq_send q fd st)"
proof -
  obtain q' where f: "sq_fill q st = Inr q'" "sendq_sync q' st k" "sq_pq q' = sq_pq q"
    "sq_dir q' = sq_dir q" "sq_svc q' = 0 \<longrightarrow> sq_pq q = []"
    using fill_rep [of q st k] assms by (auto simp: sendq_sync_def)
  have "sq_sent q' st k fd (sq_loop q' fd st)"
    by (rule sq_loop_sent) (use f in auto)
  then have "sq_sent q st k fd (sq_loop q' fd st)"
    using f(3,4) by (simp add: sq_sent_def sq_moved_def sq_stream_def)
  then show ?thesis by (simp add: sendq_send_def f(1))
qed

text \<open>
  A descriptor that accepts at least one byte per call: the queue is emptied and 0 returned.
\<close>

definition accepting :: "wr_outcome list \<Rightarrow> bool" where
  "accepting s \<longleftrightarrow> (\<forall>x \<in> set s. \<exists>n. x = WrOk (Suc n))"

lemma writev_accepting:
  assumes "accepting (wr_script fd)" and "wr_script fd \<noteq> []" and "bs \<noteq> []"
  obtains n fd1 where "writev bs fd = (Some n, fd1)" "0 < n" "accepting (wr_script fd1)"
    "length (wr_script fd) = Suc (length (wr_script fd1))"
proof -
  obtain a s where "wr_script fd = WrOk (Suc a) # s"
    using assms(1,2) by (cases "wr_script fd") (auto simp: accepting_def)
  then show thesis using that assms(1,3) by (auto simp: accepting_def)
qed

lemma sq_loop_zero:
  assumes "sendq_sync q st k" and "sq_svc q = 0 \<Longrightarrow> sq_pq q = []"
    and "accepting (wr_script fd)" and "length (sq_stream q st) - k \<le> length (wr_script fd)"
  shows "\<exists>fd' st' q'. sq_loop q fd st = Inr (0, fd', st', q')"
  using assms
proof (induction "length (wr_script fd)" arbitrary: q st k fd rule: less_induct)
  case less
  have rep: "sq_rep q st k" using less.prems(1) by (simp add: sendq_sync_def)
  note b = sq_rep_bounds [OF rep]
  let ?W = "drop k (concat (map (pkt_bytes st) (take (sq_svc q) (sq_pq q))))"
  show ?case
  proof (cases "sq_svc q = 0")
    case True
    then show ?thesis by (simp add: sq_loop.simps [of q])
  next
    case False
    have W: "length ?W = sq_wlen q st - k" "?W \<noteq> []" "wr_script fd \<noteq> []"
      using b(2) b(3) [OF False] less.prems(4) by (auto simp: sq_wlen_def)
    obtain n fd1 where wv: "writev ?W fd = (Some n, fd1)" "0 < n" "accepting (wr_script fd1)"
      "length (wr_script fd) = Suc (length (wr_script fd1))"
      by (rule writev_accepting [OF less.prems(3) W(3,2)])
    have kn: "k + n \<le> sq_wlen q st" using writev_got(1) [OF wv(1)] W(1) b(4) by linarith
    obtain m st' q1 q2 q3 k' where c: "sq_advance n q st = Inr (m, st', q1)"
      "sq_shift m q1 = Inr q2" "sq_fill q2 st' = Inr q3" "sendq_sync q3 st' k'"
      "sq_svc q3 = 0 \<longrightarrow> sq_pq q3 = []" "sq_moved q st k n q3 st' k'"
      by (rule sq_accepted [OF rep kn])
    have "length (sq_stream q3 st') - k' = length (sq_stream q st) - (k + n)"
      using c(6) unfolding sq_moved_def by (metis length_drop)
    then have "length (sq_stream q3 st') - k' \<le> length (wr_script fd1)"
      using less.prems(4) wv(2,4) by simp
    then have "\<exists>fd' st'' q'. sq_loop q3 fd1 st' = Inr (0, fd', st'', q')"
      using less.hyps [OF _ c(4) _ wv(3)] wv(4) c(5) by simp
    moreover have "sq_loop q fd st = sq_loop q3 fd1 st'"
      using False gather_window [OF rep] wv(1,2) c(1-3) by (simp add: sq_loop.simps [of q fd] del: writev.simps)
    ultimately show ?thesis by simp
  qed
qed

lemma sq_loop_complete:
  assumes "sendq_sync q st k" and "sq_svc q = 0 \<Longrightarrow> sq_pq q = []"
    and "accepting (wr_script fd)" and "length (sq_stream q st) - k \<le> length (wr_script fd)"
  shows "\<exists>fd' st' q'. sq_loop q fd st = Inr (0, fd', st', q') \<and> sq_pq q' = [] \<and>
    wr_out fd' = wr_out fd @ drop k (sq_stream q st)"
proof -
  obtain fd' st' q' where l: "sq_loop q fd st = Inr (0, fd', st', q')"
    using sq_loop_zero [OF assms] by blast
  obtain k' n where n: "sq_moved q st k n q' st' k'" "sq_pq q' = []"
    "wr_out fd' = wr_out fd @ take n (drop k (sq_stream q st))" "k + n \<le> length (sq_stream q st)"
    using sq_loop_sent [OF assms(1,2), of fd] l by (auto simp: sq_sent_def)
  have "drop (k + n) (sq_stream q st) = []"
    using n(1,2) by (simp add: sq_moved_def sq_stream_def)
  then have "take n (drop k (sq_stream q st)) = drop k (sq_stream q st)" by simp
  then show ?thesis using l n(2,3) by simp
qed

lemma sendq_send_complete:
  assumes "sendq_sync q st k" and "accepting (wr_script fd)"
    and "length (sq_stream q st) - k \<le> length (wr_script fd)"
  shows "\<exists>fd' st' q'. sendq_send q fd st = Inr (0, fd', st', q') \<and> sq_pq q' = [] \<and>
    wr_out fd' = wr_out fd @ drop k (sq_stream q st)"
proof -
  obtain q' where f: "sq_fill q st = Inr q'" "sendq_sync q' st k" "sq_pq q' = sq_pq q"
    "sq_dir q' = sq_dir q" "sq_svc q' = 0 \<longrightarrow> sq_pq q = []"
    using fill_rep [of q st k] assms by (auto simp: sendq_sync_def)
  have "sq_stream q' st = sq_stream q st"
    using f(3) by (simp add: sq_stream_def)
  then show ?thesis
    using sq_loop_complete [OF f(2) _ assms(2)] f(1,3,5) assms(3) by (simp add: sendq_send_def)
qed

section \<open>Queueing packets\<close>

lemma sendq_push_sync:
  assumes "sendq_sync q st k" and "sendable st p" and "p \<notin> set (sq_pq q)"
  shows "sendq_sync (sendq_push q p) st k"
    and "sq_stream (sendq_push q p) st = sq_stream q st @ pkt_bytes st p"
proof -
  have "take (sq_svc q) (sq_pq q @ [p]) = take (sq_svc q) (sq_pq q)"
    using assms(1) by (simp add: sendq_sync_def sq_rep_def)
  moreover have "sq_pq q \<noteq> []" if "sq_svc q \<noteq> 0"
    using assms(1) that by (auto simp: sendq_sync_def sq_rep_def)
  ultimately show "sendq_sync (sendq_push q p) st k"
    using assms by (auto simp: sendq_sync_def sq_rep_def sendq_push_def pqh_push_def sq_window_def)
  show "sq_stream (sendq_push q p) st = sq_stream q st @ pkt_bytes st p"
    by (simp add: sq_stream_def sendq_push_def pqh_push_def)
qed

lemma length_shift_hd [simp]: "length (shift_hd k xs) = length xs"
  by (cases xs) auto

lemma shift_hd_append: "xs \<noteq> [] \<or> k = 0 \<Longrightarrow> shift_hd k (xs @ ys) = shift_hd k xs @ ys"
  by (cases xs) auto

text \<open>The window depends only on the packets of the queue.\<close>

lemma sendq_sync_store:
  assumes "sendq_sync q st k" and "\<And>p. p \<in> set (sq_pq q) \<Longrightarrow> pkts st' p = pkts st p"
  shows "sendq_sync q st' k" and "sq_stream q st' = sq_stream q st"
proof -
  have same: "full_iov st' p = full_iov st p" "sendable st' p = sendable st p"
    "pkt_bytes st' p = pkt_bytes st p" if "p \<in> set (sq_pq q)" for p
    using assms(2) [OF that] by (simp_all add: full_iov_def sendable_def pkt_bytes_def)
  have m: "map (full_iov st') (take (sq_svc q) (sq_pq q)) = map (full_iov st) (take (sq_svc q) (sq_pq q))"
    using same(1) by (auto dest: in_set_takeD)
  have "sq_pq q \<noteq> []" if "sq_svc q \<noteq> 0"
    using assms(1) that by (auto simp: sendq_sync_def sq_rep_def)
  then show "sendq_sync q st' k"
    using assms(1) same(2,3) by (simp add: sendq_sync_def sq_rep_def m)
  have m': "map (pkt_bytes st') (sq_pq q) = map (pkt_bytes st) (sq_pq q)"
    using same(3) by simp
  show "sq_stream q st' = sq_stream q st"
    by (simp only: sq_stream_def m')
qed

lemma sq_compact_sync:
  assumes "sendq_sync q st k"
  shows "sendq_sync (sq_compact q) st k" and "sq_sv (sq_compact q) = 0"
    and "sq_pq (sq_compact q) = sq_pq q" and "sq_svc (sq_compact q) = sq_svc q"
    and "sq_dir (sq_compact q) = sq_dir q"
proof -
  have b: "length (sq_svbuf q) = WRIVCNT" "sq_sv q + sq_svc q \<le> WRIVCNT"
    using assms by (simp_all add: sendq_sync_def sq_rep_def)
  then have len: "length (sq_window q) = sq_svc q"
    by (simp add: sq_window_def)
  show "sendq_sync (sq_compact q) st k"
  proof (cases "sq_sv q \<noteq> 0 \<and> sq_svc q \<noteq> 0")
    case True
    have w: "sq_window (sq_compact q) = sq_window q"
      using True len by (simp add: sq_compact_def sq_window_def)
    show ?thesis
      using assms True len b w unfolding sendq_sync_def sq_rep_def by (simp add: sq_compact_def)
  qed (use assms in \<open>auto simp: sq_compact_def\<close>)
qed (use assms in \<open>auto simp: sq_compact_def sendq_sync_def\<close>)

text \<open>
  \<open>sendq::pull\<close> in general: the packets taken go behind the queue and their entries behind the window,
  wherever in the queue that ends.
\<close>

lemma sendq_pull_result:
  assumes sync: "sendq_sync q st k" and room: "sq_svc q < WRIVCNT"
    and src: "distinct src" "\<And>p. p \<in> set src \<Longrightarrow> sendable st p" and dis: "set src \<inter> set (sq_pq q) = {}"
  obtains pre post st' q' where "src = pre @ post" "pulled st (sq_dir q) 0 0 (WRIVCNT - sq_svc q) pre post st'"
    "sendq_pull q src st = Inr (sq_svc q', st', pull_keep st (sq_dir q) 0 pre @ post, q')"
    "sq_pq q' = sq_pq q @ pull_take st (sq_dir q) 0 pre" "sq_dir q' = sq_dir q"
    "sq_svc q' = sq_svc q + length (pull_take st (sq_dir q) 0 pre)" "sq_sv q' = 0" "length (sq_svbuf q') = WRIVCNT"
    "sq_svc q' \<le> WRIVCNT" "distinct (sq_pq q')" "\<forall>p \<in> set (sq_pq q'). sendable st p"
    "sq_window q' = sq_window q @ map (full_iov st) (pull_take st (sq_dir q) 0 pre)"
    "\<forall>p \<in> set (sq_pq q'). pkts st' p = pkts st p"
proof -
  let ?q1 = "sq_compact q" and ?d = "sq_dir q"
  note q1 = sq_compact_sync [OF sync]
  have alive: "pkts st p \<noteq> None" if "p \<in> set src" for p
    using src(2) [OF that] by (auto simp: sendable_def)
  obtain pre post st' where pull: "src = pre @ post"
    "pulled st ?d 0 0 (WRIVCNT - sq_svc q) pre post st'"
    "pqh_pull src (sq_pq q) ?d (WRIVCNT - sq_svc q) 0 st =
      Inr (st', pull_keep st ?d 0 pre @ post, sq_pq q @ pull_take st ?d 0 pre,
           map (full_iov st) (pull_take st ?d 0 pre))"
    by (rule pqh_pull_spec [OF src(1) alive])
  let ?t = "pull_take st ?d 0 pre" and ?f = "pull_free st ?d 0 pre"
  have len: "sq_svc q + length ?t \<le> WRIVCNT" and clear: "pqh_clear ?f st = Inr st'"
    using pull(2) room by (auto simp: pulled_def)
  have sets: "set ?t \<subseteq> set src" "set ?f \<subseteq> set src" "set ?t \<inter> set ?f = {}" "distinct ?t"
    using pull(1) src(1) by (auto simp: pull_take_def pull_free_def)
  have b: "length (sq_svbuf ?q1) = WRIVCNT" and w1: "sq_window ?q1 = take (sq_svc q) (sq_svbuf ?q1)"
    using q1 by (simp_all add: sendq_sync_def sq_rep_def sq_window_def)
  then obtain buf where buf: "poke (sq_svbuf ?q1) (sq_svc ?q1) (map (full_iov st) ?t) = Inr buf"
    using len q1(4) by (simp add: poke_def)
  let ?q' = "?q1\<lparr>sq_pq := sq_pq ?q1 @ ?t, sq_svbuf := buf, sq_svc := sq_svc ?q1 + length ?t\<rparr>"
  have "sq_window ?q1 = sq_window q"
    using sync by (auto simp: sq_compact_def sq_window_def sendq_sync_def sq_rep_def)
  then have "sq_window ?q' = sq_window q @ map (full_iov st) ?t"
    using poke_take [OF buf] w1 q1(2,4) by (simp add: sq_window_def)
  moreover have "distinct (sq_pq ?q')" "\<forall>p \<in> set (sq_pq ?q'). sendable st p"
    using sync sets dis q1(3) src(2) by (auto simp: sendq_sync_def sq_rep_def)
  moreover have "pkts st' p = pkts st p" if "p \<in> set (sq_pq ?q')" for p
    by (rule pqh_clear_frame [OF clear]) (use that sets dis q1(3) in auto)
  ultimately show thesis
    using that [of pre post st' ?q'] pull buf len room q1(2-5) poke_length [OF buf] b
    by (simp add: sendq_pull_def Let_def)
qed

text \<open>
  On a queue all of whose packets have entries it keeps the window in step with the queue and the
  stream grows by the bytes of the packets taken.
\<close>

lemma sendq_pull_sync:
  assumes sync: "sendq_sync q st k" and all: "sq_svc q = length (sq_pq q)"
    and room: "sq_svc q < WRIVCNT" and src: "distinct src" "\<And>p. p \<in> set src \<Longrightarrow> sendable st p"
    and dis: "set src \<inter> set (sq_pq q) = {}"
  shows "\<exists>pre post st' q'. src = pre @ post \<and>
    pulled st (sq_dir q) 0 0 (WRIVCNT - sq_svc q) pre post st' \<and>
    sendq_pull q src st = Inr (sq_svc q', st', pull_keep st (sq_dir q) 0 pre @ post, q') \<and>
    sq_pq q' = sq_pq q @ pull_take st (sq_dir q) 0 pre \<and> sq_svc q' = length (sq_pq q') \<and>
    sendq_sync q' st' k \<and>
    sq_stream q' st' = sq_stream q st @ concat (map (pkt_bytes st) (pull_take st (sq_dir q) 0 pre))"
proof -
  let ?t = "pull_take st (sq_dir q) 0"
  obtain pre post st' q' where r: "src = pre @ post" "pulled st (sq_dir q) 0 0 (WRIVCNT - sq_svc q) pre post st'"
    "sendq_pull q src st = Inr (sq_svc q', st', pull_keep st (sq_dir q) 0 pre @ post, q')"
    "sq_pq q' = sq_pq q @ ?t pre" "sq_dir q' = sq_dir q" "sq_svc q' = sq_svc q + length (?t pre)"
    and q': "sq_sv q' = 0" "length (sq_svbuf q') = WRIVCNT" "sq_svc q' \<le> WRIVCNT" "distinct (sq_pq q')"
      "\<forall>p \<in> set (sq_pq q'). sendable st p"
    and win: "sq_window q' = sq_window q @ map (full_iov st) (?t pre)"
    and frame: "\<forall>p \<in> set (sq_pq q'). pkts st' p = pkts st p"
    by (rule sendq_pull_result [OF sync room src dis])
  have svc: "sq_svc q' = length (sq_pq q')" using r(4,6) all by simp
  have k: "if sq_svc q = 0 then k = 0 else k < length (pkt_bytes st (hd (sq_pq q)))"
    using sync by (simp add: sendq_sync_def sq_rep_def)
  have pos: "0 < length (pkt_bytes st (hd (sq_pq q')))" if "sq_pq q' \<noteq> []"
    using sendable_bytes [OF bspec [OF q'(5)]] that by simp
  have "sq_window q' = shift_hd k (map (full_iov st) (sq_pq q'))"
    using win sync all k r(4) by (auto simp: sendq_sync_def sq_rep_def shift_hd_append)
  moreover have "if sq_svc q' = 0 then k = 0 else k < length (pkt_bytes st (hd (sq_pq q')))"
    using k pos svc r(4) all by (cases "sq_pq q") (auto split: if_splits)
  ultimately have "sendq_sync q' st k"
    using q' svc by (simp add: sendq_sync_def sq_rep_def)
  then have fin: "sendq_sync q' st' k" "sq_stream q' st' = sq_stream q' st"
    using sendq_sync_store frame by blast+
  have "sq_stream q' st = sq_stream q st @ concat (map (pkt_bytes st) (?t pre))"
    using r(4) by (simp add: sq_stream_def)
  then show ?thesis
    by (intro exI [of _ pre] exI [of _ post] exI [of _ st'] exI [of _ q']) (use r fin svc in simp)
qed

section \<open>A window that is not the head of the queue\<close>

lemma gather_shift:
  assumes "\<And>p. p \<in> set ps \<Longrightarrow> sendable st p" and "ps = [] \<longrightarrow> k = 0" and "k \<le> length (pkt_bytes st (hd ps))"
  shows "gather st (shift_hd k (map (full_iov st) ps)) = Inr (drop k (concat (map (pkt_bytes st) ps)))"
proof (cases ps)
  case (Cons p qs)
  then show ?thesis
    using assms iov_read_full [of st p k] sendable_bytes [of st p] gather_full [of qs st] by simp
qed (use assms(2) in simp)

text \<open>
  The window written completely takes as many packets from the head of the queue as it has entries,
  whatever packets these describe.
\<close>

lemma sq_advance_all:
  assumes "n = sum_list (map iov_len (sq_window q))" and "sq_sv q + sq_svc q \<le> length (sq_svbuf q)"
    and "sq_svc q \<le> length (sq_pq q)" and "pqh_clear (take (sq_svc q) (sq_pq q)) st = Inr st'"
  shows "sq_advance n q st =
    Inr (0, st', q\<lparr>sq_pq := drop (sq_svc q) (sq_pq q), sq_sv := sq_sv q + sq_svc q, sq_svc := 0\<rparr>)"
  using assms
proof (induction "sq_svc q" arbitrary: n q st)
  case 0
  then show ?case by (cases q) (simp add: sq_advance.simps sq_window_def)
next
  case (Suc m)
  note svc = Suc.hyps(2) [symmetric]
  obtain p ps where pq: "sq_pq q = p # ps" using Suc.prems(3) svc by (cases "sq_pq q") auto
  obtain st1 where st1: "pkt_unref p st = Inr st1" "pqh_clear (take m ps) st1 = Inr st'"
    using Suc.prems(4) pq svc by (auto simp: fault_simps)
  have sv: "sq_sv q < length (sq_svbuf q)" using Suc.prems(2) svc by simp
  let ?v = "sq_svbuf q ! sq_sv q"
  let ?q1 = "q\<lparr>sq_pq := ps, sq_sv := sq_sv q + 1, sq_svc := sq_svc q - 1\<rparr>"
  have win: "sq_window q = ?v # sq_window ?q1"
    using window_Cons [OF _ sv] svc by (simp add: sq_window_def)
  have le: "iov_len ?v \<le> n" using Suc.prems(1) win by simp
  have "sq_advance n q st = sq_advance (n - iov_len ?v) ?q1 st1"
    using svc sv le pq st1(1) by (simp add: sq_advance.simps [of n q] pqh_discard_def)
  also have "\<dots> = Inr (0, st', ?q1\<lparr>sq_pq := drop (sq_svc ?q1) (sq_pq ?q1), sq_sv := sq_sv ?q1 + sq_svc ?q1, sq_svc := 0\<rparr>)"
    by (rule Suc.hyps(1)) (use svc Suc.prems win pq st1(2) in simp_all)
  finally show ?case using svc pq by simp
qed

lemma iov_len_shift:
  assumes "\<And>p. p \<in> set ps \<Longrightarrow> sendable st p" and "ps = [] \<longrightarrow> k = 0" and "k \<le> length (pkt_bytes st (hd ps))"
  shows "sum_list (map iov_len (shift_hd k (map (full_iov st) ps))) = length (concat (map (pkt_bytes st) ps)) - k"
proof -
  have len: "iov_len (full_iov st p) = length (pkt_bytes st p)" if "p \<in> set ps" for p
    using assms(1) [OF that] sendable_bytes by simp
  show ?thesis
  proof (cases ps)
    case (Cons p qs)
    have "map (iov_len \<circ> full_iov st) qs = map (length \<circ> pkt_bytes st) qs"
      using len Cons by (intro map_cong) auto
    then show ?thesis using len [of p] Cons assms(3) by (simp add: length_concat del: map_eq_conv)
  qed (use assms(2) in simp)
qed

text \<open>
  A queue whose window lists other packets \<open>ws\<close>, on a descriptor that accepts all of them and is then
  full: their bytes leave, and as many packets leave the head of the queue.
\<close>

lemma sendq_send_window:
  assumes win: "sq_window q = shift_hd k (map (full_iov st) ws)" and svc: "sq_svc q = length ws" "ws \<noteq> []"
    and q: "sq_sv q = 0" "length (sq_svbuf q) = WRIVCNT" "sq_svc q \<le> WRIVCNT" "distinct (sq_pq q)"
      "length ws \<le> length (sq_pq q)" "\<And>p. p \<in> set (sq_pq q) \<Longrightarrow> sendable st p"
    and ws: "\<And>p. p \<in> set ws \<Longrightarrow> sendable st p" and k: "k < length (pkt_bytes st (hd ws))"
    and fd: "wr_script fd = [WrOk m]" "length (concat (map (pkt_bytes st) ws)) \<le> m + k"
  shows "\<exists>r fd' st' q'. sendq_send q fd st = Inr (r, fd', st', q') \<and>
    wr_out fd' = wr_out fd @ drop k (concat (map (pkt_bytes st) ws)) \<and>
    sq_pq q' = drop (length ws) (sq_pq q) \<and> pqh_clear (take (length ws) (sq_pq q)) st = Inr st' \<and> sendq_sync q' st' 0"
proof -
  let ?bs = "drop k (concat (map (pkt_bytes st) ws))" and ?pq' = "drop (length ws) (sq_pq q)"
  have klen: "k < length (concat (map (pkt_bytes st) ws))" using svc(2) k by (cases ws) auto
  have alive: "pkts st p \<noteq> None" if "p \<in> set (take (length ws) (sq_pq q))" for p
    using q(6) that by (fastforce simp: sendable_def dest: in_set_takeD)
  obtain st' where st': "pqh_clear (take (length ws) (sq_pq q)) st = Inr st'"
    using pqh_clear_total [of "take (length ws) (sq_pq q)" st] alive q(4) by auto
  let ?q1 = "q\<lparr>sq_pq := ?pq', sq_sv := length ws, sq_svc := 0\<rparr>"
  have adv: "sq_advance (length ?bs) q st = Inr (0, st', ?q1)"
    using sq_advance_all [of "length ?bs" q st st'] iov_len_shift [OF ws] win svc q st' k by simp
  have "pkts st' p = pkts st p" if "p \<in> set ?pq'" for p
    by (rule pqh_clear_frame [OF st'])
      (use that q(4) distinct_append [of "take (length ws) (sq_pq q)" ?pq'] in auto)
  then have snd: "sendable st' p" if "p \<in> set ?pq'" for p
    using that q(6) by (auto simp: sendable_def dest: in_set_dropD)
  have "sq_rep ?q1 st' 0"
    using q snd svc(1) by (simp add: sq_rep_def sq_window_def)
  from fill_rep [OF this] obtain q3 where q3: "sq_fill ?q1 st' = Inr q3" "sendq_sync q3 st' 0" "sq_pq q3 = ?pq'"
    by auto
  let ?fd = "fd\<lparr>wr_script := [], wr_out := wr_out fd @ ?bs\<rparr>"
  have wv: "writev ?bs fd = (Some (length ?bs), ?fd)" using fd by simp
  have g: "gather st (sq_window q) = Inr ?bs" using gather_shift [OF ws] win svc(2) k by simp
  have "sendq_send q fd st = sq_loop q3 ?fd st'"
    using svc adv g wv q3(1) klen
    by (simp add: sendq_send_def sq_fill_def sq_shift_def sq_loop.simps [of q fd] del: writev.simps)
  moreover have "\<exists>r fd'. sq_loop q3 ?fd st' = Inr (r, fd', st', q3) \<and> wr_out fd' = wr_out ?fd"
    using q3(2) gather_window [of q3 st' 0]
    by (cases "sq_svc q3 = 0") (auto simp: sq_loop.simps [of q3] sendq_sync_def)
  ultimately show ?thesis using q3 st' by auto
qed

section \<open>Properties\<close>

text \<open>
  A command packet and small queues for the concrete runs: three packets in the store, the
  constructor's queue and descriptors with a given script.
\<close>

definition ex_pkt :: "u8 \<Rightarrow> rf_packet" where
  "ex_pkt b = \<lparr>p_len = 4, p_type = ucast b, p_dir = CLI_TO_SRV, p_drop = False, p_show = False,
     p_refc = 1, p_delay = 0, p_desc = None, p_dyn_desc = None, p_data = [4, 0, b, 0]\<rparr>"

definition ex_store :: store where
  "ex_store = \<lparr>pkts = [3 \<mapsto> ex_pkt 1, 4 \<mapsto> ex_pkt 2, 5 \<mapsto> ex_pkt 3], brk = 6\<rparr>"

definition ex_fd :: "wr_outcome list \<Rightarrow> wrfd" where
  "ex_fd s = \<lparr>wr_script = s, wr_errno = EAGAIN, wr_out = []\<rparr>"

definition ex_sendq :: sendq where
  "ex_sendq = sendq_new (replicate WRIVCNT \<lparr>iov_pkt = 0, iov_off = 0, iov_len = 0\<rparr>) CLI_TO_SRV"

lemma ex_sendable: "p \<in> {3, 4, 5} \<Longrightarrow> sendable ex_store p"
  "pkt_bytes ex_store 3 = [4, 0, 1, 0]" "pkt_bytes ex_store 4 = [4, 0, 2, 0]"
  by (auto simp: sendable_def ex_store_def ex_pkt_def pkt_bytes_def)

lemma sendq_new_sync:
  assumes "length junk = WRIVCNT"
  shows "sendq_sync (sendq_new junk d) st 0" and "sq_pq (sendq_new junk d) = []"
    and "sq_svc (sendq_new junk d) = 0" and "sq_dir (sendq_new junk d) = d"
  using assms by (simp_all add: sendq_sync_def sq_rep_def sendq_new_def pqh_init_def sq_window_def)

lemma ex_sendq_sync:
  "sendq_sync ex_sendq st 0" "sq_pq ex_sendq = []" "sq_svc ex_sendq = 0" "sq_dir ex_sendq = CLI_TO_SRV"
  using sendq_new_sync [of "replicate WRIVCNT \<lparr>iov_pkt = 0, iov_off = 0, iov_len = 0\<rparr>"]
  by (simp_all add: ex_sendq_def)

lemma ex_pushed: "sendq_sync (sendq_push (sendq_push ex_sendq 3) 4) ex_store 0"
  "sq_stream (sendq_push (sendq_push ex_sendq 3) 4) ex_store = [4, 0, 1, 0, 4, 0, 2, 0]"
  using sendq_push_sync [of ex_sendq ex_store 0 3] sendq_push_sync [of "sendq_push ex_sendq 3" ex_store 0 4]
  by (auto simp: ex_sendq_sync ex_sendable sendq_push_def pqh_push_def sq_stream_def)

text \<open>
  C2. \<open>sendq::send\<close> sends in order, exactly once: whatever the kernel accepts and however often it
  blocks or interrupts, the call returns without touching a released packet, the descriptor has
  received the next \<open>n\<close> bytes of the queue's stream, the queue holds exactly the packets not yet
  completely written (the finished ones were released), the window still describes its head, and
  the return value is 0 only when everything was sent.
\<close>

theorem sendq_send_in_order:
  assumes "sendq_sync q st k"
  shows "\<exists>r fd' st' q' k' n j. sendq_send q fd st = Inr (r, fd', st', q') \<and>
    wr_out fd' = wr_out fd @ take n (drop k (sq_stream q st)) \<and>
    drop (k + n) (sq_stream q st) = drop k' (sq_stream q' st') \<and>
    k + n \<le> length (sq_stream q st) \<and> sendq_sync q' st' k' \<and>
    sq_pq q' = drop j (sq_pq q) \<and> pqh_clear (take j (sq_pq q)) st = Inr st' \<and>
    (r = 0 \<longrightarrow> sq_pq q' = []) \<and> (r \<noteq> 0 \<longrightarrow> r = -1 \<or> r = int (sq_svc q'))"
  using sendq_send_sent [OF assms, of fd] unfolding sq_sent_def sq_moved_def by blast

lemma sendq_send_in_order_witness:
  "\<exists>r fd' st' q'. sendq_send (sendq_push (sendq_push ex_sendq 3) 4)
     (ex_fd [WrOk 3, WrErr EINTR, WrOk 100]) ex_store = Inr (r, fd', st', q')"
  using sendq_send_in_order [OF ex_pushed(1)] by blast

text \<open>
  C11. Liveness: on a descriptor that accepts at least one byte per call for as many calls as bytes
  are queued, \<open>sendq::send\<close> empties the queue, returns 0 and has written the whole stream.
\<close>

theorem sendq_send_drains:
  assumes "sendq_sync q st k" and "accepting (wr_script fd)"
    and "length (sq_stream q st) - k \<le> length (wr_script fd)"
  shows "\<exists>fd' st' q'. sendq_send q fd st = Inr (0, fd', st', q') \<and> sq_pq q' = [] \<and>
    wr_out fd' = wr_out fd @ drop k (sq_stream q st)"
  by (rule sendq_send_complete [OF assms])

lemma sendq_send_drains_witness:
  "\<exists>fd' st' q'. sendq_send (sendq_push (sendq_push ex_sendq 3) 4)
       (ex_fd (replicate 8 (WrOk 1))) ex_store = Inr (0, fd', st', q') \<and> sq_pq q' = [] \<and>
     wr_out fd' = [4, 0, 1, 0, 4, 0, 2, 0]"
  using sendq_send_drains [OF ex_pushed(1), of "ex_fd (replicate 8 (WrOk 1))"]
  by (auto simp: ex_pushed(2) ex_fd_def accepting_def)

text \<open>
  C13. \<open>sendq::pull\<close> on a synchronised queue all of whose packets have an entry in the window, the window not being
  full: it moves, in order, the packets of the queue's direction that are not delayed, as many as the
  window has room for, releases the dropped ones it meets, keeps the others in their order, and the
  stream to send grows by exactly the bytes of the packets moved.
\<close>

theorem sendq_pull_appends:
  assumes "sendq_sync q st k" and "sq_svc q = length (sq_pq q)" and "sq_svc q < WRIVCNT"
    and "distinct src" and "\<forall>p \<in> set src. sendable st p" and "set src \<inter> set (sq_pq q) = {}"
  shows "\<exists>pre post st' q'. src = pre @ post \<and>
    pulled st (sq_dir q) 0 0 (WRIVCNT - sq_svc q) pre post st' \<and>
    sendq_pull q src st = Inr (sq_svc q', st', pull_keep st (sq_dir q) 0 pre @ post, q') \<and>
    sq_pq q' = sq_pq q @ pull_take st (sq_dir q) 0 pre \<and> sq_svc q' = length (sq_pq q') \<and>
    sendq_sync q' st' k \<and>
    sq_stream q' st' = sq_stream q st @ concat (map (pkt_bytes st) (pull_take st (sq_dir q) 0 pre))"
  using sendq_pull_sync [OF assms(1-4) _ assms(6)] assms(5) by blast

lemma sendq_pull_appends_witness:
  "\<exists>pre post st' q'. [3, 4] = pre @ post \<and>
    sendq_pull ex_sendq [3, 4] ex_store =
      Inr (sq_svc q', st', pull_keep ex_store CLI_TO_SRV 0 pre @ post, q') \<and> sendq_sync q' st' 0"
  using sendq_pull_appends [OF ex_sendq_sync(1), of "[3, 4]" ex_store]
  by (simp add: ex_sendq_sync ex_sendable WRIVCNT_def) blast

text \<open>
  C16. What goes wrong when a blocked window does not reach the end of the queue (packets were queued behind
  it by \<open>push_out\<close>): \<open>sendq::pull\<close> puts the entries of the packets it adds right behind the window, so the
  window no longer describes the head of the queue. A descriptor that then accepts everything offered and is full
  gets the bytes of the added packets in the place of the packets queued behind the window; \<open>sendq::send\<close>
  releases as many packets from the head of the queue as it wrote entries, so packets leave it unsent, and the packets
  added are sent again later if the queue still holds them.
\<close>

theorem sendq_pull_desync:
  assumes "sendq_sync q st k" and "0 < sq_svc q" and "sq_svc q < length (sq_pq q)" and "sq_svc q < WRIVCNT"
    and "distinct src" and "\<forall>p \<in> set src. sendable st p" and "set src \<inter> set (sq_pq q) = {}"
  shows "\<exists>pre post ts st' src' q' ws. src = pre @ post \<and> ts = pull_take st (sq_dir q) 0 pre \<and>
    sendq_pull q src st = Inr (sq_svc q', st', src', q') \<and>
    (pull_take st (sq_dir q) 0 src \<noteq> [] \<longrightarrow> ts \<noteq> []) \<and>
    sq_pq q' = sq_pq q @ ts \<and> ws = take (sq_svc q) (sq_pq q) @ ts \<and> sq_svc q' = length ws \<and>
    sq_window q' = shift_hd k (map (full_iov st') ws) \<and>
    (\<forall>fd m. wr_script fd = [WrOk m] \<and> length (concat (map (pkt_bytes st) ws)) \<le> m + k \<longrightarrow>
      (\<exists>r fd' st'' q''. sendq_send q' fd st' = Inr (r, fd', st'', q'') \<and>
        wr_out fd' = wr_out fd @ drop k (concat (map (pkt_bytes st) ws)) \<and>
        sq_pq q'' = drop (length ws) (sq_pq q') \<and> pqh_clear (take (length ws) (sq_pq q')) st' = Inr st'' \<and>
        sendq_sync q'' st'' 0))"
proof -
  let ?t = "pull_take st (sq_dir q) 0"
  have sendable: "\<And>p. p \<in> set src \<Longrightarrow> sendable st p" using assms(6) by blast
  obtain pre post st' q' where r: "src = pre @ post" "pulled st (sq_dir q) 0 0 (WRIVCNT - sq_svc q) pre post st'"
    "sendq_pull q src st = Inr (sq_svc q', st', pull_keep st (sq_dir q) 0 pre @ post, q')"
    "sq_pq q' = sq_pq q @ ?t pre" "sq_dir q' = sq_dir q" "sq_svc q' = sq_svc q + length (?t pre)"
    and q': "sq_sv q' = 0" "length (sq_svbuf q') = WRIVCNT" "sq_svc q' \<le> WRIVCNT" "distinct (sq_pq q')"
      "\<forall>p \<in> set (sq_pq q'). sendable st p"
    and win: "sq_window q' = sq_window q @ map (full_iov st) (?t pre)"
    and frame: "\<forall>p \<in> set (sq_pq q'). pkts st' p = pkts st p"
    by (rule sendq_pull_result [OF assms(1,4,5) sendable assms(7)])
  let ?ws = "take (sq_svc q) (sq_pq q) @ ?t pre"
  have same: "full_iov st' p = full_iov st p" "sendable st' p" "pkt_bytes st' p = pkt_bytes st p" if "p \<in> set (sq_pq q')" for p
    using bspec [OF frame that] bspec [OF q'(5) that] by (simp_all add: full_iov_def sendable_def pkt_bytes_def)
  have sub: "set ?ws \<subseteq> set (sq_pq q')" using r(4) by (auto dest: in_set_takeD)
  have hd: "take (sq_svc q) (sq_pq q) \<noteq> []" "hd ?ws = hd (sq_pq q)" using assms(2,3) by (auto simp: hd_append)
  have m: "map (full_iov st') ?ws = map (full_iov st) ?ws" "map (pkt_bytes st') ?ws = map (pkt_bytes st) ?ws"
    using same(1,3) sub by (auto intro!: map_cong dest: in_set_takeD)
  have "sq_window q' = shift_hd k (map (full_iov st) ?ws)"
    using win assms(1) hd(1) by (simp add: sendq_sync_def sq_rep_def shift_hd_append)
  then have w: "sq_window q' = shift_hd k (map (full_iov st') ?ws)" by (simp only: m(1))
  have svc: "sq_svc q' = length ?ws" using r(6) assms(3) by simp
  have "hd (sq_pq q) \<in> set (sq_pq q')" using r(4) assms(3) by (cases "sq_pq q") auto
  then have k: "k < length (pkt_bytes st' (hd ?ws))"
    using assms(1,2) hd(2) same(3) by (auto simp: sendq_sync_def sq_rep_def)
  have taken: "?t src \<noteq> [] \<longrightarrow> ?t pre \<noteq> []"
    using r(1,2) assms(4) by (cases post) (auto simp: pulled_def)
  have sent: "\<exists>r fd' st'' q''. sendq_send q' fd st' = Inr (r, fd', st'', q'') \<and>
        wr_out fd' = wr_out fd @ drop k (concat (map (pkt_bytes st) ?ws)) \<and>
        sq_pq q'' = drop (length ?ws) (sq_pq q') \<and> pqh_clear (take (length ?ws) (sq_pq q')) st' = Inr st'' \<and>
        sendq_sync q'' st'' 0"
    if "wr_script fd = [WrOk m]" "length (concat (map (pkt_bytes st) ?ws)) \<le> m + k" for fd m
  proof -
    have len: "length (concat (map (pkt_bytes st') ?ws)) \<le> m + k" using that(2) by (simp only: m(2))
    have ne: "?ws \<noteq> []" and le: "length ?ws \<le> length (sq_pq q')" using hd(1) r(4) by simp_all
    have snd: "sendable st' p" if "p \<in> set ?ws" for p using same(2) sub that by blast
    show ?thesis
      using sendq_send_window [OF w svc ne q'(1-4) le same(2) snd k that(1) len] by (simp only: m(2))
  qed
  show ?thesis
    by (rule exI [of _ pre], rule exI [of _ post], rule exI [of _ "?t pre"], rule exI [of _ st'], rule exI [of _ "pull_keep st (sq_dir q) 0 pre @ post"],
        rule exI [of _ q'], rule exI [of _ ?ws], intro conjI allI impI)
      (rule r(1,3,4) refl svc w | use taken in blast | use sent in blast)+
qed

text \<open>
  Packet 3 blocks, packet 4 is queued behind it, packet 5 is injected: packets 3 and 5 are written,
  3 and 4 are released, and 5 is still in the queue.
\<close>

definition ex_blocked :: sendq where
  "ex_blocked = \<lparr>sq_pq = [3, 4], sq_svc = 1, sq_sv = 0,
     sq_svbuf = full_iov ex_store 3 # replicate (WRIVCNT - 1) \<lparr>iov_pkt = 0, iov_off = 0, iov_len = 0\<rparr>,
     sq_dir = CLI_TO_SRV\<rparr>"

lemma ex_blocked_sync: "sendq_sync ex_blocked ex_store 0"
  by (simp add: sendq_sync_def sq_rep_def ex_blocked_def sq_window_def ex_sendable WRIVCNT_def)

lemma sendq_pull_desync_witness:
  "\<exists>n st' src' q' r fd' st'' q''. sendq_pull ex_blocked [5] ex_store = Inr (n, st', src', q') \<and>
     sendq_send q' (ex_fd [WrOk 100]) st' = Inr (r, fd', st'', q'') \<and>
     wr_out fd' = [4, 0, 1, 0,  4, 0, 3, 0] \<and> sq_pq q'' = [5]"
proof -
  have sq: "sq_svc ex_blocked = 1" "sq_pq ex_blocked = [3, 4]" "sq_dir ex_blocked = CLI_TO_SRV"
    by (simp_all add: ex_blocked_def)
  have b: "pkt_bytes ex_store 5 = [4, 0, 3, 0]" "pull_take ex_store CLI_TO_SRV 0 [5] = [5]" by code_simp+
  have h: "0 < sq_svc ex_blocked" "sq_svc ex_blocked < length (sq_pq ex_blocked)" "sq_svc ex_blocked < WRIVCNT"
    "distinct [5 :: addr]" "\<forall>p \<in> set [5]. sendable ex_store p" "set [5] \<inter> set (sq_pq ex_blocked) = {}"
    by (simp_all add: sq ex_sendable WRIVCNT_def)
  obtain pre post ts st' src' q' ws where d: "[5] = pre @ post" "ts = pull_take ex_store (sq_dir ex_blocked) 0 pre"
    "sendq_pull ex_blocked [5] ex_store = Inr (sq_svc q', st', src', q')"
    "pull_take ex_store (sq_dir ex_blocked) 0 [5] \<noteq> [] \<longrightarrow> ts \<noteq> []"
    "sq_pq q' = sq_pq ex_blocked @ ts" "ws = take (sq_svc ex_blocked) (sq_pq ex_blocked) @ ts"
    and sent: "\<forall>fd m. wr_script fd = [WrOk m] \<and> length (concat (map (pkt_bytes ex_store) ws)) \<le> m + 0 \<longrightarrow>
      (\<exists>r fd' st'' q''. sendq_send q' fd st' = Inr (r, fd', st'', q'') \<and>
        wr_out fd' = wr_out fd @ drop 0 (concat (map (pkt_bytes ex_store) ws)) \<and>
        sq_pq q'' = drop (length ws) (sq_pq q') \<and> pqh_clear (take (length ws) (sq_pq q')) st' = Inr st'' \<and>
        sendq_sync q'' st'' 0)"
    using sendq_pull_desync [OF ex_blocked_sync h] by (elim exE conjE) (rule that)
  have "ts = [5]"
    using d(1,2,4) b(2) sq(3) by (cases pre) (auto simp: pull_take_def)
  then have ws: "ws = [3, 5]" and pq: "sq_pq q' = [3, 4, 5]" using d(5,6) sq by simp_all
  show ?thesis
    using d(3) spec [OF spec [OF sent, of "ex_fd [WrOk 100]"], of 100] ws pq b(1) ex_sendable(2)
    by (fastforce simp: ex_fd_def)
qed

end
