(* ===== verification/Ledger.thy ===== *)
theory Ledger
  imports Recvq Sendq "HOL-Library.Multiset" "HOL-Library.Sublist"
begin

text \<open>
  Who holds which packet. The holders of the packets (queues, the packet being read, delayed
  packets, events) are collected in a multiset of addresses; \<open>ledger st hs\<close> says that the allocated
  packets are exactly the held ones, that the reference count of each is the number of its holders
  and that its data is as long as its length field. Every operation on packets and queues is shown
  to keep the books: it never touches a packet that is not allocated, and afterwards the ledger is
  balanced for the holders that remain. \<open>touched T\<close> is the frame: only packets in \<open>T\<close> and new ones
  changed.
\<close>

section \<open>The ledger\<close>

definition pkt_wf :: "rf_packet \<Rightarrow> bool" where
  "pkt_wf pk \<longleftrightarrow> length (p_data pk) = unat (p_len pk) \<and> p_data pk \<noteq> []"

definition booked :: "rf_packet option \<Rightarrow> nat \<Rightarrow> bool" where
  "booked v n \<longleftrightarrow>
     (case v of None \<Rightarrow> n = 0 | Some pk \<Rightarrow> 0 < n \<and> unat (p_refc pk) = n \<and> pkt_wf pk)"

definition ledger :: "store \<Rightarrow> addr multiset \<Rightarrow> bool" where
  "ledger st hs \<longleftrightarrow> store_ok st \<and> (\<forall>p. booked (pkts st p) (count hs p))"

lemma booked_simps [simp]:
  "booked None n \<longleftrightarrow> n = 0"
  "booked (Some pk) n \<longleftrightarrow> 0 < n \<and> unat (p_refc pk) = n \<and> pkt_wf pk"
  by (simp_all add: booked_def)

definition touched :: "addr set \<Rightarrow> store \<Rightarrow> store \<Rightarrow> bool" where
  "touched T st st' \<longleftrightarrow> brk st \<le> brk st' \<and>
     (\<forall>p < brk st. p \<notin> T \<longrightarrow> pkts st' p = pkts st p)"

lemma ledger_get:
  assumes "ledger st hs" and "p \<in># hs"
  obtains pk where "pkts st p = Some pk" "unat (p_refc pk) = count hs p" "pkt_wf pk" "p < brk st"
proof -
  have "booked (pkts st p) (count hs p)" using assms(1) by (simp add: ledger_def)
  then obtain pk where pk: "pkts st p = Some pk" "unat (p_refc pk) = count hs p" "pkt_wf pk"
    using assms(2) by (cases "pkts st p") (auto simp: count_eq_zero_iff)
  moreover have "p < brk st"
    using pk(1) assms(1) by (force simp: ledger_def store_ok_def not_less [symmetric])
  ultimately show thesis by (rule that)
qed

lemma ledger_live: "ledger st hs \<Longrightarrow> pkts st p \<noteq> None \<longleftrightarrow> p \<in># hs"
  unfolding ledger_def by (cases "pkts st p") (metis booked_simps not_in_iff neq0_conv option.distinct(1))+

lemma ledger_store_ok: "ledger st hs \<Longrightarrow> store_ok st"
  by (simp add: ledger_def)

lemma ledger_less: "ledger st hs \<Longrightarrow> p \<in># hs \<Longrightarrow> p < brk st"
  by (erule ledger_get)

lemma ledger_fresh: "ledger st hs \<Longrightarrow> brk st \<le> p \<Longrightarrow> count hs p = 0"
  by (metis ledger_less count_eq_zero_iff not_less)

lemma ledger_cong: "ledger st hs \<Longrightarrow> hs = hs' \<Longrightarrow> ledger st hs'"
  by simp

text \<open>Changing one packet and its number of holders.\<close>

lemma ledger_update:
  assumes "ledger st hs" and "p < brk st"
    and "booked v (count hs' p)"
    and "\<And>q. q \<noteq> p \<Longrightarrow> count hs' q = count hs q"
  shows "ledger (st\<lparr>pkts := (pkts st)(p := v)\<rparr>) hs'"
  using assms by (auto simp: ledger_def store_ok_def)

section \<open>Frames\<close>

lemma touched_refl [simp]: "touched T st st"
  by (simp add: touched_def)

lemma touched_trans:
  assumes "touched T st st1" and "touched T' st1 st2" and "T' \<inter> {..<brk st} \<subseteq> T"
  shows "touched T st st2"
proof -
  have "pkts st2 p = pkts st p" if "p < brk st" "p \<notin> T" for p
  proof -
    have "p < brk st1" "p \<notin> T'" using that assms(1,3) by (auto simp: touched_def)
    then show ?thesis using that assms(1,2) by (simp add: touched_def)
  qed
  then show ?thesis
    using assms(1,2) by (auto simp: touched_def)
qed

lemma touched_mono: "touched T st st' \<Longrightarrow> T \<subseteq> T' \<Longrightarrow> touched T' st st'"
  by (auto simp: touched_def)

lemma touched_same: "touched T st st' \<Longrightarrow> p < brk st \<Longrightarrow> p \<notin> T \<Longrightarrow> pkts st' p = pkts st p"
  by (simp add: touched_def)

lemma touched_brk: "touched T st st' \<Longrightarrow> brk st \<le> brk st'"
  by (simp add: touched_def)

lemma touched_update: "p \<in> T \<Longrightarrow> touched T st (st\<lparr>pkts := (pkts st)(p := v)\<rparr>)"
  by (auto simp: touched_def)

section \<open>One holder each\<close>

definition once :: "addr multiset \<Rightarrow> bool" where
  "once hs \<longleftrightarrow> (\<forall>x. count hs x \<le> 1)"

lemma onceD: "once hs \<Longrightarrow> count hs x \<le> 1"
  by (simp add: once_def)

lemma once_sub: "once hs \<Longrightarrow> hs' \<subseteq># hs \<Longrightarrow> once hs'"
  unfolding once_def by (meson mset_subset_eq_count le_trans)

lemma once_disjoint: "once (A + B) \<Longrightarrow> set_mset A \<inter> set_mset B = {}"
proof (rule ccontr)
  assume "once (A + B)" and "set_mset A \<inter> set_mset B \<noteq> {}"
  then obtain x where "x \<in># A" "x \<in># B" by auto
  then have "0 < count A x" "0 < count B x" by simp_all
  then show False using onceD [OF \<open>once (A + B)\<close>, of x] unfolding count_union by linarith
qed

lemma once_add:
  assumes "once A" and "once B" and "set_mset A \<inter> set_mset B = {}"
  shows "once (A + B)"
  unfolding once_def
proof
  fix x
  have "x \<notin># A \<or> x \<notin># B" using assms(3) by auto
  then show "count (A + B) x \<le> 1"
    using onceD [OF assms(1), of x] onceD [OF assms(2), of x] by (auto simp: not_in_iff)
qed

lemma distinct_once: "distinct xs \<Longrightarrow> once (mset xs)"
  by (simp add: once_def distinct_count_atmost_1)

lemma once_distinct: "once (mset xs) \<Longrightarrow> distinct xs"
proof (induction xs)
  case (Cons x xs)
  have "once (mset xs)" by (rule once_sub [OF Cons.prems]) simp
  moreover have "x \<notin># mset xs" using onceD [OF Cons.prems, of x] by (simp add: not_in_iff)
  ultimately show ?case using Cons.IH by simp
qed simp

section \<open>Packets\<close>

lemma ledger_unref:
  assumes "ledger st (add_mset p hs)"
  obtains st' where "pkt_unref p st = Inr st'" "ledger st' hs" "touched {p} st st'" "brk st' = brk st"
proof -
  obtain pk where pk: "pkts st p = Some pk" "unat (p_refc pk) = Suc (count hs p)" "pkt_wf pk" "p < brk st"
    by (rule ledger_get [OF assms, of p]) auto
  let ?v = "if p_refc pk = 1 then None else Some (pk\<lparr>p_refc := p_refc pk - 1\<rparr>)"
  let ?st = "st\<lparr>pkts := (pkts st)(p := ?v)\<rparr>"
  have refc: "p_refc pk \<noteq> 0" "unat (p_refc pk - 1) = count hs p" "p_refc pk = 1 \<longleftrightarrow> count hs p = 0"
  proof -
    show ne: "p_refc pk \<noteq> 0" using pk(2) by auto
    then show "unat (p_refc pk - 1) = count hs p" using pk(2) by (simp add: unat_minus_one)
    show "p_refc pk = 1 \<longleftrightarrow> count hs p = 0"
      using pk(2) by (metis One_nat_def nat.inject unsigned_1 unsigned_word_eqI)
  qed
  have "pkt_unref p st = Inr ?st" using pk(1) by (simp add: pkt_unref_eq_Inr)
  moreover have "ledger ?st hs"
    by (rule ledger_update [OF assms pk(4)]) (use refc pk(3) in \<open>auto simp: pkt_wf_def\<close>)
  moreover have "touched {p} st ?st"
    by (rule touched_update) simp
  ultimately show thesis by (rule that) simp
qed

lemma ledger_ref:
  assumes "ledger st hs" and "p \<in># hs" and "count hs p < 2 ^ 32 - 1"
  obtains st' where "pkt_ref p st = Inr st'" "ledger st' (add_mset p hs)" "touched {p} st st'"
    "brk st' = brk st"
proof -
  obtain pk where pk: "pkts st p = Some pk" "unat (p_refc pk) = count hs p" "pkt_wf pk" "p < brk st"
    by (rule ledger_get [OF assms(1,2)])
  let ?v = "Some (pk\<lparr>p_refc := p_refc pk + 1\<rparr>)"
  let ?st = "st\<lparr>pkts := (pkts st)(p := ?v)\<rparr>"
  have "unat (p_refc pk + 1) = Suc (count hs p)"
    using pk(2) assms(3) by (subst unat_plus_if') simp
  then have l: "ledger ?st (add_mset p hs)"
    by (intro ledger_update [OF assms(1) pk(4)]) (use pk(3) in \<open>auto simp: pkt_wf_def\<close>)
  have "pkt_ref p st = Inr ?st"
    using pk(1) by (simp add: pkt_ref_def)
  moreover note l
  moreover have "touched {p} st ?st"
    by (rule touched_update) simp
  ultimately show thesis by (rule that) simp
qed

text \<open>A change of flags, descriptions or data of the same length.\<close>

lemma ledger_modify:
  assumes "ledger st hs" and "p \<in># hs"
    and "\<And>pk. pkts st p = Some pk \<Longrightarrow> p_refc (f pk) = p_refc pk \<and> p_len (f pk) = p_len pk \<and>
      p_dir (f pk) = p_dir pk \<and> length (p_data (f pk)) = length (p_data pk)"
  obtains st' where "pkt_modify f p st = Inr st'" "ledger st' hs" "touched {p} st st'" "brk st' = brk st"
proof -
  obtain pk where pk: "pkts st p = Some pk" "unat (p_refc pk) = count hs p" "pkt_wf pk" "p < brk st"
    by (rule ledger_get [OF assms(1,2)])
  let ?st = "st\<lparr>pkts := (pkts st)(p := Some (f pk))\<rparr>"
  note f = assms(3) [OF pk(1)]
  have "pkt_modify f p st = Inr ?st"
    using pk(1) by simp
  moreover have "ledger ?st hs"
    by (intro ledger_update [OF assms(1) pk(4)])
      (use pk(2,3) f assms(2) in \<open>auto simp: pkt_wf_def simp flip: length_greater_0_conv\<close>)
  moreover have "touched {p} st ?st"
    by (rule touched_update) simp
  ultimately show thesis by (rule that) simp
qed

text \<open>A new packet has one holder, which nobody else is.\<close>

lemma ledger_add:
  assumes "ledger st hs" and "p_refc pk = 1" and "pkt_wf pk"
    and "st' = st\<lparr>pkts := (pkts st)(brk st \<mapsto> pk), brk := Suc (brk st)\<rparr>"
  shows "ledger st' (add_mset (brk st) hs)" and "touched T st st'" and "count hs (brk st) = 0"
proof -
  have "pkts st (brk st) = None" using ledger_store_ok [OF assms(1)] by (simp add: store_ok_def)
  then show z: "count hs (brk st) = 0" using ledger_live [OF assms(1), of "brk st"] by (simp add: not_in_iff [symmetric])
  show "ledger st' (add_mset (brk st) hs)"
    using assms(1-3) z by (auto simp: assms(4) ledger_def store_ok_def)
  show "touched T st st'" by (simp add: assms(4) touched_def)
qed

section \<open>Queues\<close>

lemma ledger_clear:
  assumes "ledger st (mset ps + hs)"
  obtains st' where "pqh_clear ps st = Inr st'" "ledger st' hs" "touched (set ps) st st'" "brk st' = brk st"
proof -
  have "\<exists>st'. pqh_clear ps st = Inr st' \<and> ledger st' hs \<and> touched (set ps) st st' \<and> brk st' = brk st"
    using assms
  proof (induction ps arbitrary: st)
    case (Cons p ps)
    then have "ledger st (add_mset p (mset ps + hs))" by simp
    then obtain st1 where st1: "pkt_unref p st = Inr st1" "ledger st1 (mset ps + hs)"
      "touched {p} st st1" "brk st1 = brk st"
      by (rule ledger_unref)
    from Cons.IH [OF st1(2)] obtain st' where st': "pqh_clear ps st1 = Inr st'" "ledger st' hs"
      "touched (set ps) st1 st'" "brk st' = brk st1"
      by blast
    have "touched (set (p # ps)) st st'"
      by (rule touched_trans [OF touched_mono [OF st1(3)] st'(3)]) auto
    then show ?case using st1 st' by simp
  qed simp
  then show thesis using that by blast
qed

lemma mset_pull:
  "mset ps = mset (pull_keep st d md ps) + mset (pull_take st d md ps) + mset (pull_free st d md ps)"
  by (induction ps) (auto simp: pull_defs)

lemma ledger_pull:
  assumes "ledger st (mset src + hs)" and "distinct src"
  obtains st' src' moved freed where
    "pqh_pull src dst d n md st = Inr (st', src', dst @ moved, map (full_iov st) moved)"
    "ledger st' (mset src' + mset moved + hs)" "touched (set src) st st'" "brk st' = brk st"
    "length moved \<le> n" "distinct src'" "distinct moved" "mset src = mset src' + mset moved + mset freed"
    "\<And>p. p \<in> set moved \<Longrightarrow> pkts st' p = pkts st p"
proof -
  have live: "pkts st p \<noteq> None" if "p \<in> set src" for p
    using ledger_live [OF assms(1), of p] that by simp
  obtain pre post st' where r: "src = pre @ post" "pulled st d md 0 n pre post st'"
    "pqh_pull src dst d n md st = Inr (st', pull_keep st d md pre @ post, dst @ pull_take st d md pre,
       map (full_iov st) (pull_take st d md pre))"
    by (rule pqh_pull_spec [OF assms(2) live])
  let ?keep = "pull_keep st d md pre @ post" and ?moved = "pull_take st d md pre"
    and ?freed = "pull_free st d md pre"
  have eq: "mset src = mset ?keep + mset ?moved + mset ?freed"
    using mset_pull [of pre st d md] r(1) by simp
  then have "ledger st (mset ?freed + (mset ?keep + mset ?moved + hs))"
    using assms(1) by (simp add: ac_simps)
  then obtain st1 where st1: "pqh_clear ?freed st = Inr st1" "ledger st1 (mset ?keep + mset ?moved + hs)"
    "touched (set ?freed) st st1" "brk st1 = brk st"
    by (rule ledger_clear)
  have "st1 = st'" using st1(1) r(2) by (simp add: pulled_def)
  note st' = st1(2-4) [unfolded this]
  show thesis
  proof (rule that [OF r(3) st'(1) _ st'(3) _ _ _ eq])
    show "touched (set src) st st'"
      by (rule touched_mono [OF st'(2)]) (auto simp: r(1) pull_defs)
    show "length ?moved \<le> n" using r(2) by (simp add: pulled_def)
    show "distinct ?keep" "distinct ?moved"
      using assms(2) by (auto simp: r(1) pull_defs)
    show "pkts st' p = pkts st p" if "p \<in> set ?moved" for p
      by (rule touched_same [OF st'(2)])
        (use that assms(1) in \<open>auto simp: pull_defs r(1) intro: ledger_less\<close>)
  qed
qed

end
