(* ===== verification/Ledger_Queues.thy ===== *)
theory Ledger_Queues
  imports Ledger
begin

text \<open>
  The receive queue and the send queue keep the ledger. For the receive queue this follows from what
  it delivers (theory \<open>Recvq\<close>). For the send queue it needs less than theory \<open>Sendq\<close> asks for:
  \<open>sq_safe\<close> only says that the packets of the window are a subsequence of the queue and that the
  entries lie inside them. Pushing, pulling and sending keep that, even when the window is no longer
  in step with the head of the queue, so the queue never reads a packet that was released.
\<close>

section \<open>The receive queue\<close>

definition opt_hold :: "addr option \<Rightarrow> addr multiset" where
  "opt_hold x = (case x of None \<Rightarrow> {#} | Some p \<Rightarrow> {#p#})"

lemma count_opt_hold [simp]: "count (opt_hold x) p = (if x = Some p then 1 else 0)"
  by (auto simp: opt_hold_def split: option.split)

lemma opt_hold_simps [simp]: "opt_hold None = {#}" "opt_hold (Some p) = {#p#}"
  by (simp_all add: opt_hold_def)

definition rq_hold :: "recvq \<Rightarrow> addr multiset" where
  "rq_hold q = mset (rq_pq q) + opt_hold (rq_rd q)"

lemma frames_Inl_OutOfBounds: "frames bs = Inl e \<Longrightarrow> e = OutOfBounds"
  using frames_Inl [of bs e] frames_wf_bad by fastforce

lemma frame_pkt_booked: "wf_frame x \<Longrightarrow> booked (Some (frame_pkt d x)) 1"
  by (auto simp: pkt_wf_def wf_frame_def) (simp add: frame_pkt_def)

lemma recvq_rd_booked:
  assumes "recvq_ok q st" and "rq_rd q = Some p"
  shows "booked (pkts st p) 1 \<and> p < brk st \<and> p \<notin> set (rq_pq q)"
proof -
  obtain x where "pkts st p = Some (frame_pkt (rq_dir q) x)" "wf_frame x" "p \<notin> set (rq_pq q)"
    using assms by (auto simp: recvq_ok_def wf_frame_def)
  moreover have "booked (Some (frame_pkt (rq_dir q) x)) 1" by (rule frame_pkt_booked) fact
  ultimately show ?thesis using recvq_ok_rd_less [OF assms] by simp
qed

text \<open>The packets a receive concerns: the one in progress and the new ones.\<close>

definition fresh :: "recvq \<Rightarrow> store \<Rightarrow> store \<Rightarrow> addr set" where
  "fresh q st st' = set_option (rq_rd q) \<union> {brk st..<brk st'}"

lemma recv_delivers_fresh:
  assumes "recv_delivers q st fs r q' st'" and "\<forall>x \<in> set fs. wf_frame x" and "p \<in> fresh q st st'"
  shows "booked (pkts st' p) 1"
proof -
  obtain ps where ps: "map (pkts st') ps = map (\<lambda>x. Some (frame_pkt (rq_dir q) x)) fs"
    "set ps \<union> set_option (rq_rd q') = set_option (rq_rd q) \<union> {brk st..<brk st'}" and ok': "recvq_ok q' st'"
    using assms(1) unfolding recv_delivers_def by blast
  show ?thesis
  proof (cases "p \<in> set ps")
    case True
    then have "pkts st' p \<in> set (map (\<lambda>x. Some (frame_pkt (rq_dir q) x)) fs)"
      unfolding ps(1) [symmetric] by simp
    then obtain x where x: "x \<in> set fs" "pkts st' p = Some (frame_pkt (rq_dir q) x)" by auto
    show ?thesis unfolding x(2) by (rule frame_pkt_booked) (use assms(2) x(1) in blast)
  next
    case False
    moreover have "p \<in> set ps \<union> set_option (rq_rd q')" unfolding ps(2) using assms(3) by (simp add: fresh_def)
    ultimately have "rq_rd q' = Some p" by simp
    then show ?thesis using recvq_rd_booked [OF ok'] by blast
  qed
qed

text \<open>Each of them has one holder afterwards, every other packet those it had.\<close>

lemma recv_delivers_holders:
  assumes "recv_delivers q st fs r q' st'" and "recvq_ok q st" and "ledger st (rq_hold q + hs)"
  shows "count (rq_hold q' + hs) p = (if p \<in> fresh q st st' then 1 else count (rq_hold q + hs) p)"
proof -
  obtain ps where ps: "rq_pq q' = rq_pq q @ ps" "distinct ps"
    "set ps \<union> set_option (rq_rd q') = set_option (rq_rd q) \<union> {brk st..<brk st'}" and ok': "recvq_ok q' st'"
    using assms(1) by (auto simp: recv_delivers_def)
  have "count (mset ps) p + count (opt_hold (rq_rd q')) p = (if p \<in> fresh q st st' then 1 else 0)"
    using ps(2) recvq_rd_booked [OF ok', of p] ps(1,3) by (auto simp: distinct_count_atmost_1 fresh_def)
  then have c: "count (rq_hold q' + hs) p = count (mset (rq_pq q) + hs) p + (if p \<in> fresh q st st' then 1 else 0)"
    by (simp add: rq_hold_def ps(1))
  have "count (mset (rq_pq q) + hs) p = 0" if "rq_rd q = Some p"
  proof -
    have "booked (pkts st p) (count (rq_hold q + hs) p)" using assms(3) by (simp add: ledger_def)
    then show ?thesis using that assms(2) by (auto simp: rq_hold_def recvq_ok_def frame_pkt_def)
  qed
  then show ?thesis
    unfolding c using ledger_fresh [OF assms(3), of p]
    by (auto simp: fresh_def rq_hold_def not_in_iff [THEN iffD1])
qed

lemma recv_delivers_ledger:
  assumes del: "recv_delivers q st fs r q' st'" and ok: "recvq_ok q st" and led: "ledger st (rq_hold q + hs)"
    and wf: "\<forall>x \<in> set fs. wf_frame x"
  shows "ledger st' (rq_hold q' + hs)" and "touched (set_option (rq_rd q)) st st'"
    and "count (rq_hold q' + hs) x \<le> max 1 (count (rq_hold q + hs) x)"
proof -
  have ok': "recvq_ok q' st'" "brk st \<le> brk st'"
    and same: "\<And>a. a < brk st \<Longrightarrow> rq_rd q \<noteq> Some a \<Longrightarrow> pkts st' a = pkts st a"
    using del by (auto simp: recv_delivers_def)
  note c = recv_delivers_holders [OF del ok led]
  have "booked (pkts st' p) (count (rq_hold q' + hs) p)" for p
  proof -
    have b: "booked (pkts st p) (count (rq_hold q + hs) p)" using led by (simp add: ledger_def)
    consider (new) "p \<in> fresh q st st'" | (old) "p < brk st" "p \<notin> fresh q st st'"
      | (free) "brk st' \<le> p" "p \<notin> fresh q st st'"
      by (fastforce simp: fresh_def)
    then show ?thesis
    proof cases
      case new
      then show ?thesis using recv_delivers_fresh [OF del wf] c [of p] by simp
    next
      case old
      then show ?thesis using b same c [of p] by (simp add: fresh_def)
    next
      case free
      then show ?thesis using ledger_fresh [OF led, of p] ok' c [of p] by (simp add: recvq_ok_def store_ok_def)
    qed
  qed
  then show "ledger st' (rq_hold q' + hs)"
    using ok' by (simp add: ledger_def recvq_ok_def)
  show "touched (set_option (rq_rd q)) st st'"
    using same ok'(2) by (auto simp: touched_def)
  show "count (rq_hold q' + hs) x \<le> max 1 (count (rq_hold q + hs) x)"
    unfolding c [of x] by auto
qed

lemma recvq_recv_ledger:
  assumes "recvq_ok q st" and "ledger st (rq_hold q + hs)"
  obtains (bad) "recvq_recv s q st = Inl OutOfBounds"
    | (ok) fs s' q' st' where "recvq_recv s q st = Inr (rd_more s, s', st', q')"
      "recv_delivers q st fs (rd_partial q' st') q' st'" "ledger st' (rq_hold q' + hs)"
      "touched (set_option (rq_rd q)) st st'" "\<forall>x \<in> set fs. wf_frame x"
      "frames (rd_partial q st @ rd_avail s) = Inr (fs, rd_partial q' st')"
      "\<And>x. count (rq_hold q' + hs) x \<le> max 1 (count (rq_hold q + hs) x)"
proof (cases "frames (rd_partial q st @ rd_avail s)")
  case (Inl e)
  then have "recvq_recv s q st = Inl OutOfBounds"
    using recvq_recv_sim [OF assms(1), of s] frames_Inl_OutOfBounds [OF Inl] by simp
  then show ?thesis by (rule bad)
next
  case (Inr fr)
  then obtain fs r where fr: "frames (rd_partial q st @ rd_avail s) = Inr (fs, r)" by (cases fr) auto
  then obtain s' q' st' where r: "recvq_recv s q st = Inr (rd_more s, s', st', q')" "recv_delivers q st fs r q' st'"
    using recvq_recv_sim [OF assms(1), of s] by auto
  have wf: "\<forall>x \<in> set fs. wf_frame x" using frames_Inr [OF fr] by simp
  have "r = rd_partial q' st'" using recv_delivers_partial [OF r(2)] by simp
  then show ?thesis
    using ok [OF r(1)] recv_delivers_ledger [OF r(2) assms wf] r(2) wf fr by simp
qed

lemma recvq_ok_touched:
  assumes "recvq_ok q st" and "touched T st st'" and "set_option (rq_rd q) \<inter> T = {}" and "store_ok st'"
  shows "recvq_ok q st'"
proof -
  have "pkts st' p = pkts st p" if "rq_rd q = Some p" for p
    using touched_same [OF assms(2) recvq_ok_rd_less [OF assms(1) that]] that assms(3) by auto
  then show ?thesis
    using assms(1,4) touched_brk [OF assms(2)] by (fastforce simp: recvq_ok_def split: option.splits)
qed

section \<open>The send queue\<close>

definition iov_inside :: "store \<Rightarrow> iovec \<Rightarrow> bool" where
  "iov_inside st v \<longleftrightarrow> (\<exists>pk. pkts st (iov_pkt v) = Some pk \<and> iov_off v + iov_len v \<le> length (p_data pk))"

definition sq_safe :: "sendq \<Rightarrow> store \<Rightarrow> bool" where
  "sq_safe q st \<longleftrightarrow> length (sq_svbuf q) = WRIVCNT \<and> sq_sv q + sq_svc q \<le> WRIVCNT \<and> distinct (sq_pq q) \<and>
     subseq (map iov_pkt (sq_window q)) (sq_pq q) \<and> (\<forall>v \<in> set (sq_window q). iov_inside st v)"

text \<open>Between two calls an empty window starts at the beginning of the buffer.\<close>

definition sq_ok :: "sendq \<Rightarrow> store \<Rightarrow> bool" where
  "sq_ok q st \<longleftrightarrow> sq_safe q st \<and> (sq_svc q = 0 \<longrightarrow> sq_sv q = 0)"

lemma ledger_sendable: "ledger st hs \<Longrightarrow> p \<in># hs \<Longrightarrow> sendable st p"
  by (erule ledger_get) (auto simp: sendable_def pkt_wf_def)

lemma full_iov_inside: "sendable st p \<Longrightarrow> iov_inside st (full_iov st p)"
  by (auto simp: sendable_def iov_inside_def full_iov_def)

lemma iov_inside_same: "iov_inside st v \<Longrightarrow> pkts st' (iov_pkt v) = pkts st (iov_pkt v) \<Longrightarrow> iov_inside st' v"
  by (simp add: iov_inside_def)

lemma gather_inside:
  "\<forall>v \<in> set vs. iov_inside st v \<Longrightarrow> \<exists>bs. gather st vs = Inr bs \<and> length bs = sum_list (map iov_len vs)"
  by (induction vs) (auto simp: iov_inside_def iov_read_def)

lemma subseq_map_set: "subseq (map f xs) ys \<Longrightarrow> x \<in> set xs \<Longrightarrow> f x \<in> set ys"
  using list_emb_set [of "(=)" "map f xs" ys "f x"] by auto

lemma sq_safe_pkts:
  assumes "sq_safe q st" and "v \<in> set (sq_window q)"
  shows "iov_pkt v \<in> set (sq_pq q)"
  using assms subseq_map_set by (auto simp: sq_safe_def)

text \<open>Another part of the store changes.\<close>

lemma sq_ok_touched:
  assumes "sq_ok q st" and "touched T st st'" and "set (sq_pq q) \<inter> T = {}" and "ledger st (mset (sq_pq q) + hs)"
  shows "sq_ok q st'"
proof -
  have "pkts st' (iov_pkt v) = pkts st (iov_pkt v)" if "v \<in> set (sq_window q)" for v
    using sq_safe_pkts [OF _ that, of st] assms ledger_less [OF assms(4), of "iov_pkt v"]
    by (intro touched_same [OF assms(2)]) (auto simp: sq_ok_def)
  then show ?thesis
    using assms(1) iov_inside_same unfolding sq_ok_def sq_safe_def by blast
qed

lemma sq_safe_Cons:
  assumes "sq_safe q st" and "sq_svc q \<noteq> 0"
  obtains v W p ps where "sq_window q = v # W" "peek (sq_svbuf q) (sq_sv q) = Inr v" "sq_pq q = p # ps"
    "sq_window (q\<lparr>sq_sv := sq_sv q + 1, sq_svc := sq_svc q - 1\<rparr>) = W" "subseq (map iov_pkt W) ps"
    "\<And>v'. sq_window (q\<lparr>sq_svbuf := (sq_svbuf q)[sq_sv q := v']\<rparr>) = v' # W"
proof -
  have sv: "sq_sv q < length (sq_svbuf q)" using assms by (simp add: sq_safe_def)
  let ?W = "sq_window (q\<lparr>sq_sv := sq_sv q + 1, sq_svc := sq_svc q - 1\<rparr>)"
  have win: "sq_window q = sq_svbuf q ! sq_sv q # ?W" by (rule window_Cons [OF assms(2) sv])
  then obtain p ps where pq: "sq_pq q = p # ps"
    using assms(1) by (cases "sq_pq q") (auto simp: sq_safe_def)
  have "subseq (map iov_pkt ?W) ps"
    using assms(1) win pq by (auto simp: sq_safe_def split: if_splits dest: subseq_Cons')
  moreover have "sq_window (q\<lparr>sq_svbuf := (sq_svbuf q)[sq_sv q := v']\<rparr>) = v' # ?W" for v'
    using window_Cons [of "q\<lparr>sq_svbuf := (sq_svbuf q)[sq_sv q := v']\<rparr>"] assms(2) sv by (simp add: sq_window_def)
  ultimately show thesis using that win sv pq by simp
qed

lemma shift_safe:
  assumes "sq_safe q st" and "sq_svc q \<noteq> 0" and "peek (sq_svbuf q) (sq_sv q) = Inr v" and "n < iov_len v"
  shows "\<exists>q'. sq_shift n q = Inr q' \<and> sq_safe q' st \<and> sq_pq q' = sq_pq q \<and> sq_dir q' = sq_dir q"
proof (cases "n = 0")
  case True
  then show ?thesis using assms(1) by (simp add: sq_shift_def)
next
  case False
  obtain W where f: "sq_window q = v # W" "\<And>v'. sq_window (q\<lparr>sq_svbuf := (sq_svbuf q)[sq_sv q := v']\<rparr>) = v' # W"
    using sq_safe_Cons [OF assms(1,2)] assms(3) by (metis sum.inject(2))
  let ?v = "v\<lparr>iov_off := iov_off v + n, iov_len := iov_len v - n\<rparr>"
  have "iov_inside st ?v" using assms(1,4) f(1) by (auto simp: sq_safe_def iov_inside_def)
  then show ?thesis
    using False assms(1,3) f by (simp add: sq_shift_def sq_safe_def)
qed

text \<open>The first entry leaves, and the reference of the queue to the packet at its head goes with it.\<close>

lemma pop_safe:
  assumes "sq_safe q st" and "ledger st (mset (sq_pq q) + hs)" and "sq_svc q \<noteq> 0"
  obtains v p ps st1 where "peek (sq_svbuf q) (sq_sv q) = Inr v" "sq_pq q = p # ps" "pkt_unref p st = Inr st1"
    "ledger st1 (mset ps + hs)" "touched {p} st st1"
    "sq_safe (q\<lparr>sq_pq := ps, sq_sv := sq_sv q + 1, sq_svc := sq_svc q - 1\<rparr>) st1"
    "sq_window q = v # sq_window (q\<lparr>sq_pq := ps, sq_sv := sq_sv q + 1, sq_svc := sq_svc q - 1\<rparr>)"
proof -
  obtain v W p ps where f: "sq_window q = v # W" "peek (sq_svbuf q) (sq_sv q) = Inr v" "sq_pq q = p # ps"
    "sq_window (q\<lparr>sq_sv := sq_sv q + 1, sq_svc := sq_svc q - 1\<rparr>) = W" "subseq (map iov_pkt W) ps"
    by (rule sq_safe_Cons [OF assms(1,3)]) blast
  have "ledger st (add_mset p (mset ps + hs))" using assms(2) f(3) by simp
  then obtain st1 where st1: "pkt_unref p st = Inr st1" "ledger st1 (mset ps + hs)" "touched {p} st st1"
    by (rule ledger_unref)
  let ?q = "q\<lparr>sq_pq := ps, sq_sv := sq_sv q + 1, sq_svc := sq_svc q - 1\<rparr>"
  have win: "sq_window ?q = W" using f(4) by (simp add: sq_window_def)
  have "iov_inside st1 u" if "u \<in> set W" for u
  proof -
    have "iov_pkt u \<in> set ps" using f(5) that by (rule subseq_map_set)
    then have "iov_pkt u \<noteq> p" "iov_pkt u \<in># mset (sq_pq q) + hs"
      using assms(1) f(3) by (auto simp: sq_safe_def)
    then have "pkts st1 (iov_pkt u) = pkts st (iov_pkt u)"
      using touched_same [OF st1(3)] ledger_less [OF assms(2)] by simp
    then show ?thesis using assms(1) f(1) that iov_inside_same by (auto simp: sq_safe_def)
  qed
  then have "sq_safe ?q st1" using assms(1,3) f(3,5) win by (simp add: sq_safe_def)
  then show thesis using that f(1-3) win st1 by simp
qed

lemma advance_safe:
  assumes "sq_safe q st" and "ledger st (mset (sq_pq q) + hs)" and "n \<le> sum_list (map iov_len (sq_window q))"
  shows "\<exists>m st' q1 q2 j. sq_advance n q st = Inr (m, st', q1) \<and> sq_shift m q1 = Inr q2 \<and> sq_safe q2 st' \<and>
    sq_pq q2 = drop j (sq_pq q) \<and> ledger st' (mset (sq_pq q2) + hs) \<and> touched (set (sq_pq q)) st st' \<and>
    sq_dir q2 = sq_dir q"
  using assms
proof (induction "sq_svc q" arbitrary: n q st)
  case 0
  then have "n = 0" by (simp add: sq_window_def)
  then have "sq_advance n q st = Inr (0, st, q)" "sq_shift 0 q = Inr q"
    using 0(1) by (simp_all add: sq_advance.simps [of 0] sq_shift_def)
  then show ?case
    using 0 by (simp add: exI [of _ 0])
next
  case (Suc s)
  have svc: "sq_svc q \<noteq> 0" using Suc.hyps(2) by simp
  obtain v p ps st1 where f: "peek (sq_svbuf q) (sq_sv q) = Inr v" "sq_pq q = p # ps" "pkt_unref p st = Inr st1"
    "ledger st1 (mset ps + hs)" "touched {p} st st1"
    "sq_safe (q\<lparr>sq_pq := ps, sq_sv := sq_sv q + 1, sq_svc := sq_svc q - 1\<rparr>) st1"
    "sq_window q = v # sq_window (q\<lparr>sq_pq := ps, sq_sv := sq_sv q + 1, sq_svc := sq_svc q - 1\<rparr>)"
    by (rule pop_safe [OF Suc.prems(1,2) svc])
  show ?case
  proof (cases "iov_len v \<le> n")
    case False
    then have "sq_advance n q st = Inr (n, st, q)"
      using svc f(1) by (simp add: sq_advance.simps [of n])
    then show ?thesis
      using shift_safe [OF Suc.prems(1) svc f(1), of n] False Suc.prems(2) by (metis drop0 not_le touched_refl)
  next
    case True
    let ?q = "q\<lparr>sq_pq := ps, sq_sv := sq_sv q + 1, sq_svc := sq_svc q - 1\<rparr>"
    have "s = sq_svc ?q" "n - iov_len v \<le> sum_list (map iov_len (sq_window ?q))"
      using Suc.hyps(2) Suc.prems(3) f(7) by simp_all
    from Suc.hyps(1) [OF this(1) f(6) _ this(2)] f(4)
    obtain m st' q1 q2 j where r: "sq_advance (n - iov_len v) ?q st1 = Inr (m, st', q1)" "sq_shift m q1 = Inr q2"
      "sq_safe q2 st'" "sq_pq q2 = drop j ps" "ledger st' (mset (sq_pq q2) + hs)" "touched (set ps) st1 st'"
      "sq_dir q2 = sq_dir q"
      by auto
    have "touched (set (sq_pq q)) st st'"
      by (rule touched_trans [OF touched_mono [OF f(5)] r(6)]) (auto simp: f(2))
    moreover have "sq_advance n q st = Inr (m, st', q1)"
      using svc f(1-3) True r(1) by (simp add: sq_advance.simps [of n] pqh_discard_def)
    moreover have "sq_pq q2 = drop (Suc j) (sq_pq q)" using r(4) f(2) by simp
    ultimately show ?thesis using r by blast
  qed
qed

lemma fill_safe:
  assumes "sq_safe q st" and "ledger st (mset (sq_pq q) + hs)"
  shows "\<exists>q'. sq_fill q st = Inr q' \<and> sq_safe q' st \<and> sq_pq q' = sq_pq q \<and> sq_dir q' = sq_dir q \<and>
    (sq_svc q' = 0 \<longrightarrow> sq_pq q = [] \<and> sq_sv q' = 0)"
proof (cases "sq_svc q = 0")
  case False
  then show ?thesis using assms(1) by (simp add: sq_fill_def)
next
  case True
  let ?n = "min WRIVCNT (length (sq_pq q))"
  have alive: "sendable st p" if "p \<in> set (sq_pq q)" for p
    using ledger_sendable [OF assms(2), of p] that by simp
  obtain buf' where b: "sq_fill_loop (sq_pq q) st 0 (sq_svbuf q) = Inr (?n, buf')"
    "length buf' = WRIVCNT" "take ?n buf' = map (full_iov st) (take WRIVCNT (sq_pq q))"
    using fill_loop [OF alive, of "sq_pq q" "sq_svbuf q" 0] assms(1) by (auto simp: sq_safe_def)
  let ?q = "q\<lparr>sq_sv := 0, sq_svc := ?n, sq_svbuf := buf'\<rparr>"
  have "map iov_pkt (map (full_iov st) xs) = xs" for xs
    by (induction xs) (simp_all add: full_iov_def)
  then have "sq_safe ?q st"
    using assms(1) b(2,3) alive full_iov_inside
    by (auto simp: sq_safe_def sq_window_def dest: in_set_takeD intro: prefix_imp_subseq take_is_prefix)
  then show ?thesis
    using True b(1) by (auto simp: sq_fill_def WRIVCNT_def min_def split: if_splits)
qed

text \<open>
  \<open>sq_stays q st hs r q' st'\<close>: packets left the head of the queue and the ledger, nothing else
  changed, and a return value of 0 means that nothing is left.
\<close>

definition sq_stays :: "sendq \<Rightarrow> store \<Rightarrow> addr multiset \<Rightarrow> int \<Rightarrow> sendq \<Rightarrow> store \<Rightarrow> bool" where
  "sq_stays q st hs r q' st' \<longleftrightarrow> sq_ok q' st' \<and> (\<exists>j. sq_pq q' = drop j (sq_pq q)) \<and>
     ledger st' (mset (sq_pq q') + hs) \<and> touched (set (sq_pq q)) st st' \<and> sq_dir q' = sq_dir q \<and>
     (r = 0 \<longrightarrow> sq_pq q' = [])"

lemma sq_stays_trans:
  assumes "sq_stays q1 st1 hs r q2 st2" and "sq_pq q1 = drop j (sq_pq q)" and "touched (set (sq_pq q)) st st1"
    and "sq_dir q1 = sq_dir q"
  shows "sq_stays q st hs r q2 st2"
proof -
  have "touched (set (sq_pq q)) st st2"
    using assms by (intro touched_trans [OF assms(3)]) (auto simp: sq_stays_def dest: in_set_dropD)
  moreover have "\<exists>i. sq_pq q2 = drop i (sq_pq q)"
    using assms(1,2) by (auto simp: sq_stays_def)
  ultimately show ?thesis using assms(1,4) by (simp add: sq_stays_def)
qed

text \<open>One accepted \<open>writev\<close>.\<close>

lemma accepted_safe:
  assumes "sq_safe q st" and "ledger st (mset (sq_pq q) + hs)" and "n \<le> sum_list (map iov_len (sq_window q))"
  obtains m st1 q1 q2 q3 j where "sq_advance n q st = Inr (m, st1, q1)" "sq_shift m q1 = Inr q2"
    "sq_fill q2 st1 = Inr q3" "sq_ok q3 st1" "ledger st1 (mset (sq_pq q3) + hs)" "sq_svc q3 = 0 \<longrightarrow> sq_pq q3 = []"
    "\<And>r q' st'. sq_stays q3 st1 hs r q' st' \<Longrightarrow> sq_stays q st hs r q' st'"
proof -
  obtain m st1 q1 q2 j where a: "sq_advance n q st = Inr (m, st1, q1)" "sq_shift m q1 = Inr q2" "sq_safe q2 st1"
    "sq_pq q2 = drop j (sq_pq q)" "ledger st1 (mset (sq_pq q2) + hs)" "touched (set (sq_pq q)) st st1"
    "sq_dir q2 = sq_dir q"
    using advance_safe [OF assms] by auto
  obtain q3 where f: "sq_fill q2 st1 = Inr q3" "sq_safe q3 st1" "sq_pq q3 = sq_pq q2" "sq_dir q3 = sq_dir q2"
    "sq_svc q3 = 0 \<longrightarrow> sq_pq q2 = [] \<and> sq_sv q3 = 0"
    using fill_safe [OF a(3,5)] by auto
  have "sq_ok q3 st1" using f by (simp add: sq_ok_def)
  then show thesis
    using that [OF a(1,2) f(1)] a(4-7) f(3-5) sq_stays_trans [of q3 st1 hs _ _ _ j q st] by simp
qed

lemma sq_loop_safe:
  assumes "sq_ok q st" and "ledger st (mset (sq_pq q) + hs)" and "sq_svc q = 0 \<Longrightarrow> sq_pq q = []"
  shows "\<exists>r fd' st' q'. sq_loop q fd st = Inr (r, fd', st', q') \<and> sq_stays q st hs r q' st'"
  using assms
proof (induction "length (wr_script fd)" arbitrary: q st fd rule: less_induct)
  case less
  have safe: "sq_safe q st" using less.prems(1) by (simp add: sq_ok_def)
  have stop: "sq_stays q st hs r q st" if "r \<noteq> 0 \<or> sq_pq q = []" for r
    using less.prems(1,2) that by (auto simp: sq_stays_def intro: exI [of _ 0])
  obtain bs where bs: "gather st (sq_window q) = Inr bs" "length bs = sum_list (map iov_len (sq_window q))"
    using gather_inside [of "sq_window q" st] safe by (auto simp: sq_safe_def)
  from bs(1) show ?case
  proof (cases rule: sq_loop_turn [where fd = fd])
    case empty
    then show ?thesis using stop less.prems(3) by simp
  next
    case (got n fd1)
    note g = writev_got [OF got(2)]
    show ?thesis
    proof (rule accepted_safe [OF safe less.prems(2) g(1) [unfolded bs(2)]])
      fix m st1 q1 q2 q3
      assume a: "sq_advance n q st = Inr (m, st1, q1)" "sq_shift m q1 = Inr q2" "sq_fill q2 st1 = Inr q3"
        "sq_ok q3 st1" "ledger st1 (mset (sq_pq q3) + hs)" "sq_svc q3 = 0 \<longrightarrow> sq_pq q3 = []"
        "\<And>r q' st'. sq_stays q3 st1 hs r q' st' \<Longrightarrow> sq_stays q st hs r q' st'"
      show ?thesis
        using less.hyps [OF g(3) a(4,5)] a(1-3,6,7) by (auto simp: got(4))
    qed
  next
    case (again fd1)
    then show ?thesis using less.hyps [OF again(2) less.prems] by simp
  next
    case (stop r fd1)
    then show ?thesis using \<open>\<And>r. r \<noteq> 0 \<or> sq_pq q = [] \<Longrightarrow> sq_stays q st hs r q st\<close> by auto
  qed
qed

lemma sendq_send_ledger:
  assumes "sq_ok q st" and "ledger st (mset (sq_pq q) + hs)"
  obtains r fd' st' q' where "sendq_send q fd st = Inr (r, fd', st', q')" "sq_stays q st hs r q' st'"
proof -
  obtain q1 where f: "sq_fill q st = Inr q1" "sq_safe q1 st" "sq_pq q1 = sq_pq q" "sq_dir q1 = sq_dir q"
    "sq_svc q1 = 0 \<longrightarrow> sq_pq q = [] \<and> sq_sv q1 = 0"
    using fill_safe [OF _ assms(2)] assms(1) by (auto simp: sq_ok_def)
  have "sq_ok q1 st" "ledger st (mset (sq_pq q1) + hs)" "sq_svc q1 = 0 \<Longrightarrow> sq_pq q1 = []"
    using f assms(2) by (auto simp: sq_ok_def)
  then obtain r fd' st' q' where l: "sq_loop q1 fd st = Inr (r, fd', st', q')" "sq_stays q1 st hs r q' st'"
    using sq_loop_safe [where q = q1 and st = st and hs = hs and fd = fd] by auto
  have "sq_stays q st hs r q' st'" using sq_stays_trans [OF l(2), of 0 q st] f by simp
  then show thesis using that l(1) f(1) by (simp add: sendq_send_def)
qed

lemma sendq_push_ok:
  assumes "sq_ok q st" and "p \<notin> set (sq_pq q)"
  shows "sq_ok (sendq_push q p) st"
  using assms by (auto simp: sq_ok_def sq_safe_def sendq_push_def sq_window_def pqh_push_def intro: subseq_order.trans)

lemma sq_compact_ok: "sq_ok q st \<Longrightarrow> sq_ok (sq_compact q) st \<and> sq_sv (sq_compact q) = 0 \<and> sq_pq (sq_compact q) = sq_pq q \<and>
    sq_svc (sq_compact q) = sq_svc q \<and> sq_dir (sq_compact q) = sq_dir q \<and> sq_window (sq_compact q) = sq_window q"
  by (auto simp: sq_ok_def sq_safe_def sq_compact_def sq_window_def)

text \<open>Entries for moved packets behind the window keep the queue safe.\<close>

lemma full_iov_pkts: "map iov_pkt (map (full_iov st) xs) = xs"
  by (induction xs) (simp_all add: full_iov_def)

lemma extend_ok:
  assumes "sq_ok q st" and "sq_sv q = 0" and "sq_svc q + length ps \<le> WRIVCNT" and "distinct (sq_pq q @ ps)"
    and "\<And>p. p \<in> set ps \<Longrightarrow> sendable st p"
    and "\<And>p. p \<in> set (sq_pq q @ ps) \<Longrightarrow> pkts st' p = pkts st p"
  defines "b \<equiv> take (sq_svc q) (sq_svbuf q) @ map (full_iov st) ps @ drop (sq_svc q + length ps) (sq_svbuf q)"
  shows "sq_ok (q\<lparr>sq_pq := sq_pq q @ ps, sq_svbuf := b, sq_svc := sq_svc q + length ps\<rparr>) st'"
proof -
  let ?q = "q\<lparr>sq_pq := sq_pq q @ ps, sq_svbuf := b, sq_svc := sq_svc q + length ps\<rparr>"
  have safe: "length (sq_svbuf q) = WRIVCNT" "subseq (map iov_pkt (sq_window q)) (sq_pq q)"
    "\<forall>v \<in> set (sq_window q). iov_inside st v"
    using assms(1) by (simp_all add: sq_ok_def sq_safe_def)
  have win: "sq_window ?q = sq_window q @ map (full_iov st) ps"
    using assms(2,3) safe(1) by (simp add: sq_window_def b_def)
  have "iov_inside st' v" if v: "v \<in> set (sq_window q @ map (full_iov st) ps)" for v
  proof (rule iov_inside_same)
    show "iov_inside st v" using v safe(3) assms(5) full_iov_inside by auto
    show "pkts st' (iov_pkt v) = pkts st (iov_pkt v)"
      using v assms(6) subseq_map_set [OF safe(2), of v] by (auto simp: full_iov_def)
  qed
  moreover have "subseq (map iov_pkt (sq_window ?q)) (sq_pq q @ ps)"
    unfolding win map_append full_iov_pkts using safe(2) by (rule list_emb_append_mono) simp
  ultimately show ?thesis
    using win safe(1) assms(2-4) by (simp add: sq_ok_def sq_safe_def b_def)
qed

lemma sendq_pull_ledger:
  assumes "sq_ok q st" and "ledger st (mset src + mset (sq_pq q) + hs)" and "distinct src"
    and "set src \<inter> set (sq_pq q) = {}"
  obtains r st' src' q' moved where "sendq_pull q src st = Inr (r, st', src', q')" "sq_ok q' st'"
    "ledger st' (mset src' + mset (sq_pq q') + hs)" "touched (set src) st st'" "distinct src'"
    "sq_pq q' = sq_pq q @ moved" "set src' \<union> set moved \<subseteq> set src" "set src' \<inter> set moved = {}"
    "sq_dir q' = sq_dir q" "mset src' + mset moved \<subseteq># mset src"
proof (cases "sq_svc q < WRIVCNT")
  case False
  then have "sendq_pull q src st = Inr (sq_svc q, st, src, q)" by (simp add: sendq_pull_def)
  then show ?thesis by (rule that [where moved = "[]"]) (use assms in auto)
next
  case True
  let ?q = "sq_compact q"
  have q: "sq_ok ?q st" "sq_sv ?q = 0" "sq_pq ?q = sq_pq q" "sq_svc ?q = sq_svc q" "sq_dir ?q = sq_dir q"
    "length (sq_svbuf ?q) = WRIVCNT" "distinct (sq_pq q)"
    using sq_compact_ok [OF assms(1)] by (auto simp: sq_ok_def sq_safe_def)
  have "ledger st (mset src + (mset (sq_pq q) + hs))" using assms(2) by (simp add: ac_simps)
  then obtain st' src' moved freed where p:
    "pqh_pull src (sq_pq q) (sq_dir q) (WRIVCNT - sq_svc q) 0 st =
       Inr (st', src', sq_pq q @ moved, map (full_iov st) moved)"
    "ledger st' (mset src' + mset moved + (mset (sq_pq q) + hs))" "touched (set src) st st'"
    "length moved \<le> WRIVCNT - sq_svc q" "distinct src'" "distinct moved"
    "mset src = mset src' + mset moved + mset freed" "\<And>p. p \<in> set moved \<Longrightarrow> pkts st' p = pkts st p"
    using ledger_pull [OF _ assms(3), of st "mset (sq_pq q) + hs" "sq_pq q" "sq_dir q" "WRIVCNT - sq_svc q" 0] by metis
  have sets: "set src = set src' \<union> set moved \<union> set freed"
    using arg_cong [OF p(7), of set_mset] by simp
  have "distinct (src' @ moved @ freed)"
    using mset_eq_imp_distinct_iff [of src "src' @ moved @ freed"] p(7) assms(3) by (simp add: ac_simps)
  then have disj: "set src' \<inter> set moved = {}" by auto
  have "pkts st' x = pkts st x" if "x \<in> set (sq_pq q @ moved)" for x
    using that p(8) touched_same [OF p(3) ledger_less [OF assms(2)], of x] assms(4) by auto
  then have ok: "sq_ok (?q\<lparr>sq_pq := sq_pq ?q @ moved,
      sq_svbuf := take (sq_svc ?q) (sq_svbuf ?q) @ map (full_iov st) moved @ drop (sq_svc ?q + length moved) (sq_svbuf ?q),
      sq_svc := sq_svc ?q + length moved\<rparr>) st'" (is "sq_ok ?q' st'")
    using True p(4,6) sets assms(4) q ledger_sendable [OF assms(2)] by (intro extend_ok) auto
  have "sendq_pull q src st = Inr (sq_svc q + length moved, st', src', ?q')"
    using True p(1,4) q by (simp add: sendq_pull_def Let_def)
  then show ?thesis
    by (rule that [where moved = moved]) (use ok p sets disj q in \<open>auto simp: ac_simps\<close>)
qed

end
