(* ===== verification/Rfx_Api.thy ===== *)
theory Rfx_Api
  imports Pktq
begin

text \<open>
  The plug-in interface of \<^verbatim>\<open>rfx_api.h\<close>, \<^verbatim>\<open>rfx_modules.h\<close>, \<^verbatim>\<open>evq.h\<close> and \<^verbatim>\<open>evq.cpp\<close>: the
  serialised state a filter saves before its module is replaced and reads back afterwards, the
  events filters send to each other, and the event queue. The queue is the list of its events (the
  macros behind it are those of theory \<open>Tailq\<close>). An event holds a reference on its source packet.
\<close>

section \<open>Serialised state\<close>

record rfx_state =
  rs_version :: int
  rs_pos :: u32
  rs_state :: bytes

definition rfx_state_new :: "int \<Rightarrow> rfx_state" where
  "rfx_state_new v = \<lparr>rs_version = v, rs_pos = 0, rs_state = []\<rparr>"

text \<open>
  \<open>read(dst, len)\<close>: \<open>dst\<close> is the buffer, \<open>len\<close> its size, as every caller passes it. The bytes left are
  counted in \<open>size_t\<close> (64 bits), the position and the count returned are \<open>unsigned\<close>; with the position past
  the end the subtraction wraps and the copy leaves the vector.
\<close>

definition rfx_state_read :: "bytes \<Rightarrow> rfx_state \<Rightarrow> (u32 \<times> bytes \<times> rfx_state) res" where
  "rfx_state_read dst s =
     (let len = of_nat (length dst) :: u32;
          rest = of_nat (length (rs_state s)) - ucast (rs_pos s) :: u64;
          l = (if rest < ucast len then ucast rest else len)
      in if l = 0 then Inr (0, dst, s)
         else rbind (fetch (rs_state s) (unat (rs_pos s)) (unat l)) (\<lambda>x.
              rbind (poke dst 0 x) (\<lambda>dst'. Inr (l, dst', s\<lparr>rs_pos := rs_pos s + l\<rparr>))))"

text \<open>
  \<open>write(src, len)\<close>: the old size and the new one are \<open>unsigned\<close>. When their sum wraps, the vector shrinks
  and the copy goes past its end.
\<close>

definition rfx_state_write :: "bytes \<Rightarrow> rfx_state \<Rightarrow> rfx_state res" where
  "rfx_state_write src s =
     (let len = of_nat (length src) :: u32; l = of_nat (length (rs_state s)) :: u32; n = unat (l + len);
          st = take n (rs_state s) @ replicate (n - length (rs_state s)) 0
      in rbind (poke st (unat l) (take (unat len) src)) (\<lambda>st'. Inr (s\<lparr>rs_state := st'\<rparr>)))"

text \<open>A position inside a block the counts can hold: reading never leaves it, and keeps the size of the buffer.\<close>

definition rs_wf :: "rfx_state \<Rightarrow> bool" where
  "rs_wf s \<longleftrightarrow> unat (rs_pos s) \<le> length (rs_state s) \<and> length (rs_state s) < 2 ^ 32"

lemma rs_wf_new [simp]: "rs_wf (rfx_state_new v)"
  by (simp add: rs_wf_def rfx_state_new_def)

lemma rfx_state_read_eq:
  assumes "rs_wf s" and "length dst < 2 ^ 32" and n: "n = min (length dst) (length (rs_state s) - unat (rs_pos s))"
  shows "rfx_state_read dst s =
    Inr (of_nat n, take n (drop (unat (rs_pos s)) (rs_state s)) @ drop n dst, s\<lparr>rs_pos := rs_pos s + of_nat n\<rparr>)"
    and "unat (rs_pos s + of_nat n) = unat (rs_pos s) + n"
proof -
  let ?size = "length (rs_state s)" and ?len = "of_nat (length dst) :: u32"
  let ?rest = "of_nat ?size - ucast (rs_pos s) :: u64"
  let ?l = "if ?rest < ucast ?len then ucast ?rest else ?len"
  have wf: "unat (rs_pos s) \<le> ?size" "?size < 2 ^ 32" using assms(1) by (simp_all add: rs_wf_def)
  have sz: "unat (of_nat ?size :: u64) = ?size" using wf(2) by (simp add: unat_of_nat take_bit_nat_eq_self)
  have pos: "unat (ucast (rs_pos s) :: u64) = unat (rs_pos s)" by (rule unat_ucast_up) simp
  have "(ucast (rs_pos s) :: u64) \<le> of_nat ?size" using sz pos wf(1) by (simp add: word_le_nat_alt)
  then have rest: "unat ?rest = ?size - unat (rs_pos s)" using sz pos by (simp add: unat_sub)
  have len: "unat ?len = length dst" by (rule unat_of_nat_u32 [OF assms(2)])
  have less: "?rest < ucast ?len \<longleftrightarrow> ?size - unat (rs_pos s) < length dst"
    using rest len by (simp add: word_less_nat_alt unat_ucast_up)
  have n32: "unat (of_nat n :: u32) = n" by (rule unat_of_nat_u32) (use n assms(2) in simp)
  have l: "?l = of_nat n"
  proof (cases "?rest < ucast ?len")
    case True
    then have "unat (ucast ?rest :: u32) = unat (of_nat n :: u32)"
      using less rest n n32 wf(2) by (simp add: unsigned_ucast_eq take_bit_nat_eq_self)
    then show ?thesis using True by (simp add: word_unat_eq_iff)
  qed (use less n in simp)
  have fit: "unat (rs_pos s) + n \<le> ?size" "n \<le> length dst" using wf(1) n by simp_all
  show "unat (rs_pos s + of_nat n) = unat (rs_pos s) + n"
    using fit(1) wf(2) n32 unat_add_lem [of "rs_pos s" "of_nat n"] by simp
  show "rfx_state_read dst s =
    Inr (of_nat n, take n (drop (unat (rs_pos s)) (rs_state s)) @ drop n dst, s\<lparr>rs_pos := rs_pos s + of_nat n\<rparr>)"
  proof (cases "n = 0")
    case False
    then have "(of_nat n :: u32) \<noteq> 0" using n32 by auto
    then show ?thesis using l n32 fit by (simp add: rfx_state_read_def Let_def)
  qed (use l in \<open>simp add: rfx_state_read_def Let_def\<close>)
qed

lemma rfx_state_read_front:
  assumes "rs_state s = a @ x @ b" and "rs_pos s = of_nat (length a)" and "length dst = length x"
    and "length (a @ x @ b) < 2 ^ 32"
  shows "rfx_state_read dst s = Inr (of_nat (length x), x, s\<lparr>rs_pos := of_nat (length a + length x)\<rparr>)"
proof -
  have len: "length a < 2 ^ 32" "length dst < 2 ^ 32" using assms(3,4) by simp_all
  have pos: "unat (rs_pos s) = length a" unfolding assms(2) by (rule unat_of_nat_u32 [OF len(1)])
  have wf: "rs_wf s" using assms(1,4) pos by (simp add: rs_wf_def)
  have n: "length x = min (length dst) (length (rs_state s) - unat (rs_pos s))"
    using assms(1,3) pos by simp
  have "take (length x) (drop (unat (rs_pos s)) (rs_state s)) @ drop (length x) dst = x"
    using assms(1,3) pos by simp
  then show ?thesis using rfx_state_read_eq(1) [OF wf len(2) n] assms(2) by simp
qed

lemma rfx_state_read_total:
  assumes "rs_wf s" and "length dst < 2 ^ 32"
  obtains n x s' where "rfx_state_read dst s = Inr (n, x, s')" "length x = length dst" "rs_wf s'"
proof -
  define n where "n = min (length dst) (length (rs_state s) - unat (rs_pos s))"
  note r = rfx_state_read_eq [OF assms n_def]
  show thesis
    by (rule that [OF r(1)]) (use r(2) assms(1) in \<open>auto simp: rs_wf_def n_def\<close>)
qed

lemma rfx_state_write_eq:
  assumes "length src < 2 ^ 32" and "length (rs_state s) < 2 ^ 32"
  shows "rfx_state_write src s =
    (if length (rs_state s) + length src < 2 ^ 32 then Inr (s\<lparr>rs_state := rs_state s @ src\<rparr>) else Inl OutOfBounds)"
proof -
  let ?l = "of_nat (length (rs_state s)) :: u32" and ?len = "of_nat (length src) :: u32"
  have u: "unat ?l = length (rs_state s)" "unat ?len = length src" using assms by (simp_all only: unat_of_nat_u32)
  show ?thesis
  proof (cases "length (rs_state s) + length src < 2 ^ 32")
    case True
    then have "unat (?l + ?len) = length (rs_state s) + length src" using u unat_add_lem [of ?l ?len] by simp
    then show ?thesis using True u by (simp add: rfx_state_write_def Let_def)
  next
    case False
    have "unat (?l + ?len) < length (rs_state s) + length src"
      using unsigned_less [of "?l + ?len", where 'a = nat] False by simp
    then show ?thesis using False u by (simp add: rfx_state_write_def Let_def)
  qed
qed

section \<open>Events\<close>

datatype event_code = RFXEV_WCHAT_SENT | RFXEV_WCHAT_RECV | RFXEV_PRIV_SENT | RFXEV_PRIV_RECV
  | RFXEV_SEND_REPLY | RFXEV_LOOT_APPEAR | RFXEV_LOOT_DISAPPEAR | RFXEV_LAST

record rfx_event =
  ev_source :: "addr option"
  ev_what :: event_code

record rfx_chat_event = rfx_event +
  ev_nick :: bytes
  ev_msg :: bytes

text \<open>The constructor takes a reference on the source, the destructor gives it back.\<close>

definition chat_event_new ::
    "event_code \<Rightarrow> bytes \<Rightarrow> bytes \<Rightarrow> addr option \<Rightarrow> store \<Rightarrow> (store \<times> rfx_chat_event) res" where
  "chat_event_new what nick msg src st =
     rbind (case src of None \<Rightarrow> Inr st | Some p \<Rightarrow> pkt_ref p st) (\<lambda>st'.
       Inr (st', \<lparr>ev_source = src, ev_what = what, ev_nick = nick, ev_msg = msg\<rparr>))"

definition event_delete :: "rfx_chat_event \<Rightarrow> store \<Rightarrow> store res" where
  "event_delete ev st = (case ev_source ev of None \<Rightarrow> Inr st | Some p \<Rightarrow> pkt_unref p st)"

definition on_source ::
    "(rf_packet \<Rightarrow> rf_packet) \<Rightarrow> rfx_chat_event \<Rightarrow> store \<Rightarrow> store res" where
  "on_source f ev st = (case ev_source ev of None \<Rightarrow> Inr st | Some p \<Rightarrow> pkt_modify f p st)"

definition drop_source :: "rfx_chat_event \<Rightarrow> store \<Rightarrow> store res" where
  "drop_source = on_source (\<lambda>pk. pk\<lparr>p_drop := True\<rparr>)"

definition show_source :: "rfx_chat_event \<Rightarrow> store \<Rightarrow> store res" where
  "show_source = on_source (\<lambda>pk. pk\<lparr>p_show := True\<rparr>)"

definition hide_source :: "rfx_chat_event \<Rightarrow> store \<Rightarrow> store res" where
  "hide_source = on_source (\<lambda>pk. pk\<lparr>p_show := False\<rparr>)"

definition ignore_source :: "rfx_chat_event \<Rightarrow> store \<Rightarrow> store res" where
  "ignore_source = on_source (\<lambda>pk. pk\<lparr>p_drop := True, p_show := False\<rparr>)"

section \<open>The event queue\<close>

type_synonym evqhead = "rfx_chat_event list"

definition evq_push_back :: "evqhead \<Rightarrow> rfx_chat_event \<Rightarrow> evqhead" where
  "evq_push_back q e = q @ [e]"

definition evq_pop_front :: "evqhead \<Rightarrow> rfx_chat_event option \<times> evqhead" where
  "evq_pop_front q = (case q of [] \<Rightarrow> (None, []) | e # q' \<Rightarrow> (Some e, q'))"

text \<open>\<open>~evqhead_t\<close>: the events left over are deleted.\<close>

fun evq_destroy :: "evqhead \<Rightarrow> store \<Rightarrow> store res" where
  "evq_destroy [] st = Inr st"
| "evq_destroy (e # es) st = rbind (event_delete e st) (evq_destroy es)"

section \<open>What a filter works on\<close>

datatype verdict = RFX_DECLINE | RFX_BREAK

text \<open>The store, the packets to send before and after the current one, the events fired.\<close>

record fworld =
  fw_store :: store
  fw_pre :: pqhead
  fw_post :: pqhead
  fw_evq :: evqhead

definition fw_modify :: "(rf_packet \<Rightarrow> rf_packet) \<Rightarrow> addr \<Rightarrow> fworld \<Rightarrow> fworld res" where
  "fw_modify f p w = rbind (pkt_modify f p (fw_store w)) (\<lambda>st. Inr (w\<lparr>fw_store := st\<rparr>))"

lemma fw_modify_eq_Inr:
  "fw_modify f p w = Inr w' \<longleftrightarrow> (\<exists>pk. pkts (fw_store w) p = Some pk \<and>
     w' = w\<lparr>fw_store := (fw_store w)\<lparr>pkts := (pkts (fw_store w))(p \<mapsto> f pk)\<rparr>\<rparr>)"
  by (auto simp: fw_modify_def fault_simps)

lemma fw_modify_Some [simp]:
  "pkts (fw_store w) p = Some pk \<Longrightarrow> fw_modify f p w =
     Inr (w\<lparr>fw_store := (fw_store w)\<lparr>pkts := (pkts (fw_store w))(p \<mapsto> f pk)\<rparr>\<rparr>)"
  by (simp add: fw_modify_def)

section \<open>Properties\<close>

text \<open>Writes one after the other, and reads with the sizes of given buffers.\<close>

fun rfx_state_writes :: "bytes list \<Rightarrow> rfx_state \<Rightarrow> rfx_state res" where
  "rfx_state_writes [] s = Inr s"
| "rfx_state_writes (x # xs) s = rbind (rfx_state_write x s) (rfx_state_writes xs)"

fun rfx_state_reads :: "bytes list \<Rightarrow> rfx_state \<Rightarrow> (bytes list \<times> rfx_state) res" where
  "rfx_state_reads [] s = Inr ([], s)"
| "rfx_state_reads (d # ds) s =
     rbind (rfx_state_read d s) (\<lambda>(n, x, s'). rbind (rfx_state_reads ds s') (\<lambda>(xs, s''). Inr (x # xs, s'')))"

lemma rfx_state_writes_eq:
  assumes "\<forall>x \<in> set xs. length x < 2 ^ 32" and "length (rs_state s) < 2 ^ 32"
  shows "rfx_state_writes xs s =
    (if length (rs_state s @ concat xs) < 2 ^ 32 then Inr (s\<lparr>rs_state := rs_state s @ concat xs\<rparr>) else Inl OutOfBounds)"
  using assms
proof (induction xs arbitrary: s)
  case (Cons x xs)
  show ?case
  proof (cases "length (rs_state s) + length x < 2 ^ 32")
    case True
    then show ?thesis
      using Cons.IH [of "s\<lparr>rs_state := rs_state s @ x\<rparr>"] Cons.prems by (simp add: rfx_state_write_eq add.assoc)
  qed (use Cons.prems in \<open>simp add: rfx_state_write_eq\<close>)
qed simp

lemma rfx_state_reads_at:
  "map length ds = map length xs \<Longrightarrow> rs_pos s = of_nat (length a) \<Longrightarrow> rs_state s = a @ concat xs @ b \<Longrightarrow>
   length (a @ concat xs @ b) < 2 ^ 32 \<Longrightarrow>
   rfx_state_reads ds s = Inr (xs, s\<lparr>rs_pos := of_nat (length a + length (concat xs))\<rparr>)"
proof (induction ds arbitrary: xs s a)
  case (Cons d ds)
  then obtain x ys where xs: "xs = x # ys" by (cases xs) auto
  have r: "rfx_state_read d s = Inr (of_nat (length x), x, s\<lparr>rs_pos := of_nat (length a + length x)\<rparr>)"
    by (rule rfx_state_read_front [of s a x "concat ys @ b"]) (use Cons.prems xs in auto)
  have "rfx_state_reads ds (s\<lparr>rs_pos := of_nat (length a + length x)\<rparr>) =
      Inr (ys, s\<lparr>rs_pos := of_nat (length a + length x)\<rparr>\<lparr>rs_pos := of_nat (length (a @ x) + length (concat ys))\<rparr>)"
    by (rule Cons.IH) (use Cons.prems xs in auto)
  then show ?case using r xs by (simp add: add.assoc)
qed simp

text \<open>
  C29. What a filter wrote before the reload is what the new one reads: any sequence of blocks, each below
  \<open>2^32\<close> bytes, is appended to a fresh state and returned, block by block, by reads of the same lengths, if
  and only if together they are below \<open>2^32\<close> bytes; otherwise the write at which the size wraps goes past
  the end of the vector.
\<close>

theorem rfx_state_roundtrip:
  assumes "map length ds = map length xs" and "\<forall>x \<in> set xs. length x < 2 ^ 32"
  shows "rbind (rfx_state_writes xs (rfx_state_new v)) (rfx_state_reads ds) =
    (if length (concat xs) < 2 ^ 32
     then Inr (xs, \<lparr>rs_version = v, rs_pos = of_nat (length (concat xs)), rs_state = concat xs\<rparr>)
     else Inl OutOfBounds)"
proof -
  have "rfx_state_writes xs (rfx_state_new v) =
      (if length (concat xs) < 2 ^ 32 then Inr \<lparr>rs_version = v, rs_pos = 0, rs_state = concat xs\<rparr> else Inl OutOfBounds)"
    using rfx_state_writes_eq [OF assms(2), of "rfx_state_new v"] by (simp add: rfx_state_new_def)
  then show ?thesis
    using rfx_state_reads_at [OF assms(1), of "\<lparr>rs_version = v, rs_pos = 0, rs_state = concat xs\<rparr>" "[]" "[]"] by simp
qed

lemma rfx_state_roundtrip_witness:
  "rbind (rfx_state_writes [[7, 8], [9]] (rfx_state_new 0)) (rfx_state_reads [[0, 0], [0]]) =
     Inr ([[7, 8], [9]], \<lparr>rs_version = 0, rs_pos = 3, rs_state = [7, 8, 9]\<rparr>)"
  using rfx_state_roundtrip [of "[[0, 0], [0]]" "[[7, 8], [9]]" 0] by simp

text \<open>
  An event keeps its source alive and nothing more: creating it counts one reference and
  deleting it gives the store back as it was (unless the 32-bit count was about to wrap).
\<close>

theorem chat_event_balanced:
  assumes "pkts st p = Some pk" and "p_refc pk + 1 \<noteq> 0" and "p_refc pk \<noteq> 0"
  shows "\<exists>st' ev. chat_event_new what nick msg (Some p) st = Inr (st', ev) \<and>
    pkts st' p = Some (pk\<lparr>p_refc := p_refc pk + 1\<rparr>) \<and> event_delete ev st' = Inr st"
proof -
  have "(pkts st)(p \<mapsto> pk) = pkts st" using assms(1) by auto
  then show ?thesis
    using assms
    by (simp add: chat_event_new_def event_delete_def pkt_ref_def pkt_unref_def)
qed

lemma chat_event_balanced_witness:
  "\<exists>st' ev. chat_event_new RFXEV_PRIV_SENT [] [] (Some 3) ex_one = Inr (st', ev) \<and>
     event_delete ev st' = Inr ex_one"
  using chat_event_balanced [of ex_one 3 "the (pkts ex_one 3)" RFXEV_PRIV_SENT "[]" "[]"]
  by (auto simp: ex_one_def)

end
