(* ===== verification/Rfx_Loot.thy ===== *)
theory Rfx_Loot
  imports Rfx_Api Text_Util
begin

text \<open>
  The loot filter, \<^verbatim>\<open>rfx_loot.cpp\<close>: a mask of 65536 bits says which items on the ground are shown;
  the player edits it with private messages to \<open>loot\<close>. \<open>mask_ids\<close> reads a mask as the set of the
  item numbers in it; the bit operations are shown to be set operations, the command language to
  denote a sequence of them, and the packet handler to drop exactly the announcements of hidden
  items. The files \<open>drop/list-*.bin\<close> are a parameter \<open>fs\<close>, from file names to contents.
\<close>

section \<open>Masks\<close>

definition MASK_SZ :: nat where "MASK_SZ = 8192"

type_synonym loot_mask = bytes
type_synonym mask_files = "bytes \<Rightarrow> bytes option"

definition loot_mask_fill :: "bool \<Rightarrow> loot_mask" where
  "loot_mask_fill flag = replicate MASK_SZ (if flag then 0xff else 0)"

definition mask_bit :: "u32 \<Rightarrow> u8" where
  "mask_bit idx = drop_bit (unat (idx AND 7)) 0x80"

definition loot_mask_test :: "loot_mask \<Rightarrow> u32 \<Rightarrow> bool" where
  "loot_mask_test m idx =
     (let i = unat (drop_bit 3 idx) in if i < MASK_SZ then mask_bit idx AND m ! i \<noteq> 0 else False)"

definition loot_mask_set :: "loot_mask \<Rightarrow> u32 \<Rightarrow> bool \<Rightarrow> bool \<times> loot_mask" where
  "loot_mask_set m idx flag =
     (let i = unat (drop_bit 3 idx)
      in if i < MASK_SZ
         then (m ! i AND mask_bit idx \<noteq> 0,
               m[i := if flag then m ! i OR mask_bit idx else m ! i AND NOT (mask_bit idx)])
         else (False, m))"

definition loot_mask_add :: "loot_mask \<Rightarrow> loot_mask \<Rightarrow> loot_mask" where
  "loot_mask_add m m' = map2 (OR) m m'"

definition loot_mask_sub :: "loot_mask \<Rightarrow> loot_mask \<Rightarrow> loot_mask" where
  "loot_mask_sub m m' = map2 (\<lambda>a b. a AND NOT b) m m'"

text \<open>\<open>count()\<close>: the inner loop shifts \<open>j\<close> from \<open>0x80\<close> until it is 0.\<close>

function count_bits :: "u8 \<Rightarrow> u8 \<Rightarrow> u32 \<Rightarrow> u32" where
  "count_bits j b s =
     (if j = 0 then s else count_bits (drop_bit 1 j) b (if j AND b \<noteq> 0 then s + 1 else s))"
  by pat_completeness auto
termination
  by (relation "measure (\<lambda>(j, b, s). unat j)")
    (auto simp: drop_bit_eq_div unat_div_distrib word_gt_0 [symmetric] unat_gt_0)

declare count_bits.simps [simp del]

definition loot_mask_count :: "loot_mask \<Rightarrow> u32" where
  "loot_mask_count m = fold (count_bits 0x80) m 0"

text \<open>\<open>fload\<close> reads over the mask in place; a short file leaves the rest as it was and fails.\<close>

definition loot_mask_fload :: "mask_files \<Rightarrow> bytes \<Rightarrow> loot_mask \<Rightarrow> bool \<times> loot_mask" where
  "loot_mask_fload fs name m =
     (case fs name of None \<Rightarrow> (False, m)
      | Some c \<Rightarrow> (MASK_SZ \<le> length c, take MASK_SZ c @ drop (length c) m))"

definition loot_mask_fsave :: "bytes \<Rightarrow> loot_mask \<Rightarrow> mask_files \<Rightarrow> mask_files" where
  "loot_mask_fsave name m fs = fs(name \<mapsto> m)"

section \<open>State\<close>

record loot_state =
  lm_show :: loot_mask
  lm_pick :: loot_mask

definition loot_state_new :: loot_state where
  "loot_state_new = \<lparr>lm_show = loot_mask_fill True, lm_pick = loot_mask_fill False\<rparr>"

definition loot_state_save :: "loot_state \<Rightarrow> rfx_state \<Rightarrow> rfx_state res" where
  "loot_state_save l s = rbind (rfx_state_write (lm_show l) s) (rfx_state_write (lm_pick l))"

definition loot_mask_restore :: "loot_mask \<Rightarrow> rfx_state \<Rightarrow> (bool \<times> loot_mask \<times> rfx_state) res" where
  "loot_mask_restore m s =
     rbind (rfx_state_read m s) (\<lambda>(n, m', s'). Inr (unat n = MASK_SZ, m', s'))"

definition loot_state_restore ::
    "loot_state \<Rightarrow> rfx_state \<Rightarrow> (bool \<times> loot_state \<times> rfx_state) res" where
  "loot_state_restore l s =
     rbind (loot_mask_restore (lm_show l) s) (\<lambda>(ok, m, s1).
       if \<not> ok then Inr (False, l\<lparr>lm_show := m\<rparr>, s1)
       else rbind (loot_mask_restore (lm_pick l) s1) (\<lambda>(ok', m', s2).
         Inr (ok', l\<lparr>lm_show := m, lm_pick := m'\<rparr>, s2)))"

section \<open>Commands\<close>

datatype loot_op = OP_SET | OP_ADD | OP_SUB

definition loot_file :: "bytes \<Rightarrow> bytes" where
  "loot_file n = take 63 (asc ''drop/list-'' @ n @ asc ''.bin'')"

text \<open>
  \<open>parse_mask\<close>: the word is given as the list of its \<open>nl\<close> characters; \<open>None\<close> is \<open>false\<close>, after
  which the caller never looks at the mask again.
\<close>

definition parse_mask :: "mask_files \<Rightarrow> loot_mask \<Rightarrow> bytes \<Rightarrow> loot_mask option" where
  "parse_mask fs m n =
     (if n = asc ''all'' then Some (loot_mask_fill True)
      else if n = asc ''none'' then Some (loot_mask_fill False)
      else if 1 < length n \<and> n ! 0 = 0x40 then
        (case loot_mask_fload fs (loot_file (drop 1 n)) m of (ok, m') \<Rightarrow>
           if ok then Some m' else None)
      else if 2 < length n \<and> n ! 0 = 0x30 \<and> n ! 1 = 0x78 then
        Some (snd (loot_mask_set (loot_mask_fill False)
          (fold hex_step (takeWhile isxdigit (drop 2 n)) 0) True))
      else None)"

lemma parse_mask_length: "parse_mask fs m n = Some m' \<Longrightarrow> n \<noteq> []"
  by (auto simp: parse_mask_def asc_def split: if_splits)

definition loot_word :: "u8 \<Rightarrow> bool" where
  "loot_word c \<longleftrightarrow> c \<noteq> 0x2b \<and> c \<noteq> 0x2d \<and> \<not> isspace c"

definition loot_op_prefix :: "bytes \<Rightarrow> loot_op \<times> bytes" where
  "loot_op_prefix m =
     (case m of [] \<Rightarrow> (OP_SET, m)
      | c # m' \<Rightarrow> if c = 0x2b then (OP_ADD, m') else if c = 0x2d then (OP_SUB, m') else (OP_SET, m))"

fun loot_apply :: "loot_op \<Rightarrow> loot_mask \<Rightarrow> loot_mask \<Rightarrow> loot_mask" where
  "loot_apply OP_ADD nm d = loot_mask_add nm d"
| "loot_apply OP_SUB nm d = loot_mask_sub nm d"
| "loot_apply OP_SET nm d = d"

lemma loot_op_prefix_length: "length (snd (loot_op_prefix m)) \<le> length m"
  by (cases m) (auto simp: loot_op_prefix_def)

text \<open>The loop of \<open>loot_cmd\<close> over the C string of the message.\<close>

function loot_loop :: "mask_files \<Rightarrow> bytes \<Rightarrow> loot_mask \<Rightarrow> loot_mask \<Rightarrow> loot_mask option" where
  "loot_loop fs m d nm =
     (let m1 = dropWhile isspace m
      in if m1 = [] then Some nm
         else let (op, m2) = loot_op_prefix m1; w = takeWhile loot_word m2
              in case parse_mask fs d w of None \<Rightarrow> None
                 | Some d' \<Rightarrow> loot_loop fs (drop (length w) m2) d' (loot_apply op nm d'))"
  by pat_completeness auto
termination
proof (relation "measure (\<lambda>(fs, m, d, nm). length m)", goal_cases)
  case (2 fs m d nm m1 x op m2 w d')
  have "length m2 \<le> length m1"
    using 2(3,4) loot_op_prefix_length [of m1] by (metis snd_conv)
  moreover have "length m1 \<le> length m"
    using 2(1) by (simp add: length_dropWhile_le)
  moreover have "0 < length w" "length w \<le> length m2"
    using parse_mask_length [OF 2(6)] 2(5) by (auto simp: length_takeWhile_le)
  ultimately have "length m2 - length w < length m" by linarith
  then show ?case by simp
qed simp

declare loot_loop.simps [simp del]

definition loot_reply_text :: "nat \<Rightarrow> bytes" where
  "loot_reply_text n = asc ''ok, show = '' @ dec n @ asc '', ignore = '' @ dec (65536 - n)"

text \<open>\<open>snprintf\<close> into \<open>reply[32]\<close>.\<close>

definition loot_reply :: "nat \<Rightarrow> bytes" where
  "loot_reply n = take 31 (loot_reply_text n)"

definition loot_cmd :: "mask_files \<Rightarrow> bytes \<Rightarrow> loot_state \<Rightarrow> bytes \<times> loot_state" where
  "loot_cmd fs msg l =
     (let out = (if msg = asc ''info'' then Some (lm_show l)
                 else loot_loop fs (takeWhile (\<lambda>c. c \<noteq> 0) msg) (loot_mask_fill False) (lm_show l))
      in case out of None \<Rightarrow> (asc ''can't parse loot mask'', l)
         | Some nm \<Rightarrow> (loot_reply (unat (loot_mask_count nm)), l\<lparr>lm_show := nm\<rparr>))"

section \<open>The filter\<close>

definition LOOT_DROP_NEW :: u16 where "LOOT_DROP_NEW = 0x1403"
definition LOOT_DROP_HORIZON :: u16 where "LOOT_DROP_HORIZON = 0x0f04"
definition LOOT_DISAPPEAR :: u16 where "LOOT_DISAPPEAR = 0x1c03"

text \<open>\<open>id = GET_INT16(pkt->data + 4)\<close> and \<open>pkt->drop = !lm.show.test(id)\<close>.\<close>

definition loot_hide :: "loot_state \<Rightarrow> addr \<Rightarrow> string \<Rightarrow> fworld \<Rightarrow> fworld res" where
  "loot_hide l p d w =
     rbind (pkt_get (fw_store w) p) (\<lambda>pk.
     rbind (peek (p_data pk) 4) (\<lambda>b0. rbind (peek (p_data pk) 5) (\<lambda>b1.
       fw_modify (\<lambda>pk. pk\<lparr>p_desc := Some d,
         p_drop := \<not> loot_mask_test (lm_show l) (get_int16 b0 b1)\<rparr>) p w)))"

definition loot_process_pkt :: "loot_state \<Rightarrow> addr \<Rightarrow> fworld \<Rightarrow> (verdict \<times> loot_state \<times> fworld) res" where
  "loot_process_pkt l p w =
     rbind (pkt_get (fw_store w) p) (\<lambda>pk.
     rbind (if p_type pk = LOOT_DROP_NEW then loot_hide l p ''new item on the ground'' w
            else if p_type pk = LOOT_DROP_HORIZON then loot_hide l p ''new item at the vision range'' w
            else if p_type pk = LOOT_DISAPPEAR then
              fw_modify (\<lambda>pk. pk\<lparr>p_desc := Some ''loot disappear'', p_show := True\<rparr>) p w
            else Inr w) (\<lambda>w'. Inr (RFX_DECLINE, l, w')))"

definition loot_process_ev ::
    "mask_files \<Rightarrow> loot_state \<Rightarrow> rfx_chat_event \<Rightarrow> fworld \<Rightarrow> (verdict \<times> loot_state \<times> fworld) res" where
  "loot_process_ev fs l ev w =
     (if ev_what ev = RFXEV_PRIV_SENT \<and> ev_nick ev = asc ''loot'' then
        (case loot_cmd fs (ev_msg ev) l of (reply, l') \<Rightarrow>
           rbind (chat_event_new RFXEV_SEND_REPLY (ev_nick ev) reply None (fw_store w)) (\<lambda>(st, e).
           rbind (drop_source ev st) (\<lambda>st1.
           rbind (hide_source ev st1) (\<lambda>st2.
             Inr (RFX_BREAK, l', w\<lparr>fw_store := st2, fw_evq := evq_push_back (fw_evq w) e\<rparr>)))))
      else Inr (RFX_DECLINE, l, w))"

section \<open>Masks as sets\<close>

definition mask_ids :: "loot_mask \<Rightarrow> nat set" where
  "mask_ids m = {n. n < 65536 \<and> bit (m ! (n div 8)) (7 - n mod 8)}"

definition mask_ok :: "loot_mask \<Rightarrow> bool" where
  "mask_ok m \<longleftrightarrow> length m = MASK_SZ"

lemma mask_bit_exp: "mask_bit idx = 2 ^ (7 - unat idx mod 8)"
proof -
  have "unat (idx AND 7) = unat idx mod 8"
    using unsigned_take_bit_eq [of 3 idx, where 'a = nat] take_bit_eq_mask [of 3 idx]
    by (simp add: mask_eq_exp_minus_1 take_bit_eq_mod)
  moreover have "drop_bit k (0x80 :: u8) = 2 ^ (7 - k)" if "k < 8" for k
  proof -
    have "k = 0 \<or> k = 1 \<or> k = 2 \<or> k = 3 \<or> k = 4 \<or> k = 5 \<or> k = 6 \<or> k = 7"
      using that by presburger
    then show ?thesis by (elim disjE) (simp_all add: drop_bit_eq_div)
  qed
  ultimately show ?thesis by (simp add: mask_bit_def)
qed

lemma mask_index: "unat (drop_bit 3 idx) = unat idx div 8" for idx :: u32
  by (simp add: drop_bit_eq_div unat_div_distrib)

lemma loot_mask_test_iff:
  "loot_mask_test m idx \<longleftrightarrow> unat idx \<in> mask_ids m"
  by (auto simp: loot_mask_test_def mask_ids_def mask_index mask_bit_exp MASK_SZ_def Let_def
      and_exp_eq_0_iff_not_bit and.commute [of "2 ^ _"])

lemma bit_ff: "7 - n < (8 :: nat)" "bit (0xff :: u8) (7 - n)"
proof -
  show lt: "7 - n < (8 :: nat)" by arith
  have "bit (mask 8 :: u8) (7 - n)"
    using lt by (simp add: bit_mask_iff del: mask_numeral)
  then show "bit (0xff :: u8) (7 - n)" by (simp add: mask_eq_exp_minus_1)
qed

lemma loot_mask_fill_ids: "mask_ids (loot_mask_fill flag) = (if flag then {..<65536} else {})"
  "mask_ok (loot_mask_fill flag)"
proof -
  have "loot_mask_fill True ! (n div 8) = 0xff" "loot_mask_fill False ! (n div 8) = 0" if "n < 65536" for n
    using that by (simp_all add: loot_mask_fill_def MASK_SZ_def)
  moreover from this have "bit (loot_mask_fill True ! (n div 8)) (7 - n mod 8)" if "n < 65536" for n
    using that bit_ff(2) by presburger
  ultimately show "mask_ids (loot_mask_fill flag) = (if flag then {..<65536} else {})"
    unfolding mask_ids_def by (cases flag) auto
qed (simp add: mask_ok_def loot_mask_fill_def)

lemma loot_mask_add_ids:
  assumes "mask_ok m" and "mask_ok m'"
  shows "mask_ids (loot_mask_add m m') = mask_ids m \<union> mask_ids m'" and "mask_ok (loot_mask_add m m')"
  using assms by (auto simp: mask_ids_def loot_mask_add_def mask_ok_def MASK_SZ_def bit_or_iff)

lemma loot_mask_sub_ids:
  assumes "mask_ok m" and "mask_ok m'"
  shows "mask_ids (loot_mask_sub m m') = mask_ids m - mask_ids m'" and "mask_ok (loot_mask_sub m m')"
  using assms
  by (auto simp: mask_ids_def loot_mask_sub_def mask_ok_def MASK_SZ_def bit_and_iff bit_not_iff)

lemma loot_mask_set_ids:
  assumes "mask_ok m"
  shows "mask_ids (snd (loot_mask_set m idx flag)) =
      (if unat idx < 65536 then (if flag then insert (unat idx) else (\<lambda>S. S - {unat idx})) (mask_ids m)
       else mask_ids m)"
    and "fst (loot_mask_set m idx flag) = (unat idx \<in> mask_ids m)"
    and "mask_ok (snd (loot_mask_set m idx flag))"
proof -
  have div: "n div 8 = unat idx div 8 \<and> 7 - n mod 8 = 7 - unat idx mod 8 \<longleftrightarrow> n = unat idx" for n
  proof
    assume a: "n div 8 = unat idx div 8 \<and> 7 - n mod 8 = 7 - unat idx mod 8"
    have "n mod 8 < 8" "unat idx mod 8 < 8" by simp_all
    with a have "n mod 8 = unat idx mod 8" by linarith
    with a show "n = unat idx" by (metis div_mult_mod_eq)
  qed simp
  have lt: "unat idx div 8 < 8192 \<longleftrightarrow> unat idx < 65536" by (simp add: div_less_iff_less_mult)
  let ?i = "unat idx div 8" and ?k = "7 - unat idx mod 8"
  have other: "bit (snd (loot_mask_set m idx flag) ! (n div 8)) (7 - n mod 8) =
      bit (m ! (n div 8)) (7 - n mod 8)" if "n < 65536" "n \<noteq> unat idx \<or> \<not> unat idx < 65536" for n
  proof (cases "n div 8 = ?i")
    case True
    then have "7 - n mod 8 \<noteq> ?k \<or> \<not> unat idx < 65536" using div [of n] that by auto
    then show ?thesis
      using True that(1) assms lt
      by (auto simp: loot_mask_set_def mask_index mask_bit_exp MASK_SZ_def Let_def mask_ok_def
          bit_or_iff bit_and_iff bit_not_iff bit_exp_iff)
  qed (auto simp: loot_mask_set_def mask_index Let_def)
  have self: "bit (snd (loot_mask_set m idx flag) ! ?i) ?k = flag" if "unat idx < 65536"
    using that assms lt
    by (auto simp: loot_mask_set_def mask_index mask_bit_exp MASK_SZ_def Let_def mask_ok_def
          bit_or_iff bit_and_iff bit_not_iff bit_exp_iff)
  show "mask_ids (snd (loot_mask_set m idx flag)) =
      (if unat idx < 65536 then (if flag then insert (unat idx) else (\<lambda>S. S - {unat idx})) (mask_ids m)
       else mask_ids m)"
  proof (rule set_eqI)
    fix n
    show "n \<in> mask_ids (snd (loot_mask_set m idx flag)) \<longleftrightarrow> n \<in>
      (if unat idx < 65536 then (if flag then insert (unat idx) else (\<lambda>S. S - {unat idx})) (mask_ids m)
       else mask_ids m)"
      using other [of n] self by (cases "n = unat idx") (auto simp: mask_ids_def)
  qed
  show "fst (loot_mask_set m idx flag) = (unat idx \<in> mask_ids m)"
    by (auto simp: loot_mask_set_def mask_ids_def mask_index mask_bit_exp MASK_SZ_def Let_def lt
        and_exp_eq_0_iff_not_bit)
  show "mask_ok (snd (loot_mask_set m idx flag))"
    using assms by (simp add: mask_ok_def loot_mask_set_def Let_def)
qed

section \<open>Counting\<close>

definition popcount :: "u8 \<Rightarrow> nat" where
  "popcount b = (\<Sum>k \<leftarrow> [7, 6, 5, 4, 3, 2, 1, 0]. of_bool (bit b k))"

lemma and_exp_bit: "2 ^ k AND b \<noteq> 0 \<longleftrightarrow> bit b k" for b :: u8
  by (subst and.commute) (simp add: and_exp_eq_0_iff_not_bit)

lemma count_bits_popcount: "count_bits 0x80 b s = s + of_nat (popcount b)"
proof -
  have step: "count_bits (2 ^ Suc k) b s = count_bits (2 ^ k) b (s + of_bool (bit b (Suc k)))"
    if "k < 7" for k s
  proof -
    have "(2 :: u8) ^ Suc k \<noteq> 0" "drop_bit 1 ((2 :: u8) ^ Suc k) = 2 ^ k"
      using that by (simp_all only: exp_eq_zero_iff drop_bit_exp_eq) simp_all
    then show ?thesis by (subst count_bits.simps) (simp add: and_exp_bit del: power_Suc)
  qed
  have zero: "count_bits 1 b s = s + of_bool (bit b 0)" for s
    using and_exp_bit [of 0 b] by (simp add: count_bits.simps [of 1] count_bits.simps [of 0])
  show ?thesis
    using step [of 6 s] step [of 5] step [of 4] step [of 3] step [of 2] step [of 1] step [of 0] zero
    by (simp add: popcount_def ac_simps eval_nat_numeral)
qed

lemma count_fold: "fold (count_bits 0x80) m s = s + of_nat (sum_list (map popcount m))"
  by (induction m arbitrary: s) (simp_all add: count_bits_popcount ac_simps)

lemma mask_ids_card:
  assumes "mask_ok m"
  shows "card (mask_ids m) = sum_list (map popcount m)"
proof -
  let ?f = "\<lambda>n. of_bool (bit (m ! (n div 8)) (7 - n mod 8)) :: nat"
  have byte: "sum ?f {i * 8..<i * 8 + 8} = popcount (m ! i)" for i
  proof -
    have "{0..<8 :: nat} = {0, 1, 2, 3, 4, 5, 6, 7}" by auto
    then show ?thesis
      using sum.shift_bounds_nat_ivl [of ?f 0 "i * 8" 8]
      by (simp add: popcount_def add.commute)
  qed
  have "mask_ids m = {n \<in> {..<65536}. bit (m ! (n div 8)) (7 - n mod 8)}"
    by (auto simp: mask_ids_def)
  then have "card (mask_ids m) = sum ?f {..<8192 * 8}"
    by (simp add: of_bool_def sum.If_cases Int_def)
  also have "\<dots> = (\<Sum>i<8192. popcount (m ! i))"
    by (simp only: byte flip: sum.nat_group)
  also have "\<dots> = sum_list (map popcount m)"
    using assms by (simp add: sum_list_sum_nth mask_ok_def MASK_SZ_def atLeast0LessThan)
  finally show ?thesis .
qed

lemma mask_ids_subset: "mask_ids m \<subseteq> {..<65536}" "finite (mask_ids m)" "card (mask_ids m) \<le> 65536"
proof -
  show s: "mask_ids m \<subseteq> {..<65536}" by (auto simp: mask_ids_def)
  show "finite (mask_ids m)" by (rule finite_subset [OF s]) simp
  show "card (mask_ids m) \<le> 65536" using card_mono [OF _ s] by simp
qed

lemma loot_mask_count_card:
  assumes "mask_ok m"
  shows "unat (loot_mask_count m) = card (mask_ids m)"
  using mask_ids_subset(3) [of m]
  by (simp add: loot_mask_count_def count_fold mask_ids_card [OF assms] unat_of_nat)

section \<open>The command language\<close>

text \<open>
  What a command means, independently of the parser: a sequence of terms, each of which replaces,
  adds to or removes from the set of shown items; \<open>None\<close> when a list file is missing or short.
\<close>

datatype mask_expr = MAll | MNone | MId nat | MFile bytes

fun mexpr_sem :: "mask_files \<Rightarrow> mask_expr \<Rightarrow> nat set option" where
  "mexpr_sem fs MAll = Some {..<65536}"
| "mexpr_sem fs MNone = Some {}"
| "mexpr_sem fs (MId n) = Some ({n} \<inter> {..<65536})"
| "mexpr_sem fs (MFile f) =
     (case fs (loot_file f) of None \<Rightarrow> None
      | Some c \<Rightarrow> if MASK_SZ \<le> length c then Some (mask_ids (take MASK_SZ c)) else None)"

fun op_sem :: "loot_op \<Rightarrow> nat set \<Rightarrow> nat set \<Rightarrow> nat set" where
  "op_sem OP_SET S D = D"
| "op_sem OP_ADD S D = S \<union> D"
| "op_sem OP_SUB S D = S - D"

fun terms_sem :: "mask_files \<Rightarrow> (loot_op \<times> mask_expr) list \<Rightarrow> nat set \<Rightarrow> nat set option" where
  "terms_sem fs [] S = Some S"
| "terms_sem fs ((op, e) # ts) S =
     (case mexpr_sem fs e of None \<Rightarrow> None | Some D \<Rightarrow> terms_sem fs ts (op_sem op S D))"

text \<open>How a command is written: the operator, the word, and a space after each term.\<close>

fun mexpr_text :: "mask_expr \<Rightarrow> bytes" where
  "mexpr_text MAll = asc ''all''"
| "mexpr_text MNone = asc ''none''"
| "mexpr_text (MId n) = asc ''0x'' @ map hexdig (nibbles 8 n)"
| "mexpr_text (MFile f) = 0x40 # f"

fun op_text :: "loot_op \<Rightarrow> bytes" where
  "op_text OP_SET = []"
| "op_text OP_ADD = [0x2b]"
| "op_text OP_SUB = [0x2d]"

definition terms_text :: "(loot_op \<times> mask_expr) list \<Rightarrow> bytes" where
  "terms_text ts = concat (map (\<lambda>(op, e). op_text op @ mexpr_text e @ [0x20]) ts)"

fun mexpr_wf :: "mask_expr \<Rightarrow> bool" where
  "mexpr_wf (MId n) \<longleftrightarrow> n < 2 ^ 32"
| "mexpr_wf (MFile f) \<longleftrightarrow> f \<noteq> [] \<and> (\<forall>c \<in> set f. loot_word c \<and> c \<noteq> 0)"
| "mexpr_wf _ \<longleftrightarrow> True"

lemma asc_words: "asc ''all'' = [0x61, 0x6c, 0x6c]" "asc ''none'' = [0x6e, 0x6f, 0x6e, 0x65]"
  "asc ''0x'' = [0x30, 0x78]" "asc ''info'' = [0x69, 0x6e, 0x66, 0x6f]"
  by (simp_all add: asc_def)

lemma mexpr_text_word:
  "mexpr_wf e \<Longrightarrow> mexpr_text e \<noteq> [] \<and> (\<forall>c \<in> set (mexpr_text e). loot_word c \<and> c \<noteq> 0)"
  by (cases e)
    (auto simp: asc_words loot_word_def isspace_def dest!: nibbles_less dest: hexdig_facts(4-7) [simplified isspace_def])

lemma parse_mask_text:
  assumes "mexpr_wf e" and "mask_ok d"
  shows "case mexpr_sem fs e of None \<Rightarrow> parse_mask fs d (mexpr_text e) = None
    | Some S \<Rightarrow> \<exists>m. parse_mask fs d (mexpr_text e) = Some m \<and> mask_ok m \<and> mask_ids m = S"
proof (cases e)
  case (MId n)
  have all: "takeWhile isxdigit (map hexdig (nibbles 8 n)) = map hexdig (nibbles 8 n)"
    by (auto simp: takeWhile_eq_all_conv hexdig_facts dest: nibbles_less)
  have "16 ^ 8 = (2 ^ 32 :: nat)" by simp
  then have id: "fold hex_step (map hexdig (nibbles 8 n)) 0 = of_nat n" "unat (of_nat n :: u32) = n"
    using assms MId hex_fold_nibbles [of 8 n 0] by (simp_all add: unat_of_nat)
  have "parse_mask fs d (mexpr_text e) = Some (snd (loot_mask_set (loot_mask_fill False) (of_nat n) True))"
    using MId by (simp add: parse_mask_def asc_words all id(1))
  then show ?thesis
    using MId loot_mask_set_ids [OF loot_mask_fill_ids(2), of False "of_nat n" True] id(2)
    by (auto simp: loot_mask_fill_ids)
next
  case (MFile f)
  then have "1 < length (mexpr_text e)" using assms by (cases f) auto
  then show ?thesis
    using MFile assms
    by (auto simp: parse_mask_def asc_words loot_mask_fload_def mask_ok_def split: option.splits)
qed (auto simp: parse_mask_def asc_words loot_mask_fill_ids)

lemma loot_apply_ids:
  "mask_ok nm \<Longrightarrow> mask_ok d \<Longrightarrow>
   mask_ok (loot_apply op nm d) \<and> mask_ids (loot_apply op nm d) = op_sem op (mask_ids nm) (mask_ids d)"
  by (cases op) (simp_all add: loot_mask_add_ids loot_mask_sub_ids)

text \<open>One term at the front of the message.\<close>

lemma loot_loop_term:
  assumes "mexpr_wf e"
  shows "loot_loop fs (op_text op @ mexpr_text e @ 0x20 # rest) d nm =
    (case parse_mask fs d (mexpr_text e) of None \<Rightarrow> None
     | Some d' \<Rightarrow> loot_loop fs (0x20 # rest) d' (loot_apply op nm d'))"
proof -
  note w = mexpr_text_word [OF assms]
  obtain c cs where t: "mexpr_text e = c # cs" using w by (cases "mexpr_text e") auto
  have c: "loot_word c" using w t by simp
  have sp: "\<not> isspace 0x2b" "\<not> isspace 0x2d" "\<not> loot_word 0x20"
    by (simp_all add: isspace_def loot_word_def)
  have m1: "dropWhile isspace (op_text op @ mexpr_text e @ 0x20 # rest) =
      op_text op @ mexpr_text e @ 0x20 # rest"
    using c t sp by (cases op) (simp_all add: loot_word_def)
  have m2: "loot_op_prefix (op_text op @ mexpr_text e @ 0x20 # rest) = (op, mexpr_text e @ 0x20 # rest)"
    using c t by (cases op) (simp_all add: loot_op_prefix_def loot_word_def)
  have m3: "takeWhile loot_word (mexpr_text e @ 0x20 # rest) = mexpr_text e"
    using w sp by (simp add: takeWhile_append2 takeWhile_eq_all_conv)
  show ?thesis
    using w by (subst loot_loop.simps) (simp add: Let_def m1 m2 m3 split: option.split)
qed

lemma loot_loop_space: "loot_loop fs (0x20 # m) d nm = loot_loop fs m d nm"
  by (subst (1 2) loot_loop.simps) (simp add: isspace_def)

lemma loot_loop_terms:
  "(\<forall>(op, e) \<in> set ts. mexpr_wf e) \<Longrightarrow> mask_ok d \<Longrightarrow> mask_ok nm \<Longrightarrow>
   case terms_sem fs ts (mask_ids nm) of None \<Rightarrow> loot_loop fs (terms_text ts) d nm = None
   | Some S \<Rightarrow> \<exists>m. loot_loop fs (terms_text ts) d nm = Some m \<and> mask_ok m \<and> mask_ids m = S"
proof (induction ts arbitrary: d nm)
  case Nil
  then show ?case by (simp add: terms_text_def loot_loop.simps)
next
  case (Cons t ts)
  obtain op e where t: "t = (op, e)" by (cases t)
  have wf: "mexpr_wf e" using Cons.prems t by auto
  have "terms_text (t # ts) = op_text op @ mexpr_text e @ 0x20 # terms_text ts"
    by (simp add: t terms_text_def)
  then have step: "loot_loop fs (terms_text (t # ts)) d nm =
      (case parse_mask fs d (mexpr_text e) of None \<Rightarrow> None
       | Some d' \<Rightarrow> loot_loop fs (terms_text ts) d' (loot_apply op nm d'))"
    by (simp add: loot_loop_term [OF wf] loot_loop_space split: option.split)
  show ?case
  proof (cases "mexpr_sem fs e")
    case None
    then show ?thesis using parse_mask_text [OF wf Cons.prems(2), of fs] step t by simp
  next
    case (Some D)
    then obtain m where m: "parse_mask fs d (mexpr_text e) = Some m" "mask_ok m" "mask_ids m = D"
      using parse_mask_text [OF wf Cons.prems(2), of fs] by auto
    then show ?thesis
      using Cons.IH [of m "loot_apply op nm m"] loot_apply_ids [OF Cons.prems(3) m(2), of op]
        Cons.prems(1) step Some by (simp add: t split: option.splits)
  qed
qed

section \<open>Invariants\<close>

definition loot_ok :: "loot_state \<Rightarrow> bool" where
  "loot_ok l \<longleftrightarrow> mask_ok (lm_show l) \<and> mask_ok (lm_pick l)"

lemma loot_state_new_ok: "loot_ok loot_state_new"
  by (simp add: loot_ok_def loot_state_new_def loot_mask_fill_ids)

lemma parse_mask_ok:
  assumes "parse_mask fs d w = Some m" and "mask_ok d"
  shows "mask_ok m"
proof -
  have "mask_ok m'" if "loot_mask_fload fs n d = (True, m')" for n m'
    using that assms(2) by (auto simp: loot_mask_fload_def mask_ok_def split: option.splits)
  then show ?thesis
    using assms(1) loot_mask_set_ids(3) [OF loot_mask_fill_ids(2)]
    by (auto simp: parse_mask_def loot_mask_fill_ids split: if_splits prod.splits)
qed

lemma loot_loop_ok:
  "loot_loop fs m d nm = Some r \<Longrightarrow> mask_ok d \<Longrightarrow> mask_ok nm \<Longrightarrow> mask_ok r"
proof (induction fs m d nm rule: loot_loop.induct)
  case (1 fs m d nm)
  obtain op m2 where pre: "loot_op_prefix (dropWhile isspace m) = (op, m2)" by fastforce
  show ?case
  proof (cases "dropWhile isspace m = []")
    case True
    then show ?thesis
      using "1.prems" by (simp add: loot_loop.simps [of fs m d nm] del: dropWhile_eq_Nil_conv)
  next
    case False
    then obtain d' where d': "parse_mask fs d (takeWhile loot_word m2) = Some d'"
      and r: "loot_loop fs (drop (length (takeWhile loot_word m2)) m2) d' (loot_apply op nm d') = Some r"
      using "1.prems"(1) pre
      by (auto simp: loot_loop.simps [of fs m d nm] Let_def simp del: dropWhile_eq_Nil_conv
          split: option.splits)
    have "mask_ok d'" by (rule parse_mask_ok [OF d' "1.prems"(2)])
    then show ?thesis
      using "1.IH" [OF refl False pre [symmetric] refl refl d' r] loot_apply_ids "1.prems"(3) by blast
  qed
qed

lemma loot_cmd_ok: "loot_ok l \<Longrightarrow> loot_ok (snd (loot_cmd fs msg l))"
  using loot_loop_ok [OF _ loot_mask_fill_ids(2)]
  by (auto simp: loot_ok_def loot_cmd_def Let_def split: option.splits)

lemma loot_mask_restore_front:
  assumes "rs_state s = a @ x @ b" and "rs_pos s = of_nat (length a)" and "mask_ok x" and "mask_ok m"
    and "length (a @ x @ b) < 2 ^ 32"
  shows "loot_mask_restore m s = Inr (True, x, s\<lparr>rs_pos := of_nat (length a + length x)\<rparr>)"
  using rfx_state_read_front [OF assms(1,2) _ assms(5), of m] assms(3,4)
  by (simp add: loot_mask_restore_def mask_ok_def MASK_SZ_def)

lemma loot_state_save_new:
  assumes "loot_ok l"
  shows "loot_state_save l (rfx_state_new v) =
    Inr \<lparr>rs_version = v, rs_pos = 0, rs_state = lm_show l @ lm_pick l\<rparr>"
  using assms by (simp add: loot_state_save_def rfx_state_write_eq rfx_state_new_def loot_ok_def mask_ok_def MASK_SZ_def)

lemma loot_state_restore_save:
  assumes "loot_ok l" and "loot_ok l0"
  shows "\<exists>s s'. loot_state_save l (rfx_state_new v) = Inr s \<and> rs_wf s \<and> loot_state_restore l0 s = Inr (True, l, s')"
proof -
  have ok: "mask_ok (lm_show l)" "mask_ok (lm_pick l)" "mask_ok (lm_show l0)" "mask_ok (lm_pick l0)"
    using assms by (simp_all add: loot_ok_def)
  let ?s = "\<lparr>rs_version = v, rs_pos = 0, rs_state = lm_show l @ lm_pick l\<rparr>"
  let ?s1 = "?s\<lparr>rs_pos := of_nat (length ([] :: bytes) + length (lm_show l))\<rparr>"
  have r1: "loot_mask_restore (lm_show l0) ?s = Inr (True, lm_show l, ?s1)"
    by (rule loot_mask_restore_front [where b = "lm_pick l"]) (use ok in \<open>simp_all add: mask_ok_def MASK_SZ_def\<close>)
  have "loot_mask_restore (lm_pick l0) ?s1 =
      Inr (True, lm_pick l, ?s1\<lparr>rs_pos := of_nat (length (lm_show l) + length (lm_pick l))\<rparr>)"
    by (rule loot_mask_restore_front [where b = "[]"]) (use ok in \<open>simp_all add: mask_ok_def MASK_SZ_def\<close>)
  moreover have "rs_wf ?s" using ok by (simp add: rs_wf_def mask_ok_def MASK_SZ_def)
  ultimately show ?thesis using r1 loot_state_save_new [OF assms(1)] by (simp add: loot_state_restore_def)
qed

section \<open>Properties\<close>

text \<open>
  C27. The bit operations on a mask are the set operations on the item numbers in it: filling,
  testing, setting one bit (with the previous value returned, numbers from 65536 on ignored), union,
  difference and the count, which never wraps.
\<close>

theorem loot_mask_refines_set:
  assumes "mask_ok m" and "mask_ok m'"
  shows "mask_ids (loot_mask_fill True) = {..<65536} \<and> mask_ids (loot_mask_fill False) = {} \<and>
    (loot_mask_test m idx \<longleftrightarrow> unat idx \<in> mask_ids m) \<and>
    fst (loot_mask_set m idx flag) = (unat idx \<in> mask_ids m) \<and>
    mask_ids (snd (loot_mask_set m idx True)) = mask_ids m \<union> ({unat idx} \<inter> {..<65536}) \<and>
    mask_ids (snd (loot_mask_set m idx False)) = mask_ids m - {unat idx} \<and>
    mask_ids (loot_mask_add m m') = mask_ids m \<union> mask_ids m' \<and>
    mask_ids (loot_mask_sub m m') = mask_ids m - mask_ids m' \<and>
    unat (loot_mask_count m) = card (mask_ids m)"
proof -
  have "mask_ids (snd (loot_mask_set m idx False)) = mask_ids m - {unat idx}"
    using loot_mask_set_ids(1) [OF assms(1), of idx False] mask_ids_subset(1) [of m] by auto
  moreover have "mask_ids (snd (loot_mask_set m idx True)) = mask_ids m \<union> ({unat idx} \<inter> {..<65536})"
    using loot_mask_set_ids(1) [OF assms(1), of idx True] by auto
  ultimately show ?thesis
    using loot_mask_fill_ids(1) loot_mask_set_ids(2) [OF assms(1), of idx flag]
      loot_mask_add_ids(1) [OF assms] loot_mask_sub_ids(1) [OF assms] loot_mask_count_card [OF assms(1)]
      loot_mask_test_iff [of m idx] by simp
qed

lemma loot_mask_refines_set_witness:
  "unat (loot_mask_count (loot_mask_fill True)) = 65536 \<and>
   mask_ids (snd (loot_mask_set (loot_mask_fill False) 5 True)) = {5}"
  using loot_mask_refines_set [OF loot_mask_fill_ids(2) [of True] loot_mask_fill_ids(2) [of True]]
    loot_mask_refines_set [OF loot_mask_fill_ids(2) [of False] loot_mask_fill_ids(2), of 5]
  by simp

text \<open>
  C24. A command written as a sequence of terms does what it says: the items shown afterwards are
  the meaning of the terms applied in order to the items shown before, and the reply carries their
  number; when a list file is missing or short the whole command is refused and nothing changes.
\<close>

theorem loot_cmd_denotes:
  assumes "loot_ok l" and "\<forall>(op, e) \<in> set ts. mexpr_wf e"
  shows "case terms_sem fs ts (mask_ids (lm_show l)) of
      None \<Rightarrow> loot_cmd fs (terms_text ts) l = (asc ''can't parse loot mask'', l)
    | Some S \<Rightarrow> \<exists>m. loot_cmd fs (terms_text ts) l = (loot_reply (card S), l\<lparr>lm_show := m\<rparr>) \<and>
        mask_ok m \<and> mask_ids m = S"
proof -
  have ends: "terms_text ts = [] \<or> last (terms_text ts) = 0x20"
    by (cases ts rule: rev_cases) (auto simp: terms_text_def)
  then have ne: "terms_text ts \<noteq> asc ''info''" by (auto simp: asc_words)
  have nz: "\<forall>c \<in> set (terms_text ts). c \<noteq> 0"
  proof
    fix c assume "c \<in> set (terms_text ts)"
    then obtain op e where "(op, e) \<in> set ts" "c \<in> set (op_text op) \<or> c \<in> set (mexpr_text e) \<or> c = 0x20"
      by (auto simp: terms_text_def)
    then show "c \<noteq> 0"
      using mexpr_text_word [of e] assms(2) by (cases op) auto
  qed
  have all: "takeWhile (\<lambda>c. c \<noteq> 0) (terms_text ts) = terms_text ts"
    using nz by (simp add: takeWhile_eq_all_conv)
  show ?thesis
    using loot_loop_terms [OF assms(2) loot_mask_fill_ids(2) [of False], of "lm_show l" fs] assms(1) ne
    by (auto simp: all loot_cmd_def loot_ok_def loot_mask_count_card Let_def split: option.splits)
qed

lemma loot_cmd_denotes_witness:
  "\<exists>m. loot_cmd (\<lambda>_. None) (terms_text [(OP_SET, MNone), (OP_ADD, MId 5)]) loot_state_new =
     (loot_reply 1, loot_state_new\<lparr>lm_show := m\<rparr>) \<and> mask_ids m = {5}"
  using loot_cmd_denotes [OF loot_state_new_ok, of "[(OP_SET, MNone), (OP_ADD, MId 5)]" "\<lambda>_. None"]
  by auto

text \<open>
  C30. Reloading the loot filter loses nothing: saving succeeds, and what \<open>save_state\<close> writes, \<open>load_state\<close>
  of a newly created filter reads back completely.
\<close>

theorem loot_state_reload:
  assumes "loot_ok l"
  shows "\<exists>s s'. loot_state_save l (rfx_state_new 0) = Inr s \<and>
    loot_state_restore loot_state_new s = Inr (True, l, s')"
  using loot_state_restore_save [OF assms loot_state_new_ok] by blast

lemma loot_state_reload_witness:
  "\<exists>s s'. loot_state_save (snd (loot_cmd (\<lambda>_. None) (asc ''none'') loot_state_new)) (rfx_state_new 0) = Inr s \<and>
   loot_state_restore loot_state_new s = Inr (True, snd (loot_cmd (\<lambda>_. None) (asc ''none'') loot_state_new), s')"
  by (rule loot_state_reload [OF loot_cmd_ok [OF loot_state_new_ok]])

text \<open>
  C25. The announcement of an item is dropped exactly when the item is hidden, its other fields but
  the description stay as they are, and no other packet is touched; every other packet type passes
  through with its drop flag unchanged.
\<close>

theorem loot_process_pkt_drops:
  assumes "pkts (fw_store w) p = Some pk" and "6 \<le> length (p_data pk)"
  shows "\<exists>pk'. loot_process_pkt l p w =
      Inr (RFX_DECLINE, l, w\<lparr>fw_store := (fw_store w)\<lparr>pkts := (pkts (fw_store w))(p \<mapsto> pk')\<rparr>\<rparr>) \<and>
    p_drop pk' = (if p_type pk \<in> {LOOT_DROP_NEW, LOOT_DROP_HORIZON}
      then unat (get_int16 (p_data pk ! 4) (p_data pk ! 5)) \<notin> mask_ids (lm_show l) else p_drop pk) \<and>
    p_data pk' = p_data pk \<and> p_len pk' = p_len pk \<and> p_dir pk' = p_dir pk \<and>
    p_delay pk' = p_delay pk \<and> p_refc pk' = p_refc pk"
proof -
  have "(pkts (fw_store w))(p \<mapsto> pk) = pkts (fw_store w)" using assms(1) by auto
  then have same: "w = w\<lparr>fw_store := (fw_store w)\<lparr>pkts := (pkts (fw_store w))(p \<mapsto> pk)\<rparr>\<rparr>" by simp
  show ?thesis
    using assms same
    by (auto simp: loot_process_pkt_def loot_hide_def LOOT_DROP_NEW_def LOOT_DROP_HORIZON_def
        LOOT_DISAPPEAR_def loot_mask_test_iff)
qed

definition ex_loot :: store where
  "ex_loot = \<lparr>pkts = [3 \<mapsto> \<lparr>p_len = 6, p_type = 0x1403, p_dir = SRV_TO_CLI, p_drop = False,
     p_show = False, p_refc = 1, p_delay = 0, p_desc = None, p_dyn_desc = None,
     p_data = [6, 0, 3, 0x14, 7, 0]\<rparr>], brk = 4\<rparr>"

lemma loot_process_pkt_drops_witness:
  "\<exists>w' pk'. loot_process_pkt (loot_state_new\<lparr>lm_show := loot_mask_fill False\<rparr>) 3
     \<lparr>fw_store = ex_loot, fw_pre = [], fw_post = [], fw_evq = []\<rparr> =
       Inr (RFX_DECLINE, loot_state_new\<lparr>lm_show := loot_mask_fill False\<rparr>, w') \<and>
     pkts (fw_store w') 3 = Some pk' \<and> p_drop pk'"
proof -
  let ?w = "\<lparr>fw_store = ex_loot, fw_pre = [], fw_post = [], fw_evq = []\<rparr>"
  have pk: "pkts (fw_store ?w) 3 = Some (the (pkts ex_loot 3))" by (simp add: ex_loot_def)
  have len: "6 \<le> length (p_data (the (pkts ex_loot 3)))" by (simp add: ex_loot_def)
  show ?thesis
    using loot_process_pkt_drops [OF pk len, of "loot_state_new\<lparr>lm_show := loot_mask_fill False\<rparr>"]
    by (auto simp: loot_mask_fill_ids LOOT_DROP_NEW_def) (simp_all add: ex_loot_def loot_mask_fill_ids)
qed

text \<open>
  The reply buffer is one byte short: when the numbers of shown and hidden items both have five
  digits the reply loses its last digit.
\<close>

theorem loot_reply_truncated:
  assumes "10000 \<le> n" and "n \<le> 55536"
  shows "length (loot_reply_text n) = 32 \<and> loot_reply n = butlast (loot_reply_text n)"
proof -
  have "length (dec n) = 5" "length (dec (65536 - n)) = 5"
    using dec_length [of 4 n] dec_length [of 4 "65536 - n"] assms by auto
  then have "length (loot_reply_text n) = 32" by (simp add: loot_reply_text_def asc_def)
  then show ?thesis by (simp add: loot_reply_def butlast_conv_take)
qed

lemma loot_reply_truncated_witness: "loot_reply 10000 = butlast (loot_reply_text 10000)"
  using loot_reply_truncated [of 10000] by simp

end
