(* ===== verification/Rfx_Chat.thy ===== *)
theory Rfx_Chat
  imports Rfx_Api Text_Util
begin

text \<open>
  The chat filter, \<^verbatim>\<open>rfx_chat.cpp\<close>: it reads outgoing chat packets into events for the other
  filters, and turns a \<open>RFXEV_SEND_REPLY\<close> event into a private message to the client. Every access
  to the packet is checked, so the theorems also say when the pointer loops stay inside it. (The
  debug filter of \<^verbatim>\<open>rfx_debug.cpp\<close> declines everything; it is \<open>debug_process_pkt\<close> and
  \<open>debug_process_ev\<close>.)
\<close>

definition WHITE_CHAT_OUT :: u16 where "WHITE_CHAT_OUT = 0x0202"
definition PRIVMSG_OUT :: u16 where "PRIVMSG_OUT = 0x0302"
definition PRIVMSG_IN :: u16 where "PRIVMSG_IN = 0x0a02"

section \<open>Reading a chat packet\<close>

text \<open>\<open>while (p < end && P(*p)) p++\<close>\<close>

function scan_while :: "(u8 \<Rightarrow> bool) \<Rightarrow> bytes \<Rightarrow> nat \<Rightarrow> nat \<Rightarrow> nat res" where
  "scan_while P data e p =
     (if p < e
      then rbind (peek data p) (\<lambda>c. if P c then scan_while P data e (Suc p) else Inr p)
      else Inr p)"
  by pat_completeness auto
termination
  by (relation "measure (\<lambda>(P, data, e, p). e - p)") auto

declare scan_while.simps [simp del]

text \<open>\<open>while (p + 1 < end && p[0] != ':' && p[1] != 0x20) p++\<close>\<close>

function scan_sep :: "bytes \<Rightarrow> nat \<Rightarrow> nat \<Rightarrow> nat res" where
  "scan_sep data e p =
     (if p + 1 < e
      then rbind (peek data p) (\<lambda>c0.
             if c0 = 0x3a then Inr p
             else rbind (peek data (p + 1)) (\<lambda>c1.
               if c1 = 0x20 then Inr p else scan_sep data e (Suc p)))
      else Inr p)"
  by pat_completeness auto
termination
  by (relation "measure (\<lambda>(data, e, p). e - p)") auto

declare scan_sep.simps [simp del]

text \<open>
  Nick and message of a chat packet whose text starts at \<open>nick\<close>; \<open>None\<close> is the jump to
  \<open>protocol_up\<close>.
\<close>

definition chat_parse :: "bytes \<Rightarrow> nat \<Rightarrow> nat \<Rightarrow> (bytes \<times> bytes) option res" where
  "chat_parse data e nick =
     rbind (peek data nick) (\<lambda>c.
     rbind (if c = 0x5b
            then rbind (scan_while (\<lambda>c. c \<noteq> 0x5d) data e nick) (\<lambda>p.
                   Inr (if e \<le> p + 1 then None else Some (p + 1)))
            else Inr (Some nick)) (\<lambda>start.
       case start of None \<Rightarrow> Inr None
       | Some n \<Rightarrow>
           rbind (scan_while (\<lambda>c. c \<noteq> 0 \<and> c \<noteq> 0x3a \<and> c \<noteq> 0x20) data e n) (\<lambda>p0.
           rbind (scan_sep data e p0) (\<lambda>p.
           rbind (if p + 2 < e then cstr_at data (p + 2) else Inr (asc ''<ERROR>'')) (\<lambda>msg.
             Inr (Some (take (p0 - n) (drop n data), msg)))))))"

definition chat_event_of :: "event_code \<Rightarrow> nat \<Rightarrow> addr \<Rightarrow> fworld \<Rightarrow> fworld res" where
  "chat_event_of code nick p w =
     rbind (pkt_get (fw_store w) p) (\<lambda>pk.
     rbind (chat_parse (p_data pk) (unat (p_len pk)) nick) (\<lambda>out.
       case out of
         None \<Rightarrow> fw_modify (\<lambda>pk. pk\<lparr>p_desc := Some ''UNKNOWN CHAT MESSAGE'', p_show := True\<rparr>) p w
       | Some (n, m) \<Rightarrow>
           rbind (chat_event_new code n m (Some p) (fw_store w)) (\<lambda>(st, ev).
             fw_modify (\<lambda>pk. pk\<lparr>p_show := True\<rparr>) p
               (w\<lparr>fw_store := st, fw_evq := evq_push_back (fw_evq w) ev\<rparr>))))"

definition chat_process_pkt :: "addr \<Rightarrow> fworld \<Rightarrow> (verdict \<times> fworld) res" where
  "chat_process_pkt p w =
     rbind (pkt_get (fw_store w) p) (\<lambda>pk.
     rbind (if p_type pk = WHITE_CHAT_OUT then
              rbind (fw_modify (\<lambda>pk. pk\<lparr>p_desc := Some ''white chat send from client''\<rparr>) p w)
                (chat_event_of RFXEV_WCHAT_SENT 5 p)
            else if p_type pk = PRIVMSG_OUT then
              rbind (fw_modify (\<lambda>pk. pk\<lparr>p_desc := Some ''private message send from client''\<rparr>) p w)
                (chat_event_of RFXEV_PRIV_SENT 4 p)
            else if p_type pk = PRIVMSG_IN then
              fw_modify (\<lambda>pk. pk\<lparr>p_desc := Some ''incoming chat message''\<rparr>) p w
            else Inr w) (\<lambda>w'. Inr (RFX_DECLINE, w')))"

section \<open>Writing a reply\<close>

definition chat_tmpl :: bytes where
  "chat_tmpl = [0x02, 0x11, 0x05, 0x00, 0x00,
     0, 0, 0, 0, 0, 0, 0, 0, 0, 0, 0,
     0xff, 0xff, 0xff, 0xff,
     0x00, 0x00, 0x01, 0x00]"

text \<open>\<open>strncpy(dst, src, n)\<close>: what is written to \<open>dst\<close>.\<close>

definition strncpy_bytes :: "bytes \<Rightarrow> nat \<Rightarrow> bytes" where
  "strncpy_bytes src n =
     (let s = take n (takeWhile (\<lambda>c. c \<noteq> 0) src) in s @ replicate (n - length s) 0)"

definition chat_reply_fill :: "bytes \<Rightarrow> bytes \<Rightarrow> nat \<Rightarrow> bytes \<Rightarrow> bytes res" where
  "chat_reply_fill nick msg l d0 =
     rbind (poke d0 4 chat_tmpl) (\<lambda>d1.
     rbind (poke d1 (4 + 5) (strncpy_bytes nick 10)) (\<lambda>d2.
     rbind (poke d2 (length chat_tmpl + 4) [of_nat (l + 2), 0x3a, 0x20]) (\<lambda>d3.
     rbind (poke d3 (length chat_tmpl + 4 + 3) (take l msg)) (\<lambda>d4.
       poke d4 (length chat_tmpl + 4 + 3 + l) [0]))))"

definition chat_process_ev :: "rfx_chat_event \<Rightarrow> fworld \<Rightarrow> (verdict \<times> fworld) res" where
  "chat_process_ev ev w =
     (if ev_what ev = RFXEV_SEND_REPLY then
        let l = (if length (ev_msg ev) > 0xf0 then 0xf0 else length (ev_msg ev))
        in rbind (pkt_new (of_nat (4 + length chat_tmpl + 3 + l + 1)) (ucast PRIVMSG_IN) SRV_TO_CLI
                   (fw_store w)) (\<lambda>(st, p).
           rbind (pkt_get st p) (\<lambda>pk.
           rbind (chat_reply_fill (ev_nick ev) (ev_msg ev) l (p_data pk)) (\<lambda>d.
           rbind (pkt_modify (\<lambda>pk. pk\<lparr>p_data := d\<rparr>) p st) (\<lambda>st'.
             Inr (RFX_BREAK, w\<lparr>fw_store := st', fw_post := pqh_push (fw_post w) p\<rparr>)))))
      else Inr (RFX_DECLINE, w))"

section \<open>The debug filter\<close>

definition debug_process_pkt :: "addr \<Rightarrow> fworld \<Rightarrow> (verdict \<times> fworld) res" where
  "debug_process_pkt p w = Inr (RFX_DECLINE, w)"

definition debug_process_ev :: "rfx_chat_event \<Rightarrow> fworld \<Rightarrow> (verdict \<times> fworld) res" where
  "debug_process_ev ev w = Inr (RFX_DECLINE, w)"

section \<open>The pointer loops\<close>

lemma scan_while_eq:
  "e \<le> length data \<Longrightarrow> scan_while P data e p = Inr (p + length (takeWhile P (take (e - p) (drop p data))))"
proof (induction "e - p" arbitrary: p)
  case 0
  then show ?case by (subst scan_while.simps) simp
next
  case (Suc n)
  then have p: "p < e" by simp
  then have d: "drop p data = data ! p # drop (Suc p) data" and e: "e - p = Suc (e - Suc p)"
    using Suc.prems by (simp_all add: Cons_nth_drop_Suc)
  show ?case
    using Suc.hyps(1) [of "Suc p"] Suc.hyps(2) Suc.prems p by (subst scan_while.simps) (simp add: d e)
qed

lemma scan_sep_in:
  assumes "e \<le> length data"
  shows "\<exists>q. scan_sep data e p = Inr q \<and> p \<le> q \<and> (q \<noteq> p \<longrightarrow> q + 1 \<le> e)"
proof (induction "e - p" arbitrary: p)
  case 0
  then show ?case by (subst scan_sep.simps) simp
next
  case (Suc n)
  have "n = e - Suc p" using Suc.hyps(2) by simp
  then obtain q where "scan_sep data e (Suc p) = Inr q" "Suc p \<le> q" "q \<noteq> Suc p \<longrightarrow> q + 1 \<le> e"
    using Suc.hyps(1) by blast
  then show ?case using assms by (subst scan_sep.simps) auto
qed

text \<open>Nick, colon, space and message, NUL-terminated: the layout the game uses.\<close>

lemma chat_parse_plain:
  assumes data: "data = pre @ nick @ [0x3a, 0x20] @ msg @ 0 # rest"
    and nick: "\<forall>c \<in> set nick. c \<noteq> 0 \<and> c \<noteq> 0x3a \<and> c \<noteq> 0x20" "nick \<noteq> []" "hd nick \<noteq> 0x5b"
    and msg: "\<forall>c \<in> set msg. c \<noteq> 0"
  shows "chat_parse data (length data) (length pre) = Inr (Some (nick, msg))"
proof -
  let ?n = "length pre"
  have c: "peek data ?n = Inr (hd nick)"
    using nick(2) by (cases nick) (simp_all add: data nth_append)
  have "takeWhile (\<lambda>c. c \<noteq> 0 \<and> c \<noteq> 0x3a \<and> c \<noteq> 0x20) (nick @ [0x3a, 0x20] @ msg @ 0 # rest) = nick"
    using nick(1) by (subst takeWhile_append2) auto
  then have p0: "scan_while (\<lambda>c. c \<noteq> 0 \<and> c \<noteq> 0x3a \<and> c \<noteq> 0x20) data (length data) ?n =
      Inr (?n + length nick)"
    by (subst scan_while_eq) (simp_all add: data)
  have "data ! (?n + length nick) = 0x3a" by (simp add: data nth_append)
  then have p: "scan_sep data (length data) (?n + length nick) = Inr (?n + length nick)"
    by (subst scan_sep.simps) (simp add: data)
  have d: "drop (?n + length nick + 2) data = msg @ 0 # rest" by (simp add: data)
  have "takeWhile (\<lambda>c. c \<noteq> 0) (msg @ 0 # rest) = msg" using msg by (subst takeWhile_append2) auto
  then have m: "cstr_at data (?n + length nick + 2) = Inr msg"
    unfolding cstr_at_def d by simp
  have "?n + length nick + 2 < length data" by (simp add: data)
  then show ?thesis
    using c p0 p m nick(3) by (simp add: chat_parse_def) (simp add: data)
qed

section \<open>The reply packet\<close>

definition chat_reply_bytes :: "bytes \<Rightarrow> bytes \<Rightarrow> bytes" where
  "chat_reply_bytes nick msg =
     (let m = take 240 msg; l = of_nat (32 + length m) :: u32
      in [put_lo l, put_hi l, 0x02, 0x0a] @ [0x02, 0x11, 0x05, 0x00, 0x00] @ strncpy_bytes nick 10 @
         [0] @ [0xff, 0xff, 0xff, 0xff] @ [0x00, 0x00, 0x01, 0x00] @
         [of_nat (length m + 2), 0x3a, 0x20] @ m @ [0])"

lemma strncpy_bytes_length [simp]: "length (strncpy_bytes src n) = n"
  by (simp add: strncpy_bytes_def Let_def)

lemma poke_app:
  "length src = length b \<Longrightarrow> poke (a @ b @ c) (length a) src = Inr (a @ src @ c)"
  by (simp add: poke_def)

text \<open>The fields of the packet the reply is written to.\<close>

lemma reply_parts:
  fixes d0 :: bytes
  assumes "length d0 = 32 + k"
  obtains b u v x where "d0 = take 4 d0 @ b @ u @ v @ x" "length (take 4 d0) = 4" "length b = 24" "length u = 3"
    "length v = k" "length x = 1"
proof
  have "drop 4 d0 = take 24 (drop 4 d0) @ drop 28 d0" "drop 28 d0 = take 3 (drop 28 d0) @ drop 31 d0"
    "drop 31 d0 = take k (drop 31 d0) @ drop (31 + k) d0"
    using append_take_drop_id [of 24 "drop 4 d0"] append_take_drop_id [of 3 "drop 28 d0"]
      append_take_drop_id [of k "drop 31 d0"] by (simp_all add: add.commute)
  then show "d0 = take 4 d0 @ take 24 (drop 4 d0) @ take 3 (drop 28 d0) @ take k (drop 31 d0) @ drop (31 + k) d0"
    by (metis append_take_drop_id)
qed (use assms in simp_all)

lemma chat_reply_fill_eq:
  assumes "length d0 = 32 + length m" and "m = take l msg" and "l \<le> length msg"
  shows "chat_reply_fill nick msg l d0 =
    Inr (take 4 d0 @ [0x02, 0x11, 0x05, 0x00, 0x00] @ strncpy_bytes nick 10 @
         [0] @ [0xff, 0xff, 0xff, 0xff] @ [0x00, 0x00, 0x01, 0x00] @
         [of_nat (l + 2), 0x3a, 0x20] @ m @ [0])"
proof -
  let ?h = "take 4 d0" and ?a = "[0x02, 0x11, 0x05, 0x00, 0x00] :: bytes"
    and ?z = "[0, 0xff, 0xff, 0xff, 0xff, 0x00, 0x00, 0x01, 0x00] :: bytes" and ?n = "strncpy_bytes nick 10"
    and ?t = "[of_nat (l + 2), 0x3a, 0x20] :: bytes"
  obtain b u v x where d0: "d0 = ?h @ b @ u @ v @ x"
    and len: "length ?h = 4" "length b = 24" "length u = 3" "length v = length m" "length x = 1"
    by (rule reply_parts [OF assms(1)])
  have tmpl: "chat_tmpl = ?a @ replicate 10 0 @ ?z" by (simp add: chat_tmpl_def numeral_eq_Suc)
  have d1: "poke d0 4 chat_tmpl = Inr (?h @ ?a @ replicate 10 0 @ ?z @ u @ v @ x)"
  proof -
    have "poke (?h @ b @ u @ v @ x) (length ?h) chat_tmpl = Inr (?h @ chat_tmpl @ u @ v @ x)"
      by (rule poke_app) (simp add: len(2) tmpl)
    then show ?thesis by (simp only: len(1) flip: d0) (simp only: tmpl append.assoc)
  qed
  have d2: "poke (?h @ ?a @ replicate 10 0 @ ?z @ u @ v @ x) 9 ?n = Inr (?h @ ?a @ ?n @ ?z @ u @ v @ x)"
    using poke_app [of "replicate 10 0" ?n "?h @ ?a" "?z @ u @ v @ x"] len by simp
  have d3: "poke (?h @ ?a @ ?n @ ?z @ u @ v @ x) 28 ?t = Inr (?h @ ?a @ ?n @ ?z @ ?t @ v @ x)"
    using poke_app [of u ?t "?h @ ?a @ ?n @ ?z" "v @ x"] len by simp
  have d4: "poke (?h @ ?a @ ?n @ ?z @ ?t @ v @ x) 31 m = Inr (?h @ ?a @ ?n @ ?z @ ?t @ m @ x)"
  proof -
    have "length (?h @ ?a @ ?n @ ?z @ ?t) = 31" by (simp only: length_append len(1)) simp
    then show ?thesis using poke_app [OF len(4) [symmetric], of "?h @ ?a @ ?n @ ?z @ ?t" x]
      by (simp only: append_assoc)
  qed
  have d5: "poke (?h @ ?a @ ?n @ ?z @ ?t @ m @ x) (31 + l) [0] = Inr (?h @ ?a @ ?n @ ?z @ ?t @ m @ [0])"
  proof -
    have "length m = l" using assms(2,3) by simp
    then have "length (?h @ ?a @ ?n @ ?z @ ?t @ m) = 31 + l" by (simp only: length_append len(1)) simp
    moreover have "length [0 :: u8] = length x" using len(5) by simp
    ultimately show ?thesis using poke_app [of "[0]" x "?h @ ?a @ ?n @ ?z @ ?t @ m" "[]"]
      by (simp only: append_assoc append_Nil2)
  qed
  have "length chat_tmpl = 24" by (simp add: chat_tmpl_def)
  then show ?thesis
    unfolding chat_reply_fill_def using d1 d2 d3 d4 d5 assms(2) by simp
qed

lemma chat_process_ev_reply:
  assumes "ev_what ev = RFXEV_SEND_REPLY" and "store_ok (fw_store w)"
  shows "\<exists>pk. chat_process_ev ev w =
      Inr (RFX_BREAK, w\<lparr>fw_store := \<lparr>pkts = (pkts (fw_store w))(brk (fw_store w) \<mapsto> pk),
        brk = Suc (brk (fw_store w))\<rparr>, fw_post := fw_post w @ [brk (fw_store w)]\<rparr>) \<and>
    p_data pk = chat_reply_bytes (ev_nick ev) (ev_msg ev) \<and> unat (p_len pk) = length (p_data pk) \<and>
    p_type pk = PRIVMSG_IN \<and> p_dir pk = SRV_TO_CLI \<and> \<not> p_drop pk \<and> p_delay pk = 0 \<and> p_refc pk = 1"
proof -
  define m where "m = take 240 (ev_msg ev)"
  define l where "l = (if length (ev_msg ev) > 0xf0 then 0xf0 else length (ev_msg ev))"
  have l: "l = length m" "m = take l (ev_msg ev)" "l \<le> length (ev_msg ev)" "l \<le> 240"
    by (auto simp: m_def l_def)
  have len: "unat (of_nat (32 + l) :: u32) = 32 + l" "unat (ucast (of_nat (32 + l) :: u32) :: u16) = 32 + l"
    using l(4) by (simp_all add: unat_of_nat unsigned_ucast_eq take_bit_eq_mod del: of_nat_add)
  let ?h = "[put_lo (of_nat (32 + l) :: u32), put_hi (of_nat (32 + l) :: u32), 0x02, 0x0a]"
  define d0 where "d0 = ?h @ replicate (28 + l) 0"
  have ty: "put_lo (ucast PRIVMSG_IN :: u32) = 0x02" "put_hi (ucast PRIVMSG_IN :: u32) = 0x0a"
    "(ucast (ucast PRIVMSG_IN :: u32) :: u16) = PRIVMSG_IN"
    unfolding PRIVMSG_IN_def by code_simp+
  let ?st = "fw_store w"
  let ?pk = "\<lparr>p_len = ucast (of_nat (32 + l) :: u32), p_type = PRIVMSG_IN, p_dir = SRV_TO_CLI,
    p_drop = False, p_show = False, p_refc = 1, p_delay = 0, p_desc = None, p_dyn_desc = None,
    p_data = d0\<rparr>"
  have new: "pkt_new (of_nat (32 + l)) (ucast PRIVMSG_IN) SRV_TO_CLI ?st =
      Inr (\<lparr>pkts = (pkts ?st)(brk ?st \<mapsto> ?pk), brk = Suc (brk ?st)\<rparr>, brk ?st)"
    using len ty by (simp add: pkt_new_def d0_def poke_def Let_def numeral_eq_Suc)
  have "take 4 d0 = ?h" by (simp add: d0_def)
  then have fill: "chat_reply_fill (ev_nick ev) (ev_msg ev) l d0 =
      Inr (chat_reply_bytes (ev_nick ev) (ev_msg ev))"
    using chat_reply_fill_eq [OF _ l(2,3), of d0 "ev_nick ev"] l(1)
    by (simp add: d0_def chat_reply_bytes_def m_def [symmetric] Let_def)
  have "length (chat_reply_bytes (ev_nick ev) (ev_msg ev)) = 32 + l"
    using l(1) by (simp add: chat_reply_bytes_def m_def [symmetric] Let_def)
  moreover have "4 + length chat_tmpl + 3 + l + 1 = 32 + l" by (simp add: chat_tmpl_def)
  ultimately show ?thesis
    using new fill len(2) assms(1)
    by (intro exI [of _ "?pk\<lparr>p_data := chat_reply_bytes (ev_nick ev) (ev_msg ev)\<rparr>"])
      (simp add: chat_process_ev_def l_def [symmetric] Let_def pqh_push_def del: of_nat_add)
qed

section \<open>Properties\<close>

text \<open>
  C26. A reply event becomes exactly one new packet after the current one: for every nick and every
  message, whatever their length, the template, the nick (cut to ten characters) and the message
  (cut to 240) are written inside the packet, its length field is its size, and nothing else in the
  store changes.
\<close>

theorem chat_reply_packet:
  assumes "ev_what ev = RFXEV_SEND_REPLY" and "store_ok (fw_store w)"
  shows "\<exists>pk. chat_process_ev ev w =
      Inr (RFX_BREAK, w\<lparr>fw_store := \<lparr>pkts = (pkts (fw_store w))(brk (fw_store w) \<mapsto> pk),
        brk = Suc (brk (fw_store w))\<rparr>, fw_post := fw_post w @ [brk (fw_store w)]\<rparr>) \<and>
    p_data pk = chat_reply_bytes (ev_nick ev) (ev_msg ev) \<and> unat (p_len pk) = length (p_data pk) \<and>
    p_type pk = PRIVMSG_IN \<and> p_dir pk = SRV_TO_CLI \<and> \<not> p_drop pk \<and> p_delay pk = 0 \<and> p_refc pk = 1"
  by (rule chat_process_ev_reply [OF assms])

lemma chat_reply_packet_witness:
  "\<exists>w'. chat_process_ev \<lparr>ev_source = None, ev_what = RFXEV_SEND_REPLY, ev_nick = asc ''loot'',
       ev_msg = replicate 1000 0x41\<rparr>
     \<lparr>fw_store = ex_one, fw_pre = [], fw_post = [], fw_evq = []\<rparr> = Inr (RFX_BREAK, w')"
  using chat_reply_packet [of "\<lparr>ev_source = None, ev_what = RFXEV_SEND_REPLY, ev_nick = asc ''loot'',
       ev_msg = replicate 1000 0x41\<rparr>" "\<lparr>fw_store = ex_one, fw_pre = [], fw_post = [], fw_evq = []\<rparr>"]
  by (auto simp: store_ok_def ex_one_def)

text \<open>
  C28. A private message of the client is read back as it was written: nick, colon, space, message
  and a NUL after the header give an event with that nick and that message, with the packet as its
  source (one more reference), and the chain goes on.
\<close>

theorem chat_privmsg_event:
  assumes "pkts (fw_store w) p = Some pk" and "p_type pk = PRIVMSG_OUT"
    and "p_data pk = h @ nick @ [0x3a, 0x20] @ msg @ 0 # rest" and "length h = 4"
    and "unat (p_len pk) = length (p_data pk)"
    and "\<forall>c \<in> set nick. c \<noteq> 0 \<and> c \<noteq> 0x3a \<and> c \<noteq> 0x20" and "nick \<noteq> []" and "hd nick \<noteq> 0x5b"
    and "\<forall>c \<in> set msg. c \<noteq> 0"
  shows "\<exists>w'. chat_process_pkt p w = Inr (RFX_DECLINE, w') \<and>
    fw_evq w' = fw_evq w @ [\<lparr>ev_source = Some p, ev_what = RFXEV_PRIV_SENT, ev_nick = nick, ev_msg = msg\<rparr>] \<and>
    fw_pre w' = fw_pre w \<and> fw_post w' = fw_post w \<and>
    pkts (fw_store w') = (pkts (fw_store w))(p \<mapsto> pk\<lparr>p_desc := Some ''private message send from client'',
      p_refc := p_refc pk + 1, p_show := True\<rparr>)"
proof -
  have parse: "chat_parse (p_data pk) (length (p_data pk)) 4 = Inr (Some (nick, msg))"
    using chat_parse_plain [OF assms(3,6-9)] assms(4) by simp
  have "PRIVMSG_OUT \<noteq> WHITE_CHAT_OUT" by (simp add: PRIVMSG_OUT_def WHITE_CHAT_OUT_def)
  then show ?thesis
    using assms(1,2,5) parse
    by (simp add: chat_process_pkt_def chat_event_of_def chat_event_new_def pkt_ref_def evq_push_back_def)
qed

definition ex_chat :: store where
  "ex_chat = \<lparr>pkts = [3 \<mapsto> \<lparr>p_len = 15, p_type = PRIVMSG_OUT, p_dir = CLI_TO_SRV, p_drop = False,
     p_show = False, p_refc = 1, p_delay = 0, p_desc = None, p_dyn_desc = None,
     p_data = [15, 0, 2, 3] @ asc ''loot'' @ [0x3a, 0x20] @ asc ''info'' @ [0]\<rparr>], brk = 4\<rparr>"

lemma chat_privmsg_event_witness:
  "\<exists>w'. chat_process_pkt 3 \<lparr>fw_store = ex_chat, fw_pre = [], fw_post = [], fw_evq = []\<rparr> =
     Inr (RFX_DECLINE, w') \<and>
   fw_evq w' = [\<lparr>ev_source = Some 3, ev_what = RFXEV_PRIV_SENT, ev_nick = asc ''loot'',
     ev_msg = asc ''info''\<rparr>]"
  using chat_privmsg_event [of "\<lparr>fw_store = ex_chat, fw_pre = [], fw_post = [], fw_evq = []\<rparr>" 3
      "the (pkts ex_chat 3)" "[15, 0, 2, 3]" "asc ''loot''" "asc ''info''" "[]"]
  by (auto simp: ex_chat_def asc_def)

end
