(* ===== verification/Filters.thy ===== *)
theory Filters
  imports Ledger_Queues Rfx_Loot Rfx_Chat
begin

text \<open>
  The filters as the core sees them: objects behind the virtual functions of \<open>rfx_filter\<close>. The
  three plug-ins of the repository are the cases of \<open>flt\<close>, and \<open>flt_process_pkt\<close>, \<open>flt_process_ev\<close>,
  \<open>flt_save\<close>, \<open>flt_load\<close> and \<open>flt_new\<close> are the dispatch. What the core may rely on is the locale
  \<open>event_filter\<close> (a filter keeps the ledger, adds at most one event per packet and answers an event
  with at most one reply, never a reply with an event) and its extension \<open>reloadable_filter\<close> (a new
  filter of the same kind reads back the saved state); both are interpreted on the plug-ins here.
\<close>

section \<open>Dispatch\<close>

datatype flt = FltChat | FltLoot loot_state | FltDebug

datatype flt_kind = KindChat | KindLoot | KindDebug

fun flt_kind_of :: "flt \<Rightarrow> flt_kind" where
  "flt_kind_of FltChat = KindChat"
| "flt_kind_of (FltLoot l) = KindLoot"
| "flt_kind_of FltDebug = KindDebug"

text \<open>\<open>rfx_filter_new\<close> of the module.\<close>

fun flt_new :: "flt_kind \<Rightarrow> flt" where
  "flt_new KindChat = FltChat"
| "flt_new KindLoot = FltLoot loot_state_new"
| "flt_new KindDebug = FltDebug"

fun flt_process_pkt :: "flt \<Rightarrow> addr \<Rightarrow> fworld \<Rightarrow> (verdict \<times> flt \<times> fworld) res" where
  "flt_process_pkt FltChat p w = rbind (chat_process_pkt p w) (\<lambda>(v, w'). Inr (v, FltChat, w'))"
| "flt_process_pkt (FltLoot l) p w =
     rbind (loot_process_pkt l p w) (\<lambda>(v, l', w'). Inr (v, FltLoot l', w'))"
| "flt_process_pkt FltDebug p w = rbind (debug_process_pkt p w) (\<lambda>(v, w'). Inr (v, FltDebug, w'))"

fun flt_process_ev ::
    "mask_files \<Rightarrow> flt \<Rightarrow> rfx_chat_event \<Rightarrow> fworld \<Rightarrow> (verdict \<times> flt \<times> fworld) res" where
  "flt_process_ev fs FltChat ev w = rbind (chat_process_ev ev w) (\<lambda>(v, w'). Inr (v, FltChat, w'))"
| "flt_process_ev fs (FltLoot l) ev w =
     rbind (loot_process_ev fs l ev w) (\<lambda>(v, l', w'). Inr (v, FltLoot l', w'))"
| "flt_process_ev fs FltDebug ev w = rbind (debug_process_ev ev w) (\<lambda>(v, w'). Inr (v, FltDebug, w'))"

fun flt_save :: "flt \<Rightarrow> rfx_state \<Rightarrow> rfx_state res" where
  "flt_save (FltLoot l) s = loot_state_save l s"
| "flt_save _ s = Inr s"

fun flt_load :: "flt \<Rightarrow> rfx_state \<Rightarrow> (bool \<times> flt \<times> rfx_state) res" where
  "flt_load (FltLoot l) s = rbind (loot_state_restore l s) (\<lambda>(ok, l', s'). Inr (ok, FltLoot l', s'))"
| "flt_load f s = Inr (True, f, s)"

fun flt_ok :: "flt \<Rightarrow> bool" where
  "flt_ok (FltLoot l) = loot_ok l"
| "flt_ok _ = True"

section \<open>The contract\<close>

text \<open>
  \<open>fw_ok p oth held n w\<close>: while packet \<open>p\<close> is processed, the packets held are those of \<open>oth\<close> (the
  rest of the program), \<open>p\<close> itself, the new packets before and after it, and \<open>p\<close> once more for each
  event that has it as its source; \<open>held\<close> is the reference of the event in hand, and \<open>n\<close> bounds the
  number of references events have.
\<close>

definition ev_hold :: "evqhead \<Rightarrow> addr multiset" where
  "ev_hold q = (\<Sum>e \<leftarrow> q. opt_hold (ev_source e))"

lemma ev_hold_simps [simp]:
  "ev_hold [] = {#}" "ev_hold (e # q) = opt_hold (ev_source e) + ev_hold q"
  "ev_hold (q @ r) = ev_hold q + ev_hold r"
  by (simp_all add: ev_hold_def)

definition fw_ok :: "addr \<Rightarrow> addr multiset \<Rightarrow> addr multiset \<Rightarrow> nat \<Rightarrow> fworld \<Rightarrow> bool" where
  "fw_ok p oth held n w \<longleftrightarrow>
     ledger (fw_store w) (add_mset p (oth + held + mset (fw_pre w @ fw_post w) + ev_hold (fw_evq w))) \<and>
     distinct (fw_pre w @ fw_post w) \<and> p \<notin># oth \<and>
     (\<forall>q \<in> set (fw_pre w @ fw_post w). q \<noteq> p \<and> q \<notin># oth) \<and>
     set_mset (held + ev_hold (fw_evq w)) \<subseteq> {p} \<and> size (held + ev_hold (fw_evq w)) \<le> n"

definition fw_stays :: "addr \<Rightarrow> fworld \<Rightarrow> fworld \<Rightarrow> bool" where
  "fw_stays p w w' \<longleftrightarrow> touched {p} (fw_store w) (fw_store w')"

text \<open>
  What an event may do: the references stay, and at most one reply is added, none in answer to a reply.
\<close>

definition ev_stays :: "addr \<Rightarrow> addr multiset \<Rightarrow> rfx_chat_event \<Rightarrow> nat \<Rightarrow> fworld \<Rightarrow> fworld \<Rightarrow> bool" where
  "ev_stays p oth ev n w w' \<longleftrightarrow> fw_ok p oth (opt_hold (ev_source ev)) n w' \<and> fw_stays p w w' \<and>
     (\<exists>new. fw_evq w' = fw_evq w @ new \<and> length new \<le> 1 \<and> (\<forall>e \<in> set new. ev_what e = RFXEV_SEND_REPLY) \<and>
        (ev_what ev = RFXEV_SEND_REPLY \<longrightarrow> new = []))"

locale event_filter =
  fixes process_pkt :: "'f \<Rightarrow> addr \<Rightarrow> fworld \<Rightarrow> (verdict \<times> 'f \<times> fworld) res"
    and process_ev :: "'f \<Rightarrow> rfx_chat_event \<Rightarrow> fworld \<Rightarrow> (verdict \<times> 'f \<times> fworld) res"
    and finv :: "'f \<Rightarrow> bool"
  assumes pkt_law: "\<lbrakk>finv f; fw_ok p oth {#} n w; n < 2 ^ 31\<rbrakk> \<Longrightarrow>
      process_pkt f p w = Inl OutOfBounds \<or>
      (\<exists>v f' w'. process_pkt f p w = Inr (v, f', w') \<and> finv f' \<and> fw_ok p oth {#} (Suc n) w' \<and> fw_stays p w w')"
    and ev_law: "\<lbrakk>finv f; fw_ok p oth (opt_hold (ev_source ev)) n w\<rbrakk> \<Longrightarrow>
      \<exists>v f' w'. process_ev f ev w = Inr (v, f', w') \<and> finv f' \<and> ev_stays p oth ev n w w'"

locale reloadable_filter = event_filter process_pkt process_ev finv
  for process_pkt :: "'f \<Rightarrow> addr \<Rightarrow> fworld \<Rightarrow> (verdict \<times> 'f \<times> fworld) res"
    and process_ev :: "'f \<Rightarrow> rfx_chat_event \<Rightarrow> fworld \<Rightarrow> (verdict \<times> 'f \<times> fworld) res"
    and finv :: "'f \<Rightarrow> bool" +
  fixes new_filter :: "'k \<Rightarrow> 'f" and kind_of :: "'f \<Rightarrow> 'k"
    and save_state :: "'f \<Rightarrow> rfx_state \<Rightarrow> rfx_state res"
    and load_state :: "'f \<Rightarrow> rfx_state \<Rightarrow> (bool \<times> 'f \<times> rfx_state) res"
  assumes new_ok: "finv (new_filter k)"
    and reload_law: "finv f \<Longrightarrow>
      \<exists>s s'. save_state f (rfx_state_new 0) = Inr s \<and> rs_wf s \<and> load_state (new_filter (kind_of f)) s = Inr (True, f, s')"
    and load_law: "finv f \<Longrightarrow> rs_wf s \<Longrightarrow> \<exists>ok f' s'. load_state f s = Inr (ok, f', s') \<and> finv f'"

section \<open>The plug-ins keep it\<close>

lemma fw_ok_source: "fw_ok p oth held n w \<Longrightarrow> p \<in># add_mset p (oth + held + mset (fw_pre w @ fw_post w) + ev_hold (fw_evq w))"
  by simp

lemma fw_stays_refl [simp]: "fw_stays p w w"
  by (simp add: fw_stays_def)

lemma fw_stays_trans: "fw_stays p w w1 \<Longrightarrow> fw_stays p w1 w2 \<Longrightarrow> fw_stays p w w2"
  unfolding fw_stays_def by (rule touched_trans) auto

lemma fw_ok_mono: "fw_ok p oth held n w \<Longrightarrow> n \<le> n' \<Longrightarrow> fw_ok p oth held n' w"
  by (auto simp: fw_ok_def)

text \<open>A change of the flags or the description of the packet.\<close>

lemma fw_modify_ok:
  assumes "fw_ok p oth held n w"
    and "\<And>pk. p_refc (f pk) = p_refc pk \<and> p_len (f pk) = p_len pk \<and> p_dir (f pk) = p_dir pk \<and> p_data (f pk) = p_data pk"
  obtains w' where "fw_modify f p w = Inr w'" "fw_ok p oth held n w'" "fw_stays p w w'" "fw_evq w' = fw_evq w"
proof -
  have led: "ledger (fw_store w) (add_mset p (oth + held + mset (fw_pre w @ fw_post w) + ev_hold (fw_evq w)))"
    using assms(1) by (simp add: fw_ok_def)
  obtain st where st: "pkt_modify f p (fw_store w) = Inr st"
    "ledger st (add_mset p (oth + held + mset (fw_pre w @ fw_post w) + ev_hold (fw_evq w)))"
    "touched {p} (fw_store w) st"
    by (rule ledger_modify [OF led, of p f]) (use assms(2) in auto)
  then show thesis
    using that [of "w\<lparr>fw_store := st\<rparr>"] assms(1) by (auto simp: fw_modify_def fw_ok_def fw_stays_def)
qed

lemma fw_get:
  assumes "fw_ok p oth held n w"
  obtains pk where "pkts (fw_store w) p = Some pk" "pkt_wf pk"
proof -
  have "ledger (fw_store w) (add_mset p (oth + held + mset (fw_pre w @ fw_post w) + ev_hold (fw_evq w)))"
    using assms by (simp add: fw_ok_def)
  then show thesis by (rule ledger_get [where p = p]) (use that in auto)
qed

text \<open>A new event on the packet.\<close>

lemma fw_event_ok:
  assumes "fw_ok p oth {#} n w" and "n < 2 ^ 31"
  obtains st ev where "chat_event_new code nick msg (Some p) (fw_store w) = Inr (st, ev)"
    "fw_ok p oth {#} (Suc n) (w\<lparr>fw_store := st, fw_evq := evq_push_back (fw_evq w) ev\<rparr>)"
    "touched {p} (fw_store w) st" "ev_source ev = Some p" "ev_what ev = code"
proof -
  let ?hs = "add_mset p (oth + mset (fw_pre w @ fw_post w) + ev_hold (fw_evq w))"
  have led: "ledger (fw_store w) ?hs" and ev: "set_mset (ev_hold (fw_evq w)) \<subseteq> {p}" "size (ev_hold (fw_evq w)) \<le> n"
    using assms(1) by (simp_all add: fw_ok_def)
  have "count (ev_hold (fw_evq w)) p \<le> n"
    using ev(2) count_le_size [of "ev_hold (fw_evq w)" p] by linarith
  moreover have "count oth p = 0" "count (mset (fw_pre w @ fw_post w)) p = 0"
    using assms(1) by (auto simp: fw_ok_def count_eq_zero_iff)
  ultimately have "count ?hs p \<le> Suc n" by (simp add: not_in_iff [THEN iffD1])
  then have "count ?hs p < 2 ^ 32 - 1" using assms(2) by simp
  then obtain st where st: "pkt_ref p (fw_store w) = Inr st" "ledger st (add_mset p ?hs)" "touched {p} (fw_store w) st"
    using ledger_ref [OF led, of p] by auto
  then show thesis
    using that assms(1) by (simp add: chat_event_new_def fw_ok_def evq_push_back_def)
qed

lemma scan_while_fault: "scan_while P data e p = Inl x \<Longrightarrow> x = OutOfBounds"
  by (induction P data e p rule: scan_while.induct) (subst (asm) scan_while.simps, auto simp: rbind_eq_Inl peek_def split: if_splits)

lemma scan_sep_fault: "scan_sep data e p = Inl x \<Longrightarrow> x = OutOfBounds"
  by (induction data e p rule: scan_sep.induct) (subst (asm) scan_sep.simps, auto simp: rbind_eq_Inl peek_def split: if_splits)

lemma chat_parse_fault: "chat_parse data e nick = Inl x \<Longrightarrow> x = OutOfBounds"
  by (auto simp: chat_parse_def rbind_eq_Inl peek_def cstr_at_def split: if_splits option.splits
      dest: scan_while_fault scan_sep_fault)

lemma chat_event_of_ok:
  assumes "fw_ok p oth {#} n w" and "n < 2 ^ 31"
  shows "chat_event_of code nick p w = Inl OutOfBounds \<or>
    (\<exists>w'. chat_event_of code nick p w = Inr w' \<and> fw_ok p oth {#} (Suc n) w' \<and> fw_stays p w w')"
proof -
  obtain pk where pk: "pkts (fw_store w) p = Some pk" by (rule fw_get [OF assms(1)])
  show ?thesis
  proof (cases "chat_parse (p_data pk) (unat (p_len pk)) nick")
    case (Inl e)
    then show ?thesis using pk chat_parse_fault [OF Inl] by (simp add: chat_event_of_def)
  next
    case (Inr out)
    show ?thesis
    proof (cases out)
      case None
      obtain w' where "fw_modify (\<lambda>pk. pk\<lparr>p_desc := Some ''UNKNOWN CHAT MESSAGE'', p_show := True\<rparr>) p w = Inr w'"
        "fw_ok p oth {#} n w'" "fw_stays p w w'"
        by (rule fw_modify_ok [OF assms(1),
            where f = "\<lambda>pk. pk\<lparr>p_desc := Some ''UNKNOWN CHAT MESSAGE'', p_show := True\<rparr>"]) auto
      then show ?thesis
        using pk Inr None fw_ok_mono [of p oth "{#}" n w' "Suc n"] by (simp add: chat_event_of_def)
    next
      case (Some nm)
      obtain a m where nm: "nm = (a, m)" by fastforce
      obtain st ev where ev: "chat_event_new code a m (Some p) (fw_store w) = Inr (st, ev)"
        "fw_ok p oth {#} (Suc n) (w\<lparr>fw_store := st, fw_evq := evq_push_back (fw_evq w) ev\<rparr>)"
        "touched {p} (fw_store w) st"
        by (rule fw_event_ok [OF assms])
      obtain w' where w': "fw_modify (\<lambda>pk. pk\<lparr>p_show := True\<rparr>) p
          (w\<lparr>fw_store := st, fw_evq := evq_push_back (fw_evq w) ev\<rparr>) = Inr w'"
        "fw_ok p oth {#} (Suc n) w'" "fw_stays p (w\<lparr>fw_store := st, fw_evq := evq_push_back (fw_evq w) ev\<rparr>) w'"
        by (rule fw_modify_ok [OF ev(2), where f = "\<lambda>pk. pk\<lparr>p_show := True\<rparr>"]) auto
      have "fw_stays p w w'"
        by (rule fw_stays_trans [OF _ w'(3)]) (use ev(3) in \<open>simp add: fw_stays_def\<close>)
      then show ?thesis
        using pk Inr Some nm ev(1) w' by (simp add: chat_event_of_def)
    qed
  qed
qed

text \<open>\<open>pkt_stays p oth n w R\<close>: what the contract allows as the result of processing a packet.\<close>

definition pkt_stays :: "addr \<Rightarrow> addr multiset \<Rightarrow> nat \<Rightarrow> fworld \<Rightarrow> fworld res \<Rightarrow> bool" where
  "pkt_stays p oth n w R \<longleftrightarrow>
     R = Inl OutOfBounds \<or> (\<exists>w'. R = Inr w' \<and> fw_ok p oth {#} n w' \<and> fw_stays p w w')"

lemma pkt_stays_modify:
  assumes "fw_ok p oth {#} n w"
    and "\<And>pk. p_refc (f pk) = p_refc pk \<and> p_len (f pk) = p_len pk \<and> p_dir (f pk) = p_dir pk \<and> p_data (f pk) = p_data pk"
  shows "pkt_stays p oth (Suc n) w (fw_modify f p w)"
  by (rule fw_modify_ok [OF assms]) (auto simp: pkt_stays_def intro: fw_ok_mono)

lemma pkt_stays_event:
  "fw_ok p oth {#} n w \<Longrightarrow> n < 2 ^ 31 \<Longrightarrow> pkt_stays p oth (Suc n) w (chat_event_of code nick p w)"
  using chat_event_of_ok by (simp add: pkt_stays_def)

lemma pkt_stays_skip: "fw_ok p oth {#} n w \<Longrightarrow> pkt_stays p oth (Suc n) w (Inr w)"
  by (auto simp: pkt_stays_def intro: fw_ok_mono)

lemma pkt_stays_desc_event:
  assumes "fw_ok p oth {#} n w" and "n < 2 ^ 31"
  shows "pkt_stays p oth (Suc n) w
    (rbind (fw_modify (\<lambda>pk. pk\<lparr>p_desc := d\<rparr>) p w) (chat_event_of code nick p))"
proof -
  obtain w1 where w1: "fw_modify (\<lambda>pk. pk\<lparr>p_desc := d\<rparr>) p w = Inr w1" "fw_ok p oth {#} n w1" "fw_stays p w w1"
    by (rule fw_modify_ok [OF assms(1), where f = "\<lambda>pk. pk\<lparr>p_desc := d\<rparr>"]) auto
  show ?thesis
    using pkt_stays_event [OF w1(2) assms(2), of code nick] w1(1,3) fw_stays_trans
    by (auto simp: pkt_stays_def)
qed

lemma chat_process_pkt_ok:
  assumes "fw_ok p oth {#} n w" and "n < 2 ^ 31"
  shows "\<exists>R. chat_process_pkt p w = rbind R (\<lambda>w'. Inr (RFX_DECLINE, w')) \<and> pkt_stays p oth (Suc n) w R"
proof -
  obtain pk where pk: "pkts (fw_store w) p = Some pk" by (rule fw_get [OF assms(1)])
  have "pkt_stays p oth (Suc n) w (fw_modify (\<lambda>pk. pk\<lparr>p_desc := Some ''incoming chat message''\<rparr>) p w)"
    by (rule pkt_stays_modify [OF assms(1)]) simp
  note steps = this pkt_stays_desc_event [OF assms] pkt_stays_skip [OF assms(1)]
  show ?thesis
    unfolding chat_process_pkt_def pkt_get_Some [OF pk] rbind_Inr
    by (rule exI, rule conjI, rule refl) (use steps in auto)
qed

lemma loot_hide_ok:
  assumes "fw_ok p oth {#} n w"
  shows "pkt_stays p oth (Suc n) w (loot_hide l p d w)"
proof -
  obtain pk where pk: "pkts (fw_store w) p = Some pk" by (rule fw_get [OF assms(1)])
  have "pkt_stays p oth (Suc n) w (fw_modify (\<lambda>pk. pk\<lparr>p_desc := Some d,
      p_drop := \<not> loot_mask_test (lm_show l) (get_int16 b0 b1)\<rparr>) p w)" for b0 b1
    by (rule pkt_stays_modify [OF assms]) simp
  then show ?thesis
    using pk by (cases "4 < length (p_data pk)"; cases "5 < length (p_data pk)")
      (simp_all add: loot_hide_def pkt_stays_def)
qed

lemma loot_process_pkt_ok:
  assumes "fw_ok p oth {#} n w"
  shows "\<exists>R. loot_process_pkt l p w = rbind R (\<lambda>w'. Inr (RFX_DECLINE, l, w')) \<and> pkt_stays p oth (Suc n) w R"
proof -
  obtain pk where pk: "pkts (fw_store w) p = Some pk" by (rule fw_get [OF assms(1)])
  have "pkt_stays p oth (Suc n) w (fw_modify (\<lambda>pk. pk\<lparr>p_desc := Some ''loot disappear'', p_show := True\<rparr>) p w)"
    by (rule pkt_stays_modify [OF assms(1)]) simp
  note steps = this loot_hide_ok [OF assms] pkt_stays_skip [OF assms]
  show ?thesis
    unfolding loot_process_pkt_def pkt_get_Some [OF pk] rbind_Inr
    by (rule exI, rule conjI, rule refl) (use steps in auto)
qed

lemma flt_pkt_law:
  assumes "flt_ok f" and "fw_ok p oth {#} n w" and "n < 2 ^ 31"
  shows "flt_process_pkt f p w = Inl OutOfBounds \<or>
    (\<exists>v f' w'. flt_process_pkt f p w = Inr (v, f', w') \<and> flt_ok f' \<and> fw_ok p oth {#} (Suc n) w' \<and> fw_stays p w w')"
proof (cases f)
  case FltChat
  then show ?thesis using chat_process_pkt_ok [OF assms(2,3)] by (auto simp: pkt_stays_def)
next
  case (FltLoot l)
  then show ?thesis using loot_process_pkt_ok [OF assms(2), of l] assms(1) by (auto simp: pkt_stays_def)
next
  case FltDebug
  then show ?thesis using fw_ok_mono [OF assms(2)] by (simp add: debug_process_pkt_def)
qed

text \<open>Answers to events.\<close>

lemma chat_process_ev_ok:
  assumes "fw_ok p oth (opt_hold (ev_source ev)) n w"
  shows "\<exists>v w'. chat_process_ev ev w = Inr (v, w') \<and> ev_stays p oth ev n w w'"
proof (cases "ev_what ev = RFXEV_SEND_REPLY")
  case False
  then show ?thesis using assms by (simp add: chat_process_ev_def ev_stays_def)
next
  case True
  let ?st = "fw_store w"
  let ?hs = "add_mset p (oth + opt_hold (ev_source ev) + mset (fw_pre w @ fw_post w) + ev_hold (fw_evq w))"
  have led: "ledger ?st ?hs" using assms by (simp add: fw_ok_def)
  obtain pk where r: "chat_process_ev ev w = Inr (RFX_BREAK, w\<lparr>fw_store := \<lparr>pkts = (pkts ?st)(brk ?st \<mapsto> pk),
        brk = Suc (brk ?st)\<rparr>, fw_post := fw_post w @ [brk ?st]\<rparr>)"
    "p_data pk = chat_reply_bytes (ev_nick ev) (ev_msg ev)" "unat (p_len pk) = length (p_data pk)" "p_refc pk = 1"
    using chat_process_ev_reply [OF True ledger_store_ok [OF led]] by auto
  define st' where "st' = \<lparr>pkts = (pkts ?st)(brk ?st \<mapsto> pk), brk = Suc (brk ?st)\<rparr>"
  have "pkt_wf pk" using r(2,3) by (simp add: pkt_wf_def chat_reply_bytes_def Let_def)
  moreover have "st' = ?st\<lparr>pkts := (pkts ?st)(brk ?st \<mapsto> pk), brk := Suc (brk ?st)\<rparr>" by (simp add: st'_def)
  ultimately have new: "ledger st' (add_mset (brk ?st) ?hs)" "touched {p} ?st st'" "count ?hs (brk ?st) = 0"
    using ledger_add [OF led r(4)] by auto
  have "brk ?st \<notin> set (fw_pre w @ fw_post w)" "brk ?st \<noteq> p" "brk ?st \<notin># oth"
    using new(3) by (auto simp: count_eq_zero_iff split: if_splits)
  moreover have "ledger st' (add_mset p (oth + opt_hold (ev_source ev) + mset (fw_pre w @ fw_post w @ [brk ?st]) + ev_hold (fw_evq w)))"
    by (rule ledger_cong [OF new(1)]) simp
  ultimately have "fw_ok p oth (opt_hold (ev_source ev)) n (w\<lparr>fw_store := st', fw_post := fw_post w @ [brk ?st]\<rparr>)"
    using assms by (simp add: fw_ok_def)
  then show ?thesis
    using True r(1) new(2) unfolding st'_def [symmetric] by (simp add: ev_stays_def fw_stays_def)
qed

lemma on_source_ok:
  assumes "fw_ok p oth (opt_hold (ev_source ev)) n w"
    and "\<And>pk. p_refc (f pk) = p_refc pk \<and> p_len (f pk) = p_len pk \<and> p_dir (f pk) = p_dir pk \<and> p_data (f pk) = p_data pk"
  shows "\<exists>st. on_source f ev (fw_store w) = Inr st \<and> fw_ok p oth (opt_hold (ev_source ev)) n (w\<lparr>fw_store := st\<rparr>) \<and>
    touched {p} (fw_store w) st"
proof (cases "ev_source ev")
  case None
  then show ?thesis using assms(1) by (simp add: on_source_def)
next
  case (Some q)
  then have "q = p" using assms(1) by (auto simp: fw_ok_def)
  have led: "ledger (fw_store w) (add_mset p (oth + opt_hold (ev_source ev) + mset (fw_pre w @ fw_post w) + ev_hold (fw_evq w)))"
    using assms(1) by (simp add: fw_ok_def)
  obtain st where "pkt_modify f p (fw_store w) = Inr st"
    "ledger st (add_mset p (oth + opt_hold (ev_source ev) + mset (fw_pre w @ fw_post w) + ev_hold (fw_evq w)))"
    "touched {p} (fw_store w) st"
    by (rule ledger_modify [OF led, of p f]) (use assms(2) in auto)
  then show ?thesis
    using assms(1) Some \<open>q = p\<close> by (auto simp: on_source_def fw_ok_def)
qed

lemma loot_process_ev_ok:
  assumes "fw_ok p oth (opt_hold (ev_source ev)) n w" and "loot_ok l"
  shows "\<exists>v l' w'. loot_process_ev fs l ev w = Inr (v, l', w') \<and> loot_ok l' \<and> ev_stays p oth ev n w w'"
proof (cases "ev_what ev = RFXEV_PRIV_SENT \<and> ev_nick ev = asc ''loot''")
  case False
  then have "loot_process_ev fs l ev w = Inr (RFX_DECLINE, l, w)" by (auto simp: loot_process_ev_def)
  then show ?thesis using assms by (simp add: ev_stays_def)
next
  case True
  obtain reply l' where cmd: "loot_cmd fs (ev_msg ev) l = (reply, l')" by fastforce
  let ?e = "\<lparr>ev_source = None, ev_what = RFXEV_SEND_REPLY, ev_nick = ev_nick ev, ev_msg = reply\<rparr>"
  obtain st1 where st1: "drop_source ev (fw_store w) = Inr st1"
    "fw_ok p oth (opt_hold (ev_source ev)) n (w\<lparr>fw_store := st1\<rparr>)" "touched {p} (fw_store w) st1"
    using on_source_ok [OF assms(1), of "\<lambda>pk. pk\<lparr>p_drop := True\<rparr>"] by (auto simp: drop_source_def)
  obtain st2 where st2: "hide_source ev st1 = Inr st2"
    "fw_ok p oth (opt_hold (ev_source ev)) n (w\<lparr>fw_store := st2\<rparr>)" "touched {p} st1 st2"
    using on_source_ok [OF st1(2), of "\<lambda>pk. pk\<lparr>p_show := False\<rparr>"] by (auto simp: hide_source_def)
  have "touched {p} (fw_store w) st2" by (rule touched_trans [OF st1(3) st2(3)]) auto
  moreover have "fw_ok p oth (opt_hold (ev_source ev)) n (w\<lparr>fw_store := st2, fw_evq := fw_evq w @ [?e]\<rparr>)"
    using st2(2) by (simp add: fw_ok_def)
  moreover have "loot_ok l'" using loot_cmd_ok [OF assms(2), of fs "ev_msg ev"] cmd by simp
  moreover have "ev_what ev \<noteq> RFXEV_SEND_REPLY" using True by simp
  ultimately show ?thesis
    using True cmd st1(1) st2(1)
    by (simp add: loot_process_ev_def chat_event_new_def evq_push_back_def ev_stays_def fw_stays_def)
qed

lemma flt_ev_law:
  assumes "flt_ok f" and "fw_ok p oth (opt_hold (ev_source ev)) n w"
  shows "\<exists>v f' w'. flt_process_ev fs f ev w = Inr (v, f', w') \<and> flt_ok f' \<and> ev_stays p oth ev n w w'"
proof (cases f)
  case FltChat
  then show ?thesis using chat_process_ev_ok [OF assms(2)] by auto
next
  case (FltLoot l)
  then show ?thesis using loot_process_ev_ok [OF assms(2), of l fs] assms(1) by auto
next
  case FltDebug
  then show ?thesis using assms(2) by (simp add: debug_process_ev_def ev_stays_def)
qed

text \<open>A state written by another filter is read without a fault.\<close>

lemma loot_state_restore_any:
  assumes "loot_ok l" and "rs_wf s"
  shows "\<exists>ok l' s'. loot_state_restore l s = Inr (ok, l', s') \<and> loot_ok l'"
proof -
  have small: "length (lm_show l) < 2 ^ 32" "length (lm_pick l) < 2 ^ 32"
    using assms(1) by (simp_all add: loot_ok_def mask_ok_def MASK_SZ_def)
  obtain n m s1 where 1: "rfx_state_read (lm_show l) s = Inr (n, m, s1)" "length m = length (lm_show l)" "rs_wf s1"
    by (rule rfx_state_read_total [OF assms(2) small(1)])
  obtain n' m' s2 where 2: "rfx_state_read (lm_pick l) s1 = Inr (n', m', s2)" "length m' = length (lm_pick l)" "rs_wf s2"
    by (rule rfx_state_read_total [OF 1(3) small(2)])
  show ?thesis
    using assms(1) 1 2
    by (auto simp: loot_state_restore_def loot_mask_restore_def loot_ok_def mask_ok_def intro: exI [of _ False])
qed

interpretation plugins: reloadable_filter flt_process_pkt "flt_process_ev fs" flt_ok flt_new flt_kind_of flt_save flt_load
  for fs
proof unfold_locales
  show "flt_ok (flt_new k)" for k
    by (cases k) (simp_all add: loot_state_new_ok)
  show "\<exists>s s'. flt_save f (rfx_state_new 0) = Inr s \<and> rs_wf s \<and> flt_load (flt_new (flt_kind_of f)) s = Inr (True, f, s')"
    if "flt_ok f" for f
    using that loot_state_restore_save [OF _ loot_state_new_ok, where v = 0] by (cases f) fastforce+
  show "\<exists>ok f' s'. flt_load f s = Inr (ok, f', s') \<and> flt_ok f'" if "flt_ok f" "rs_wf s" for f s
    using that loot_state_restore_any [of _ s] by (cases f) fastforce+
qed (use flt_pkt_law flt_ev_law in blast)+

end
