(* ===== verification/Chain.thy ===== *)
theory Chain
  imports Filters
begin

text \<open>
  Filter chains: \<open>rfx_instance\<close> and \<open>rfx_filter_chain\<close> of \<^verbatim>\<open>main.cpp\<close>. Instances live in a table of
  their own (\<open>insts\<close>, the C++ heap of instances); a chain is the list of its instances. The virtual
  functions are arguments; inside the locale \<open>event_filter\<close> the chain is shown to keep the ledger, and
  the loop over the events to end with the queue empty.
\<close>

type_synonym iid = nat

record 'f rfx_instance =
  ri_st :: "rfx_state option"
  ri_flt :: "'f option"
  ri_flt_new :: "'f option"
  ri_module :: nat
  ri_chain :: "nat option"

type_synonym 'f insts = "iid \<rightharpoonup> 'f rfx_instance"
type_synonym 'f pkt_proc = "'f \<Rightarrow> addr \<Rightarrow> fworld \<Rightarrow> (verdict \<times> 'f \<times> fworld) res"
type_synonym 'f ev_proc = "'f \<Rightarrow> rfx_chat_event \<Rightarrow> fworld \<Rightarrow> (verdict \<times> 'f \<times> fworld) res"

section \<open>Processing\<close>

fun chain_pkt :: "'f pkt_proc \<Rightarrow> iid list \<Rightarrow> addr \<Rightarrow> 'f insts \<Rightarrow> fworld \<Rightarrow> ('f insts \<times> fworld) res" where
  "chain_pkt pp [] p h w = Inr (h, w)"
| "chain_pkt pp (i # ch) p h w =
     rbind (deref h i) (\<lambda>ri.
       case ri_flt ri of None \<Rightarrow> chain_pkt pp ch p h w
       | Some f \<Rightarrow> rbind (pp f p w) (\<lambda>(v, f', w').
           let h' = h(i \<mapsto> ri\<lparr>ri_flt := Some f'\<rparr>)
           in if v = RFX_BREAK then Inr (h', w') else chain_pkt pp ch p h' w'))"

fun chain_ev :: "'f ev_proc \<Rightarrow> iid list \<Rightarrow> rfx_chat_event \<Rightarrow> 'f insts \<Rightarrow> fworld \<Rightarrow> ('f insts \<times> fworld) res" where
  "chain_ev pe [] ev h w = Inr (h, w)"
| "chain_ev pe (i # ch) ev h w =
     rbind (deref h i) (\<lambda>ri.
       case ri_flt ri of None \<Rightarrow> chain_ev pe ch ev h w
       | Some f \<Rightarrow> rbind (pe f ev w) (\<lambda>(v, f', w').
           let h' = h(i \<mapsto> ri\<lparr>ri_flt := Some f'\<rparr>)
           in if v = RFX_BREAK then Inr (h', w') else chain_ev pe ch ev h' w'))"

text \<open>
  \<open>while ((ev = evq->pop_front()))\<close>: it ends only if the filters stop firing events, so the result
  is an option.
\<close>

partial_function (option) chain_evs ::
    "'f ev_proc \<Rightarrow> iid list \<Rightarrow> 'f insts \<Rightarrow> fworld \<Rightarrow> ('f insts \<times> fworld) res option" where
  "chain_evs pe ch h w =
     (case evq_pop_front (fw_evq w) of
        (None, q) \<Rightarrow> Some (Inr (h, w))
      | (Some ev, q) \<Rightarrow>
          (case chain_ev pe ch ev h (w\<lparr>fw_evq := q\<rparr>) of
             Inl e \<Rightarrow> Some (Inl e)
           | Inr (h', w') \<Rightarrow>
               (case event_delete ev (fw_store w') of
                  Inl e \<Rightarrow> Some (Inl e)
                | Inr st \<Rightarrow> chain_evs pe ch h' (w'\<lparr>fw_store := st\<rparr>))))"

lemma chain_evs_empty: "fw_evq w = [] \<Longrightarrow> chain_evs pe ch h w = Some (Inr (h, w))"
  by (subst chain_evs.simps) (simp add: evq_pop_front_def)

lemma chain_evs_Cons:
  "fw_evq w = ev # q \<Longrightarrow> chain_evs pe ch h w =
     (case chain_ev pe ch ev h (w\<lparr>fw_evq := q\<rparr>) of
        Inl e \<Rightarrow> Some (Inl e)
      | Inr (h', w') \<Rightarrow> (case event_delete ev (fw_store w') of
            Inl e \<Rightarrow> Some (Inl e) | Inr st \<Rightarrow> chain_evs pe ch h' (w'\<lparr>fw_store := st\<rparr>)))"
  by (subst chain_evs.simps) (simp add: evq_pop_front_def)

section \<open>Instances\<close>

definition insts_ok :: "('f \<Rightarrow> bool) \<Rightarrow> 'f insts \<Rightarrow> bool" where
  "insts_ok finv h \<longleftrightarrow> (\<forall>i ri f. h i = Some ri \<longrightarrow> ri_flt ri = Some f \<longrightarrow> finv f) \<and>
     (\<forall>i ri s. h i = Some ri \<longrightarrow> ri_st ri = Some s \<longrightarrow> rs_wf s)"

definition chain_ok :: "('f \<Rightarrow> bool) \<Rightarrow> iid list \<Rightarrow> 'f insts \<Rightarrow> bool" where
  "chain_ok finv ch h \<longleftrightarrow> insts_ok finv h \<and> (\<forall>i \<in> set ch. h i \<noteq> None)"

definition bare :: "'f rfx_instance \<Rightarrow> 'f rfx_instance" where
  "bare ri = ri\<lparr>ri_flt := None\<rparr>"

text \<open>Only the filters of the instances of \<open>ch\<close> change.\<close>

definition insts_stay :: "iid list \<Rightarrow> 'f insts \<Rightarrow> 'f insts \<Rightarrow> bool" where
  "insts_stay ch h h' \<longleftrightarrow> (\<forall>i. i \<notin> set ch \<longrightarrow> h' i = h i) \<and>
     (\<forall>i. map_option bare (h' i) = map_option bare (h i))"

lemma insts_stay_refl [simp]: "insts_stay ch h h"
  by (simp add: insts_stay_def)

lemma insts_stay_trans: "insts_stay ch h h1 \<Longrightarrow> insts_stay ch h1 h2 \<Longrightarrow> insts_stay ch h h2"
  by (simp add: insts_stay_def)

lemma insts_stay_mono: "insts_stay ch h h' \<Longrightarrow> set ch \<subseteq> set ch' \<Longrightarrow> insts_stay ch' h h'"
  by (auto simp: insts_stay_def)

lemma insts_stay_dom: "insts_stay ch h h' \<Longrightarrow> h' i = None \<longleftrightarrow> h i = None"
  unfolding insts_stay_def by (metis map_option_is_None)

lemma insts_stay_upd: "h i = Some ri \<Longrightarrow> i \<in> set ch \<Longrightarrow> insts_stay ch h (h(i \<mapsto> ri\<lparr>ri_flt := f\<rparr>))"
  by (auto simp: insts_stay_def bare_def)

lemma chain_ok_upd:
  "chain_ok finv ch h \<Longrightarrow> h i = Some ri \<Longrightarrow> finv f \<Longrightarrow> chain_ok finv ch (h(i \<mapsto> ri\<lparr>ri_flt := Some f\<rparr>))"
  by (auto simp: chain_ok_def insts_ok_def)

lemma chain_ok_Cons: "chain_ok finv (i # ch) h \<Longrightarrow> chain_ok finv ch h \<and> h i \<noteq> None"
  by (simp add: chain_ok_def)

section \<open>The contract of the chain\<close>

definition ev_weight :: "nat \<Rightarrow> rfx_chat_event \<Rightarrow> nat" where
  "ev_weight n e = (if ev_what e = RFXEV_SEND_REPLY then 1 else Suc n)"

definition evs_weight :: "nat \<Rightarrow> evqhead \<Rightarrow> nat" where
  "evs_weight n q = sum_list (map (ev_weight n) q)"

lemma evs_weight_replies:
  "\<forall>e \<in> set q. ev_what e = RFXEV_SEND_REPLY \<Longrightarrow> evs_weight n q = length q"
  by (induction q) (simp_all add: evs_weight_def ev_weight_def)

lemma chain_stays_Cons:
  assumes "chain_ok finv (i # ch) h" and "insts_stay (i # ch) h h1" and "chain_ok finv ch h'" and "insts_stay ch h1 h'"
  shows "chain_ok finv (i # ch) h' \<and> insts_stay (i # ch) h h'"
proof -
  have st: "insts_stay (i # ch) h h'"
    using insts_stay_trans [OF assms(2)] insts_stay_mono [OF assms(4), of "i # ch"] by auto
  moreover have "h' i \<noteq> None" using insts_stay_dom [OF st, of i] assms(1) by (simp add: chain_ok_def)
  ultimately show ?thesis using assms(3) by (simp add: chain_ok_def)
qed

text \<open>The filter of the first instance has run and is stored back.\<close>

lemma chain_stays_upd:
  assumes "chain_ok finv (i # ch) h" and "h i = Some ri" and "finv f"
  shows "chain_ok finv (i # ch) (h(i \<mapsto> ri\<lparr>ri_flt := Some f\<rparr>)) \<and> insts_stay (i # ch) h (h(i \<mapsto> ri\<lparr>ri_flt := Some f\<rparr>))"
  using chain_ok_upd [OF assms] insts_stay_upd [where ch = "i # ch" and h = h, OF assms(2)] by simp

lemma event_delete_ok:
  assumes "fw_ok p oth (opt_hold (ev_source ev)) n w"
  shows "\<exists>st. event_delete ev (fw_store w) = Inr st \<and> fw_ok p oth {#} n (w\<lparr>fw_store := st\<rparr>) \<and>
    touched {p} (fw_store w) st"
proof (cases "ev_source ev")
  case None
  then show ?thesis using assms by (simp add: event_delete_def)
next
  case (Some q)
  then have q: "q = p" using assms by (auto simp: fw_ok_def)
  have "ledger (fw_store w) (add_mset p (add_mset p (oth + mset (fw_pre w @ fw_post w) + ev_hold (fw_evq w))))"
    using assms Some q by (simp add: fw_ok_def)
  then obtain st where "pkt_unref p (fw_store w) = Inr st"
    "ledger st (add_mset p (oth + mset (fw_pre w @ fw_post w) + ev_hold (fw_evq w)))" "touched {p} (fw_store w) st"
    by (rule ledger_unref)
  then show ?thesis using assms Some q by (simp add: event_delete_def fw_ok_def)
qed

text \<open>\<open>ev_adds k\<close>: handling an event has added at most \<open>k\<close> replies to the queue of events.\<close>

definition ev_adds :: "nat \<Rightarrow> addr \<Rightarrow> addr multiset \<Rightarrow> rfx_chat_event \<Rightarrow> nat \<Rightarrow> fworld \<Rightarrow> fworld \<Rightarrow> bool" where
  "ev_adds k p oth ev n w w' \<longleftrightarrow> fw_ok p oth (opt_hold (ev_source ev)) n w' \<and> fw_stays p w w' \<and>
     (\<exists>new. fw_evq w' = fw_evq w @ new \<and> length new \<le> k \<and> (\<forall>e \<in> set new. ev_what e = RFXEV_SEND_REPLY) \<and>
        (ev_what ev = RFXEV_SEND_REPLY \<longrightarrow> new = []))"

lemma ev_stays_adds: "ev_stays p oth ev n w w' = ev_adds 1 p oth ev n w w'"
  by (simp add: ev_stays_def ev_adds_def)

lemma ev_adds_mono: "ev_adds k p oth ev n w w' \<Longrightarrow> k \<le> k' \<Longrightarrow> ev_adds k' p oth ev n w w'"
  unfolding ev_adds_def by (elim conjE exE) (intro conjI exI; auto)

lemma ev_adds_trans:
  assumes "ev_adds j p oth ev n w w1" and "ev_adds k p oth ev n w1 w2"
  shows "ev_adds (j + k) p oth ev n w w2"
proof -
  obtain new where a: "fw_evq w1 = fw_evq w @ new" "length new \<le> j" "\<forall>e \<in> set new. ev_what e = RFXEV_SEND_REPLY"
    "ev_what ev = RFXEV_SEND_REPLY \<longrightarrow> new = []" "fw_stays p w w1"
    using assms(1) unfolding ev_adds_def by (elim conjE exE) (rule that)
  obtain new' where b: "fw_evq w2 = fw_evq w1 @ new'" "length new' \<le> k" "\<forall>e \<in> set new'. ev_what e = RFXEV_SEND_REPLY"
    "ev_what ev = RFXEV_SEND_REPLY \<longrightarrow> new' = []" "fw_stays p w1 w2"
    using assms(2) unfolding ev_adds_def by (elim conjE exE) (rule that)
  have ok: "fw_ok p oth (opt_hold (ev_source ev)) n w2" using assms(2) unfolding ev_adds_def by (rule conjunct1)
  have "\<forall>e \<in> set (new @ new'). ev_what e = RFXEV_SEND_REPLY"
    unfolding set_append ball_Un using a(3) b(3) by (rule conjI)
  then show ?thesis
    unfolding ev_adds_def
  proof (intro conjI exI [of _ "new @ new'"])
    show "fw_evq w2 = fw_evq w @ new @ new'" "length (new @ new') \<le> j + k" using a(1,2) b(1,2) by simp_all
    show "ev_what ev = RFXEV_SEND_REPLY \<longrightarrow> new @ new' = []" using a(4) b(4) by simp
  qed (rule ok fw_stays_trans [OF a(5) b(5)])+
qed

context event_filter
begin

text \<open>The first instance of a chain: it has no filter, or one that keeps the chain when it is stored back.\<close>

lemma chain_head:
  assumes "chain_ok finv (i # ch) h"
  obtains (off) ri where "h i = Some ri" "ri_flt ri = None"
    | (on) ri f where "h i = Some ri" "ri_flt ri = Some f" "finv f"
      "\<And>f'. finv f' \<Longrightarrow> chain_ok finv (i # ch) (h(i \<mapsto> ri\<lparr>ri_flt := Some f'\<rparr>)) \<and>
          chain_ok finv ch (h(i \<mapsto> ri\<lparr>ri_flt := Some f'\<rparr>)) \<and> insts_stay (i # ch) h (h(i \<mapsto> ri\<lparr>ri_flt := Some f'\<rparr>))"
proof -
  obtain ri where ri: "h i = Some ri" using assms by (auto simp: chain_ok_def)
  have upd: "chain_ok finv (i # ch) (h(i \<mapsto> ri\<lparr>ri_flt := Some f'\<rparr>)) \<and>
      chain_ok finv ch (h(i \<mapsto> ri\<lparr>ri_flt := Some f'\<rparr>)) \<and> insts_stay (i # ch) h (h(i \<mapsto> ri\<lparr>ri_flt := Some f'\<rparr>))" if "finv f'" for f'
    using chain_stays_upd [OF assms ri that] chain_ok_Cons by blast
  show thesis
  proof (cases "ri_flt ri")
    case None
    then show thesis by (rule off [OF ri])
  next
    case (Some f)
    then have "finv f" using assms ri by (auto simp: chain_ok_def insts_ok_def)
    then show thesis using on [OF ri Some _ upd] by blast
  qed
qed

lemma chain_pkt_ok:
  "chain_ok finv ch h \<Longrightarrow> fw_ok p oth {#} n w \<Longrightarrow> n + length ch \<le> 2 ^ 31 \<Longrightarrow>
   chain_pkt process_pkt ch p h w = Inl OutOfBounds \<or>
   (\<exists>h' w'. chain_pkt process_pkt ch p h w = Inr (h', w') \<and> chain_ok finv ch h' \<and> insts_stay ch h h' \<and>
      fw_ok p oth {#} (n + length ch) w' \<and> fw_stays p w w')"
proof (induction ch arbitrary: n h w)
  case Nil
  then show ?case by simp
next
  case (Cons i ch)
  have ok: "chain_ok finv ch h" using Cons.prems(1) chain_ok_Cons by blast
  from Cons.prems(1) show ?case
  proof (cases rule: chain_head)
    case (off ri)
    then show ?thesis
      using Cons.IH [OF ok Cons.prems(2)] Cons.prems(3) chain_stays_Cons [OF Cons.prems(1) insts_stay_refl]
        fw_ok_mono [where n = "n + length ch" and n' = "n + length (i # ch)"] by fastforce
  next
    case (on ri f)
    consider (bad) "process_pkt f p w = Inl OutOfBounds"
      | (ok) v f' w1 where "process_pkt f p w = Inr (v, f', w1)" "finv f'" "fw_ok p oth {#} (Suc n) w1" "fw_stays p w w1"
      using pkt_law [OF on(3) Cons.prems(2)] Cons.prems(3) by auto
    then show ?thesis
    proof cases
      case bad
      then show ?thesis using on by simp
    next
      case (ok v f' w1)
      let ?h = "h(i \<mapsto> ri\<lparr>ri_flt := Some f'\<rparr>)"
      have upd: "chain_ok finv (i # ch) ?h" "chain_ok finv ch ?h" "insts_stay (i # ch) h ?h" using on(4) [OF ok(2)] by auto
      have step: "chain_pkt process_pkt (i # ch) p h w =
          (if v = RFX_BREAK then Inr (?h, w1) else chain_pkt process_pkt ch p ?h w1)"
        using on ok(1) by simp
      have "fw_ok p oth {#} (n + length (i # ch)) w1" by (rule fw_ok_mono [OF ok(3)]) simp
      then show ?thesis
        using Cons.IH [OF upd(2) ok(3)] Cons.prems(3) step upd ok(4) fw_stays_trans [OF ok(4)]
          chain_stays_Cons [OF Cons.prems(1) upd(3)] by (cases "v = RFX_BREAK") (auto simp del: chain_pkt.simps fun_upd_apply)
    qed
  qed
qed

lemma chain_ev_ok:
  "chain_ok finv ch h \<Longrightarrow> fw_ok p oth (opt_hold (ev_source ev)) n w \<Longrightarrow>
   \<exists>h' w'. chain_ev process_ev ch ev h w = Inr (h', w') \<and> chain_ok finv ch h' \<and> insts_stay ch h h' \<and>
      ev_adds (length ch) p oth ev n w w'"
proof (induction ch arbitrary: h w)
  case Nil
  then show ?case by (simp add: ev_adds_def)
next
  case (Cons i ch)
  have ok: "chain_ok finv ch h" using Cons.prems(1) chain_ok_Cons by blast
  from Cons.prems(1) show ?case
  proof (cases rule: chain_head)
    case (off ri)
    then have "chain_ev process_ev (i # ch) ev h w = chain_ev process_ev ch ev h w" by simp
    then show ?thesis
      using Cons.IH [OF ok Cons.prems(2)] chain_stays_Cons [OF Cons.prems(1) insts_stay_refl]
        ev_adds_mono [of "length ch" p oth ev n w _ "length (i # ch)"] by (metis length_Cons less_imp_le lessI)
  next
    case (on ri f)
    obtain v f' w1 where p: "process_ev f ev w = Inr (v, f', w1)" "finv f'" "ev_adds 1 p oth ev n w w1"
      using ev_law [OF on(3) Cons.prems(2)] unfolding ev_stays_adds by auto
    let ?h = "h(i \<mapsto> ri\<lparr>ri_flt := Some f'\<rparr>)"
    have upd: "chain_ok finv (i # ch) ?h" "chain_ok finv ch ?h" "insts_stay (i # ch) h ?h" using on(4) [OF p(2)] by auto
    have step: "chain_ev process_ev (i # ch) ev h w =
        (if v = RFX_BREAK then Inr (?h, w1) else chain_ev process_ev ch ev ?h w1)"
      using on p(1) by simp
    show ?thesis
    proof (cases "v = RFX_BREAK")
      case True
      have "ev_adds (length (i # ch)) p oth ev n w w1" by (rule ev_adds_mono [OF p(3)]) simp
      then show ?thesis using step upd True by (simp del: chain_ev.simps)
    next
      case False
      have "fw_ok p oth (opt_hold (ev_source ev)) n w1" using p(3) by (simp add: ev_adds_def)
      from Cons.IH [OF upd(2) this] obtain h' w' where r: "chain_ev process_ev ch ev ?h w1 = Inr (h', w')"
        "chain_ok finv ch h'" "insts_stay ch ?h h'" "ev_adds (length ch) p oth ev n w1 w'"
        by blast
      have "ev_adds (length (i # ch)) p oth ev n w w'" using ev_adds_trans [OF p(3) r(4)] by simp
      then show ?thesis
        using step False r(1) chain_stays_Cons [OF Cons.prems(1) upd(3) r(2,3)] by (simp del: chain_ev.simps)
    qed
  qed
qed

lemma chain_evs_ok:
  "chain_ok finv ch h \<Longrightarrow> fw_ok p oth {#} n w \<Longrightarrow>
   \<exists>h' w'. chain_evs process_ev ch h w = Some (Inr (h', w')) \<and> chain_ok finv ch h' \<and> insts_stay ch h h' \<and>
      fw_ok p oth {#} n w' \<and> fw_stays p w w' \<and> fw_evq w' = []"
proof (induction "evs_weight (length ch) (fw_evq w)" arbitrary: h w rule: less_induct)
  case less
  show ?case
  proof (cases "fw_evq w")
    case Nil
    then show ?thesis using less.prems chain_evs_empty by fastforce
  next
    case (Cons ev q)
    let ?w = "w\<lparr>fw_evq := q\<rparr>"
    have "fw_ok p oth (opt_hold (ev_source ev)) n ?w"
      using less.prems(2) Cons by (simp add: fw_ok_def ac_simps)
    from chain_ev_ok [OF less.prems(1) this] obtain h1 w1 new where
      ev: "chain_ev process_ev ch ev h ?w = Inr (h1, w1)" "chain_ok finv ch h1" "insts_stay ch h h1"
      "fw_ok p oth (opt_hold (ev_source ev)) n w1" "fw_stays p ?w w1" "fw_evq w1 = q @ new"
      "length new \<le> length ch" "\<forall>e \<in> set new. ev_what e = RFXEV_SEND_REPLY"
      "ev_what ev = RFXEV_SEND_REPLY \<longrightarrow> new = []"
      by (auto simp: ev_adds_def)
    have "\<exists>st. event_delete ev (fw_store w1) = Inr st \<and> fw_ok p oth {#} n (w1\<lparr>fw_store := st\<rparr>) \<and>
        touched {p} (fw_store w1) st"
      by (rule event_delete_ok [OF ev(4)])
    then obtain st where st: "event_delete ev (fw_store w1) = Inr st" "fw_ok p oth {#} n (w1\<lparr>fw_store := st\<rparr>)"
      "touched {p} (fw_store w1) st"
      by blast
    let ?w1 = "w1\<lparr>fw_store := st\<rparr>"
    have "evs_weight (length ch) (fw_evq ?w1) < evs_weight (length ch) (fw_evq w)"
      using Cons ev(6-9) evs_weight_replies [OF ev(8), of "length ch"] by (auto simp: evs_weight_def ev_weight_def)
    from less.hyps [OF this ev(2) st(2)] obtain h' w' where
      r: "chain_evs process_ev ch h1 ?w1 = Some (Inr (h', w'))" "chain_ok finv ch h'" "insts_stay ch h1 h'"
      "fw_ok p oth {#} n w'" "fw_stays p ?w1 w'" "fw_evq w' = []"
      by auto
    have "fw_stays p w w1" using ev(5) by (simp add: fw_stays_def)
    moreover have "fw_stays p w1 ?w1" using st(3) by (simp add: fw_stays_def)
    ultimately have "fw_stays p w w'" using r(5) fw_stays_trans by blast
    then show ?thesis
      using chain_evs_Cons [OF Cons, of process_ev ch h] ev(1) st(1) r insts_stay_trans [OF ev(3)] by auto
  qed
qed

end

section \<open>Properties\<close>

text \<open>
  C8. The loop over the events of a packet ends: for every chain of the three plug-ins and every
  queue of events, although a plug-in may answer an event with another one, all events are
  handled and deleted, each reference to the packet is given back, and the filters keep their invariants.
\<close>

theorem chain_events_end:
  assumes "chain_ok flt_ok ch h" and "fw_ok p oth {#} n w"
  shows "\<exists>h' w'. chain_evs (flt_process_ev fs) ch h w = Some (Inr (h', w')) \<and> fw_evq w' = [] \<and>
    chain_ok flt_ok ch h' \<and> insts_stay ch h h' \<and> touched {p} (fw_store w) (fw_store w') \<and>
    ledger (fw_store w') (add_mset p (oth + mset (fw_pre w') + mset (fw_post w')))"
proof -
  from plugins.chain_evs_ok [OF assms, of fs] obtain h' w' where
    "chain_evs (flt_process_ev fs) ch h w = Some (Inr (h', w'))" "chain_ok flt_ok ch h'" "insts_stay ch h h'"
    "fw_ok p oth {#} n w'" "fw_stays p w w'" "fw_evq w' = []"
    by blast
  then show ?thesis by (simp add: fw_ok_def fw_stays_def ac_simps)
qed

text \<open>A private message of the client waits in the queue, with the loot filter and the chat filter behind it.\<close>

definition ex_insts :: "flt insts" where
  "ex_insts = [0 \<mapsto> \<lparr>ri_st = None, ri_flt = Some (FltLoot loot_state_new), ri_flt_new = None, ri_module = 0, ri_chain = Some 0\<rparr>,
     1 \<mapsto> \<lparr>ri_st = None, ri_flt = Some FltChat, ri_flt_new = None, ri_module = 1, ri_chain = Some 0\<rparr>]"

definition ex_world :: fworld where
  "ex_world = \<lparr>fw_store = \<lparr>pkts = [0 \<mapsto> (frame_pkt CLI_TO_SRV [4, 0, 0, 0])\<lparr>p_refc := 2\<rparr>], brk = 1\<rparr>, fw_pre = [], fw_post = [],
     fw_evq = [\<lparr>ev_source = Some 0, ev_what = RFXEV_PRIV_SENT, ev_nick = asc ''loot'', ev_msg = asc ''none''\<rparr>]\<rparr>"

lemma chain_events_end_witness:
  "\<exists>h' w'. chain_evs (flt_process_ev (\<lambda>_. None)) [0, 1] ex_insts ex_world = Some (Inr (h', w')) \<and> fw_evq w' = []"
proof -
  have "chain_ok flt_ok [0, 1] ex_insts"
    by (auto simp: chain_ok_def insts_ok_def ex_insts_def loot_state_new_ok)
  moreover have "unat (p_len (frame_pkt CLI_TO_SRV [4, 0, 0, 0])) = 4"
    by (simp add: frame_len_def) code_simp
  then have "fw_ok 0 {#} {#} 1 ex_world"
    by (auto simp: fw_ok_def ex_world_def ledger_def store_ok_def booked_def pkt_wf_def opt_hold_def)
  ultimately show ?thesis using chain_events_end by blast
qed

end
