(* ===== verification/Modules.thy ===== *)
theory Modules
  imports Chain
begin

text \<open>
  Modules and the plug-in manager of \<^verbatim>\<open>main.cpp\<close>: \<open>rfx_module\<close>, \<open>rfx_instance\<close>'s life and
  \<open>build_chain\<close>. A module is linked to its instances and every instance to its module and its chain.
  What the dynamic loader, \<open>stat\<close> and \<open>time\<close> answer, and the API version string the build generates,
  are arguments. Shown: the links between modules, instances and chains stay consistent when sessions
  come and go.
\<close>

section \<open>Loading\<close>

text \<open>
  A shared object as \<open>dlopen\<close> finds it: the string behind \<open>API_SIGNATURE_SYM\<close> and the factory behind
  \<open>API_FILTER_SYM\<close>, when it has them. \<open>'k\<close> tells the factories apart.
\<close>

record 'k dlobject =
  dl_sig :: "string option"
  dl_filter :: "'k option"

text \<open>
  \<open>rm_filter_new\<close>: \<open>None\<close> as long as nobody has written the field (the constructor does not),
  \<open>Some None\<close> for \<open>NULL\<close>.
\<close>

record 'k rfx_module =
  rm_soname :: string
  rm_dlh :: bool
  rm_filter_new :: "'k option option"
  rm_tstamp :: "int option"
  rm_ih :: "iid list"

definition rfx_module_new :: "string \<Rightarrow> 'k rfx_module" where
  "rfx_module_new dlpath =
     \<lparr>rm_soname = dlpath, rm_dlh = False, rm_filter_new = None, rm_tstamp = None, rm_ih = []\<rparr>"

definition module_load ::
    "string \<Rightarrow> 'k dlobject option \<Rightarrow> int option \<Rightarrow> 'k rfx_module \<Rightarrow> bool \<times> 'k rfx_module" where
  "module_load api_ver dl mtime m =
     (case dl of None \<Rightarrow> (False, m)
      | Some h \<Rightarrow>
          (case dl_sig h of None \<Rightarrow> (False, m)
           | Some sg \<Rightarrow>
               if sg \<noteq> api_ver then (False, m)
               else (case dl_filter h of None \<Rightarrow> (False, m)
                     | Some k \<Rightarrow>
                         (let m1 = (case mtime of None \<Rightarrow> m | Some t \<Rightarrow> m\<lparr>rm_tstamp := Some t\<rparr>)
                          in (True, m1\<lparr>rm_filter_new := Some (Some k), rm_dlh := True\<rparr>)))))"

text \<open>\<open>need_reload\<close>; the time stamp is read only when the module is loaded and \<open>stat\<close> succeeds.\<close>

definition need_reload :: "int option \<Rightarrow> int \<Rightarrow> 'k rfx_module \<Rightarrow> bool res" where
  "need_reload mtime now m =
     (if \<not> rm_dlh m then Inr True
      else case mtime of None \<Rightarrow> Inr False
        | Some t \<Rightarrow> (case rm_tstamp m of None \<Rightarrow> Inl Uninitialised
            | Some s \<Rightarrow> Inr (t \<noteq> s \<and> now - t > 1)))"

section \<open>Reloading\<close>

fun save_filters :: "('f \<Rightarrow> rfx_state \<Rightarrow> rfx_state res) \<Rightarrow> iid list \<Rightarrow> 'f insts \<Rightarrow> 'f insts res" where
  "save_filters sv [] h = Inr h"
| "save_filters sv (i # ih) h =
     rbind (deref h i) (\<lambda>ri.
       case ri_flt ri of None \<Rightarrow> save_filters sv ih h
       | Some f \<Rightarrow> rbind (sv f (rfx_state_new 0)) (\<lambda>s.
           save_filters sv ih (h(i \<mapsto> ri\<lparr>ri_st := Some s, ri_flt := None\<rparr>))))"

fun restore_filters :: "('k \<Rightarrow> 'f) \<Rightarrow> ('f \<Rightarrow> rfx_state \<Rightarrow> (bool \<times> 'f \<times> rfx_state) res) \<Rightarrow> 'k \<Rightarrow>
    iid list \<Rightarrow> 'f insts \<Rightarrow> 'f insts res" where
  "restore_filters nf ld k [] h = Inr h"
| "restore_filters nf ld k (i # ih) h =
     rbind (deref h i) (\<lambda>ri.
       case ri_st ri of
         None \<Rightarrow> restore_filters nf ld k ih (h(i \<mapsto> ri\<lparr>ri_flt := Some (nf k)\<rparr>))
       | Some s \<Rightarrow> rbind (ld (nf k) s) (\<lambda>(ok, f, s').
           restore_filters nf ld k ih (h(i \<mapsto> ri\<lparr>ri_flt := Some f, ri_st := None\<rparr>))))"

definition module_reload :: "('k \<Rightarrow> 'f) \<Rightarrow> ('f \<Rightarrow> rfx_state \<Rightarrow> rfx_state res) \<Rightarrow>
    ('f \<Rightarrow> rfx_state \<Rightarrow> (bool \<times> 'f \<times> rfx_state) res) \<Rightarrow> string \<Rightarrow> 'k dlobject option \<Rightarrow> int option \<Rightarrow>
    'k rfx_module \<Rightarrow> 'f insts \<Rightarrow> ('k rfx_module \<times> 'f insts) res" where
  "module_reload nf sv ld api_ver dl mtime m h =
     rbind (if rm_dlh m
            then rbind (save_filters sv (rm_ih m) h) (\<lambda>h1.
                   Inr (m\<lparr>rm_dlh := False, rm_filter_new := Some None\<rparr>, h1))
            else Inr (m, h)) (\<lambda>(m1, h1).
       case module_load api_ver dl mtime m1 of
         (False, m2) \<Rightarrow> Inr (m2, h1)
       | (True, m2) \<Rightarrow>
           (case rm_filter_new m2 of
              None \<Rightarrow> Inl Uninitialised | Some None \<Rightarrow> Inl NullDeref
            | Some (Some k) \<Rightarrow> rbind (restore_filters nf ld k (rm_ih m2) h1) (\<lambda>h2. Inr (m2, h2))))"

section \<open>The plug-in manager\<close>

record ('k, 'f) manager =
  pm_plugins :: "'k rfx_module list"
  pm_insts :: "'f insts"
  pm_next :: iid

fun load_plugins :: "string \<Rightarrow> (string \<times> 'k dlobject option \<times> int option) list \<Rightarrow> 'k rfx_module list" where
  "load_plugins api_ver [] = []"
| "load_plugins api_ver ((so, dl, mtime) # ps) =
     snd (module_load api_ver dl mtime (rfx_module_new so)) # load_plugins api_ver ps"

text \<open>\<open>reload_plugins\<close>; \<open>env\<close> gives, for each module, what the loader and \<open>stat\<close> find.\<close>

fun reload_plugins :: "('k \<Rightarrow> 'f) \<Rightarrow> ('f \<Rightarrow> rfx_state \<Rightarrow> rfx_state res) \<Rightarrow>
    ('f \<Rightarrow> rfx_state \<Rightarrow> (bool \<times> 'f \<times> rfx_state) res) \<Rightarrow> string \<Rightarrow>
    (string \<Rightarrow> 'k dlobject option \<times> int option) \<Rightarrow> int \<Rightarrow>
    'k rfx_module list \<Rightarrow> 'f insts \<Rightarrow> ('k rfx_module list \<times> 'f insts) res" where
  "reload_plugins nf sv ld api_ver env now [] h = Inr ([], h)"
| "reload_plugins nf sv ld api_ver env now (m # ms) h =
     (case env (rm_soname m) of (dl, mtime) \<Rightarrow>
        rbind (need_reload mtime now m) (\<lambda>b.
        rbind (if b then module_reload nf sv ld api_ver dl mtime m h else Inr (m, h)) (\<lambda>(m', h').
        rbind (reload_plugins nf sv ld api_ver env now ms h') (\<lambda>(ms', h'').
          Inr (m' # ms', h'')))))"

definition new_instance :: "('k \<Rightarrow> 'f) \<Rightarrow> nat \<Rightarrow> ('k, 'f) manager \<Rightarrow> (('k, 'f) manager \<times> iid) res" where
  "new_instance nf mi pm =
     rbind (peek (pm_plugins pm) mi) (\<lambda>m.
       case rm_filter_new m of None \<Rightarrow> Inl Uninitialised
       | Some fk \<Rightarrow>
           let i = pm_next pm;
               ri = \<lparr>ri_st = None, ri_flt = map_option nf fk, ri_flt_new = None, ri_module = mi, ri_chain = None\<rparr>
           in Inr (pm\<lparr>pm_plugins := (pm_plugins pm)[mi := m\<lparr>rm_ih := rm_ih m @ [i]\<rparr>],
                      pm_insts := (pm_insts pm)(i \<mapsto> ri), pm_next := Suc i\<rparr>, i))"

definition add_filter :: "nat \<Rightarrow> iid \<Rightarrow> ('k, 'f) manager \<Rightarrow> iid list \<Rightarrow> (('k, 'f) manager \<times> iid list) res" where
  "add_filter c i pm ch =
     rbind (deref (pm_insts pm) i) (\<lambda>ri.
       Inr (pm\<lparr>pm_insts := (pm_insts pm)(i \<mapsto> ri\<lparr>ri_chain := Some c\<rparr>)\<rparr>, ch @ [i]))"

fun build_loop :: "('k \<Rightarrow> 'f) \<Rightarrow> nat \<Rightarrow> nat list \<Rightarrow> ('k, 'f) manager \<Rightarrow> iid list \<Rightarrow>
    (('k, 'f) manager \<times> iid list) res" where
  "build_loop nf c [] pm ch = Inr (pm, ch)"
| "build_loop nf c (mi # mis) pm ch =
     rbind (new_instance nf mi pm) (\<lambda>(pm1, i).
     rbind (add_filter c i pm1 ch) (\<lambda>(pm2, ch'). build_loop nf c mis pm2 ch'))"

definition build_chain :: "('k \<Rightarrow> 'f) \<Rightarrow> nat \<Rightarrow> ('k, 'f) manager \<Rightarrow> (('k, 'f) manager \<times> iid list) res" where
  "build_chain nf c pm = build_loop nf c [0..<length (pm_plugins pm)] pm []"

text \<open>\<open>~rfx_instance\<close>: unlinked from the module and from the chain; \<open>~rfx_filter_chain\<close>.\<close>

definition instance_delete :: "iid \<Rightarrow> ('k, 'f) manager \<Rightarrow> iid list \<Rightarrow> (('k, 'f) manager \<times> iid list) res" where
  "instance_delete i pm ch =
     rbind (deref (pm_insts pm) i) (\<lambda>ri.
     rbind (peek (pm_plugins pm) (ri_module ri)) (\<lambda>m.
       if ri_chain ri = None then Inl Uninitialised
       else Inr (pm\<lparr>pm_plugins := (pm_plugins pm)[ri_module ri := m\<lparr>rm_ih := remove1 i (rm_ih m)\<rparr>],
                    pm_insts := (pm_insts pm)(i := None)\<rparr>, remove1 i ch)))"

fun delete_loop :: "iid list \<Rightarrow> ('k, 'f) manager \<Rightarrow> iid list \<Rightarrow> (('k, 'f) manager \<times> iid list) res" where
  "delete_loop [] pm ch = Inr (pm, ch)"
| "delete_loop (i # is) pm ch = rbind (instance_delete i pm ch) (\<lambda>(pm', ch'). delete_loop is pm' ch')"

definition chain_delete :: "iid list \<Rightarrow> ('k, 'f) manager \<Rightarrow> (('k, 'f) manager \<times> iid list) res" where
  "chain_delete ch pm = delete_loop ch pm ch"

section \<open>Links\<close>

text \<open>
  \<open>pm_ok\<close>: every module lists exactly the instances that point to it, each once. \<open>chain_linked\<close>: a chain
  lists exactly the instances that point to it.
\<close>

definition pm_ok :: "('f \<Rightarrow> bool) \<Rightarrow> ('k, 'f) manager \<Rightarrow> bool" where
  "pm_ok finv pm \<longleftrightarrow> insts_ok finv (pm_insts pm) \<and> (\<forall>i \<ge> pm_next pm. pm_insts pm i = None) \<and>
     (\<forall>i ri. pm_insts pm i = Some ri \<longrightarrow> ri_module ri < length (pm_plugins pm)) \<and>
     (\<forall>mi < length (pm_plugins pm). distinct (rm_ih (pm_plugins pm ! mi)) \<and>
        (\<forall>i. i \<in> set (rm_ih (pm_plugins pm ! mi)) \<longleftrightarrow>
             (\<exists>ri. pm_insts pm i = Some ri \<and> ri_module ri = mi)))"

definition chain_linked :: "nat \<Rightarrow> iid list \<Rightarrow> ('k, 'f) manager \<Rightarrow> bool" where
  "chain_linked c ch pm \<longleftrightarrow> distinct ch \<and>
     (\<forall>i. i \<in> set ch \<longleftrightarrow> (\<exists>ri. pm_insts pm i = Some ri \<and> ri_chain ri = Some c))"

definition unlinked :: "'k rfx_module \<Rightarrow> 'k rfx_module" where
  "unlinked m = m\<lparr>rm_ih := []\<rparr>"

lemma pm_ok_fresh: "pm_ok finv pm \<Longrightarrow> pm_insts pm i = Some ri \<Longrightarrow> i < pm_next pm"
  unfolding pm_ok_def by (metis not_less option.distinct(1))

lemma pm_ok_listed: "pm_ok finv pm \<Longrightarrow> mi < length (pm_plugins pm) \<Longrightarrow> i \<in> set (rm_ih (pm_plugins pm ! mi)) \<longleftrightarrow>
    (\<exists>ri. pm_insts pm i = Some ri \<and> ri_module ri = mi)"
  by (simp add: pm_ok_def)

text \<open>A new instance, linked to both.\<close>

lemma new_instance_linked:
  assumes ok: "pm_ok finv pm" and mi: "mi < length (pm_plugins pm)"
    and fk: "rm_filter_new (pm_plugins pm ! mi) = Some fk" and f: "\<And>k. finv (nf k)"
    and ch: "chain_linked c ch pm"
  obtains pm1 pm2 i where "new_instance nf mi pm = Inr (pm1, i)" "add_filter c i pm1 ch = Inr (pm2, ch @ [i])"
    "pm_ok finv pm2" "chain_linked c (ch @ [i]) pm2" "i = pm_next pm" "pm_next pm2 = Suc i"
    "\<And>j. j < i \<Longrightarrow> pm_insts pm2 j = pm_insts pm j" "map unlinked (pm_plugins pm2) = map unlinked (pm_plugins pm)"
proof -
  let ?i = "pm_next pm" and ?m = "pm_plugins pm ! mi"
  let ?ri = "\<lparr>ri_st = None, ri_flt = map_option nf fk, ri_flt_new = None, ri_module = mi, ri_chain = None\<rparr>"
  let ?pl = "(pm_plugins pm)[mi := ?m\<lparr>rm_ih := rm_ih ?m @ [?i]\<rparr>]"
  let ?pm1 = "pm\<lparr>pm_plugins := ?pl, pm_insts := (pm_insts pm)(?i \<mapsto> ?ri), pm_next := Suc ?i\<rparr>"
  let ?pm2 = "?pm1\<lparr>pm_insts := (pm_insts ?pm1)(?i \<mapsto> ?ri\<lparr>ri_chain := Some c\<rparr>)\<rparr>"
  have free: "pm_insts pm ?i = None" using ok by (simp add: pm_ok_def)
  have notin: "?i \<notin> set (rm_ih (pm_plugins pm ! k))" if "k < length (pm_plugins pm)" for k
    using pm_ok_listed [OF ok that] free by simp
  have "insts_ok finv (pm_insts ?pm2)"
    using ok f by (auto simp: pm_ok_def insts_ok_def)
  moreover have "distinct (rm_ih (?pl ! k)) \<and>
      (\<forall>i. i \<in> set (rm_ih (?pl ! k)) \<longleftrightarrow> (\<exists>ri. pm_insts ?pm2 i = Some ri \<and> ri_module ri = k))"
    if k: "k < length (pm_plugins pm)" for k
  proof (cases "k = mi")
    case True
    then show ?thesis using ok notin [OF k] pm_ok_listed [OF ok k] free mi k by (auto simp: pm_ok_def)
  next
    case False
    then show ?thesis using ok notin [OF k] pm_ok_listed [OF ok k] free mi k by (auto simp: pm_ok_def)
  qed
  ultimately have "pm_ok finv ?pm2"
    using ok mi by (auto simp: pm_ok_def)
  moreover have "chain_linked c (ch @ [?i]) ?pm2"
    using ch free by (auto simp: chain_linked_def)
  moreover have "map unlinked ?pl = map unlinked (pm_plugins pm)"
    by (rule nth_equalityI) (auto simp: unlinked_def nth_list_update mi)
  moreover have "new_instance nf mi pm = Inr (?pm1, ?i)"
    using mi fk by (simp add: new_instance_def Let_def)
  moreover have "add_filter c ?i ?pm1 ch = Inr (?pm2, ch @ [?i])"
    by (simp add: add_filter_def)
  ultimately show thesis by (intro that [of ?pm1 ?i ?pm2]) auto
qed

lemma unlinked_same:
  assumes "map unlinked ms' = map unlinked ms"
  shows "length ms' = length ms" and "k < length ms \<Longrightarrow> rm_filter_new (ms' ! k) = rm_filter_new (ms ! k)"
proof -
  show len: "length ms' = length ms" using assms by (metis length_map)
  assume k: "k < length ms"
  have "unlinked (ms' ! k) = unlinked (ms ! k)"
    using arg_cong [OF assms, of "\<lambda>xs. xs ! k"] k len by simp
  from arg_cong [OF this, of rm_filter_new]
  show "rm_filter_new (ms' ! k) = rm_filter_new (ms ! k)" by (simp add: unlinked_def)
qed

lemma build_loop_linked:
  assumes "pm_ok finv pm" and "\<forall>mi \<in> set mis. mi < length (pm_plugins pm) \<and> rm_filter_new (pm_plugins pm ! mi) \<noteq> None"
    and "\<And>k. finv (nf k)" and "chain_linked c ch pm"
  shows "\<exists>pm' new. build_loop nf c mis pm ch = Inr (pm', ch @ new) \<and> pm_ok finv pm' \<and> chain_linked c (ch @ new) pm' \<and>
    length new = length mis \<and> (\<forall>j < pm_next pm. pm_insts pm' j = pm_insts pm j) \<and>
    (\<forall>j \<ge> pm_next pm. pm_insts pm' j \<noteq> None \<longrightarrow> j \<in> set new) \<and>
    map unlinked (pm_plugins pm') = map unlinked (pm_plugins pm)"
  using assms(1,2,4)
proof (induction mis arbitrary: pm ch)
  case Nil
  then show ?case by (simp add: pm_ok_def)
next
  case (Cons mi mis)
  obtain fk where mi: "mi < length (pm_plugins pm)" "rm_filter_new (pm_plugins pm ! mi) = Some fk"
    using Cons.prems(2) by auto
  obtain pm1 pm2 i where s: "new_instance nf mi pm = Inr (pm1, i)" "add_filter c i pm1 ch = Inr (pm2, ch @ [i])"
    "pm_ok finv pm2" "chain_linked c (ch @ [i]) pm2" "i = pm_next pm" "pm_next pm2 = Suc i"
    "\<And>j. j < i \<Longrightarrow> pm_insts pm2 j = pm_insts pm j" "map unlinked (pm_plugins pm2) = map unlinked (pm_plugins pm)"
    by (rule new_instance_linked [where nf = nf, OF Cons.prems(1) mi assms(3) Cons.prems(3)]) blast
  note same = unlinked_same [OF s(8)]
  have "\<forall>mi \<in> set mis. mi < length (pm_plugins pm2) \<and> rm_filter_new (pm_plugins pm2 ! mi) \<noteq> None"
    using Cons.prems(2) same by auto
  from Cons.IH [OF s(3) this s(4)] obtain pm' new where
    r: "build_loop nf c mis pm2 (ch @ [i]) = Inr (pm', (ch @ [i]) @ new)" "pm_ok finv pm'"
    "chain_linked c ((ch @ [i]) @ new) pm'" "length new = length mis" "\<forall>j < pm_next pm2. pm_insts pm' j = pm_insts pm2 j"
    "\<forall>j \<ge> pm_next pm2. pm_insts pm' j \<noteq> None \<longrightarrow> j \<in> set new" "map unlinked (pm_plugins pm') = map unlinked (pm_plugins pm2)"
    by (elim exE conjE) (rule that)
  have "j \<in> set (i # new)" if "pm_next pm \<le> j" "pm_insts pm' j \<noteq> None" for j
    using that r(6) s(5,6) by (cases "j = i") auto
  then show ?case
    by (intro exI [of _ pm'] exI [of _ "i # new"]) (use s r in auto)
qed

text \<open>With a module whose factory was never set, building a chain reads an uninitialised field.\<close>

lemma build_loop_unset:
  assumes "pm_ok finv pm" and "\<And>k. finv (nf k)" and "chain_linked c ch pm"
    and "\<forall>mi \<in> set mis. mi < length (pm_plugins pm)" and "\<exists>mi \<in> set mis. rm_filter_new (pm_plugins pm ! mi) = None"
  shows "build_loop nf c mis pm ch = Inl Uninitialised"
  using assms(1,3-5)
proof (induction mis arbitrary: pm ch)
  case (Cons mi mis)
  show ?case
  proof (cases "rm_filter_new (pm_plugins pm ! mi)")
    case None
    then show ?thesis using Cons.prems(3) by (simp add: new_instance_def)
  next
    case (Some fk)
    have mi: "mi < length (pm_plugins pm)" using Cons.prems(3) by simp
    obtain pm1 pm2 i where s: "new_instance nf mi pm = Inr (pm1, i)" "add_filter c i pm1 ch = Inr (pm2, ch @ [i])"
      "pm_ok finv pm2" "chain_linked c (ch @ [i]) pm2" "map unlinked (pm_plugins pm2) = map unlinked (pm_plugins pm)"
      by (rule new_instance_linked [where nf = nf, OF Cons.prems(1) mi Some assms(2) Cons.prems(2)]) blast
    have "build_loop nf c mis pm2 (ch @ [i]) = Inl Uninitialised"
      by (rule Cons.IH [OF s(3,4)]) (use Cons.prems(3,4) Some unlinked_same [OF s(5)] in auto)
    then show ?thesis using s(1,2) by simp
  qed
qed simp

text \<open>Deleting an instance unlinks it from both.\<close>

lemma instance_delete_linked:
  assumes ok: "pm_ok finv pm" and ri: "pm_insts pm i = Some ri" "ri_chain ri = Some c" and ch: "chain_linked c ch pm"
  obtains pm' where "instance_delete i pm ch = Inr (pm', remove1 i ch)" "pm_ok finv pm'"
    "chain_linked c (remove1 i ch) pm'" "pm_insts pm' = (pm_insts pm)(i := None)" "pm_next pm' = pm_next pm"
    "map unlinked (pm_plugins pm') = map unlinked (pm_plugins pm)"
proof -
  let ?mi = "ri_module ri"
  let ?m = "pm_plugins pm ! ?mi"
  let ?pl = "(pm_plugins pm)[?mi := ?m\<lparr>rm_ih := remove1 i (rm_ih ?m)\<rparr>]"
  let ?pm = "pm\<lparr>pm_plugins := ?pl, pm_insts := (pm_insts pm)(i := None)\<rparr>"
  have mi: "?mi < length (pm_plugins pm)" using ok ri(1) by (auto simp: pm_ok_def)
  have "distinct (rm_ih (?pl ! k)) \<and>
      (\<forall>j. j \<in> set (rm_ih (?pl ! k)) \<longleftrightarrow> (\<exists>ri. pm_insts ?pm j = Some ri \<and> ri_module ri = k))"
    if k: "k < length (pm_plugins pm)" for k
  proof (cases "k = ?mi")
    case True
    then show ?thesis using ok pm_ok_listed [OF ok k] mi k by (auto simp: pm_ok_def)
  next
    case False
    then show ?thesis using ok pm_ok_listed [OF ok k] mi k ri(1) by (auto simp: pm_ok_def)
  qed
  then have "pm_ok finv ?pm"
    using ok by (auto simp: pm_ok_def insts_ok_def)
  moreover have "chain_linked c (remove1 i ch) ?pm"
    using ch by (auto simp: chain_linked_def)
  moreover have "map unlinked ?pl = map unlinked (pm_plugins pm)"
    by (rule nth_equalityI) (auto simp: unlinked_def nth_list_update mi)
  moreover have "instance_delete i pm ch = Inr (?pm, remove1 i ch)"
    using ri mi by (simp add: instance_delete_def)
  ultimately show thesis by (intro that [of ?pm]) auto
qed

lemma chain_delete_linked:
  "pm_ok finv pm \<Longrightarrow> chain_linked c ch pm \<Longrightarrow>
   \<exists>pm'. delete_loop ch pm ch = Inr (pm', []) \<and> pm_ok finv pm' \<and> chain_linked c [] pm' \<and>
     pm_insts pm' = (\<lambda>i. if i \<in> set ch then None else pm_insts pm i) \<and> pm_next pm' = pm_next pm \<and>
     map unlinked (pm_plugins pm') = map unlinked (pm_plugins pm)"
proof (induction ch arbitrary: pm)
  case Nil
  then show ?case by simp
next
  case (Cons i ch)
  obtain ri where ri: "pm_insts pm i = Some ri" "ri_chain ri = Some c"
    using Cons.prems(2) by (auto simp: chain_linked_def)
  obtain pm1 where d: "instance_delete i pm (i # ch) = Inr (pm1, remove1 i (i # ch))" "pm_ok finv pm1"
    "chain_linked c (remove1 i (i # ch)) pm1" "pm_insts pm1 = (pm_insts pm)(i := None)" "pm_next pm1 = pm_next pm"
    "map unlinked (pm_plugins pm1) = map unlinked (pm_plugins pm)"
    by (rule instance_delete_linked [OF Cons.prems(1) ri Cons.prems(2)])
  have "chain_linked c ch pm1" using d(3) by simp
  from Cons.IH [OF d(2) this] obtain pm' where
    "delete_loop ch pm1 ch = Inr (pm', [])" "pm_ok finv pm'" "chain_linked c [] pm'"
    "pm_insts pm' = (\<lambda>i. if i \<in> set ch then None else pm_insts pm1 i)" "pm_next pm' = pm_next pm1"
    "map unlinked (pm_plugins pm') = map unlinked (pm_plugins pm1)"
    by (elim exE conjE) (rule that)
  then show ?case using d by (intro exI [of _ pm']) auto
qed

section \<open>Other instances\<close>

text \<open>\<open>same_links\<close>: the instances are the same, each still of its module and chain.\<close>

definition ri_links :: "'f rfx_instance \<Rightarrow> nat \<times> nat option" where
  "ri_links ri = (ri_module ri, ri_chain ri)"

definition same_links :: "'f insts \<Rightarrow> 'f insts \<Rightarrow> bool" where
  "same_links h h' \<longleftrightarrow> (\<forall>i. map_option ri_links (h' i) = map_option ri_links (h i))"

lemma same_links_refl [simp]: "same_links h h"
  by (simp add: same_links_def)

lemma same_links_trans: "same_links h h1 \<Longrightarrow> same_links h1 h2 \<Longrightarrow> same_links h h2"
  by (simp add: same_links_def)

lemma same_links_upd: "h i = Some ri \<Longrightarrow> ri_links ri' = ri_links ri \<Longrightarrow> same_links h (h(i \<mapsto> ri'))"
  by (simp add: same_links_def)

lemma same_links_live: "same_links h h' \<Longrightarrow> h' i = None \<longleftrightarrow> h i = None"
  unfolding same_links_def by (metis map_option_is_None)

lemma same_links_ex:
  assumes "same_links h h'"
  shows "(\<exists>ri. h' i = Some ri \<and> P (ri_links ri)) \<longleftrightarrow> (\<exists>ri. h i = Some ri \<and> P (ri_links ri))"
proof -
  have "map_option ri_links (h' i) = map_option ri_links (h i)" using assms by (simp add: same_links_def)
  then show ?thesis by (cases "h' i"; cases "h i") auto
qed

lemma insts_stay_links:
  assumes "insts_stay ch h h'"
  shows "same_links h h'"
  unfolding same_links_def
proof
  fix i
  have "map_option bare (h' i) = map_option bare (h i)" using assms by (simp add: insts_stay_def)
  then show "map_option ri_links (h' i) = map_option ri_links (h i)"
    by (cases "h' i"; cases "h i") (auto simp: bare_def ri_links_def dest: arg_cong [where f = ri_module] arg_cong [where f = ri_chain])
qed

lemma chain_linked_links:
  assumes "chain_linked c ch pm" and "same_links (pm_insts pm) (pm_insts pm')"
  shows "chain_linked c ch pm'"
  using assms(1) same_links_ex [OF assms(2), of _ "\<lambda>l. snd l = Some c"] by (simp add: chain_linked_def ri_links_def)

lemma pm_ok_links:
  assumes ok: "pm_ok finv pm" and h: "insts_ok finv (pm_insts pm')" "same_links (pm_insts pm) (pm_insts pm')"
    and m: "map rm_ih (pm_plugins pm') = map rm_ih (pm_plugins pm)" "pm_next pm' = pm_next pm"
  shows "pm_ok finv pm'"
proof -
  have len: "length (pm_plugins pm') = length (pm_plugins pm)" using m(1) by (metis length_map)
  have ih: "rm_ih (pm_plugins pm' ! mi) = rm_ih (pm_plugins pm ! mi)" if "mi < length (pm_plugins pm)" for mi
    using arg_cong [OF m(1), of "\<lambda>xs. xs ! mi"] that len by simp
  have e: "(\<exists>ri. pm_insts pm' i = Some ri \<and> ri_module ri = mi) \<longleftrightarrow> (\<exists>ri. pm_insts pm i = Some ri \<and> ri_module ri = mi)" for i mi
    using same_links_ex [OF h(2), of i "\<lambda>l. fst l = mi"] by (simp add: ri_links_def)
  have "ri_module ri < length (pm_plugins pm)" if "pm_insts pm' i = Some ri" for i ri
  proof -
    have "\<exists>r0. pm_insts pm i = Some r0 \<and> ri_module r0 = ri_module ri"
      unfolding e [symmetric] using that by blast
    then obtain r0 where r0: "pm_insts pm i = Some r0" "ri_module r0 = ri_module ri" by blast
    have "ri_module r0 < length (pm_plugins pm)" using ok r0(1) by (simp add: pm_ok_def)
    then show ?thesis using r0(2) by simp
  qed
  then show ?thesis
    using ok h(1) same_links_live [OF h(2)] m(2) e ih len by (simp add: pm_ok_def)
qed

text \<open>The callbacks see the chain of the session as \<open>chain_ok\<close>, and change only its filters.\<close>

lemma chain_linked_ok: "pm_ok finv pm \<Longrightarrow> chain_linked c ch pm \<Longrightarrow> chain_ok finv ch (pm_insts pm)"
  by (auto simp: pm_ok_def chain_linked_def chain_ok_def)

lemma pm_ok_stay:
  assumes "pm_ok finv pm" and "chain_ok finv ch h" and "insts_stay ch (pm_insts pm) h"
  shows "pm_ok finv (pm\<lparr>pm_insts := h\<rparr>)"
  by (rule pm_ok_links [OF assms(1)]) (use assms(2) insts_stay_links [OF assms(3)] in \<open>simp_all add: chain_ok_def\<close>)

end
