(* ===== verification/Reload.thy ===== *)
theory Reload
  imports Modules
begin

text \<open>
  Reloading of modules (\<open>rfx_module::reload\<close>, \<open>reload_plugins\<close>): replacing a module, even after failed
  attempts, leaves every filter as it was; whatever the loader finds, the links between modules,
  instances and chains stay, and nothing but the unset time stamp is ever read uninitialised.
\<close>

section \<open>Reloading keeps the filters\<close>

definition saved :: "('f \<Rightarrow> rfx_state \<Rightarrow> rfx_state res) \<Rightarrow> 'f rfx_instance \<Rightarrow> 'f rfx_instance" where
  "saved sv ri = (case ri_flt ri of None \<Rightarrow> ri
     | Some f \<Rightarrow> ri\<lparr>ri_st := Some (projr (sv f (rfx_state_new 0))), ri_flt := None\<rparr>)"

definition on_insts :: "('f rfx_instance \<Rightarrow> 'f rfx_instance) \<Rightarrow> iid set \<Rightarrow> 'f insts \<Rightarrow> 'f insts" where
  "on_insts g I h = (\<lambda>i. if i \<in> I then map_option g (h i) else h i)"

lemma on_insts_empty [simp]: "on_insts g {} h = h"
  by (simp add: on_insts_def)

lemma on_insts_insert:
  "i \<notin> I \<Longrightarrow> h i = Some ri \<Longrightarrow> on_insts g I (h(i \<mapsto> g ri)) = on_insts g (insert i I) h"
  by (auto simp: on_insts_def)

lemma save_filters_eq:
  "distinct ih \<Longrightarrow> \<forall>i \<in> set ih. \<exists>ri. h i = Some ri \<and> (\<forall>f. ri_flt ri = Some f \<longrightarrow> (\<exists>s. sv f (rfx_state_new 0) = Inr s)) \<Longrightarrow>
   save_filters sv ih h = Inr (on_insts (saved sv) (set ih) h)"
proof (induction ih arbitrary: h)
  case (Cons i ih)
  then obtain ri where ri: "h i = Some ri" "\<And>f. ri_flt ri = Some f \<Longrightarrow> \<exists>s. sv f (rfx_state_new 0) = Inr s" by auto
  have "save_filters sv (i # ih) h = save_filters sv ih (h(i \<mapsto> saved sv ri))"
    using ri by (cases "ri_flt ri") (fastforce simp: saved_def map_upd_triv)+
  also have "\<dots> = Inr (on_insts (saved sv) (set ih) (h(i \<mapsto> saved sv ri)))"
    by (rule Cons.IH) (use Cons.prems in auto)
  finally show ?case
    using Cons.prems(1) on_insts_insert [of i "set ih" h ri "saved sv"] ri by simp
qed simp

lemma restore_filters_eq:
  "distinct ih \<Longrightarrow> \<forall>i \<in> set ih. \<exists>ri s f s'. h i = Some ri \<and> ri_st ri = Some s \<and> ld (nf k) s = Inr (True, f, s') \<and>
     g ri = ri\<lparr>ri_flt := Some f, ri_st := None\<rparr> \<Longrightarrow>
   restore_filters nf ld k ih h = Inr (on_insts g (set ih) h)"
proof (induction ih arbitrary: h)
  case (Cons i ih)
  then obtain ri s f s' where ri: "h i = Some ri" "ri_st ri = Some s" "ld (nf k) s = Inr (True, f, s')"
     "g ri = ri\<lparr>ri_flt := Some f, ri_st := None\<rparr>" by auto
  have "restore_filters nf ld k (i # ih) h = restore_filters nf ld k ih (h(i \<mapsto> g ri))"
    using ri by simp
  also have "\<dots> = Inr (on_insts g (set ih) (h(i \<mapsto> g ri)))"
    by (rule Cons.IH) (use Cons.prems in auto)
  finally show ?case
    using Cons.prems(1) ri(1) on_insts_insert [of i "set ih" h ri g] by simp
qed simp

definition loads_as :: "string \<Rightarrow> 'k \<Rightarrow> 'k dlobject option \<Rightarrow> bool" where
  "loads_as api_ver k dl \<longleftrightarrow> (\<exists>h. dl = Some h \<and> dl_sig h = Some api_ver \<and> dl_filter h = Some k)"

lemma module_load_fails: "(\<forall>k. \<not> loads_as api_ver k dl) \<Longrightarrow> module_load api_ver dl mt m = (False, m)"
  by (auto simp: module_load_def loads_as_def split: option.split)

lemma module_load_ok: "loads_as api_ver k dl \<Longrightarrow> \<exists>m'. module_load api_ver dl mt m = (True, m') \<and>
    rm_filter_new m' = Some (Some k) \<and> rm_dlh m' \<and> rm_ih m' = rm_ih m"
  by (auto simp: module_load_def loads_as_def Let_def split: option.split)

text \<open>The fields the constructor leaves unset have been set.\<close>

definition module_ready :: "'k rfx_module \<Rightarrow> bool" where
  "module_ready m \<longleftrightarrow> rm_filter_new m \<noteq> None \<and> rm_tstamp m \<noteq> None"

lemma module_load_keeps:
  "module_load api_ver dl mt m = (b, m') \<Longrightarrow> rm_ih m' = rm_ih m \<and> (module_ready m \<longrightarrow> module_ready m') \<and>
     (b \<longrightarrow> (\<exists>k. rm_filter_new m' = Some (Some k)))"
  by (auto simp: module_load_def module_ready_def Let_def split: option.splits if_splits)

text \<open>Several attempts, one after the other.\<close>

fun module_reloads :: "('k \<Rightarrow> 'f) \<Rightarrow> ('f \<Rightarrow> rfx_state \<Rightarrow> rfx_state res) \<Rightarrow>
    ('f \<Rightarrow> rfx_state \<Rightarrow> (bool \<times> 'f \<times> rfx_state) res) \<Rightarrow> string \<Rightarrow> ('k dlobject option \<times> int option) list \<Rightarrow>
    'k rfx_module \<Rightarrow> 'f insts \<Rightarrow> ('k rfx_module \<times> 'f insts) res" where
  "module_reloads nf sv ld api_ver [] m h = Inr (m, h)"
| "module_reloads nf sv ld api_ver ((dl, mtime) # env) m h =
     rbind (module_reload nf sv ld api_ver dl mtime m h) (\<lambda>(m', h'). module_reloads nf sv ld api_ver env m' h')"

text \<open>Without a library, a failed attempt changes nothing.\<close>

lemma module_reloads_failing:
  "\<not> rm_dlh m \<Longrightarrow> \<forall>(dl, mt) \<in> set env. \<forall>k. \<not> loads_as api_ver k dl \<Longrightarrow>
   module_reloads nf sv ld api_ver (env @ env') m h = module_reloads nf sv ld api_ver env' m h"
  by (induction env) (auto simp: module_reload_def module_load_fails)

context reloadable_filter
begin

text \<open>What is loaded into the new filters is what the old ones were.\<close>

lemma restore_saved:
  assumes "distinct is"
    and "\<forall>i \<in> set is. \<exists>ri f. h i = Some ri \<and> ri_flt ri = Some f \<and> ri_st ri = None \<and> finv f \<and> kind_of f = k"
  shows "restore_filters new_filter load_state k is (on_insts (saved save_state) (set is) h) = Inr h"
proof -
  let ?h = "on_insts (saved save_state) (set is) h"
  define g where "g ri = ri\<lparr>ri_flt := Some (fst (snd (projr (load_state (new_filter k) (the (ri_st ri)))))), ri_st := None\<rparr>"
    for ri :: "'f rfx_instance"
  have inst: "\<exists>ri s f s'. ?h i = Some ri \<and> ri_st ri = Some s \<and> load_state (new_filter k) s = Inr (True, f, s') \<and>
      g ri = ri\<lparr>ri_flt := Some f, ri_st := None\<rparr> \<and> Some (g ri) = h i" if i: "i \<in> set is" for i
  proof -
    obtain ri f where ri: "h i = Some ri" "ri_flt ri = Some f" "ri_st ri = None" "finv f" "kind_of f = k"
      using assms(2) i by blast
    obtain s s' where "save_state f (rfx_state_new 0) = Inr s" "load_state (new_filter k) s = Inr (True, f, s')"
      using reload_law [OF ri(4)] ri(5) by auto
    then show ?thesis using ri i by (cases ri) (simp add: on_insts_def saved_def g_def)
  qed
  have "on_insts g (set is) ?h i = h i" for i
    using inst [of i] by (cases "i \<in> set is") (auto simp: on_insts_def [of g] on_insts_def [of "saved save_state"])
  moreover have "restore_filters new_filter load_state k is ?h = Inr (on_insts g (set is) ?h)"
    by (rule restore_filters_eq [OF assms(1)]) (use inst in blast)
  ultimately show ?thesis by (simp add: fun_eq_iff)
qed

lemma reload_keeps:
  assumes m: "rm_dlh m" "distinct (rm_ih m)"
    and insts: "\<forall>i \<in> set (rm_ih m). \<exists>ri f. h i = Some ri \<and> ri_flt ri = Some f \<and> ri_st ri = None \<and> finv f \<and> kind_of f = k"
    and env: "\<forall>(dl, mt) \<in> set env. \<forall>k. \<not> loads_as api_ver k dl" and dl: "loads_as api_ver k dl"
  shows "\<exists>m'. module_reloads new_filter save_state load_state api_ver (env @ [(dl, mt)]) m h = Inr (m', h) \<and>
    rm_dlh m' \<and> rm_ih m' = rm_ih m \<and> rm_filter_new m' = Some (Some k)"
proof -
  let ?h = "on_insts (saved save_state) (set (rm_ih m)) h"
  let ?m = "m\<lparr>rm_dlh := False, rm_filter_new := Some None\<rparr>"
  let ?reload = "module_reload new_filter save_state load_state api_ver"
  let ?reloads = "module_reloads new_filter save_state load_state api_ver"
  have save: "save_filters save_state (rm_ih m) h = Inr ?h"
    by (rule save_filters_eq [OF m(2)]) (use insts reload_law in fastforce)
  note restore = restore_saved [OF m(2) insts]
  have ok: "\<exists>m'. ?reload dl mt m1 h1 = Inr (m', h) \<and> rm_dlh m' \<and> rm_ih m' = rm_ih m \<and> rm_filter_new m' = Some (Some k)"
    if "m1 = m \<and> h1 = h \<or> m1 = ?m \<and> h1 = ?h" for m1 h1
    using that module_load_ok [OF dl, of mt ?m] restore save m(1) by (auto simp: module_reload_def)
  show ?thesis
  proof (cases env)
    case Nil
    then show ?thesis using ok [of m h] by auto
  next
    case (Cons e env')
    obtain dl1 mt1 where e: "e = (dl1, mt1)" by fastforce
    have "?reload dl1 mt1 m h = Inr (?m, ?h)"
      using env Cons e save m(1) by (simp add: module_reload_def module_load_fails)
    then have "?reloads (env @ [(dl, mt)]) m h = ?reloads (env' @ [(dl, mt)]) ?m ?h"
      using Cons e by simp
    also have "\<dots> = ?reloads [(dl, mt)] ?m ?h"
      by (rule module_reloads_failing) (use env Cons in auto)
    finally show ?thesis using ok [of ?m ?h] by auto
  qed
qed

text \<open>Whatever the loader finds, the filters satisfy their invariant and the links stay.\<close>

lemma save_filters_ok:
  "insts_ok finv h \<Longrightarrow> \<forall>i \<in> set ih. h i \<noteq> None \<Longrightarrow>
   \<exists>h'. save_filters save_state ih h = Inr h' \<and> insts_ok finv h' \<and> same_links h h'"
proof (induction ih arbitrary: h)
  case (Cons i ih)
  obtain ri where ri: "h i = Some ri" using Cons.prems(2) by auto
  show ?case
  proof (cases "ri_flt ri")
    case None
    then show ?thesis using Cons ri by simp
  next
    case (Some f)
    have "finv f" using Cons.prems(1) ri Some by (auto simp: insts_ok_def)
    then obtain s where s: "save_state f (rfx_state_new 0) = Inr s" "rs_wf s" using reload_law by blast
    define h1 where "h1 = h(i \<mapsto> ri\<lparr>ri_st := Some s, ri_flt := None\<rparr>)"
    have ok: "insts_ok finv h1" using Cons.prems(1) s(2) by (auto simp: h1_def insts_ok_def)
    have l: "same_links h h1" unfolding h1_def by (rule same_links_upd [where h = h and i = i, OF ri]) (simp add: ri_links_def)
    have "\<forall>i \<in> set ih. h1 i \<noteq> None" using Cons.prems(2) by (simp add: h1_def)
    moreover have "save_filters save_state (i # ih) h = save_filters save_state ih h1" using ri Some s(1) by (simp add: h1_def)
    ultimately show ?thesis using Cons.IH [OF ok] same_links_trans [OF l] by fastforce
  qed
qed simp

lemma restore_filters_ok:
  "insts_ok finv h \<Longrightarrow> \<forall>i \<in> set ih. h i \<noteq> None \<Longrightarrow>
   \<exists>h'. restore_filters new_filter load_state k ih h = Inr h' \<and> insts_ok finv h' \<and> same_links h h'"
proof (induction ih arbitrary: h)
  case (Cons i ih)
  obtain ri where ri: "h i = Some ri" using Cons.prems(2) by auto
  have step: "\<exists>h'. restore_filters new_filter load_state k ih (h(i \<mapsto> ri')) = Inr h' \<and> insts_ok finv h' \<and> same_links h h'"
    if u: "ri_links ri' = ri_links ri" "\<forall>f. ri_flt ri' = Some f \<longrightarrow> finv f" "ri_st ri' = None" for ri'
  proof -
    define h1 where "h1 = h(i \<mapsto> ri')"
    have ok: "insts_ok finv h1" using Cons.prems(1) u by (auto simp: h1_def insts_ok_def)
    have l: "same_links h h1" unfolding h1_def by (rule same_links_upd [where h = h and i = i, OF ri u(1)])
    have "\<forall>i \<in> set ih. h1 i \<noteq> None" using Cons.prems(2) by (simp add: h1_def)
    from Cons.IH [OF ok this] show ?thesis unfolding h1_def [symmetric] using same_links_trans [OF l] by blast
  qed
  show ?case
  proof (cases "ri_st ri")
    case None
    then show ?thesis using ri new_ok step [of "ri\<lparr>ri_flt := Some (new_filter k)\<rparr>"] by (simp add: ri_links_def)
  next
    case (Some s)
    have "rs_wf s" using Cons.prems(1) ri Some by (auto simp: insts_ok_def)
    then obtain ok f s' where "load_state (new_filter k) s = Inr (ok, f, s')" "finv f"
      using load_law [OF new_ok] by blast
    then show ?thesis using ri Some step [of "ri\<lparr>ri_flt := Some f, ri_st := None\<rparr>"] by (simp add: ri_links_def)
  qed
qed simp

lemma module_reload_ok:
  assumes h: "insts_ok finv h" "\<forall>i \<in> set (rm_ih m). h i \<noteq> None"
  obtains m' h' where "module_reload new_filter save_state load_state api_ver dl mt m h = Inr (m', h')"
    "insts_ok finv h'" "same_links h h'" "rm_ih m' = rm_ih m" "module_ready m \<longrightarrow> module_ready m'"
proof -
  obtain m1 h1 where 1: "(if rm_dlh m then rbind (save_filters save_state (rm_ih m) h) (\<lambda>h1.
        Inr (m\<lparr>rm_dlh := False, rm_filter_new := Some None\<rparr>, h1)) else Inr (m, h)) = Inr (m1, h1)"
    "insts_ok finv h1" "same_links h h1" "rm_ih m1 = rm_ih m" "module_ready m \<longrightarrow> module_ready m1"
  proof (cases "rm_dlh m")
    case True
    then show ?thesis
      using save_filters_ok [OF h] that [of "m\<lparr>rm_dlh := False, rm_filter_new := Some None\<rparr>"] by (auto simp: module_ready_def)
  qed (use h(1) that in simp)
  obtain b m2 where 2: "module_load api_ver dl mt m1 = (b, m2)" by fastforce
  have m2: "rm_ih m2 = rm_ih m1" "module_ready m1 \<longrightarrow> module_ready m2" "b \<longrightarrow> (\<exists>k. rm_filter_new m2 = Some (Some k))"
    using module_load_keeps [OF 2] by auto
  show thesis
  proof (cases b)
    case False
    then show ?thesis using that 1 2 m2 by (simp add: module_reload_def)
  next
    case True
    then obtain k where k: "rm_filter_new m2 = Some (Some k)" using m2(3) by blast
    have "\<forall>i \<in> set (rm_ih m2). h1 i \<noteq> None" using h(2) m2(1) 1(4) same_links_live [OF 1(3)] by simp
    from restore_filters_ok [OF 1(2) this, of k] show ?thesis
      using that 1 2 m2 k True same_links_trans [OF 1(3)] by (auto simp: module_reload_def)
  qed
qed

lemma reload_plugins_ok:
  "insts_ok finv h \<Longrightarrow> \<forall>m \<in> set ms. \<forall>i \<in> set (rm_ih m). h i \<noteq> None \<Longrightarrow>
   (reload_plugins new_filter save_state load_state api_ver env now ms h = Inl Uninitialised \<and> (\<exists>m \<in> set ms. \<not> module_ready m)) \<or>
   (\<exists>ms' h'. reload_plugins new_filter save_state load_state api_ver env now ms h = Inr (ms', h') \<and>
      insts_ok finv h' \<and> same_links h h' \<and> map rm_ih ms' = map rm_ih ms \<and>
      ((\<forall>m \<in> set ms. module_ready m) \<longrightarrow> (\<forall>m \<in> set ms'. module_ready m)))"
proof (induction ms arbitrary: h)
  case (Cons m ms)
  obtain dl mt where env: "env (rm_soname m) = (dl, mt)" by fastforce
  show ?case
  proof (cases "need_reload mt now m")
    case (Inl e)
    then have "e = Uninitialised \<and> \<not> module_ready m"
      by (auto simp: need_reload_def module_ready_def split: if_splits option.splits)
    then show ?thesis using Inl env by simp
  next
    case (Inr b)
    obtain m' h' where r: "(if b then module_reload new_filter save_state load_state api_ver dl mt m h else Inr (m, h)) = Inr (m', h')"
      "insts_ok finv h'" "same_links h h'" "rm_ih m' = rm_ih m" "module_ready m \<longrightarrow> module_ready m'"
    proof (cases b)
      case True
      have "\<forall>i \<in> set (rm_ih m). h i \<noteq> None" using Cons.prems(2) by simp
      from module_reload_ok [OF Cons.prems(1) this, of api_ver dl mt] show ?thesis using that True by auto
    qed (use that Cons.prems(1) in simp)
    have "\<forall>m \<in> set ms. \<forall>i \<in> set (rm_ih m). h' i \<noteq> None"
      using Cons.prems(2) same_links_live [OF r(3)] by simp
    from Cons.IH [OF r(2) this] show ?thesis
      using env Inr r same_links_trans [OF r(3)] by auto
  qed
qed simp

end

section \<open>Properties\<close>

text \<open>
  C9. Replacing a plug-in while sessions use it loses nothing: when the file is missing or unusable
  for any number of checks and then a new library with the same factory appears, every instance of
  the module has the filter it had before, with all its state.
\<close>

theorem plugin_reload_keeps:
  assumes "rm_dlh m" and "distinct (rm_ih m)"
    and "\<forall>i \<in> set (rm_ih m). \<exists>ri f. h i = Some ri \<and> ri_flt ri = Some f \<and> ri_st ri = None \<and> flt_ok f \<and> flt_kind_of f = k"
    and "\<forall>(dl, mt) \<in> set env. \<forall>k. \<not> loads_as api_ver k dl" and "loads_as api_ver k dl"
  shows "\<exists>m'. module_reloads flt_new flt_save flt_load api_ver (env @ [(dl, mt)]) m h = Inr (m', h) \<and>
    rm_dlh m' \<and> rm_ih m' = rm_ih m \<and> rm_filter_new m' = Some (Some k)"
  by (rule plugins.reload_keeps [OF assms])

lemma plugin_reload_keeps_witness:
  "\<exists>m'. module_reloads flt_new flt_save flt_load ''1''
      ([(None, None), (Some \<lparr>dl_sig = Some ''0'', dl_filter = None\<rparr>, Some 3)] @ [(Some \<lparr>dl_sig = Some ''1'', dl_filter = Some KindLoot\<rparr>, Some 5)])
      \<lparr>rm_soname = ''dl/rfx_loot.so'', rm_dlh = True, rm_filter_new = Some (Some KindLoot), rm_tstamp = Some 0, rm_ih = [0]\<rparr> ex_insts
    = Inr (m', ex_insts)"
proof -
  let ?m = "\<lparr>rm_soname = ''dl/rfx_loot.so'', rm_dlh = True, rm_filter_new = Some (Some KindLoot), rm_tstamp = Some 0, rm_ih = [0]\<rparr>"
  have "\<forall>i \<in> set (rm_ih ?m). \<exists>ri f. ex_insts i = Some ri \<and> ri_flt ri = Some f \<and> ri_st ri = None \<and> flt_ok f \<and> flt_kind_of f = KindLoot"
    by (simp add: ex_insts_def loot_state_new_ok)
  then show ?thesis
    using plugin_reload_keeps [of ?m ex_insts KindLoot "[(None, None), (Some \<lparr>dl_sig = Some ''0'', dl_filter = None\<rparr>, Some 3)]" "''1''"
        "Some \<lparr>dl_sig = Some ''1'', dl_filter = Some KindLoot\<rparr>" "Some 5"]
    by (auto simp: loads_as_def)
qed

end
