(* ===== verification/Pipe.thy ===== *)
theory Pipe
  imports Ledger_Queues
begin

text \<open>
  One direction of a proxied connection (\<open>proxy_pipe\<close> of \<^verbatim>\<open>proxy.h\<close> and \<^verbatim>\<open>proxy.cpp\<close>) and the queue of
  delayed packets (\<open>delayed_queue\<close> of \<^verbatim>\<open>main.cpp\<close>). A socket has the scripts of theory \<open>Kernel_Io\<close>
  and remembers which sides were shut down; a watcher is active or not. Each operation is shown to keep
  the ledger and the invariants of the two queues of the pipe.
\<close>

section \<open>Pipes\<close>

record sock =
  so_rd :: "rd_outcome list"
  so_wr :: wrfd
  so_shut_rd :: bool
  so_shut_wr :: bool

record proxy_pipe =
  pp_dir :: dir
  pp_in_on :: bool
  pp_out_on :: bool
  pp_state :: u32
  pp_sndq :: sendq
  pp_rcvq :: recvq

definition PIPE_EOF :: u32 where "PIPE_EOF = 1"
definition PIPE_BROKEN :: u32 where "PIPE_BROKEN = 2"

text \<open>The constructor; \<open>jr\<close> and \<open>js\<close> are the uninitialised buffers of the queues.\<close>

definition pipe_new :: "bytes \<Rightarrow> iovec list \<Rightarrow> dir \<Rightarrow> proxy_pipe" where
  "pipe_new jr js d = \<lparr>pp_dir = d, pp_in_on = False, pp_out_on = False, pp_state = 0,
     pp_sndq = sendq_new js d, pp_rcvq = recvq_new jr d\<rparr>"

definition pipe_run :: "proxy_pipe \<Rightarrow> proxy_pipe" where
  "pipe_run p = p\<lparr>pp_in_on := True\<rparr>"

definition pipe_stop :: "proxy_pipe \<Rightarrow> proxy_pipe" where
  "pipe_stop p = p\<lparr>pp_in_on := False, pp_out_on := False\<rparr>"

definition pipe_running :: "proxy_pipe \<Rightarrow> bool" where
  "pipe_running p = (\<not> sendq_is_empty (pp_sndq p))"

definition recvq_is_empty :: "recvq \<Rightarrow> bool" where
  "recvq_is_empty q = pqh_empty (rq_pq q)"

definition pipe_done :: "proxy_pipe \<Rightarrow> bool" where
  "pipe_done p =
     (if pp_state p AND PIPE_BROKEN \<noteq> 0 then True
      else if pp_state p AND PIPE_EOF \<noteq> 0 \<and> recvq_is_empty (pp_rcvq p) \<and> sendq_is_empty (pp_sndq p) then True
      else False)"

definition pipe_pop_in :: "proxy_pipe \<Rightarrow> addr option \<times> proxy_pipe" where
  "pipe_pop_in p = (case pqh_pop (rq_pq (pp_rcvq p)) of (x, q) \<Rightarrow> (x, p\<lparr>pp_rcvq := pp_rcvq p\<lparr>rq_pq := q\<rparr>\<rparr>))"

definition pipe_push_out :: "proxy_pipe \<Rightarrow> addr \<Rightarrow> proxy_pipe" where
  "pipe_push_out p x = p\<lparr>pp_sndq := sendq_push (pp_sndq p) x\<rparr>"

definition pipe_inject :: "proxy_pipe \<Rightarrow> pqhead \<Rightarrow> store \<Rightarrow> (store \<times> pqhead \<times> proxy_pipe) res" where
  "pipe_inject p src st =
     rbind (sendq_pull (pp_sndq p) src st) (\<lambda>(r, st', src', q). Inr (st', src', p\<lparr>pp_sndq := q\<rparr>))"

text \<open>\<open>handle_read_event\<close>, with the socket behind \<open>in\<close>.\<close>

definition pipe_read :: "proxy_pipe \<Rightarrow> sock \<Rightarrow> store \<Rightarrow> (store \<times> sock \<times> proxy_pipe) res" where
  "pipe_read p si st =
     rbind (recvq_recv (so_rd si) (pp_rcvq p) st) (\<lambda>(ok, s', st', q').
       let p1 = p\<lparr>pp_rcvq := q'\<rparr>
       in Inr (st', si\<lparr>so_rd := s'\<rparr>,
               if \<not> ok then p1\<lparr>pp_state := pp_state p1 OR PIPE_EOF, pp_in_on := False\<rparr> else p1))"

text \<open>\<open>handle_write_event\<close>, with the sockets behind \<open>in\<close> and \<open>out\<close>.\<close>

definition pipe_write :: "proxy_pipe \<Rightarrow> sock \<Rightarrow> sock \<Rightarrow> store \<Rightarrow> (store \<times> sock \<times> sock \<times> proxy_pipe) res" where
  "pipe_write p si so st =
     rbind (sendq_send (pp_sndq p) (so_wr so) st) (\<lambda>(result, fd', st', q').
       let so1 = so\<lparr>so_wr := fd'\<rparr>; p1 = p\<lparr>pp_sndq := q'\<rparr>;
           (si2, p2) = (if result = -1
             then (si\<lparr>so_shut_rd := True\<rparr>, p1\<lparr>pp_state := pp_state p1 OR PIPE_BROKEN\<rparr>) else (si, p1))
       in if result \<le> 0
          then (let p3 = p2\<lparr>pp_out_on := False\<rparr>
                in if pp_state p3 AND PIPE_EOF \<noteq> 0 \<and> recvq_is_empty (pp_rcvq p3)
                   then Inr (st', si2, so1\<lparr>so_shut_wr := True\<rparr>, p3) else Inr (st', si2, so1, p3))
          else Inr (st', si2, so1, p2\<lparr>pp_out_on := True\<rparr>))"

text \<open>The two bits of the state do not disturb each other.\<close>

definition pipe_eof :: "proxy_pipe \<Rightarrow> bool" where
  "pipe_eof p \<longleftrightarrow> pp_state p AND PIPE_EOF \<noteq> 0"

definition pipe_broken :: "proxy_pipe \<Rightarrow> bool" where
  "pipe_broken p \<longleftrightarrow> pp_state p AND PIPE_BROKEN \<noteq> 0"

lemma pipe_bits [simp]:
  "(s OR PIPE_BROKEN) AND PIPE_EOF = s AND PIPE_EOF" "(s OR PIPE_EOF) AND PIPE_BROKEN = s AND PIPE_BROKEN"
  "(s OR PIPE_BROKEN) AND PIPE_BROKEN = PIPE_BROKEN" "(s OR PIPE_EOF) AND PIPE_EOF = PIPE_EOF"
  "PIPE_EOF \<noteq> 0" "PIPE_BROKEN \<noteq> 0"
  by (simp_all add: PIPE_EOF_def PIPE_BROKEN_def word_ao_dist word_ao_absorbs)

lemma pipe_write_eq:
  assumes "sendq_send (pp_sndq p) (so_wr so) st = Inr (r, fd', st', q')"
  shows "pipe_write p si so st = Inr (st',
     if r = -1 then si\<lparr>so_shut_rd := True\<rparr> else si,
     if r \<le> 0 \<and> pipe_eof p \<and> recvq_is_empty (pp_rcvq p) then so\<lparr>so_wr := fd', so_shut_wr := True\<rparr> else so\<lparr>so_wr := fd'\<rparr>,
     p\<lparr>pp_sndq := q', pp_state := if r = -1 then pp_state p OR PIPE_BROKEN else pp_state p, pp_out_on := 0 < r\<rparr>)"
proof -
  consider "r = -1" | "r \<noteq> -1" "r \<le> 0" | "r \<noteq> -1" "0 < r" by linarith
  then show ?thesis
    using assms by cases (simp_all add: pipe_write_def pipe_eof_def)
qed

text \<open>The destructors: \<open>rcvq\<close>, declared last, is destroyed first.\<close>

definition pipe_destroy :: "proxy_pipe \<Rightarrow> store \<Rightarrow> store res" where
  "pipe_destroy p st = rbind (pqh_clear (rq_pq (pp_rcvq p)) st) (pqh_clear (sq_pq (pp_sndq p)))"

section \<open>Delayed packets\<close>

text \<open>\<open>dp_after\<close> are the milliseconds the timer was set to, \<open>dp_on\<close> whether it is active.\<close>

record delayed_pkt =
  dp_pkt :: addr
  dp_after :: u32
  dp_on :: bool

record delayed_queue =
  dq_qh :: "delayed_pkt list"
  dq_has_new :: bool

definition dq_new :: delayed_queue where
  "dq_new = \<lparr>dq_qh = [], dq_has_new = False\<rparr>"

definition delayed_pkt_new :: "addr \<Rightarrow> store \<Rightarrow> delayed_pkt res" where
  "delayed_pkt_new p st = rbind (pkt_get st p) (\<lambda>pk. Inr \<lparr>dp_pkt = p, dp_after = p_delay pk, dp_on = False\<rparr>)"

fun dq_pull :: "pqhead \<Rightarrow> delayed_queue \<Rightarrow> store \<Rightarrow> delayed_queue res" where
  "dq_pull [] dq st = Inr dq"
| "dq_pull (p # src) dq st =
     rbind (delayed_pkt_new p st) (\<lambda>dp.
       dq_pull src (dq\<lparr>dq_has_new := True, dq_qh := dq_qh dq @ [dp]\<rparr>) st)"

definition dq_start :: "delayed_queue \<Rightarrow> delayed_queue" where
  "dq_start dq =
     (if dq_has_new dq
      then dq\<lparr>dq_qh := map (\<lambda>dp. if \<not> dp_on dp then dp\<lparr>dp_on := True\<rparr> else dp) (dq_qh dq), dq_has_new := False\<rparr>
      else dq)"

definition dq_stop :: "delayed_queue \<Rightarrow> delayed_queue" where
  "dq_stop dq = dq\<lparr>dq_qh := map (\<lambda>dp. dp\<lparr>dp_on := False\<rparr>) (dq_qh dq)\<rparr>"

definition dq_add :: "addr \<Rightarrow> delayed_queue \<Rightarrow> store \<Rightarrow> delayed_queue res" where
  "dq_add p dq st = rbind (delayed_pkt_new p st) (\<lambda>dp. Inr (dq\<lparr>dq_qh := dq_qh dq @ [dp\<lparr>dp_on := True\<rparr>]\<rparr>))"

fun dq_destroy :: "delayed_pkt list \<Rightarrow> store \<Rightarrow> store res" where
  "dq_destroy [] st = Inr st"
| "dq_destroy (dp # q) st = rbind (pkt_unref (dp_pkt dp) st) (dq_destroy q)"

section \<open>Holders\<close>

definition dq_hold :: "delayed_queue \<Rightarrow> addr multiset" where
  "dq_hold dq = mset (map dp_pkt (dq_qh dq))"

definition pipe_hold :: "proxy_pipe \<Rightarrow> addr multiset" where
  "pipe_hold p = rq_hold (pp_rcvq p) + mset (sq_pq (pp_sndq p))"

text \<open>The invariant of a pipe between two callbacks.\<close>

definition pipe_ok :: "proxy_pipe \<Rightarrow> store \<Rightarrow> bool" where
  "pipe_ok p st \<longleftrightarrow> recvq_ok (pp_rcvq p) st \<and> sq_ok (pp_sndq p) st \<and>
     rq_dir (pp_rcvq p) = pp_dir p \<and> sq_dir (pp_sndq p) = pp_dir p"

lemma pipe_flags [simp]:
  "pipe_hold (p\<lparr>pp_in_on := a\<rparr>) = pipe_hold p" "pipe_hold (p\<lparr>pp_out_on := a\<rparr>) = pipe_hold p"
  "pipe_hold (p\<lparr>pp_state := s\<rparr>) = pipe_hold p"
  "pipe_ok (p\<lparr>pp_in_on := a\<rparr>) st = pipe_ok p st" "pipe_ok (p\<lparr>pp_out_on := a\<rparr>) st = pipe_ok p st"
  "pipe_ok (p\<lparr>pp_state := s\<rparr>) st = pipe_ok p st"
  by (simp_all add: pipe_hold_def pipe_ok_def)

lemma dq_hold_start [simp]: "dq_hold (dq_start dq) = dq_hold dq"
  by (simp add: dq_hold_def dq_start_def comp_def if_distrib cong: if_cong)

lemma dq_hold_stop [simp]: "dq_hold (dq_stop dq) = dq_hold dq"
  by (simp add: dq_hold_def dq_stop_def comp_def)

text \<open>Another part of the store changes.\<close>

lemma pipe_ok_touched:
  assumes "pipe_ok p st" and "ledger st (pipe_hold p + hs)" and "touched T st st'" and "store_ok st'"
    and "set_mset (pipe_hold p) \<inter> T = {}"
  shows "pipe_ok p st'"
proof -
  have "recvq_ok (pp_rcvq p) st'"
    by (rule recvq_ok_touched [OF _ assms(3) _ assms(4)])
      (use assms(1,5) in \<open>auto simp: pipe_ok_def pipe_hold_def rq_hold_def opt_hold_def split: option.splits\<close>)
  moreover have "ledger st (mset (sq_pq (pp_sndq p)) + (rq_hold (pp_rcvq p) + hs))"
    using assms(2) by (simp add: pipe_hold_def ac_simps)
  then have "sq_ok (pp_sndq p) st'"
    by (rule sq_ok_touched [rotated 3]) (use assms(1,3,5) in \<open>auto simp: pipe_ok_def pipe_hold_def\<close>)
  ultimately show ?thesis using assms(1) by (simp add: pipe_ok_def)
qed

text \<open>One reference fewer on a packet that the pipe may hold itself.\<close>

lemma pipe_ok_unref:
  assumes ok: "pipe_ok q st" and led: "ledger st (add_mset p (pipe_hold q + hs))"
    and un: "pkt_unref p st = Inr st'" and led': "ledger st' (pipe_hold q + hs)" and T: "touched {p} st st'"
  shows "pipe_ok q st'"
proof (cases "p \<in># pipe_hold q")
  case False
  have "ledger st (pipe_hold q + add_mset p hs)" using led by simp
  from pipe_ok_touched [OF ok this T ledger_store_ok [OF led']] False show ?thesis by simp
next
  case True
  obtain pk where pk: "pkts st p = Some pk" "unat (p_refc pk) = count (add_mset p (pipe_hold q + hs)) p"
    by (rule ledger_get [OF led, of p]) auto
  have two: "unat (p_refc pk) \<noteq> 1" using pk(2) True by simp
  obtain pk' where pk': "pkts st' p = Some pk'" "p_data pk' = p_data pk"
    using un pk(1) ledger_live [OF led', of p] True by (auto simp: pkt_unref_eq_Inr split: if_splits)
  have same: "pkts st' x = pkts st x" if "x \<noteq> p" for x
    using un pk(1) that by (auto simp: pkt_unref_eq_Inr split: if_splits)
  have "rq_rd (pp_rcvq q) \<noteq> Some p"
    using ok pk(1) two by (auto simp: pipe_ok_def recvq_ok_def frame_pkt_def)
  then have "recvq_ok (pp_rcvq q) st'"
    using ok same touched_brk [OF T] ledger_store_ok [OF led']
    by (auto simp: pipe_ok_def recvq_ok_def split: option.splits)
  moreover have "iov_inside st' v" if "iov_inside st v" for v
    using that pk pk' same [of "iov_pkt v"] by (cases "iov_pkt v = p") (auto simp: iov_inside_def)
  then have "sq_ok (pp_sndq q) st'"
    using ok by (auto simp: pipe_ok_def sq_ok_def sq_safe_def)
  ultimately show ?thesis using ok by (simp add: pipe_ok_def)
qed

lemma pipe_read_ledger:
  assumes "pipe_ok p st" and "ledger st (pipe_hold p + hs)" and "once (pipe_hold p + hs)"
  obtains (bad) "pipe_read p si st = Inl OutOfBounds"
    | (ok) st' si' p' where "pipe_read p si st = Inr (st', si', p')" "pipe_ok p' st'" "ledger st' (pipe_hold p' + hs)"
      "once (pipe_hold p' + hs)" "touched (set_mset (pipe_hold p)) st st'" "pp_sndq p' = pp_sndq p" "pp_dir p' = pp_dir p"
proof -
  let ?q = "pp_rcvq p" and ?sq = "mset (sq_pq (pp_sndq p))"
  have q: "recvq_ok ?q st" using assms(1) by (simp add: pipe_ok_def)
  have led: "ledger st (rq_hold ?q + (?sq + hs))"
    using assms(2) by (simp add: pipe_hold_def ac_simps)
  show thesis
  proof (cases rule: recvq_recv_ledger [OF q led, of "so_rd si"])
    case 1
    then show ?thesis by (intro bad) (simp add: pipe_read_def)
  next
    case (2 fs s' q' st')
    let ?p1 = "p\<lparr>pp_rcvq := q'\<rparr>"
    let ?p = "if \<not> rd_more (so_rd si) then ?p1\<lparr>pp_state := pp_state ?p1 OR PIPE_EOF, pp_in_on := False\<rparr> else ?p1"
    have read: "pipe_read p si st = Inr (st', si\<lparr>so_rd := s'\<rparr>, ?p)"
      using 2(1) by (simp add: pipe_read_def)
    have hold: "pipe_hold ?p + hs = rq_hold q' + (?sq + hs)" "pipe_hold p + hs = rq_hold ?q + (?sq + hs)"
      by (simp_all add: pipe_hold_def ac_simps)
    have T: "touched (set_mset (pipe_hold p)) st st'"
      by (rule touched_mono [OF 2(4)]) (auto simp: pipe_hold_def rq_hold_def opt_hold_def)
    have q': "recvq_ok q' st'" "rq_dir q' = rq_dir ?q" using 2(2) by (auto simp: recv_delivers_def)
    have "once (rq_hold ?q + (?sq + hs))" using assms(3) unfolding hold .
    then have "set_mset (rq_hold ?q) \<inter> set_mset (?sq + hs) = {}" by (rule once_disjoint)
    then have "sq_ok (pp_sndq p) st'"
      using assms(1) 2(4) led
      by (intro sq_ok_touched [OF _ 2(4), where hs = "rq_hold ?q + hs"])
        (auto simp: pipe_ok_def rq_hold_def opt_hold_def ac_simps split: option.splits)
    then have "pipe_ok ?p st'" using assms(1) q' by (simp add: pipe_ok_def)
    moreover have "once (pipe_hold ?p + hs)"
      unfolding once_def hold
    proof
      show "count (rq_hold q' + (?sq + hs)) x \<le> 1" for x
        using 2(7) [of x] onceD [OF assms(3), of x] unfolding hold by simp
    qed
    ultimately show ?thesis
      using 2(3) T unfolding hold(1) [symmetric] by (intro ok [OF read]) simp_all
  qed
qed

text \<open>Sending: packets may leave, the other pipes and queues are not touched.\<close>

lemma pipe_write_ledger:
  assumes "pipe_ok p st" and "ledger st (pipe_hold p + hs)" and "set_mset (rq_hold (pp_rcvq p)) \<inter> set (sq_pq (pp_sndq p)) = {}"
  obtains st' si' so' p' where "pipe_write p si so st = Inr (st', si', so', p')" "pipe_ok p' st'"
    "ledger st' (pipe_hold p' + hs)" "touched (set (sq_pq (pp_sndq p))) st st'" "pp_rcvq p' = pp_rcvq p"
    "pipe_hold p' \<subseteq># pipe_hold p" "pp_dir p' = pp_dir p"
proof -
  let ?q = "pp_sndq p" and ?r = "rq_hold (pp_rcvq p)"
  have q: "sq_ok ?q st" "recvq_ok (pp_rcvq p) st" using assms(1) by (simp_all add: pipe_ok_def)
  have led: "ledger st (mset (sq_pq ?q) + (?r + hs))"
    using assms(2) by (simp add: pipe_hold_def ac_simps)
  obtain r fd' st' q' where s: "sendq_send ?q (so_wr so) st = Inr (r, fd', st', q')" "sq_stays ?q st (?r + hs) r q' st'"
    by (rule sendq_send_ledger [OF q(1) led])
  then have q': "sq_ok q' st'" "ledger st' (mset (sq_pq q') + (?r + hs))" "touched (set (sq_pq ?q)) st st'"
    "sq_dir q' = sq_dir ?q"
    by (auto simp: sq_stays_def)
  have sub: "mset (sq_pq q') \<subseteq># mset (sq_pq ?q)"
  proof -
    obtain j where j: "sq_pq q' = drop j (sq_pq ?q)" using s(2) by (auto simp: sq_stays_def)
    have "mset (sq_pq ?q) = mset (take j (sq_pq ?q)) + mset (drop j (sq_pq ?q))"
      by (simp flip: mset_append)
    then show ?thesis using j by simp
  qed
  have "recvq_ok (pp_rcvq p) st'"
    by (rule recvq_ok_touched [OF q(2) q'(3) _ ledger_store_ok [OF q'(2)]])
      (use assms(3) in \<open>auto simp: rq_hold_def opt_hold_def split: option.splits\<close>)
  then have ok: "pipe_ok (p\<lparr>pp_sndq := q', pp_state := s, pp_out_on := b\<rparr>) st'" for s b
    using assms(1) q'(1,4) by (simp add: pipe_ok_def)
  have hold: "pipe_hold (p\<lparr>pp_sndq := q'\<rparr>) = ?r + mset (sq_pq q')"
    by (simp add: pipe_hold_def)
  note w = pipe_write_eq [where si = si, OF s(1)]
  show thesis
    by (rule that [OF w ok]) (use q' sub in \<open>auto simp: hold pipe_hold_def [of p] ac_simps\<close>)
qed

lemma pipe_inject_ledger:
  assumes "pipe_ok p st" and "ledger st (mset src + pipe_hold p + hs)" and "distinct src"
    and "set src \<inter> set_mset (pipe_hold p) = {}"
  obtains st' src' p' where "pipe_inject p src st = Inr (st', src', p')" "pipe_ok p' st'"
    "ledger st' (mset src' + pipe_hold p' + hs)" "touched (set src) st st'" "distinct src'"
    "set src' \<inter> set_mset (pipe_hold p') = {}" "set src' \<subseteq> set src" "set_mset (pipe_hold p') \<subseteq> set_mset (pipe_hold p) \<union> set src"
    "pp_rcvq p' = pp_rcvq p" "mset src' + pipe_hold p' \<subseteq># mset src + pipe_hold p" "pp_dir p' = pp_dir p"
proof -
  let ?q = "pp_sndq p" and ?r = "rq_hold (pp_rcvq p)"
  have q: "sq_ok ?q st" "recvq_ok (pp_rcvq p) st" using assms(1) by (simp_all add: pipe_ok_def)
  have led: "ledger st (mset src + mset (sq_pq ?q) + (?r + hs))"
    using assms(2) by (simp add: pipe_hold_def ac_simps)
  have disj: "set src \<inter> set (sq_pq ?q) = {}" "set src \<inter> set_mset ?r = {}"
    using assms(4) by (auto simp: pipe_hold_def)
  obtain r st' src' q' moved where s: "sendq_pull ?q src st = Inr (r, st', src', q')" "sq_ok q' st'"
    "ledger st' (mset src' + mset (sq_pq q') + (?r + hs))" "touched (set src) st st'" "distinct src'"
    "sq_pq q' = sq_pq ?q @ moved" "set src' \<union> set moved \<subseteq> set src" "set src' \<inter> set moved = {}" "sq_dir q' = sq_dir ?q"
    "mset src' + mset moved \<subseteq># mset src"
    by (rule sendq_pull_ledger [OF q(1) led assms(3) disj(1)])
  let ?p = "p\<lparr>pp_sndq := q'\<rparr>"
  have "recvq_ok (pp_rcvq p) st'"
    by (rule recvq_ok_touched [OF q(2) s(4) _ ledger_store_ok [OF s(3)]])
      (use disj(2) in \<open>auto simp: rq_hold_def opt_hold_def split: option.splits\<close>)
  then have ok: "pipe_ok ?p st'" using assms(1) s(2,9) by (simp add: pipe_ok_def)
  have hold: "pipe_hold ?p = pipe_hold p + mset moved" by (simp add: pipe_hold_def s(6))
  show thesis
  proof (rule that [of st' src' ?p])
    show "pipe_inject p src st = Inr (st', src', ?p)" by (simp add: pipe_inject_def s(1))
    show "ledger st' (mset src' + pipe_hold ?p + hs)"
      by (rule ledger_cong [OF s(3)]) (simp add: pipe_hold_def)
    show "set src' \<inter> set_mset (pipe_hold ?p) = {}" using s(7,8) assms(4) by (auto simp: hold)
    show "mset src' + pipe_hold ?p \<subseteq># mset src + pipe_hold p"
      using s(10) by (simp add: hold ac_simps)
    show "set_mset (pipe_hold ?p) \<subseteq> set_mset (pipe_hold p) \<union> set src" using s(7) by (auto simp: hold)
  qed (use ok s in simp_all)
qed

lemma dq_pull_ok:
  assumes "\<And>p. p \<in> set src \<Longrightarrow> pkts st p \<noteq> None"
  shows "\<exists>dq'. dq_pull src dq st = Inr dq' \<and> dq_hold dq' = dq_hold dq + mset src"
  using assms
proof (induction src arbitrary: dq)
  case (Cons p src)
  then obtain pk where pk: "pkts st p = Some pk" by fastforce
  let ?dq = "dq\<lparr>dq_has_new := True, dq_qh := dq_qh dq @ [\<lparr>dp_pkt = p, dp_after = p_delay pk, dp_on = False\<rparr>]\<rparr>"
  have "\<exists>dq'. dq_pull src ?dq st = Inr dq' \<and> dq_hold dq' = dq_hold ?dq + mset src"
    by (rule Cons.IH) (use Cons.prems in auto)
  then show ?case using pk by (auto simp: delayed_pkt_new_def dq_hold_def)
qed simp

lemma dq_destroy_clear: "dq_destroy q st = pqh_clear (map dp_pkt q) st"
proof (induction q arbitrary: st)
  case (Cons dp q)
  then have "dq_destroy q = pqh_clear (map dp_pkt q)" by (intro ext)
  then show ?case by simp
qed simp

end
