(* ===== verification/Session.thy ===== *)
theory Session
  imports Modules Pipe
begin

text \<open>
  A proxied connection: \<open>rf_session\<close> of \<^verbatim>\<open>main.cpp\<close>. The session has a pipe in each direction, a chain of
  filter instances and a queue of delayed packets, and runs on two sockets. Its callbacks are functions
  from the session, the packet store and the plug-in manager to new ones; an option, because the loop
  over the events of a packet ends only if the filters let it. Shown: with filters that keep the
  contract of theory \<open>Filters\<close> the callbacks always return, the only fault is the out-of-bounds access of a
  malformed packet, and every packet is held exactly once and released exactly when its last holder goes.
\<close>

record rf_session =
  se_c2s :: proxy_pipe
  se_s2c :: proxy_pipe
  se_flt :: "iid list"
  se_dq :: delayed_queue
  se_cli :: sock
  se_srv :: sock

section \<open>Access by direction\<close>

fun se_pipe :: "dir \<Rightarrow> rf_session \<Rightarrow> proxy_pipe" where
  "se_pipe CLI_TO_SRV s = se_c2s s"
| "se_pipe SRV_TO_CLI s = se_s2c s"

fun se_set_pipe :: "dir \<Rightarrow> proxy_pipe \<Rightarrow> rf_session \<Rightarrow> rf_session" where
  "se_set_pipe CLI_TO_SRV p s = s\<lparr>se_c2s := p\<rparr>"
| "se_set_pipe SRV_TO_CLI p s = s\<lparr>se_s2c := p\<rparr>"

fun other_dir :: "dir \<Rightarrow> dir" where
  "other_dir CLI_TO_SRV = SRV_TO_CLI"
| "other_dir SRV_TO_CLI = CLI_TO_SRV"

text \<open>The socket a pipe reads from; the other one is the socket it writes to.\<close>

fun se_in :: "dir \<Rightarrow> rf_session \<Rightarrow> sock" where
  "se_in CLI_TO_SRV s = se_cli s"
| "se_in SRV_TO_CLI s = se_srv s"

fun se_set_in :: "dir \<Rightarrow> sock \<Rightarrow> rf_session \<Rightarrow> rf_session" where
  "se_set_in CLI_TO_SRV k s = s\<lparr>se_cli := k\<rparr>"
| "se_set_in SRV_TO_CLI k s = s\<lparr>se_srv := k\<rparr>"

section \<open>Operations\<close>

text \<open>The constructor, without the chain.\<close>

definition rf_session_new :: "sock \<Rightarrow> sock \<Rightarrow> bytes \<times> iovec list \<Rightarrow> bytes \<times> iovec list \<Rightarrow> iid list \<Rightarrow> rf_session" where
  "rf_session_new cli srv j1 j2 flt =
     \<lparr>se_c2s = pipe_new (fst j1) (snd j1) CLI_TO_SRV, se_s2c = pipe_new (fst j2) (snd j2) SRV_TO_CLI,
      se_flt = flt, se_dq = dq_new, se_cli = cli, se_srv = srv\<rparr>"

definition session_run :: "rf_session \<Rightarrow> rf_session" where
  "session_run s = s\<lparr>se_c2s := pipe_run (se_c2s s), se_s2c := pipe_run (se_s2c s)\<rparr>"

definition session_stop :: "rf_session \<Rightarrow> rf_session" where
  "session_stop s = s\<lparr>se_dq := dq_stop (se_dq s), se_c2s := pipe_stop (se_c2s s), se_s2c := pipe_stop (se_s2c s)\<rparr>"

definition session_done :: "rf_session \<Rightarrow> bool" where
  "session_done s \<longleftrightarrow> pipe_done (se_c2s s) \<and> pipe_done (se_s2c s)"

definition session_read :: "dir \<Rightarrow> rf_session \<Rightarrow> store \<Rightarrow> (rf_session \<times> store) res" where
  "session_read d s st =
     rbind (pipe_read (se_pipe d s) (se_in d s) st) (\<lambda>(st', si, p).
       Inr (se_set_in d si (se_set_pipe d p s), st'))"

definition session_write :: "dir \<Rightarrow> rf_session \<Rightarrow> store \<Rightarrow> (rf_session \<times> store) res" where
  "session_write d s st =
     rbind (pipe_write (se_pipe d s) (se_in d s) (se_in (other_dir d) s) st) (\<lambda>(st', si, so, p).
       Inr (se_set_in (other_dir d) so (se_set_in d si (se_set_pipe d p s)), st'))"

text \<open>New packets go to the pipe of their direction as far as it has room, the rest is delayed.\<close>

definition session_enqueue :: "pqhead \<Rightarrow> rf_session \<Rightarrow> store \<Rightarrow> (rf_session \<times> store) res" where
  "session_enqueue q s st =
     rbind (pipe_inject (se_s2c s) q st) (\<lambda>(st1, q1, p1).
     rbind (pipe_inject (se_c2s s) q1 st1) (\<lambda>(st2, q2, p2).
     rbind (dq_pull q2 (se_dq s) st2) (\<lambda>dq. Inr (s\<lparr>se_s2c := p1, se_c2s := p2, se_dq := dq\<rparr>, st2))))"

text \<open>The packet itself (showing it changes nothing).\<close>

definition session_forward :: "dir \<Rightarrow> addr \<Rightarrow> rf_session \<Rightarrow> store \<Rightarrow> (rf_session \<times> store) res" where
  "session_forward d p s st =
     rbind (pkt_get st p) (\<lambda>pk.
       if \<not> p_drop pk then Inr (se_set_pipe d (pipe_push_out (se_pipe d s) p) s, st)
       else rbind (pkt_unref p st) (\<lambda>st'. Inr (s, st')))"

lemma pqh_clear_init [simp]: "pqh_clear pqh_init st = Inr st"
  by (simp add: pqh_init_def)

text \<open>
  One packet: the plug-ins, the packets they put in front of it, itself, those behind it. The two queues are
  empty when they are cleared: what found no room was delayed.
\<close>

definition session_packet :: "'f pkt_proc \<Rightarrow> 'f ev_proc \<Rightarrow> dir \<Rightarrow> addr \<Rightarrow> rf_session \<Rightarrow> store \<Rightarrow> 'f insts \<Rightarrow>
    (rf_session \<times> store \<times> 'f insts) res option" where
  "session_packet pp pe d p s st h =
     (case chain_pkt pp (se_flt s) p h \<lparr>fw_store = st, fw_pre = pqh_init, fw_post = pqh_init, fw_evq = []\<rparr> of
        Inl e \<Rightarrow> Some (Inl e)
      | Inr (h1, w1) \<Rightarrow>
          map_option (\<lambda>r. rbind r (\<lambda>(h2, w2).
            rbind (session_enqueue (fw_pre w2) s (fw_store w2)) (\<lambda>(s1, st1).
            rbind (session_forward d p s1 st1) (\<lambda>(s2, st2).
            rbind (session_enqueue (fw_post w2) s2 st2) (\<lambda>(s3, st3).
            rbind (pqh_clear pqh_init st3) (\<lambda>st4. rbind (pqh_clear pqh_init st4) (\<lambda>st5.
            rbind (evq_destroy (fw_evq w2) st5) (\<lambda>st6. Inr (s3, st6, h2)))))))))
            (chain_evs pe (se_flt s) h1 w1))"

text \<open>\<open>rf_session::filter\<close>.\<close>

partial_function (option) session_filter ::
    "'f pkt_proc \<Rightarrow> 'f ev_proc \<Rightarrow> dir \<Rightarrow> rf_session \<Rightarrow> store \<Rightarrow> 'f insts \<Rightarrow>
     (rf_session \<times> store \<times> 'f insts) res option" where
  "session_filter pp pe d s st h =
     (case pipe_pop_in (se_pipe d s) of
        (None, q) \<Rightarrow> Some (Inr (s, st, h))
      | (Some p, q) \<Rightarrow>
          (case session_packet pp pe d p (se_set_pipe d q s) st h of
             None \<Rightarrow> None
           | Some (Inl e) \<Rightarrow> Some (Inl e)
           | Some (Inr (s', st', h')) \<Rightarrow> session_filter pp pe d s' st' h'))"

section \<open>Callbacks\<close>

text \<open>The part of a callback that handles \<open>EV_READ\<close>.\<close>

definition session_readable :: "'f pkt_proc \<Rightarrow> 'f ev_proc \<Rightarrow> dir \<Rightarrow> rf_session \<Rightarrow> store \<Rightarrow> 'f insts \<Rightarrow>
    (rf_session \<times> store \<times> 'f insts) res option" where
  "session_readable pp pe d s st h =
     (case session_read d s st of
        Inl e \<Rightarrow> Some (Inl e)
      | Inr (s1, st1) \<Rightarrow>
          map_option (\<lambda>r. rbind r (\<lambda>(s2, st2, h').
            rbind (session_write d (s2\<lparr>se_dq := dq_start (se_dq s2)\<rparr>) st2) (\<lambda>(s3, st3).
            rbind (session_write (other_dir d) s3 st3) (\<lambda>(s4, st4). Inr (s4, st4, h')))))
            (session_filter pp pe d s1 st1 h))"

text \<open>
  \<open>delete r\<close>: the members are destroyed in the reverse order of their declaration; the packet a
  receive queue was reading is not released.
\<close>

definition session_delete :: "rf_session \<Rightarrow> store \<Rightarrow> ('k, 'f) manager \<Rightarrow> (store \<times> ('k, 'f) manager) res" where
  "session_delete s st pm =
     rbind (dq_destroy (dq_qh (se_dq s)) st) (\<lambda>st1.
     rbind (chain_delete (se_flt s) pm) (\<lambda>(pm', ch).
     rbind (pipe_destroy (se_s2c s) st1) (\<lambda>st2.
     rbind (pipe_destroy (se_c2s s) st2) (\<lambda>st3. Inr (st3, pm')))))"

text \<open>
  \<open>session_io\<close>: the two callbacks, with their watchers' events; no session is left when it was deleted.
  \<open>session_work\<close> is the part before the question whether the session is done.
\<close>

definition session_work :: "'f pkt_proc \<Rightarrow> 'f ev_proc \<Rightarrow> dir \<Rightarrow> bool \<Rightarrow> bool \<Rightarrow> rf_session \<Rightarrow> store \<Rightarrow>
    'f insts \<Rightarrow> (rf_session \<times> store \<times> 'f insts) res option" where
  "session_work pp pe d ev_read ev_write s st h =
     map_option (\<lambda>r. rbind r (\<lambda>(s1, st1, h1).
       rbind (if ev_write then session_write d s1 st1 else Inr (s1, st1)) (\<lambda>(s2, st2). Inr (s2, st2, h1))))
       (if ev_read then session_readable pp pe d s st h else Some (Inr (s, st, h)))"

definition session_io :: "'f pkt_proc \<Rightarrow> 'f ev_proc \<Rightarrow> dir \<Rightarrow> bool \<Rightarrow> bool \<Rightarrow> rf_session \<Rightarrow> store \<Rightarrow>
    ('k, 'f) manager \<Rightarrow> (rf_session option \<times> store \<times> ('k, 'f) manager) res option" where
  "session_io pp pe d ev_read ev_write s st pm =
     map_option (\<lambda>r. rbind r (\<lambda>(s2, st2, h).
       let pm1 = pm\<lparr>pm_insts := h\<rparr>
       in if session_done s2
          then rbind (session_delete (session_stop s2) st2 pm1) (\<lambda>(st3, pm2). Inr (None, st3, pm2))
          else Inr (Some s2, st2, pm1)))
       (session_work pp pe d ev_read ev_write s st (pm_insts pm))"

definition cli_io_cb :: "'f pkt_proc \<Rightarrow> 'f ev_proc \<Rightarrow> bool \<Rightarrow> bool \<Rightarrow> rf_session \<Rightarrow> store \<Rightarrow>
    ('k, 'f) manager \<Rightarrow> (rf_session option \<times> store \<times> ('k, 'f) manager) res option" where
  "cli_io_cb pp pe = session_io pp pe CLI_TO_SRV"

definition srv_io_cb :: "'f pkt_proc \<Rightarrow> 'f ev_proc \<Rightarrow> bool \<Rightarrow> bool \<Rightarrow> rf_session \<Rightarrow> store \<Rightarrow>
    ('k, 'f) manager \<Rightarrow> (rf_session option \<times> store \<times> ('k, 'f) manager) res option" where
  "srv_io_cb pp pe = session_io pp pe SRV_TO_CLI"

text \<open>
  \<open>rf_delayed_queue::emit\<close> and \<open>delayed_queue::timeout_cb\<close> for the entry at position \<open>i\<close> of the queue.
\<close>

definition session_emit :: "addr \<Rightarrow> rf_session \<Rightarrow> store \<Rightarrow> (rf_session \<times> store) res" where
  "session_emit p s st =
     rbind (pkt_get st p) (\<lambda>pk.
     rbind (pkt_ref p st) (\<lambda>st1.
       session_write (p_dir pk) (se_set_pipe (p_dir pk) (pipe_push_out (se_pipe (p_dir pk) s) p) s) st1))"

definition session_timeout :: "nat \<Rightarrow> rf_session \<Rightarrow> store \<Rightarrow> (rf_session \<times> store) res" where
  "session_timeout i s st =
     rbind (peek (dq_qh (se_dq s)) i) (\<lambda>dp.
     rbind (session_emit (dp_pkt dp)
              (s\<lparr>se_dq := (se_dq s)\<lparr>dq_qh := take i (dq_qh (se_dq s)) @ drop (Suc i) (dq_qh (se_dq s))\<rparr>\<rparr>) st) (\<lambda>(s', st').
     rbind (pkt_unref (dp_pkt dp) st') (\<lambda>st''. Inr (s', st''))))"

section \<open>The invariant\<close>

definition session_hold :: "rf_session \<Rightarrow> addr multiset" where
  "session_hold s = pipe_hold (se_c2s s) + pipe_hold (se_s2c s) + dq_hold (se_dq s)"

definition session_inv :: "rf_session \<Rightarrow> store \<Rightarrow> addr multiset \<Rightarrow> bool" where
  "session_inv s st hs \<longleftrightarrow> ledger st (session_hold s + hs) \<and> once (session_hold s) \<and>
     pipe_ok (se_c2s s) st \<and> pipe_ok (se_s2c s) st \<and>
     pp_dir (se_c2s s) = CLI_TO_SRV \<and> pp_dir (se_s2c s) = SRV_TO_CLI"

lemma se_set_simps [simp]:
  "se_pipe d (se_set_pipe d p s) = p" "se_pipe (other_dir d) (se_set_pipe d p s) = se_pipe (other_dir d) s"
  "se_pipe d' (se_set_in d k s) = se_pipe d' s" "se_dq (se_set_pipe d p s) = se_dq s" "se_dq (se_set_in d k s) = se_dq s"
  "se_flt (se_set_pipe d p s) = se_flt s" "se_flt (se_set_in d k s) = se_flt s" "other_dir (other_dir d) = d"
  by (cases d; cases d'; simp)+

lemma session_hold_dir:
  "session_hold s = pipe_hold (se_pipe d s) + (pipe_hold (se_pipe (other_dir d) s) + dq_hold (se_dq s))"
  by (cases d) (simp_all add: session_hold_def ac_simps)

lemma recvq_ok_pop: "recvq_ok q st \<Longrightarrow> rq_pq q = p # ps \<Longrightarrow> recvq_ok (q\<lparr>rq_pq := ps\<rparr>) st"
  by (auto simp: recvq_ok_def split: option.splits)

lemma session_inv_dir:
  "session_inv s st hs \<longleftrightarrow> ledger st (session_hold s + hs) \<and> once (session_hold s) \<and>
     pipe_ok (se_pipe d s) st \<and> pipe_ok (se_pipe (other_dir d) s) st \<and>
     pp_dir (se_pipe d s) = d \<and> pp_dir (se_pipe (other_dir d) s) = other_dir d"
  by (cases d) (auto simp: session_inv_def)

text \<open>Packets outside the session change.\<close>

lemma session_inv_touched:
  assumes inv: "session_inv s st hs" and T: "touched T st st'" "T \<inter> set_mset (session_hold s) = {}"
    and led: "ledger st' (session_hold s + hs')"
  shows "session_inv s st' hs'"
proof -
  have "pipe_ok (se_pipe e s) st'" for e
  proof -
    have e: "pipe_ok (se_pipe e s) st"
      "ledger st (pipe_hold (se_pipe e s) + (pipe_hold (se_pipe (other_dir e) s) + dq_hold (se_dq s) + hs))"
      using inv by (simp_all add: session_inv_dir [of s _ _ e] session_hold_dir [of s e] ac_simps)
    show ?thesis
      by (rule pipe_ok_touched [OF e T(1) ledger_store_ok [OF led]])
        (use T(2) in \<open>auto simp: session_hold_dir [of s e]\<close>)
  qed
  from this [of CLI_TO_SRV] this [of SRV_TO_CLI] show ?thesis
    using inv led by (simp add: session_inv_def)
qed

text \<open>A pipe has been replaced; the other one and the delayed packets stay.\<close>

lemma session_inv_set_pipe:
  assumes inv: "session_inv s st hs" and p: "pipe_ok p st'" "pp_dir p = d"
    and led: "ledger st' (pipe_hold p + (pipe_hold (se_pipe (other_dir d) s) + dq_hold (se_dq s) + hs'))"
    and once: "once (pipe_hold p + (pipe_hold (se_pipe (other_dir d) s) + dq_hold (se_dq s)))"
    and T: "touched T st st'" "T \<inter> set_mset (pipe_hold (se_pipe (other_dir d) s)) = {}"
  shows "session_inv (se_set_pipe d p s) st' hs'"
proof -
  have o: "pipe_ok (se_pipe (other_dir d) s) st"
    "ledger st (pipe_hold (se_pipe (other_dir d) s) + (pipe_hold (se_pipe d s) + dq_hold (se_dq s) + hs))"
    using inv by (simp_all add: session_inv_dir [of s st hs d] session_hold_dir [of s d] ac_simps)
  have "pipe_ok (se_pipe (other_dir d) s) st'"
    by (rule pipe_ok_touched [OF o T(1) ledger_store_ok [OF led]]) (use T(2) in auto)
  moreover have "session_hold (se_set_pipe d p s) = pipe_hold p + (pipe_hold (se_pipe (other_dir d) s) + dq_hold (se_dq s))"
    unfolding session_hold_dir [of _ d] by simp
  ultimately show ?thesis
    using inv p led once by (simp add: session_inv_dir [of _ _ _ d] add.assoc)
qed

lemma session_once:
  assumes "session_inv s st hs"
  shows "set_mset (pipe_hold (se_pipe d s)) \<inter> set_mset (pipe_hold (se_pipe (other_dir d) s) + dq_hold (se_dq s)) = {}"
    and "set_mset (rq_hold (pp_rcvq (se_pipe d s))) \<inter> set (sq_pq (pp_sndq (se_pipe d s))) = {}"
proof -
  have o: "once (pipe_hold (se_pipe d s) + (pipe_hold (se_pipe (other_dir d) s) + dq_hold (se_dq s)))"
    using assms by (simp add: session_inv_def session_hold_dir [of s d])
  then show "set_mset (pipe_hold (se_pipe d s)) \<inter> set_mset (pipe_hold (se_pipe (other_dir d) s) + dq_hold (se_dq s)) = {}"
    by (rule once_disjoint)
  have "once (rq_hold (pp_rcvq (se_pipe d s)) + mset (sq_pq (pp_sndq (se_pipe d s))))"
    by (rule once_sub [OF o]) (simp add: pipe_hold_def)
  then show "set_mset (rq_hold (pp_rcvq (se_pipe d s))) \<inter> set (sq_pq (pp_sndq (se_pipe d s))) = {}"
    using once_disjoint by fastforce
qed

lemma session_read_ok:
  assumes inv: "session_inv s st hs" and one: "once (session_hold s + hs)"
  obtains (bad) "session_read d s st = Inl OutOfBounds"
    | (ok) s' st' where "session_read d s st = Inr (s', st')" "session_inv s' st' hs" "once (session_hold s' + hs)"
      "touched (set_mset (session_hold s)) st st'" "se_flt s' = se_flt s"
proof -
  let ?p = "se_pipe d s" and ?r = "pipe_hold (se_pipe (other_dir d) s) + dq_hold (se_dq s)"
  have p: "pipe_ok ?p st" "ledger st (pipe_hold ?p + (?r + hs))" "once (pipe_hold ?p + (?r + hs))" "pp_dir ?p = d"
    using inv one by (simp_all add: session_inv_dir [of s st hs d] session_hold_dir [of s d] ac_simps)
  show thesis
  proof (cases rule: pipe_read_ledger [OF p(1-3), of "se_in d s"])
    case 1
    then show ?thesis by (intro bad) (simp add: session_read_def)
  next
    case (2 st' si p')
    let ?s = "se_set_in d si (se_set_pipe d p' s)"
    have "session_inv (se_set_pipe d p' s) st' hs"
      by (rule session_inv_set_pipe [OF inv 2(2) _ _ _ 2(5)])
        (use 2 p session_once(1) [OF inv, of d] in \<open>auto simp: ac_simps intro: once_sub\<close>)
    then have "session_inv ?s st' hs"
      by (cases d) (simp_all add: session_inv_def session_hold_def)
    moreover have "once (session_hold ?s + hs)"
      using 2(4) by (simp add: session_hold_dir [of _ d] ac_simps)
    ultimately show ?thesis
      using 2(1,5) by (intro ok [of ?s st']) (auto simp: session_read_def session_hold_dir [of s d] intro: touched_mono)
  qed
qed

lemma session_write_ok:
  assumes inv: "session_inv s st hs"
  obtains s' st' where "session_write d s st = Inr (s', st')" "session_inv s' st' hs" "session_hold s' \<subseteq># session_hold s"
    "touched (set_mset (session_hold s)) st st'" "se_flt s' = se_flt s" "se_dq s' = se_dq s"
    "\<forall>e. pp_rcvq (se_pipe e s') = pp_rcvq (se_pipe e s)"
proof -
  let ?p = "se_pipe d s" and ?r = "pipe_hold (se_pipe (other_dir d) s) + dq_hold (se_dq s)"
  have p: "pipe_ok ?p st" "ledger st (pipe_hold ?p + (?r + hs))" "once (pipe_hold ?p + ?r)" "pp_dir ?p = d"
    using inv by (simp_all add: session_inv_dir [of s st hs d] session_hold_dir [of s d] ac_simps)
  obtain st' si so p' where w: "pipe_write ?p (se_in d s) (se_in (other_dir d) s) st = Inr (st', si, so, p')"
    "pipe_ok p' st'" "ledger st' (pipe_hold p' + (?r + hs))" "touched (set (sq_pq (pp_sndq ?p))) st st'"
    "pp_rcvq p' = pp_rcvq ?p" "pipe_hold p' \<subseteq># pipe_hold ?p" "pp_dir p' = pp_dir ?p"
    by (rule pipe_write_ledger [OF p(1,2) session_once(2) [OF inv]])
  let ?s = "se_set_in (other_dir d) so (se_set_in d si (se_set_pipe d p' s))"
  have "session_inv (se_set_pipe d p' s) st' hs"
  proof (rule session_inv_set_pipe [OF inv w(2) _ _ _ w(4)])
    show "set (sq_pq (pp_sndq ?p)) \<inter> set_mset (pipe_hold (se_pipe (other_dir d) s)) = {}"
      using session_once(1) [OF inv, of d] by (auto simp: pipe_hold_def)
    show "once (pipe_hold p' + ?r)"
      by (rule once_sub [OF p(3)]) (use w(6) in simp)
  qed (use w p in \<open>auto simp: ac_simps\<close>)
  then have i: "session_inv ?s st' hs"
    by (cases d) (simp_all add: session_inv_def session_hold_def)
  have h: "session_hold ?s \<subseteq># session_hold s"
    using w(6) by (simp add: session_hold_dir [of _ d])
  have T: "touched (set_mset (session_hold s)) st st'"
    by (rule touched_mono [OF w(4)]) (auto simp: session_hold_dir [of s d] pipe_hold_def)
  show thesis
  proof (rule that [OF _ i h T])
    show "session_write d s st = Inr (?s, st')" by (simp add: session_write_def w(1))
    have "pp_rcvq (se_pipe e ?s) = pp_rcvq (se_pipe e s)" for e
      using w(5) by (cases e; cases d) simp_all
    then show "\<forall>e. pp_rcvq (se_pipe e ?s) = pp_rcvq (se_pipe e s)" by blast
  qed simp_all
qed

text \<open>New packets are taken over.\<close>

lemma session_inject_ok:
  assumes inv: "session_inv s st (mset q + hs)" and q: "distinct q" "set q \<inter> set_mset (session_hold s) = {}"
  obtains st' q' p' where "pipe_inject (se_pipe d s) q st = Inr (st', q', p')"
    "session_inv (se_set_pipe d p' s) st' (mset q' + hs)" "distinct q'"
    "set q' \<inter> set_mset (session_hold (se_set_pipe d p' s)) = {}" "touched (set q) st st'"
    "mset q' + session_hold (se_set_pipe d p' s) \<subseteq># mset q + session_hold s" "pp_rcvq p' = pp_rcvq (se_pipe d s)"
    "set q' \<subseteq> set q"
proof -
  let ?p = "se_pipe d s" and ?r = "pipe_hold (se_pipe (other_dir d) s) + dq_hold (se_dq s)"
  have p: "pipe_ok ?p st" "ledger st (mset q + pipe_hold ?p + (?r + hs))" "pp_dir ?p = d"
    using inv by (simp_all add: session_inv_dir [of s _ _ d] session_hold_dir [of s d] ac_simps)
  have disj: "set q \<inter> set_mset (pipe_hold ?p) = {}" "set q \<inter> set_mset ?r = {}"
    using q(2) by (auto simp: session_hold_dir [of s d])
  obtain st' q' p' where i: "pipe_inject ?p q st = Inr (st', q', p')" "pipe_ok p' st'"
    "ledger st' (mset q' + pipe_hold p' + (?r + hs))" "touched (set q) st st'" "distinct q'"
    "set q' \<inter> set_mset (pipe_hold p') = {}" "set q' \<subseteq> set q" "set_mset (pipe_hold p') \<subseteq> set_mset (pipe_hold ?p) \<union> set q"
    "pp_rcvq p' = pp_rcvq ?p" "mset q' + pipe_hold p' \<subseteq># mset q + pipe_hold ?p" "pp_dir p' = pp_dir ?p"
    by (rule pipe_inject_ledger [OF p(1,2) q(1) disj(1)])
  let ?s = "se_set_pipe d p' s"
  have hold: "session_hold ?s = pipe_hold p' + ?r" "session_hold s = pipe_hold ?p + ?r"
    unfolding session_hold_dir [of _ d] by simp_all
  have sub: "mset q' + session_hold ?s \<subseteq># mset q + session_hold s"
    using subset_mset.add_right_mono [OF i(10), of ?r] by (simp add: hold ac_simps)
  have "once (mset q + session_hold s)"
    by (rule once_add) (use q inv in \<open>auto simp: session_inv_def intro: distinct_once\<close>)
  then have "once (mset q' + session_hold ?s)" by (rule once_sub) (rule sub)
  then have "once (pipe_hold p' + ?r)" by (rule once_sub) (simp add: hold)
  then have "session_inv ?s st' (mset q' + hs)"
    by (intro session_inv_set_pipe [OF inv i(2) _ _ _ i(4)])
      (use i(3,11) p(3) disj(2) in \<open>auto simp: ac_simps\<close>)
  then show thesis
    by (rule that [OF i(1)]) (use i sub disj(2) in \<open>auto simp: hold\<close>)
qed

lemma session_enqueue_ok:
  assumes inv: "session_inv s st (mset q + hs)" and q: "distinct q" "set q \<inter> set_mset (session_hold s) = {}"
  obtains s' st' where "session_enqueue q s st = Inr (s', st')" "session_inv s' st' hs"
    "session_hold s' \<subseteq># mset q + session_hold s" "touched (set q) st st'" "se_flt s' = se_flt s"
    "\<forall>e. pp_rcvq (se_pipe e s') = pp_rcvq (se_pipe e s)"
proof -
  obtain st1 q1 p1 where i1: "pipe_inject (se_s2c s) q st = Inr (st1, q1, p1)"
    "session_inv (s\<lparr>se_s2c := p1\<rparr>) st1 (mset q1 + hs)" "distinct q1"
    "set q1 \<inter> set_mset (session_hold (s\<lparr>se_s2c := p1\<rparr>)) = {}" "touched (set q) st st1"
    "mset q1 + session_hold (s\<lparr>se_s2c := p1\<rparr>) \<subseteq># mset q + session_hold s" "pp_rcvq p1 = pp_rcvq (se_s2c s)"
    "set q1 \<subseteq> set q"
    using session_inject_ok [OF inv q, of SRV_TO_CLI] by (metis se_pipe.simps(2) se_set_pipe.simps(2))
  let ?s1 = "s\<lparr>se_s2c := p1\<rparr>"
  obtain st2 q2 p2 where i2: "pipe_inject (se_c2s ?s1) q1 st1 = Inr (st2, q2, p2)"
    "session_inv (?s1\<lparr>se_c2s := p2\<rparr>) st2 (mset q2 + hs)" "distinct q2"
    "set q2 \<inter> set_mset (session_hold (?s1\<lparr>se_c2s := p2\<rparr>)) = {}" "touched (set q1) st1 st2"
    "mset q2 + session_hold (?s1\<lparr>se_c2s := p2\<rparr>) \<subseteq># mset q1 + session_hold ?s1" "pp_rcvq p2 = pp_rcvq (se_c2s ?s1)"
    by (rule session_inject_ok [OF i1(2-4), where d = CLI_TO_SRV, unfolded se_pipe.simps se_set_pipe.simps])
  let ?s2 = "?s1\<lparr>se_c2s := p2\<rparr>"
  have led2: "ledger st2 (session_hold ?s2 + (mset q2 + hs))" using i2(2) by (simp add: session_inv_def)
  have "pkts st2 p \<noteq> None" if "p \<in> set q2" for p
    using ledger_live [OF led2, of p] that by simp
  from dq_pull_ok [OF this] obtain dq where dq: "dq_pull q2 (se_dq s) st2 = Inr dq" "dq_hold dq = dq_hold (se_dq s) + mset q2"
    by blast
  let ?s3 = "?s2\<lparr>se_dq := dq\<rparr>"
  have hold: "session_hold ?s3 = session_hold ?s2 + mset q2"
    using dq(2) by (simp add: session_hold_def ac_simps)
  have "once (session_hold ?s2 + mset q2)"
    by (rule once_add) (use i2(2-4) in \<open>auto simp: session_inv_def intro: distinct_once\<close>)
  then have inv3: "session_inv ?s3 st2 hs"
    using i2(2) by (simp add: session_inv_def hold ac_simps)
  have sub: "session_hold ?s3 \<subseteq># mset q + session_hold s"
    using subset_mset.trans [OF i2(6) i1(6)] by (simp add: hold add.commute)
  have T: "touched (set q) st st2"
    by (rule touched_trans [OF i1(5) i2(5)]) (use i1(8) in auto)
  show thesis
  proof (rule that [OF _ inv3 sub T])
    show "session_enqueue q s st = Inr (?s3, st2)"
      using i1(1) i2(1) dq(1) by (simp add: session_enqueue_def)
    have "pp_rcvq (se_pipe e ?s3) = pp_rcvq (se_pipe e s)" for e
      using i1(7) i2(7) by (cases e) simp_all
    then show "\<forall>e. pp_rcvq (se_pipe e ?s3) = pp_rcvq (se_pipe e s)" by blast
  qed simp
qed

text \<open>A packet is queued for sending.\<close>

lemma session_push_ok:
  assumes inv: "session_inv s st (add_mset p hs)" and p: "p \<notin># session_hold s"
  shows "session_inv (se_set_pipe d (pipe_push_out (se_pipe d s) p) s) st hs"
    and "session_hold (se_set_pipe d (pipe_push_out (se_pipe d s) p) s) = add_mset p (session_hold s)"
    and "pp_rcvq (se_pipe e (se_set_pipe d (pipe_push_out (se_pipe d s) p) s)) = pp_rcvq (se_pipe e s)"
proof -
  let ?p = "pipe_push_out (se_pipe d s) p"
  have hold: "pipe_hold ?p = add_mset p (pipe_hold (se_pipe d s))"
    by (simp add: pipe_hold_def pipe_push_out_def sendq_push_def pqh_push_def)
  then show h: "session_hold (se_set_pipe d ?p s) = add_mset p (session_hold s)"
    unfolding session_hold_dir [of _ d] by simp
  have "pipe_ok ?p st"
    using inv p sendq_push_ok [of "pp_sndq (se_pipe d s)" st p]
    by (auto simp: session_inv_dir [of s _ _ d] pipe_ok_def pipe_push_out_def session_hold_dir [of s d]
        pipe_hold_def sendq_push_def)
  moreover have "once (add_mset p (session_hold s))"
    using inv once_add [of "{#p#}" "session_hold s"] p by (auto simp: session_inv_def once_def)
  ultimately show "session_inv (se_set_pipe d ?p s) st hs"
    using inv h by (simp add: session_inv_dir [of _ _ _ d]) (simp add: pipe_push_out_def)
  show "pp_rcvq (se_pipe e (se_set_pipe d ?p s)) = pp_rcvq (se_pipe e s)"
    by (cases e; cases d) (simp_all add: pipe_push_out_def)
qed

text \<open>The packet in hand goes to its pipe, or is released.\<close>

lemma session_forward_ok:
  assumes inv: "session_inv s st (add_mset p hs)" and p: "p \<notin># session_hold s"
  obtains s' st' where "session_forward d p s st = Inr (s', st')" "session_inv s' st' hs"
    "session_hold s' \<subseteq># add_mset p (session_hold s)" "touched {p} st st'" "se_flt s' = se_flt s"
    "\<forall>e. pp_rcvq (se_pipe e s') = pp_rcvq (se_pipe e s)"
proof -
  have led: "ledger st (add_mset p (session_hold s + hs))" using inv by (simp add: session_inv_def)
  obtain pk where pk: "pkts st p = Some pk" by (rule ledger_get [OF led, of p]) auto
  show thesis
  proof (cases "p_drop pk")
    case True
    obtain st' where st': "pkt_unref p st = Inr st'" "ledger st' (session_hold s + hs)" "touched {p} st st'"
      by (rule ledger_unref [OF led])
    have "session_inv s st' hs"
      by (rule session_inv_touched [OF inv st'(3) _ st'(2)]) (use p in simp)
    then show ?thesis
      by (intro that [of s st']) (use st' pk True in \<open>auto simp: session_forward_def\<close>)
  next
    case False
    note push = session_push_ok [where d = d, OF inv p]
    show ?thesis
    proof (rule that [OF _ push(1)])
      show "session_forward d p s st = Inr (se_set_pipe d (pipe_push_out (se_pipe d s) p) s, st)"
        using pk False by (simp add: session_forward_def)
      show "\<forall>e. pp_rcvq (se_pipe e (se_set_pipe d (pipe_push_out (se_pipe d s) p) s)) = pp_rcvq (se_pipe e s)"
        using push(3) by blast
    qed (simp_all add: push(2))
  qed
qed

text \<open>The packets before it, the packet itself and those after it.\<close>

lemma session_deliver_ok:
  assumes inv: "session_inv s st (mset pre + (mset post + add_mset p hs))"
    and one: "once (session_hold s + (mset pre + (mset post + {#p#})))"
  obtains s1 st1 s2 st2 s3 st3 where "session_enqueue pre s st = Inr (s1, st1)"
    "session_forward d p s1 st1 = Inr (s2, st2)" "session_enqueue post s2 st2 = Inr (s3, st3)"
    "session_inv s3 st3 hs" "session_hold s3 \<subseteq># add_mset p (mset pre + mset post + session_hold s)"
    "touched (insert p (set pre \<union> set post)) st st3" "se_flt s3 = se_flt s"
    "\<forall>e. pp_rcvq (se_pipe e s3) = pp_rcvq (se_pipe e s)"
proof -
  have dist: "distinct pre" "distinct post"
    by (rule once_distinct, rule once_sub [OF one], simp add: subseteq_mset_def)+
  have d: "set pre \<inter> set_mset (session_hold s) = {}"
    "set post \<inter> set_mset (session_hold s) = {}" "set pre \<inter> set post = {}" "p \<notin> set pre" "p \<notin> set post" "p \<notin># session_hold s"
    using once_disjoint [of "session_hold s" "mset pre + (mset post + {#p#})"] one
      once_disjoint [of "mset pre" "session_hold s + (mset post + {#p#})"]
      once_disjoint [of "mset post" "session_hold s + (mset pre + {#p#})"]
    by (auto simp: ac_simps)
  obtain s1 st1 where e1: "session_enqueue pre s st = Inr (s1, st1)" "session_inv s1 st1 (mset post + add_mset p hs)"
    "session_hold s1 \<subseteq># mset pre + session_hold s" "touched (set pre) st st1" "se_flt s1 = se_flt s"
    "\<forall>e. pp_rcvq (se_pipe e s1) = pp_rcvq (se_pipe e s)"
    by (rule session_enqueue_ok [OF inv dist(1) d(1)])
  have inv1: "session_inv s1 st1 (add_mset p (mset post + hs))" using e1(2) by simp
  have h1: "set_mset (session_hold s1) \<subseteq> set pre \<union> set_mset (session_hold s)"
    using set_mset_mono [OF e1(3)] by simp
  obtain s2 st2 where f: "session_forward d p s1 st1 = Inr (s2, st2)" "session_inv s2 st2 (mset post + hs)"
    "session_hold s2 \<subseteq># add_mset p (session_hold s1)" "touched {p} st1 st2" "se_flt s2 = se_flt s1"
    "\<forall>e. pp_rcvq (se_pipe e s2) = pp_rcvq (se_pipe e s1)"
    by (rule session_forward_ok [OF inv1]) (use h1 d in auto)
  have h2: "set post \<inter> set_mset (session_hold s2) = {}"
    using set_mset_mono [OF f(3)] h1 d by auto
  obtain s3 st3 where e2: "session_enqueue post s2 st2 = Inr (s3, st3)" "session_inv s3 st3 hs"
    "session_hold s3 \<subseteq># mset post + session_hold s2" "touched (set post) st2 st3" "se_flt s3 = se_flt s2"
    "\<forall>e. pp_rcvq (se_pipe e s3) = pp_rcvq (se_pipe e s2)"
    by (rule session_enqueue_ok [OF f(2) dist(2) h2])
  have "session_hold s2 \<subseteq># add_mset p (mset pre + session_hold s)"
    using subset_mset.trans [OF f(3)] e1(3) by simp
  then have sub: "session_hold s3 \<subseteq># add_mset p (mset pre + mset post + session_hold s)"
    using subset_mset.trans [OF e2(3), of "mset post + add_mset p (mset pre + session_hold s)"] by (simp add: ac_simps)
  have T: "touched (insert p (set pre \<union> set post)) st st3"
    by (rule touched_trans [OF touched_trans [OF touched_mono [OF e1(4)] f(4)] e2(4)]) auto
  show thesis
    by (rule that [OF e1(1) f(1) e2(1,2) sub T]) (simp_all add: e1 f e2)
qed

section \<open>What a callback guarantees\<close>

text \<open>\<open>session_cb finv s st hs h R\<close>: what every part of a callback guarantees.\<close>

definition session_cb :: "('f \<Rightarrow> bool) \<Rightarrow> rf_session \<Rightarrow> store \<Rightarrow> addr multiset \<Rightarrow> 'f insts \<Rightarrow> (rf_session \<times> store \<times> 'f insts) res option \<Rightarrow> bool" where
  "session_cb finv s st hs h R \<longleftrightarrow> R = Some (Inl OutOfBounds) \<or>
     (\<exists>s' st' h'. R = Some (Inr (s', st', h')) \<and> session_inv s' st' hs \<and> once (session_hold s' + hs) \<and>
        chain_ok finv (se_flt s) h' \<and> insts_stay (se_flt s) h h' \<and>
        touched (set_mset (session_hold s)) st st' \<and> se_flt s' = se_flt s)"

lemma session_cb_refl:
  "session_inv s st hs \<Longrightarrow> once (session_hold s + hs) \<Longrightarrow> chain_ok finv (se_flt s) h \<Longrightarrow> session_cb finv s st hs h (Some (Inr (s, st, h)))"
  by (simp add: session_cb_def)

lemma session_cb_bad [simp]: "session_cb finv s st hs h (Some (Inl OutOfBounds))"
  by (simp add: session_cb_def)

text \<open>What the session holds now and existed before, it held before.\<close>

lemma session_hold_old:
  assumes "session_inv s st hs" and "session_inv s' st' hs" and "once (session_hold s' + hs)"
    and T: "touched (set_mset (session_hold s)) st st'"
  shows "set_mset (session_hold s') \<inter> {..<brk st} \<subseteq> set_mset (session_hold s)"
proof
  fix q
  assume q: "q \<in> set_mset (session_hold s') \<inter> {..<brk st}"
  have led: "ledger st (session_hold s + hs)" "ledger st' (session_hold s' + hs)"
    using assms(1,2) by (simp_all add: session_inv_def)
  have "q \<notin># hs" using once_disjoint [OF assms(3)] q by auto
  moreover have "pkts st' q \<noteq> None" using ledger_live [OF led(2), of q] q by simp
  ultimately show "q \<in> set_mset (session_hold s)"
    using ledger_live [OF led(1), of q] touched_same [OF T, of q] q by auto
qed

lemma session_cb_trans:
  assumes s: "session_inv s st hs" and s': "session_inv s' st' hs" "once (session_hold s' + hs)"
    and T: "touched (set_mset (session_hold s)) st st'" and h: "insts_stay (se_flt s) h h'" "se_flt s' = se_flt s"
    and R: "session_cb finv s' st' hs h' R"
  shows "session_cb finv s st hs h R"
proof -
  note old = session_hold_old [OF s s' T]
  show ?thesis
    using R h touched_trans [OF T _ old] insts_stay_trans [OF h(1)] unfolding session_cb_def by auto
qed

lemma session_cb_cases:
  assumes "session_cb finv s st hs h R"
  obtains "R = Some (Inl OutOfBounds)"
    | s' st' h' where "R = Some (Inr (s', st', h'))" "session_cb finv s st hs h (Some (Inr (s', st', h')))"
  using assms by (auto simp: session_cb_def)

text \<open>Sending and starting the timers keep the guarantee.\<close>

lemma session_cb_write:
  assumes inv: "session_inv s st hs" and cb: "session_cb finv s st hs h (Some (Inr (s1, st1, h1)))"
  obtains s2 st2 where "session_write d s1 st1 = Inr (s2, st2)" "session_cb finv s st hs h (Some (Inr (s2, st2, h1)))"
proof -
  have c: "session_inv s1 st1 hs" "once (session_hold s1 + hs)" "chain_ok finv (se_flt s) h1" "insts_stay (se_flt s) h h1"
    "touched (set_mset (session_hold s)) st st1" "se_flt s1 = se_flt s"
    using cb by (simp_all add: session_cb_def)
  obtain s2 st2 where w: "session_write d s1 st1 = Inr (s2, st2)" "session_inv s2 st2 hs"
    "session_hold s2 \<subseteq># session_hold s1" "touched (set_mset (session_hold s1)) st1 st2" "se_flt s2 = se_flt s1"
    by (rule session_write_ok [OF c(1)])
  have "once (session_hold s2 + hs)" by (rule once_sub [OF c(2)]) (use w(3) in simp)
  then have "session_cb finv s1 st1 hs h1 (Some (Inr (s2, st2, h1)))"
    using w c by (simp add: session_cb_def)
  then show thesis by (intro that [OF w(1)] session_cb_trans [OF inv c(1,2,5,4,6)])
qed

lemma session_cb_start:
  "session_cb finv s st hs h (Some (Inr (s1, st1, h1))) \<Longrightarrow>
   session_cb finv s st hs h (Some (Inr (s1\<lparr>se_dq := dq_start (se_dq s1)\<rparr>, st1, h1)))"
  by (simp add: session_cb_def session_inv_def session_hold_def)

section \<open>Packets through the chain\<close>

context event_filter
begin

text \<open>The filters have seen the packet and their events: what is left in hand are the new packets.\<close>

lemma chain_run_ok:
  assumes led: "ledger st (add_mset p oth)" and p: "p \<notin># oth" and ch: "chain_ok finv ch h" and len: "length ch \<le> 2 ^ 31"
    and w0: "w0 = \<lparr>fw_store = st, fw_pre = pqh_init, fw_post = pqh_init, fw_evq = []\<rparr>"
  obtains (bad) "chain_pkt process_pkt ch p h w0 = Inl OutOfBounds"
    | (ok) h1 w1 h2 w2 where "chain_pkt process_pkt ch p h w0 = Inr (h1, w1)" "chain_evs process_ev ch h1 w1 = Some (Inr (h2, w2))"
      "chain_ok finv ch h2" "insts_stay ch h h2" "fw_evq w2 = []" "touched {p} st (fw_store w2)"
      "ledger (fw_store w2) (oth + (mset (fw_pre w2) + (mset (fw_post w2) + {#p#})))"
      "once (mset (fw_pre w2) + (mset (fw_post w2) + {#p#}))"
      "(set (fw_pre w2) \<union> set (fw_post w2)) \<inter> (set_mset oth \<union> {..<brk st}) = {}"
proof -
  have "fw_ok p oth {#} 0 w0" using led p by (simp add: w0 fw_ok_def pqh_init_def)
  then consider "chain_pkt process_pkt ch p h w0 = Inl OutOfBounds"
    | h1 w1 where "chain_pkt process_pkt ch p h w0 = Inr (h1, w1)" "chain_ok finv ch h1" "insts_stay ch h h1"
      "fw_ok p oth {#} (length ch) w1" "fw_stays p w0 w1"
    using chain_pkt_ok [OF ch, of p oth 0 w0] len by auto
  then show thesis
  proof cases
    case 1
    then show ?thesis by (rule bad)
  next
    case (2 h1 w1)
    from chain_evs_ok [OF 2(2,4)] obtain h2 w2 where e: "chain_evs process_ev ch h1 w1 = Some (Inr (h2, w2))"
      "chain_ok finv ch h2" "insts_stay ch h1 h2" "fw_ok p oth {#} (length ch) w2" "fw_stays p w1 w2" "fw_evq w2 = []"
      by blast
    have T: "touched {p} st (fw_store w2)"
      using fw_stays_trans [OF 2(5) e(5)] by (simp add: fw_stays_def w0)
    have fw: "ledger (fw_store w2) (add_mset p (oth + mset (fw_pre w2 @ fw_post w2)))" "distinct (fw_pre w2 @ fw_post w2)"
      "\<forall>q \<in> set (fw_pre w2 @ fw_post w2). q \<noteq> p \<and> q \<notin># oth"
      using e(4,6) by (simp_all add: fw_ok_def)
    have "\<not> q < brk st" if q: "q \<in> set (fw_pre w2 @ fw_post w2)" for q
    proof
      assume l: "q < brk st"
      have "pkts (fw_store w2) q \<noteq> None" using ledger_live [OF fw(1), of q] q by auto
      moreover have "pkts st q = None" using ledger_live [OF led, of q] fw(3) q by auto
      ultimately show False using touched_same [OF T l] fw(3) q by auto
    qed
    then have new: "(set (fw_pre w2) \<union> set (fw_post w2)) \<inter> (set_mset oth \<union> {..<brk st}) = {}"
      using fw(3) by auto
    have "once (mset (p # fw_pre w2 @ fw_post w2))"
      by (rule distinct_once) (use fw(2,3) in auto)
    then have one: "once (mset (fw_pre w2) + (mset (fw_post w2) + {#p#}))" by (simp add: ac_simps)
    show ?thesis
      by (rule ok [OF 2(1) e(1,2) insts_stay_trans [OF 2(3) e(3)] e(6) T _ one new]) (use fw(1) in \<open>simp add: ac_simps\<close>)
  qed
qed

text \<open>One packet taken from the receive queue.\<close>

lemma session_packet_ok:
  assumes inv: "session_inv s st (add_mset p hs)" and one: "once (session_hold s + add_mset p hs)"
    and ch: "chain_ok finv (se_flt s) h" "length (se_flt s) \<le> 2 ^ 31"
  obtains (bad) "session_packet process_pkt process_ev d p s st h = Some (Inl OutOfBounds)"
    | (ok) s' st' h' where "session_packet process_pkt process_ev d p s st h = Some (Inr (s', st', h'))"
      "session_inv s' st' hs" "once (session_hold s' + hs)" "chain_ok finv (se_flt s) h'" "insts_stay (se_flt s) h h'"
      "touched (insert p (set_mset (session_hold s))) st st'" "se_flt s' = se_flt s"
      "\<forall>e. pp_rcvq (se_pipe e s') = pp_rcvq (se_pipe e s)"
proof -
  let ?w0 = "\<lparr>fw_store = st, fw_pre = pqh_init, fw_post = pqh_init, fw_evq = []\<rparr>"
  have led: "ledger st (add_mset p (session_hold s + hs))" using inv by (simp add: session_inv_def)
  have p: "p \<notin># session_hold s + hs" using onceD [OF one, of p] by (simp add: not_in_iff)
  show thesis
  proof (cases rule: chain_run_ok [OF led p ch refl])
    case 1
    then show ?thesis by (intro bad) (simp add: session_packet_def)
  next
    case (2 h1 w1 h2 w2)
    let ?pre = "fw_pre w2" and ?post = "fw_post w2"
    have inv2: "session_inv s (fw_store w2) (mset ?pre + (mset ?post + add_mset p hs))"
      by (rule session_inv_touched [OF inv 2(6)]) (use p 2(7) in \<open>auto simp: ac_simps\<close>)
    have new: "set_mset (mset ?pre + (mset ?post + {#p#})) \<inter> set_mset (session_hold s + hs) = {}"
      using 2(9) p by auto
    have "once (session_hold s + hs)" by (rule once_sub [OF one]) (simp add: subseteq_mset_def)
    then have all: "once (session_hold s + hs + (mset ?pre + (mset ?post + {#p#})))"
      by (rule once_add [OF _ 2(8)]) (use new in blast)
    then have "once (session_hold s + (mset ?pre + (mset ?post + {#p#})))"
      by (rule once_sub) (simp add: subseteq_mset_def)
    from inv2 this obtain s1 st1 s2 st2 s3 st3 where r: "session_enqueue ?pre s (fw_store w2) = Inr (s1, st1)"
      "session_forward d p s1 st1 = Inr (s2, st2)" "session_enqueue ?post s2 st2 = Inr (s3, st3)"
      "session_inv s3 st3 hs" "session_hold s3 \<subseteq># add_mset p (mset ?pre + mset ?post + session_hold s)"
      "touched (insert p (set ?pre \<union> set ?post)) (fw_store w2) st3" "se_flt s3 = se_flt s"
      "\<forall>e. pp_rcvq (se_pipe e s3) = pp_rcvq (se_pipe e s)"
      by (rule session_deliver_ok [where d = d])
    have "once (session_hold s3 + hs)"
      by (rule once_sub [OF all]) (use subset_mset.add_right_mono [OF r(5), of hs] in \<open>simp add: ac_simps\<close>)
    moreover have "touched (insert p (set_mset (session_hold s))) st st3"
      by (rule touched_trans [OF touched_mono [OF 2(6)] r(6)]) (use 2(9) in auto)
    moreover have "session_packet process_pkt process_ev d p s st h = Some (Inr (s3, st3, h2))"
      using 2(1,2,5) r(1-3) by (simp add: session_packet_def)
    ultimately show ?thesis using ok 2(3,4) r(4,7,8) by blast
  qed
qed

lemma session_filter_ok:
  assumes "session_inv s st hs" and "once (session_hold s + hs)"
    and "chain_ok finv (se_flt s) h" and "length (se_flt s) \<le> 2 ^ 31"
  shows "session_cb finv s st hs h (session_filter process_pkt process_ev d s st h)"
  using assms
proof (induction "length (rq_pq (pp_rcvq (se_pipe d s)))" arbitrary: s st h rule: less_induct)
  case less
  let ?p = "se_pipe d s"
  show ?case
  proof (cases "rq_pq (pp_rcvq ?p)")
    case Nil
    then have "session_filter process_pkt process_ev d s st h = Some (Inr (s, st, h))"
      by (subst session_filter.simps) (simp add: pipe_pop_in_def pqh_pop_def)
    then show ?thesis using less.prems by (simp add: session_cb_def)
  next
    case (Cons p ps)
    let ?s = "se_set_pipe d (?p\<lparr>pp_rcvq := pp_rcvq ?p\<lparr>rq_pq := ps\<rparr>\<rparr>) s"
    have pop: "pipe_pop_in ?p = (Some p, ?p\<lparr>pp_rcvq := pp_rcvq ?p\<lparr>rq_pq := ps\<rparr>\<rparr>)"
      using Cons by (simp add: pipe_pop_in_def pqh_pop_def)
    have hold: "session_hold s = add_mset p (session_hold ?s)"
      using Cons by (simp add: session_hold_dir [of _ d] pipe_hold_def rq_hold_def)
    have inv: "session_inv ?s st (add_mset p hs)"
      using less.prems(1) once_sub [of "session_hold s" "session_hold ?s"] hold
      by (auto simp: session_inv_dir [of _ _ _ d] pipe_ok_def recvq_ok_pop [OF _ Cons])
    have one: "once (session_hold ?s + add_mset p hs)"
      using less.prems(2) hold by (simp add: ac_simps)
    have flt: "se_flt ?s = se_flt s" by simp
    show ?thesis
    proof (cases rule: session_packet_ok [OF inv one, of h d])
      case 3
      then have "session_filter process_pkt process_ev d s st h = Some (Inl OutOfBounds)"
        by (subst session_filter.simps) (simp add: pop)
      then show ?thesis by (simp add: session_cb_def)
    next
      case (4 s' st' h')
      have step: "session_filter process_pkt process_ev d s st h = session_filter process_pkt process_ev d s' st' h'"
        by (subst session_filter.simps) (simp add: pop 4(1))
      have "session_cb finv s' st' hs h' (session_filter process_pkt process_ev d s' st' h')"
        by (rule less.hyps) (use 4 less.prems Cons in auto)
      moreover have "touched (set_mset (session_hold s)) st st'" using 4(6) hold by simp
      ultimately show ?thesis
        unfolding step by (intro session_cb_trans [OF less.prems(1) 4(2,3)]) (use 4(5,7) in simp_all)
    qed (use less.prems in simp_all)
  qed
qed

lemma session_readable_ok:
  assumes inv: "session_inv s st hs" and one: "once (session_hold s + hs)"
    and ch: "chain_ok finv (se_flt s) h" "length (se_flt s) \<le> 2 ^ 31"
  shows "session_cb finv s st hs h (session_readable process_pkt process_ev d s st h)"
proof (cases rule: session_read_ok [OF inv one, of d])
  case 1
  then show ?thesis by (simp add: session_readable_def)
next
  case (2 s1 st1)
  have "session_cb finv s1 st1 hs h (session_filter process_pkt process_ev d s1 st1 h)"
    by (rule session_filter_ok) (use 2 ch in auto)
  from session_cb_trans [OF inv 2(2-4) insts_stay_refl 2(5) this]
  show ?thesis
  proof (cases rule: session_cb_cases)
    case 1
    then show ?thesis using 2(1) by (simp add: session_readable_def)
  next
    case (2 s2 st2 h2)
    obtain s3 st3 where w: "session_write d (s2\<lparr>se_dq := dq_start (se_dq s2)\<rparr>) st2 = Inr (s3, st3)"
      "session_cb finv s st hs h (Some (Inr (s3, st3, h2)))"
      by (rule session_cb_write [OF inv session_cb_start [OF 2(2)]])
    obtain s4 st4 where "session_write (other_dir d) s3 st3 = Inr (s4, st4)"
      "session_cb finv s st hs h (Some (Inr (s4, st4, h2)))"
      by (rule session_cb_write [OF inv w(2)])
    then show ?thesis using \<open>session_read d s st = Inr (s1, st1)\<close> 2(1) w(1) by (simp add: session_readable_def)
  qed
qed

end

section \<open>Destruction\<close>

text \<open>The packet the receive queue was reading is no longer reachable, and not released.\<close>

definition session_leak :: "rf_session \<Rightarrow> addr multiset" where
  "session_leak s = opt_hold (rq_rd (pp_rcvq (se_c2s s))) + opt_hold (rq_rd (pp_rcvq (se_s2c s)))"

lemma pipe_destroy_ledger:
  assumes "ledger st (pipe_hold p + hs)"
  obtains st' where "pipe_destroy p st = Inr st'" "ledger st' (opt_hold (rq_rd (pp_rcvq p)) + hs)"
    "touched (set_mset (pipe_hold p)) st st'"
proof -
  have "ledger st (mset (rq_pq (pp_rcvq p)) + (mset (sq_pq (pp_sndq p)) + (opt_hold (rq_rd (pp_rcvq p)) + hs)))"
    using assms by (simp add: pipe_hold_def rq_hold_def ac_simps)
  then obtain st1 where 1: "pqh_clear (rq_pq (pp_rcvq p)) st = Inr st1"
    "ledger st1 (mset (sq_pq (pp_sndq p)) + (opt_hold (rq_rd (pp_rcvq p)) + hs))" "touched (set (rq_pq (pp_rcvq p))) st st1"
    by (rule ledger_clear)
  obtain st2 where 2: "pqh_clear (sq_pq (pp_sndq p)) st1 = Inr st2"
    "ledger st2 (opt_hold (rq_rd (pp_rcvq p)) + hs)" "touched (set (sq_pq (pp_sndq p))) st1 st2"
    by (rule ledger_clear [OF 1(2)])
  have "touched (set_mset (pipe_hold p)) st st2"
    by (rule touched_trans [OF touched_mono [OF 1(3)] 2(3)]) (auto simp: pipe_hold_def rq_hold_def)
  then show thesis using that 1(1) 2(1,2) by (simp add: pipe_destroy_def)
qed

lemma session_delete_ok:
  assumes inv: "session_inv s st hs" and pm: "pm_ok finv pm" "chain_linked c (se_flt s) pm"
  obtains st' pm' where "session_delete s st pm = Inr (st', pm')" "ledger st' (session_leak s + hs)"
    "touched (set_mset (session_hold s)) st st'" "pm_ok finv pm'" "chain_linked c [] pm'"
    "pm_insts pm' = (\<lambda>i. if i \<in> set (se_flt s) then None else pm_insts pm i)" "map unlinked (pm_plugins pm') = map unlinked (pm_plugins pm)"
proof -
  have "ledger st (mset (map dp_pkt (dq_qh (se_dq s))) + (pipe_hold (se_s2c s) + (pipe_hold (se_c2s s) + hs)))"
    using inv by (simp add: session_inv_def session_hold_def dq_hold_def ac_simps)
  then obtain st1 where 1: "dq_destroy (dq_qh (se_dq s)) st = Inr st1"
    "ledger st1 (pipe_hold (se_s2c s) + (pipe_hold (se_c2s s) + hs))" "touched (set_mset (dq_hold (se_dq s))) st st1"
    unfolding dq_destroy_clear dq_hold_def by (rule ledger_clear) auto
  obtain st2 where 2: "pipe_destroy (se_s2c s) st1 = Inr st2"
    "ledger st2 (opt_hold (rq_rd (pp_rcvq (se_s2c s))) + (pipe_hold (se_c2s s) + hs))"
    "touched (set_mset (pipe_hold (se_s2c s))) st1 st2"
    by (rule pipe_destroy_ledger [OF 1(2)])
  have "ledger st2 (pipe_hold (se_c2s s) + (opt_hold (rq_rd (pp_rcvq (se_s2c s))) + hs))"
    using 2(2) by (simp add: ac_simps)
  then obtain st3 where 3: "pipe_destroy (se_c2s s) st2 = Inr st3"
    "ledger st3 (opt_hold (rq_rd (pp_rcvq (se_c2s s))) + (opt_hold (rq_rd (pp_rcvq (se_s2c s))) + hs))"
    "touched (set_mset (pipe_hold (se_c2s s))) st2 st3"
    by (rule pipe_destroy_ledger)
  obtain pm' where 4: "chain_delete (se_flt s) pm = Inr (pm', [])" "pm_ok finv pm'" "chain_linked c [] pm'"
    "pm_insts pm' = (\<lambda>i. if i \<in> set (se_flt s) then None else pm_insts pm i)" "map unlinked (pm_plugins pm') = map unlinked (pm_plugins pm)"
    using chain_delete_linked [OF pm] by (auto simp: chain_delete_def)
  have "touched (set_mset (session_hold s)) st st3"
    by (rule touched_trans [OF touched_trans [OF touched_mono [OF 1(3)] 2(3)] 3(3)]) (auto simp: session_hold_def)
  then show thesis
    using that 1(1) 2(1) 3(1,2) 4 by (simp add: session_delete_def session_leak_def ac_simps)
qed

section \<open>Timers\<close>

text \<open>Between the callbacks of the timer the packet has two holders, the sending queue and the timer.\<close>

lemma session_emit_ok:
  assumes inv: "session_inv s st (add_mset p hs)" and one: "once (session_hold s + add_mset p hs)"
  obtains s' st' where "session_emit p s st = Inr (s', st')" "session_inv s' st' (add_mset p hs)"
    "session_hold s' \<subseteq># add_mset p (session_hold s)" "touched (insert p (set_mset (session_hold s))) st st'"
    "se_flt s' = se_flt s" "se_dq s' = se_dq s"
proof -
  have led: "ledger st (add_mset p (session_hold s + hs))" using inv by (simp add: session_inv_def)
  have p: "p \<notin># session_hold s" "count (add_mset p (session_hold s + hs)) p = 1"
    using onceD [OF one, of p] by (simp_all add: not_in_iff)
  obtain pk where pk: "pkts st p = Some pk" by (rule ledger_get [OF led, of p]) auto
  obtain st1 where r: "pkt_ref p st = Inr st1" "ledger st1 (add_mset p (add_mset p (session_hold s + hs)))" "touched {p} st st1"
    by (rule ledger_ref [OF led, of p]) (use p(2) in auto)
  have "session_inv s st1 (add_mset p (add_mset p hs))"
    by (rule session_inv_touched [OF inv r(3)]) (use r(2) p(1) in simp_all)
  note push = session_push_ok [where d = "p_dir pk", OF this p(1)]
  let ?s = "se_set_pipe (p_dir pk) (pipe_push_out (se_pipe (p_dir pk) s) p) s"
  obtain s' st' where w: "session_write (p_dir pk) ?s st1 = Inr (s', st')" "session_inv s' st' (add_mset p hs)"
    "session_hold s' \<subseteq># session_hold ?s" "touched (set_mset (session_hold ?s)) st1 st'" "se_flt s' = se_flt ?s" "se_dq s' = se_dq ?s"
    by (rule session_write_ok [OF push(1)])
  have "touched (insert p (set_mset (session_hold s))) st st'"
    by (rule touched_trans [OF touched_mono [OF r(3)] w(4)]) (auto simp: push(2))
  then show thesis
    using that pk r(1) w push(2) by (simp add: session_emit_def)
qed

lemma session_inv_unref:
  assumes inv: "session_inv s st (add_mset p hs)"
  obtains st' where "pkt_unref p st = Inr st'" "session_inv s st' hs" "touched {p} st st'"
proof -
  have led: "ledger st (add_mset p (session_hold s + hs))" using inv by (simp add: session_inv_def)
  obtain st' where st': "pkt_unref p st = Inr st'" "ledger st' (session_hold s + hs)" "touched {p} st st'"
    by (rule ledger_unref [OF led])
  have "pipe_ok (se_pipe e s) st'" for e
    by (rule pipe_ok_unref [OF _ _ st'(1) _ st'(3), where hs = "pipe_hold (se_pipe (other_dir e) s) + dq_hold (se_dq s) + hs"])
      (use inv st'(2) in \<open>simp_all add: session_inv_dir [of s _ _ e] session_hold_dir [of s e] ac_simps\<close>)
  from this [of CLI_TO_SRV] this [of SRV_TO_CLI] have "session_inv s st' hs"
    using inv st'(2) by (simp add: session_inv_def)
  then show thesis by (rule that [OF st'(1) _ st'(3)])
qed

lemma session_timeout_ok:
  assumes inv: "session_inv s st hs" and one: "once (session_hold s + hs)" and i: "i < length (dq_qh (se_dq s))"
  obtains s' st' where "session_timeout i s st = Inr (s', st')" "session_inv s' st' hs" "once (session_hold s' + hs)"
    "touched (set_mset (session_hold s)) st st'" "se_flt s' = se_flt s"
proof -
  let ?q = "dq_qh (se_dq s)"
  let ?p = "dp_pkt (?q ! i)" and ?s = "s\<lparr>se_dq := (se_dq s)\<lparr>dq_qh := take i ?q @ drop (Suc i) ?q\<rparr>\<rparr>"
  have "mset (map dp_pkt ?q) = add_mset ?p (mset (map dp_pkt (take i ?q @ drop (Suc i) ?q)))"
    using id_take_nth_drop [OF i] by (metis list.simps(9) map_append mset.simps(2) mset_append union_mset_add_mset_right)
  then have hold: "session_hold s = add_mset ?p (session_hold ?s)"
    by (simp add: session_hold_def dq_hold_def)
  have "once (session_hold ?s)" by (rule once_sub [OF one]) (simp add: hold subseteq_mset_def)
  then have inv1: "session_inv ?s st (add_mset ?p hs)"
    using inv hold by (simp add: session_inv_def)
  have one1: "once (session_hold ?s + add_mset ?p hs)" using one hold by (simp add: ac_simps)
  obtain s1 st1 where e: "session_emit ?p ?s st = Inr (s1, st1)" "session_inv s1 st1 (add_mset ?p hs)"
    "session_hold s1 \<subseteq># add_mset ?p (session_hold ?s)" "touched (insert ?p (set_mset (session_hold ?s))) st st1"
    "se_flt s1 = se_flt ?s" "se_dq s1 = se_dq ?s"
    by (rule session_emit_ok [OF inv1 one1])
  obtain st2 where u: "pkt_unref ?p st1 = Inr st2" "session_inv s1 st2 hs" "touched {?p} st1 st2"
    by (rule session_inv_unref [OF e(2)])
  have "once (session_hold s1 + hs)"
    by (rule once_sub [OF one]) (use e(3) hold in simp)
  moreover have "touched (set_mset (session_hold s)) st st2"
    by (rule touched_trans [OF touched_mono [OF e(4)] u(3)]) (auto simp: hold)
  moreover have "session_timeout i s st = Inr (s1, st2)"
    using i e(1) u(1) by (simp add: session_timeout_def)
  ultimately show thesis using that u(2) e(5) by simp
qed

section \<open>The callbacks of the sockets\<close>

lemma session_stop_same [simp]:
  "session_inv (session_stop s) st hs = session_inv s st hs" "session_hold (session_stop s) = session_hold s"
  "se_flt (session_stop s) = se_flt s" "session_leak (session_stop s) = session_leak s"
  by (simp_all add: session_inv_def session_hold_def session_leak_def session_stop_def pipe_stop_def)

lemma session_leak_sub: "session_leak s \<subseteq># session_hold s"
  by (simp add: session_leak_def session_hold_def pipe_hold_def rq_hold_def subseteq_mset_def)

context event_filter
begin

lemma session_io_work:
  assumes inv: "session_inv s st hs" and one: "once (session_hold s + hs)"
    and ch: "chain_ok finv (se_flt s) (pm_insts pm)" and len: "length (se_flt s) \<le> 2 ^ 31"
  obtains (bad) "session_io process_pkt process_ev d er ew s st pm = Some (Inl OutOfBounds)"
    | (work) s2 st2 h where "session_cb finv s st hs (pm_insts pm) (Some (Inr (s2, st2, h)))"
      "session_work process_pkt process_ev d er ew s st (pm_insts pm) = Some (Inr (s2, st2, h))"
      "session_io process_pkt process_ev d er ew s st pm =
        Some (if session_done s2
              then rbind (session_delete (session_stop s2) st2 (pm\<lparr>pm_insts := h\<rparr>)) (\<lambda>(st3, pm2). Inr (None, st3, pm2))
              else Inr (Some s2, st2, pm\<lparr>pm_insts := h\<rparr>))"
proof -
  let ?R = "if er then session_readable process_pkt process_ev d s st (pm_insts pm) else Some (Inr (s, st, pm_insts pm))"
  have "session_cb finv s st hs (pm_insts pm) ?R"
    using session_readable_ok [OF inv one ch len] session_cb_refl [OF inv one ch] by simp
  then show thesis
  proof (cases rule: session_cb_cases)
    case 1
    then show ?thesis by (intro bad) (simp add: session_io_def session_work_def)
  next
    case (2 s1 st1 h1)
    obtain s2 st2 where w: "(if ew then session_write d s1 st1 else Inr (s1, st1)) = Inr (s2, st2)"
      "session_cb finv s st hs (pm_insts pm) (Some (Inr (s2, st2, h1)))"
      using session_cb_write [OF inv 2(2)] 2(2) by (metis (full_types))
    have work': "session_work process_pkt process_ev d er ew s st (pm_insts pm) = Some (Inr (s2, st2, h1))"
      unfolding session_work_def 2(1) using w(1) by simp
    then show ?thesis by (intro work [OF w(2)]) (simp_all add: session_io_def Let_def)
  qed
qed

lemma session_io_ok:
  assumes inv: "session_inv s st hs" and one: "once (session_hold s + hs)"
    and pm: "pm_ok finv pm" "chain_linked c (se_flt s) pm" and len: "length (se_flt s) \<le> 2 ^ 31"
  obtains (bad) "session_io process_pkt process_ev d er ew s st pm = Some (Inl OutOfBounds)"
    | (live) s' st' pm' where "session_io process_pkt process_ev d er ew s st pm = Some (Inr (Some s', st', pm'))"
      "session_inv s' st' hs" "once (session_hold s' + hs)" "se_flt s' = se_flt s" "touched (set_mset (session_hold s)) st st'"
      "pm_ok finv pm'" "same_links (pm_insts pm) (pm_insts pm')" "pm_plugins pm' = pm_plugins pm"
    | (gone) st' pm' s2 st2 h where "session_io process_pkt process_ev d er ew s st pm = Some (Inr (None, st', pm'))"
      "ledger st' (session_leak s2 + hs)" "once (session_leak s2 + hs)" "touched (set_mset (session_hold s)) st st'"
      "pm_ok finv pm'" "chain_linked c [] pm'" "same_links (pm_insts pm) h"
      "pm_insts pm' = (\<lambda>i. if i \<in> set (se_flt s) then None else h i)" "map unlinked (pm_plugins pm') = map unlinked (pm_plugins pm)"
      "session_work process_pkt process_ev d er ew s st (pm_insts pm) = Some (Inr (s2, st2, h))" "session_done s2"
      "session_delete (session_stop s2) st2 (pm\<lparr>pm_insts := h\<rparr>) = Inr (st', pm')"
proof -
  note ch = chain_linked_ok [OF pm]
  from inv one ch len show thesis
  proof (cases rule: session_io_work [where d = d and er = er and ew = ew])
    case bad
    then show ?thesis by (rule that(1))
  next
    case (work s2 st2 h1)
    note io = work(3)
    have c: "session_inv s2 st2 hs" "once (session_hold s2 + hs)" "chain_ok finv (se_flt s) h1"
      "insts_stay (se_flt s) (pm_insts pm) h1" "touched (set_mset (session_hold s)) st st2" "se_flt s2 = se_flt s"
      using work(1) by (simp_all add: session_cb_def)
    let ?pm = "pm\<lparr>pm_insts := h1\<rparr>"
    note links = insts_stay_links [OF c(4)]
    have pm1: "pm_ok finv ?pm" by (rule pm_ok_stay [OF pm(1) c(3,4)])
    have ch1: "chain_linked c (se_flt (session_stop s2)) ?pm"
      using chain_linked_links [OF pm(2), of ?pm] links c(6) by simp
    show ?thesis
    proof (cases "session_done s2")
      case False
      then show ?thesis by (intro live [of s2 st2 ?pm]) (use io c pm1 links in simp_all)
    next
      case True
      have "session_inv (session_stop s2) st2 hs" using c(1) by simp
      then obtain st' pm' where del: "session_delete (session_stop s2) st2 ?pm = Inr (st', pm')"
        "ledger st' (session_leak (session_stop s2) + hs)" "touched (set_mset (session_hold (session_stop s2))) st2 st'"
        "pm_ok finv pm'" "chain_linked c [] pm'"
        "pm_insts pm' = (\<lambda>i. if i \<in> set (se_flt (session_stop s2)) then None else pm_insts ?pm i)"
        "map unlinked (pm_plugins pm') = map unlinked (pm_plugins ?pm)"
        by (rule session_delete_ok [OF _ pm1 ch1])
      have "once (session_leak s2 + hs)"
        by (rule once_sub [OF c(2)]) (use session_leak_sub [of s2] in simp)
      moreover have "touched (set_mset (session_hold s)) st st'"
        using touched_trans [OF c(5) del(3)] session_hold_old [OF inv c(1,2,5)] by simp
      ultimately show ?thesis
        by (intro gone [of st' pm' s2 h1 st2]) (use io True del links c(6) work(2) in \<open>simp_all cong: if_cong\<close>)
    qed
  qed
qed

end

section \<open>Properties\<close>

text \<open>
  C14. Closing a session gives back everything but the packet a receive queue was still reading: its
  chain is unlinked from the modules, the other holders' packets are untouched, and afterwards the
  memory holds exactly what the rest of the program holds and the partly read packets, which nothing
  refers to any more.
\<close>

theorem session_delete_leaks:
  assumes "session_inv s st hs" and "pm_ok flt_ok pm" and "chain_linked c (se_flt s) pm"
  shows "\<exists>st' pm'. session_delete s st pm = Inr (st', pm') \<and> pm_ok flt_ok pm' \<and> chain_linked c [] pm' \<and>
    (\<forall>p. pkts st' p \<noteq> None \<longleftrightarrow> p \<in># session_leak s + hs) \<and>
    (\<forall>p. p \<notin># session_hold s \<and> p < brk st \<longrightarrow> pkts st' p = pkts st p)"
proof -
  obtain st' pm' where d: "session_delete s st pm = Inr (st', pm')" "ledger st' (session_leak s + hs)"
    "touched (set_mset (session_hold s)) st st'" "pm_ok flt_ok pm'" "chain_linked c [] pm'"
    by (rule session_delete_ok [OF assms]) blast
  show ?thesis
    using d ledger_live [OF d(2)] touched_same [OF d(3)] by blast
qed

definition ex_reading :: rf_session where
  "ex_reading = (let s = rf_session_new \<lparr>so_rd = [], so_wr = \<lparr>wr_script = [], wr_errno = EAGAIN, wr_out = []\<rparr>, so_shut_rd = False, so_shut_wr = False\<rparr>
       \<lparr>so_rd = [], so_wr = \<lparr>wr_script = [], wr_errno = EAGAIN, wr_out = []\<rparr>, so_shut_rd = False, so_shut_wr = False\<rparr>
       ([0, 0, 0, 0], replicate WRIVCNT \<lparr>iov_pkt = 0, iov_off = 0, iov_len = 0\<rparr>)
       ([0, 0, 0, 0], replicate WRIVCNT \<lparr>iov_pkt = 0, iov_off = 0, iov_len = 0\<rparr>) []
     in s\<lparr>se_c2s := (se_c2s s)\<lparr>pp_rcvq := (pp_rcvq (se_c2s s))\<lparr>rq_rd := Some 0, rq_rd_pos := 4\<rparr>\<rparr>\<rparr>)"

lemma session_delete_leaks_witness:
  "\<exists>st' pm'. session_delete ex_reading \<lparr>pkts = [0 \<mapsto> frame_pkt CLI_TO_SRV [6, 0, 0, 0, 0, 0]], brk = 1\<rparr>
     (\<lparr>pm_plugins = [], pm_insts = Map.empty, pm_next = 0\<rparr> :: (flt_kind, flt) manager) = Inr (st', pm') \<and> pkts st' 0 \<noteq> None"
proof -
  let ?st = "\<lparr>pkts = [0 \<mapsto> frame_pkt CLI_TO_SRV [6, 0, 0, 0, 0, 0]], brk = 1\<rparr> :: store"
  let ?pm = "\<lparr>pm_plugins = [], pm_insts = Map.empty, pm_next = 0\<rparr> :: (flt_kind, flt) manager"
  have len: "frame_len [6, 0, 0, 0, 0, 0] = 6" by (simp add: frame_len_def) code_simp
  have refc: "p_refc (frame_pkt d x) = 1" for d x by (simp add: frame_pkt_def)
  note defs = ex_reading_def rf_session_new_def pipe_new_def recvq_new_def sendq_new_def pqh_init_def dq_new_def Let_def
  have hold: "session_hold ex_reading = {#0#}"
    by (simp add: defs session_hold_def pipe_hold_def rq_hold_def dq_hold_def opt_hold_def)
  have led: "ledger ?st {#0#}" by (auto simp: ledger_def store_ok_def booked_def pkt_wf_def len refc)
  have pipes: "pipe_ok (se_pipe d ex_reading) ?st" for d
    by (cases d) (auto simp: defs pipe_ok_def recvq_ok_def sq_ok_def sq_safe_def sq_window_def store_ok_def len
        intro!: exI [of _ "[6, 0, 0, 0, 0, 0]"])
  have dirs: "pp_dir (se_pipe d ex_reading) = d" for d by (cases d) (simp_all add: defs)
  have "session_inv ex_reading ?st {#}"
    using led pipes [of CLI_TO_SRV] pipes [of SRV_TO_CLI] dirs [of CLI_TO_SRV] dirs [of SRV_TO_CLI]
    by (simp add: session_inv_def hold once_def)
  moreover have "pm_ok flt_ok ?pm" "chain_linked 0 (se_flt ex_reading) ?pm"
    by (simp_all add: pm_ok_def insts_ok_def chain_linked_def defs)
  moreover have "session_leak ex_reading = {#0#}" by (simp add: defs session_leak_def opt_hold_def)
  ultimately show ?thesis using session_delete_leaks [of ex_reading ?st "{#}" ?pm 0] by fastforce
qed

end
