(* ===== verification/Proxy.thy ===== *)
theory Proxy
  imports Reload Session
begin

text \<open>
  The program: the packet store, the plug-in manager and the sessions, and the steps the event loop of
  \<^verbatim>\<open>main.cpp\<close> can make: a connection is taken over (\<open>proxy_run\<close>), a callback of a socket or of a timer
  runs, the modules are checked for replacement. Between callbacks the kernel may do what it likes with the
  sockets. The account \<open>px_account\<close> goes along and books, for every session closed, the packets its two receive queues were
  still reading. Shown, for filters with the contract of theory \<open>Filters\<close>: in every reachable state the packets in
  memory are those of the sessions, one place each, and those of the account; no callback meets a released
  packet or a wrong link.
\<close>

record ('k, 'f) proxy =
  px_store :: store
  px_pm :: "('k, 'f) manager"
  px_sessions :: "rf_session option list"

definition px_start :: "'k rfx_module list \<Rightarrow> ('k, 'f) proxy" where
  "px_start ms = \<lparr>px_store = \<lparr>pkts = Map.empty, brk = 0\<rparr>,
     px_pm = \<lparr>pm_plugins = ms, pm_insts = Map.empty, pm_next = 0\<rparr>, px_sessions = []\<rparr>"

text \<open>\<open>proxy_run\<close>: the chain of the new session has the session's number.\<close>

definition proxy_run :: "('k \<Rightarrow> 'f) \<Rightarrow> sock \<Rightarrow> sock \<Rightarrow> bytes \<times> iovec list \<Rightarrow> bytes \<times> iovec list \<Rightarrow> ('k, 'f) proxy \<Rightarrow> ('k, 'f) proxy res" where
  "proxy_run nf cli srv j1 j2 px =
     rbind (build_chain nf (length (px_sessions px)) (px_pm px)) (\<lambda>(pm, ch).
       Inr (px\<lparr>px_pm := pm, px_sessions := px_sessions px @ [Some (session_run (rf_session_new cli srv j1 j2 ch))]\<rparr>))"

text \<open>The steps; \<open>junk\<close> is what the buffers of a new pipe contain.\<close>

definition junk_ok :: "bytes \<times> iovec list \<Rightarrow> bool" where
  "junk_ok j \<longleftrightarrow> length (fst j) = 4 \<and> length (snd j) = WRIVCNT"

definition px_session :: "nat \<Rightarrow> ('k, 'f) proxy \<Rightarrow> rf_session option" where
  "px_session c px = (if c < length (px_sessions px) then px_sessions px ! c else None)"

definition px_put :: "nat \<Rightarrow> rf_session option \<Rightarrow> store \<Rightarrow> ('k, 'f) manager \<Rightarrow> ('k, 'f) proxy \<Rightarrow> ('k, 'f) proxy" where
  "px_put c so st pm px = px\<lparr>px_store := st, px_pm := pm, px_sessions := (px_sessions px)[c := so]\<rparr>"

inductive px_step :: "'f pkt_proc \<Rightarrow> 'f ev_proc \<Rightarrow> ('k \<Rightarrow> 'f) \<Rightarrow> ('f \<Rightarrow> rfx_state \<Rightarrow> rfx_state res) \<Rightarrow>
    ('f \<Rightarrow> rfx_state \<Rightarrow> (bool \<times> 'f \<times> rfx_state) res) \<Rightarrow> string \<Rightarrow> ('k, 'f) proxy \<Rightarrow> ('k, 'f) proxy \<Rightarrow> bool"
  for pp pe nf sv ld api_ver where
  accept: "junk_ok j1 \<Longrightarrow> junk_ok j2 \<Longrightarrow> proxy_run nf cli srv j1 j2 px = Inr px' \<Longrightarrow>
    px_step pp pe nf sv ld api_ver px px'"
| io: "px_session c px = Some s \<Longrightarrow> (er \<longrightarrow> pp_in_on (se_pipe d s)) \<Longrightarrow> (ew \<longrightarrow> pp_out_on (se_pipe d s)) \<Longrightarrow>
    session_io pp pe d er ew s (px_store px) (px_pm px) = Some (Inr (so, st, pm)) \<Longrightarrow>
    px_step pp pe nf sv ld api_ver px (px_put c so st pm px)"
| timer: "px_session c px = Some s \<Longrightarrow> i < length (dq_qh (se_dq s)) \<Longrightarrow> dp_on (dq_qh (se_dq s) ! i) \<Longrightarrow>
    session_timeout i s (px_store px) = Inr (s', st) \<Longrightarrow>
    px_step pp pe nf sv ld api_ver px (px_put c (Some s') st (px_pm px) px)"
| reload: "reload_plugins nf sv ld api_ver env now (pm_plugins (px_pm px)) (pm_insts (px_pm px)) = Inr (ms, h) \<Longrightarrow>
    px_step pp pe nf sv ld api_ver px (px\<lparr>px_pm := (px_pm px)\<lparr>pm_plugins := ms, pm_insts := h\<rparr>\<rparr>)"
| kernel: "px_session c px = Some s \<Longrightarrow>
    px_step pp pe nf sv ld api_ver px (px_put c (Some (s\<lparr>se_cli := cli, se_srv := srv\<rparr>)) (px_store px) (px_pm px) px)"

inductive px_reach :: "'f pkt_proc \<Rightarrow> 'f ev_proc \<Rightarrow> ('k \<Rightarrow> 'f) \<Rightarrow> ('f \<Rightarrow> rfx_state \<Rightarrow> rfx_state res) \<Rightarrow>
    ('f \<Rightarrow> rfx_state \<Rightarrow> (bool \<times> 'f \<times> rfx_state) res) \<Rightarrow> string \<Rightarrow> 'k rfx_module list \<Rightarrow> ('k, 'f) proxy \<Rightarrow> bool"
  for pp pe nf sv ld api_ver ms where
  start: "px_reach pp pe nf sv ld api_ver ms (px_start ms)"
| step: "px_reach pp pe nf sv ld api_ver ms px \<Longrightarrow> px_step pp pe nf sv ld api_ver px px' \<Longrightarrow>
    px_reach pp pe nf sv ld api_ver ms px'"

text \<open>
  The run with the account of what closed sessions left behind. A step that leaves every session in place leaves the
  account as it is; the callback that finds its session done adds the packets the session was reading.
\<close>

inductive px_account :: "'f pkt_proc \<Rightarrow> 'f ev_proc \<Rightarrow> ('k \<Rightarrow> 'f) \<Rightarrow> ('f \<Rightarrow> rfx_state \<Rightarrow> rfx_state res) \<Rightarrow>
    ('f \<Rightarrow> rfx_state \<Rightarrow> (bool \<times> 'f \<times> rfx_state) res) \<Rightarrow> string \<Rightarrow> 'k rfx_module list \<Rightarrow> ('k, 'f) proxy \<Rightarrow>
    addr multiset \<Rightarrow> bool"
  for pp pe nf sv ld api_ver ms where
  start: "px_account pp pe nf sv ld api_ver ms (px_start ms) {#}"
| stay: "px_account pp pe nf sv ld api_ver ms px lost \<Longrightarrow> px_step pp pe nf sv ld api_ver px px' \<Longrightarrow>
    (\<forall>c. px_session c px \<noteq> None \<longrightarrow> px_session c px' \<noteq> None) \<Longrightarrow>
    px_account pp pe nf sv ld api_ver ms px' lost"
| closed: "px_account pp pe nf sv ld api_ver ms px lost \<Longrightarrow>
    px_session c px = Some s \<Longrightarrow> (er \<longrightarrow> pp_in_on (se_pipe d s)) \<Longrightarrow> (ew \<longrightarrow> pp_out_on (se_pipe d s)) \<Longrightarrow>
    session_work pp pe d er ew s (px_store px) (pm_insts (px_pm px)) = Some (Inr (s1, st1, h)) \<Longrightarrow> session_done s1 \<Longrightarrow>
    session_delete (session_stop s1) st1 ((px_pm px)\<lparr>pm_insts := h\<rparr>) = Inr (st, pm) \<Longrightarrow>
    px_account pp pe nf sv ld api_ver ms (px_put c None st pm px) (session_leak s1 + lost)"

section \<open>The invariant\<close>

fun so_hold :: "rf_session option \<Rightarrow> addr multiset" where
  "so_hold None = {#}"
| "so_hold (Some s) = session_hold s"

definition px_hold :: "rf_session option list \<Rightarrow> addr multiset" where
  "px_hold ss = (\<Sum>so \<leftarrow> ss. so_hold so)"

lemma px_hold_split: "c < length ss \<Longrightarrow> px_hold (ss[c := so]) = so_hold so + px_hold (ss[c := None])"
  unfolding px_hold_def by (simp add: upd_conv_take_nth_drop ac_simps)

lemma px_hold_snoc [simp]: "px_hold (ss @ [so]) = px_hold ss + so_hold so"
  by (simp add: px_hold_def)

lemma px_hold_at: "c < length ss \<Longrightarrow> px_hold ss = so_hold (ss ! c) + px_hold (ss[c := None])"
  using px_hold_split [of c ss "ss ! c"] by simp

text \<open>\<open>px_ok finv lost px\<close>: \<open>lost\<close> are the packets nobody will release.\<close>

definition px_ok :: "('f \<Rightarrow> bool) \<Rightarrow> addr multiset \<Rightarrow> ('k, 'f) proxy \<Rightarrow> bool" where
  "px_ok finv lost px \<longleftrightarrow>
     ledger (px_store px) (px_hold (px_sessions px) + lost) \<and> once (px_hold (px_sessions px) + lost) \<and>
     pm_ok finv (px_pm px) \<and> length (pm_plugins (px_pm px)) \<le> 2 ^ 31 \<and>
     (\<forall>c. case px_session c px of
        None \<Rightarrow> chain_linked c [] (px_pm px)
      | Some s \<Rightarrow> chain_linked c (se_flt s) (px_pm px) \<and> length (se_flt s) = length (pm_plugins (px_pm px)) \<and>
          session_inv s (px_store px) (px_hold ((px_sessions px)[c := None]) + lost))"

lemma px_put_sel [simp]:
  "px_store (px_put c so st pm px) = st" "px_pm (px_put c so st pm px) = pm"
  "px_sessions (px_put c so st pm px) = (px_sessions px)[c := so]"
  by (simp_all add: px_put_def)

lemma px_session_put: "px_session c px \<noteq> None \<Longrightarrow> px_session c' (px_put c so st pm px) = (if c' = c then so else px_session c' px)"
  by (auto simp: px_session_def px_put_def split: if_splits)

lemma px_session_Some: "px_session c px = Some s \<longleftrightarrow> c < length (px_sessions px) \<and> px_sessions px ! c = Some s"
  by (simp add: px_session_def)

lemma px_ok_at:
  assumes "px_ok finv lost px"
  shows "case px_session c px of None \<Rightarrow> chain_linked c [] (px_pm px)
      | Some s \<Rightarrow> chain_linked c (se_flt s) (px_pm px) \<and> length (se_flt s) = length (pm_plugins (px_pm px)) \<and>
          session_inv s (px_store px) (px_hold ((px_sessions px)[c := None]) + lost)"
  using assms unfolding px_ok_def by blast

lemma px_okI:
  assumes "ledger (px_store px) (px_hold (px_sessions px) + lost)" "once (px_hold (px_sessions px) + lost)"
    and "pm_ok finv (px_pm px)" "length (pm_plugins (px_pm px)) \<le> 2 ^ 31"
    and "\<And>c. px_session c px = None \<Longrightarrow> chain_linked c [] (px_pm px)"
    and "\<And>c s. px_session c px = Some s \<Longrightarrow> chain_linked c (se_flt s) (px_pm px) \<and> length (se_flt s) = length (pm_plugins (px_pm px)) \<and>
      session_inv s (px_store px) (px_hold ((px_sessions px)[c := None]) + lost)"
  shows "px_ok finv lost px"
  using assms unfolding px_ok_def by (auto split: option.split)

lemma px_ok_None: "px_ok finv lost px \<Longrightarrow> px_session c px = None \<Longrightarrow> chain_linked c [] (px_pm px)"
  using px_ok_at [of finv lost px c] by simp

lemma px_okD:
  assumes "px_ok finv lost px" and "px_session c px = Some s"
  shows "session_inv s (px_store px) (px_hold ((px_sessions px)[c := None]) + lost)"
    and "once (session_hold s + (px_hold ((px_sessions px)[c := None]) + lost))"
    and "chain_linked c (se_flt s) (px_pm px)" and "length (se_flt s) = length (pm_plugins (px_pm px))"
    and "length (se_flt s) \<le> 2 ^ 31" and "pm_ok finv (px_pm px)"
proof -
  note c = px_ok_at [OF assms(1), of c]
  from c show "session_inv s (px_store px) (px_hold ((px_sessions px)[c := None]) + lost)"
    "chain_linked c (se_flt s) (px_pm px)" "length (se_flt s) = length (pm_plugins (px_pm px))"
    using assms(2) by simp_all
  then show "length (se_flt s) \<le> 2 ^ 31" "pm_ok finv (px_pm px)" using assms(1) by (simp_all add: px_ok_def)
  show "once (session_hold s + (px_hold ((px_sessions px)[c := None]) + lost))"
    using assms px_hold_at [of c "px_sessions px"] by (simp add: px_ok_def px_session_Some ac_simps)
qed

text \<open>One session has made a step; the others are not touched.\<close>

lemma px_ok_put:
  assumes ok: "px_ok finv lost px" and c: "px_session c px = Some s"
    and T: "touched (set_mset (session_hold s)) (px_store px) st"
    and led: "ledger st (so_hold so + (px_hold ((px_sessions px)[c := None]) + lost'))"
    and one: "once (so_hold so + (px_hold ((px_sessions px)[c := None]) + lost'))"
    and pm: "pm_ok finv pm" "length (pm_plugins pm) = length (pm_plugins (px_pm px))"
    and links: "\<And>c' ch. c' \<noteq> c \<Longrightarrow> chain_linked c' ch (px_pm px) \<Longrightarrow> chain_linked c' ch pm"
    and new: "case so of None \<Rightarrow> chain_linked c [] pm
      | Some s' \<Rightarrow> chain_linked c (se_flt s') pm \<and> length (se_flt s') = length (pm_plugins pm) \<and>
          session_inv s' st (px_hold ((px_sessions px)[c := None]) + lost')"
  shows "px_ok finv lost' (px_put c so st pm px)"
proof -
  let ?ss = "px_sessions px" and ?px = "px_put c so st pm px"
  have len: "c < length ?ss" and sc: "?ss ! c = Some s" using c by (auto simp: px_session_Some)
  have hold: "px_hold (?ss[c := so]) = so_hold so + px_hold (?ss[c := None])" by (rule px_hold_split [OF len])
  have all: "ledger st (px_hold (?ss[c := so]) + lost')" "once (px_hold (?ss[c := so]) + lost')"
    using led one by (simp_all add: hold ac_simps)
  have other: "session_inv s2 st (px_hold (?ss[c := so, c' := None]) + lost')"
    if c': "c' \<noteq> c" "px_session c' px = Some s2" for c' s2
  proof (rule session_inv_touched [OF px_okD(1) [OF ok c'(2)] T])
    have l: "c' < length ?ss" "?ss ! c' = Some s2" using c'(2) by (auto simp: px_session_Some)
    have "session_hold s2 \<subseteq># px_hold (?ss[c := None])"
      using px_hold_at [of c' "?ss[c := None]"] l c'(1) by simp
    then show "set_mset (session_hold s) \<inter> set_mset (session_hold s2) = {}"
      using once_disjoint [OF px_okD(2) [OF ok c]] set_mset_mono by fastforce
    show "ledger st (session_hold s2 + (px_hold (?ss[c := so, c' := None]) + lost'))"
      using all(1) px_hold_at [of c' "?ss[c := so]"] l c'(1) by (simp add: ac_simps)
  qed
  have "case px_session c' ?px of None \<Rightarrow> chain_linked c' [] pm
      | Some s \<Rightarrow> chain_linked c' (se_flt s) pm \<and> length (se_flt s) = length (pm_plugins pm) \<and>
          session_inv s st (px_hold (?ss[c := so, c' := None]) + lost')" for c'
  proof (cases "c' = c")
    case True
    then show ?thesis using new c by (cases so) (simp_all add: px_session_put)
  next
    case False
    then have "px_session c' ?px = px_session c' px" using c by (simp add: px_session_put)
    then show ?thesis
      using False other [of c'] links [of c'] px_okD(3,4) [OF ok, of c'] px_ok_None [OF ok, of c'] pm(2)
      by (cases "px_session c' px") simp_all
  qed
  then show ?thesis
    using all pm ok unfolding px_ok_def px_put_sel by auto
qed

text \<open>A new session.\<close>

lemma session_new_ok:
  assumes j: "junk_ok j1" "junk_ok j2" and led: "ledger st hs"
  shows "session_inv (session_run (rf_session_new cli srv j1 j2 ch)) st hs"
    and "session_hold (session_run (rf_session_new cli srv j1 j2 ch)) = {#}"
    and "se_flt (session_run (rf_session_new cli srv j1 j2 ch)) = ch"
proof -
  show h: "session_hold (session_run (rf_session_new cli srv j1 j2 ch)) = {#}"
    by (simp add: session_hold_def session_run_def rf_session_new_def pipe_run_def pipe_new_def pipe_hold_def
        rq_hold_def dq_hold_def dq_new_def recvq_new_def sendq_new_def pqh_init_def opt_hold_def)
  have "pipe_ok (pipe_run (pipe_new (fst j) (snd j) d)) st" if "junk_ok j" for j d
    using that ledger_store_ok [OF led]
    by (simp add: pipe_run_def pipe_new_def pipe_ok_def recvq_ok_def sq_ok_def sq_safe_def sq_window_def
        recvq_new_def sendq_new_def pqh_init_def junk_ok_def)
  then show "session_inv (session_run (rf_session_new cli srv j1 j2 ch)) st hs"
    using j led h by (simp add: session_inv_def once_def session_run_def rf_session_new_def)
      (simp add: pipe_run_def pipe_new_def)
  show "se_flt (session_run (rf_session_new cli srv j1 j2 ch)) = ch"
    by (simp add: session_run_def rf_session_new_def)
qed

lemma build_chain_other:
  assumes "chain_linked c' ch pm" and "pm_ok finv pm" and "c' \<noteq> c" and "chain_linked c new pm'"
    and "\<forall>j < pm_next pm. pm_insts pm' j = pm_insts pm j" and "\<forall>j \<ge> pm_next pm. pm_insts pm' j \<noteq> None \<longrightarrow> j \<in> set new"
  shows "chain_linked c' ch pm'"
proof -
  have "(\<exists>ri. pm_insts pm' i = Some ri \<and> ri_chain ri = Some c') \<longleftrightarrow> (\<exists>ri. pm_insts pm i = Some ri \<and> ri_chain ri = Some c')" for i
  proof (cases "i < pm_next pm")
    case False
    then have "pm_insts pm i = None" using assms(2) by (simp add: pm_ok_def)
    moreover have "ri_chain ri \<noteq> Some c'" if "pm_insts pm' i = Some ri" for ri
    proof -
      have "i \<in> set new" using assms(6) False that by auto
      then show ?thesis using assms(3,4) that by (auto simp: chain_linked_def)
    qed
    ultimately show ?thesis by auto
  qed (use assms(5) in simp)
  then show ?thesis using assms(1) by (simp add: chain_linked_def)
qed

section \<open>Every step keeps it\<close>

lemma unlinked_ready:
  fixes ms ms' :: "'k rfx_module list"
  assumes "map unlinked ms' = map unlinked ms" and "\<forall>m \<in> set ms. module_ready m"
  shows "\<forall>m \<in> set ms'. module_ready m"
proof -
  have "map (module_ready \<circ> unlinked) ms' = map (module_ready \<circ> unlinked) ms" using assms(1) by (metis map_map)
  moreover have "module_ready (unlinked m) = module_ready m" for m :: "'k rfx_module" by (simp add: module_ready_def unlinked_def)
  ultimately have "map module_ready ms' = map module_ready ms" by (simp add: comp_def)
  then have "module_ready ` set ms' = module_ready ` set ms" by (metis list.set_map)
  then show ?thesis using assms(2) by (metis imageE image_eqI)
qed

context reloadable_filter
begin

text \<open>The chain of a new connection is built from all plug-ins, or one of them has no constructor.\<close>

lemma build_chain_ok:
  assumes pm: "pm_ok finv pm" "chain_linked c [] pm"
  obtains (unset) "build_chain new_filter c pm = Inl Uninitialised" "\<exists>m \<in> set (pm_plugins pm). rm_filter_new m = None"
    | (built) pm' new where "build_chain new_filter c pm = Inr (pm', new)" "pm_ok finv pm'" "chain_linked c new pm'"
      "length new = length (pm_plugins pm)" "map unlinked (pm_plugins pm') = map unlinked (pm_plugins pm)"
      "\<And>c' ch. chain_linked c' ch pm \<Longrightarrow> c' \<noteq> c \<Longrightarrow> chain_linked c' ch pm'"
proof (cases "\<exists>m \<in> set (pm_plugins pm). rm_filter_new m = None")
  case True
  then have "\<exists>mi \<in> set [0..<length (pm_plugins pm)]. rm_filter_new (pm_plugins pm ! mi) = None"
    by (auto simp: in_set_conv_nth Bex_def)
  then have "build_chain new_filter c pm = Inl Uninitialised"
    unfolding build_chain_def by (intro build_loop_unset [OF pm(1) new_ok pm(2)]) auto
  then show thesis by (rule unset [OF _ True])
next
  case False
  have "\<exists>pm' new. build_chain new_filter c pm = Inr (pm', new) \<and> pm_ok finv pm' \<and>
      chain_linked c new pm' \<and> length new = length (pm_plugins pm) \<and>
      (\<forall>j < pm_next pm. pm_insts pm' j = pm_insts pm j) \<and>
      (\<forall>j \<ge> pm_next pm. pm_insts pm' j \<noteq> None \<longrightarrow> j \<in> set new) \<and>
      map unlinked (pm_plugins pm') = map unlinked (pm_plugins pm)"
    using build_loop_linked [OF pm(1) _ new_ok pm(2), of "[0..<length (pm_plugins pm)]"] False
    by (simp add: build_chain_def)
  then obtain pm' new where b: "build_chain new_filter c pm = Inr (pm', new)" "pm_ok finv pm'" "chain_linked c new pm'"
    "length new = length (pm_plugins pm)" "\<forall>j < pm_next pm. pm_insts pm' j = pm_insts pm j"
    "\<forall>j \<ge> pm_next pm. pm_insts pm' j \<noteq> None \<longrightarrow> j \<in> set new" "map unlinked (pm_plugins pm') = map unlinked (pm_plugins pm)"
    by (elim exE conjE) (rule that)
  show thesis
    by (rule built [OF b(1-4,7)]) (rule build_chain_other [OF _ pm(1) _ b(3,5,6)])
qed

lemma proxy_run_ok:
  assumes ok: "px_ok finv lost px" and j: "junk_ok j1" "junk_ok j2"
  obtains (unset) "proxy_run new_filter cli srv j1 j2 px = Inl Uninitialised"
      "\<exists>m \<in> set (pm_plugins (px_pm px)). rm_filter_new m = None"
    | (run) px' where "proxy_run new_filter cli srv j1 j2 px = Inr px'" "px_ok finv lost px'"
      "map unlinked (pm_plugins (px_pm px')) = map unlinked (pm_plugins (px_pm px))"
proof -
  let ?c = "length (px_sessions px)" and ?pm = "px_pm px"
  have pm: "pm_ok finv ?pm" using ok by (simp add: px_ok_def)
  have ch: "chain_linked ?c [] ?pm" by (rule px_ok_None [OF ok]) (simp add: px_session_def)
  from pm ch show thesis
  proof (cases rule: build_chain_ok)
    case unset
    then show thesis by (intro that(1)) (simp_all add: proxy_run_def)
  next
    case (built pm' new)
    let ?s = "session_run (rf_session_new cli srv j1 j2 new)"
    let ?px = "px\<lparr>px_pm := pm', px_sessions := px_sessions px @ [Some ?s]\<rparr>"
    have led: "ledger (px_store px) (px_hold (px_sessions px) + lost)" "once (px_hold (px_sessions px) + lost)"
      using ok by (simp_all add: px_ok_def)
    note s = session_new_ok [OF j led(1), of cli srv new] and len = unlinked_same(1) [OF built(5)]
    have "case px_session c ?px of None \<Rightarrow> chain_linked c [] (px_pm ?px)
      | Some s \<Rightarrow> chain_linked c (se_flt s) (px_pm ?px) \<and> length (se_flt s) = length (pm_plugins (px_pm ?px)) \<and>
          session_inv s (px_store ?px) (px_hold ((px_sessions ?px)[c := None]) + lost)" for c
    proof (cases "c = ?c")
      case True
      then show ?thesis using s built(3,4) len by (simp add: px_session_def)
    next
      case False
      then have same: "px_session c ?px = px_session c px" by (auto simp: px_session_def nth_append)
      show ?thesis
      proof (cases "px_session c px")
        case None
        then show ?thesis using same built(6) [OF px_ok_None [OF ok None] False] by simp
      next
        case (Some x)
        then have "c < length (px_sessions px)" by (simp add: px_session_Some)
        then show ?thesis
          using same Some built(6) [OF px_okD(3) [OF ok Some] False] px_okD(1,4) [OF ok Some] s(2) len
          by (simp add: list_update_append)
      qed
    qed
    then have "px_ok finv lost ?px" using led s(2) built(2) len ok by (simp add: px_ok_def)
    then show thesis by (intro that(2) [of ?px]) (use built(1,5) in \<open>simp_all add: proxy_run_def\<close>)
  qed
qed

lemma px_io_ok:
  assumes ok: "px_ok finv lost px" and c: "px_session c px = Some s"
  obtains (bad) "session_io process_pkt process_ev d er ew s (px_store px) (px_pm px) = Some (Inl OutOfBounds)"
    | (live) s' st pm where "session_io process_pkt process_ev d er ew s (px_store px) (px_pm px) = Some (Inr (Some s', st, pm))"
      "px_ok finv lost (px_put c (Some s') st pm px)" "map unlinked (pm_plugins pm) = map unlinked (pm_plugins (px_pm px))"
    | (gone) st pm s1 st1 h where "session_io process_pkt process_ev d er ew s (px_store px) (px_pm px) = Some (Inr (None, st, pm))"
      "px_ok finv (session_leak s1 + lost) (px_put c None st pm px)" "map unlinked (pm_plugins pm) = map unlinked (pm_plugins (px_pm px))"
      "session_work process_pkt process_ev d er ew s (px_store px) (pm_insts (px_pm px)) = Some (Inr (s1, st1, h))" "session_done s1"
      "session_delete (session_stop s1) st1 ((px_pm px)\<lparr>pm_insts := h\<rparr>) = Inr (st, pm)"
proof (cases rule: session_io_ok [OF px_okD(1,2) [OF ok c] px_okD(6,3,5) [OF ok c], of d er ew])
  case 1
  then show ?thesis by (rule bad)
next
  case (2 s' st pm)
  have links: "chain_linked c' ch pm" if "chain_linked c' ch (px_pm px)" for c' ch
    by (rule chain_linked_links [OF that 2(7)])
  have "px_ok finv lost (px_put c (Some s') st pm px)"
    by (rule px_ok_put [OF ok c 2(5) _ _ 2(6)])
      (use 2 links px_okD(3,4) [OF ok c] in \<open>simp_all add: session_inv_def\<close>)
  with 2(1) show ?thesis by (rule live) (simp add: 2(8))
next
  case (3 st pm s1 st1 h)
  have links: "chain_linked c' ch pm" if l: "c' \<noteq> c" "chain_linked c' ch (px_pm px)" for c' ch
  proof -
    have "chain_linked c (se_flt s) (px_pm px)" by (rule px_okD(3) [OF ok c])
    then have "ri_chain ri \<noteq> Some c'" if "i \<in> set (se_flt s)" "pm_insts (px_pm px) i = Some ri" for i ri
      using that l(1) by (auto simp: chain_linked_def)
    moreover have "(\<exists>ri. h i = Some ri \<and> ri_chain ri = Some c') \<longleftrightarrow> (\<exists>ri. pm_insts (px_pm px) i = Some ri \<and> ri_chain ri = Some c')" for i
      using same_links_ex [OF 3(7), of i "\<lambda>x. snd x = Some c'"] by (simp add: ri_links_def)
    ultimately show ?thesis using l(2) 3(8) by (auto simp: chain_linked_def)
  qed
  have "px_ok finv (session_leak s1 + lost) (px_put c None st pm px)"
    by (rule px_ok_put [OF ok c 3(4) _ _ 3(5)])
      (use 3 links unlinked_same(1) [OF 3(9)] in \<open>simp_all add: ac_simps\<close>)
  from 3(1) this 3(9-12) show ?thesis by (rule gone)
qed

lemma px_timer_ok:
  assumes ok: "px_ok finv lost px" and c: "px_session c px = Some s" and i: "i < length (dq_qh (se_dq s))"
  obtains s' st where "session_timeout i s (px_store px) = Inr (s', st)" "px_ok finv lost (px_put c (Some s') st (px_pm px) px)"
proof -
  obtain s' st where t: "session_timeout i s (px_store px) = Inr (s', st)"
    "session_inv s' st (px_hold ((px_sessions px)[c := None]) + lost)" "once (session_hold s' + (px_hold ((px_sessions px)[c := None]) + lost))"
    "touched (set_mset (session_hold s)) (px_store px) st" "se_flt s' = se_flt s"
    by (rule session_timeout_ok [OF px_okD(1,2) [OF ok c] i])
  have "px_ok finv lost (px_put c (Some s') st (px_pm px) px)"
    by (rule px_ok_put [OF ok c t(4) _ _ px_okD(6) [OF ok c] refl])
      (use t px_okD(3,4) [OF ok c] in \<open>simp_all add: session_inv_def\<close>)
  with t(1) show thesis by (rule that)
qed

lemma px_reload_ok:
  assumes ok: "px_ok finv lost px"
  obtains (unset) "reload_plugins new_filter save_state load_state api_ver env now (pm_plugins (px_pm px)) (pm_insts (px_pm px)) =
      Inl Uninitialised" "\<exists>m \<in> set (pm_plugins (px_pm px)). \<not> module_ready m"
    | (fine) ms h where "reload_plugins new_filter save_state load_state api_ver env now (pm_plugins (px_pm px)) (pm_insts (px_pm px)) =
      Inr (ms, h)" "px_ok finv lost (px\<lparr>px_pm := (px_pm px)\<lparr>pm_plugins := ms, pm_insts := h\<rparr>\<rparr>)"
      "(\<forall>m \<in> set (pm_plugins (px_pm px)). module_ready m) \<longrightarrow> (\<forall>m \<in> set ms. module_ready m)"
proof -
  let ?pm = "px_pm px"
  have pm: "pm_ok finv ?pm" using ok by (simp add: px_ok_def)
  then have "insts_ok finv (pm_insts ?pm)" "\<forall>m \<in> set (pm_plugins ?pm). \<forall>i \<in> set (rm_ih m). pm_insts ?pm i \<noteq> None"
    by (fastforce simp: pm_ok_def in_set_conv_nth)+
  from reload_plugins_ok [OF this, of api_ver env now] show thesis
  proof (elim disjE exE conjE)
    fix ms h
    assume r: "reload_plugins new_filter save_state load_state api_ver env now (pm_plugins ?pm) (pm_insts ?pm) = Inr (ms, h)"
      "insts_ok finv h" "same_links (pm_insts ?pm) h" "map rm_ih ms = map rm_ih (pm_plugins ?pm)"
      "(\<forall>m \<in> set (pm_plugins ?pm). module_ready m) \<longrightarrow> (\<forall>m \<in> set ms. module_ready m)"
    let ?pm' = "?pm\<lparr>pm_plugins := ms, pm_insts := h\<rparr>"
    have "pm_ok finv ?pm'" by (rule pm_ok_links [OF pm]) (use r in simp_all)
    moreover have "length ms = length (pm_plugins ?pm)" using r(4) by (metis length_map)
    moreover have "chain_linked c ch ?pm'" if "chain_linked c ch ?pm" for c ch
      by (rule chain_linked_links [OF that]) (simp add: r(3))
    moreover have "px_session c (px\<lparr>px_pm := ?pm'\<rparr>) = px_session c px" for c by (simp add: px_session_def)
    ultimately have "px_ok finv lost (px\<lparr>px_pm := ?pm'\<rparr>)"
      using ok px_okD(1,3,4) [OF ok] px_ok_None [OF ok] by (intro px_okI) (simp_all add: px_ok_def)
    with r(1) show thesis by (rule fine) (rule r(5))
  qed (rule unset)
qed

lemma px_kernel_ok:
  assumes ok: "px_ok finv lost px" and c: "px_session c px = Some s"
  shows "px_ok finv lost (px_put c (Some (s\<lparr>se_cli := cli, se_srv := srv\<rparr>)) (px_store px) (px_pm px) px)"
proof -
  have "session_hold (s\<lparr>se_cli := cli, se_srv := srv\<rparr>) = session_hold s" by (simp add: session_hold_def)
  then show ?thesis
    using px_okD [OF ok c] by (intro px_ok_put [OF ok c]) (simp_all add: session_inv_def)
qed

text \<open>All steps together; modules that were ready stay so. Only the end of a session adds to what is lost.\<close>

lemma px_step_ok:
  assumes step: "px_step process_pkt process_ev new_filter save_state load_state api_ver px px'"
    and ok: "px_ok finv lost px"
  obtains lost' where "px_ok finv lost' px'" "(\<forall>c. px_session c px \<noteq> None \<longrightarrow> px_session c px' \<noteq> None) \<Longrightarrow> lost' = lost"
    "(\<forall>m \<in> set (pm_plugins (px_pm px)). module_ready m) \<longrightarrow> (\<forall>m \<in> set (pm_plugins (px_pm px')). module_ready m)"
  using step
proof cases
  case (accept j1 j2 cli srv)
  show ?thesis
  proof (cases rule: proxy_run_ok [OF ok accept(1,2), of cli srv])
    case 2
    then have "map unlinked (pm_plugins (px_pm px')) = map unlinked (pm_plugins (px_pm px))" using accept(3) by simp
    from unlinked_ready [OF this] show ?thesis using that [of lost] 2(1,2) accept(3) by simp
  qed (use accept(3) in simp)
next
  case (io c s er d ew so st pm)
  show ?thesis
  proof (cases rule: px_io_ok [OF ok io(2), of d er ew])
    case (2 s' st' pm')
    then show ?thesis using that [of lost] io(1,5) unlinked_ready [OF 2(3)] by simp
  next
    case (3 st' pm' s1 st1 h)
    have "px_session c px' = None" using io(1,2,5) 3(1) by (simp add: px_session_put)
    then have gone: "\<not> (\<forall>c. px_session c px \<noteq> None \<longrightarrow> px_session c px' \<noteq> None)" using io(2) by auto
    have "px_ok finv (session_leak s1 + lost) px'" using 3(1,2) io(1,5) by simp
    then show ?thesis by (rule that) (use gone unlinked_ready [OF 3(3)] io(1,5) 3(1) in auto)
  qed (use io(5) in simp)
next
  case (timer c s i s' st)
  obtain s2 st2 where "session_timeout i s (px_store px) = Inr (s2, st2)" "px_ok finv lost (px_put c (Some s2) st2 (px_pm px) px)"
    by (rule px_timer_ok [OF ok timer(2,3)])
  then show ?thesis using that timer(1,5) by simp
next
  case (reload env now ms h)
  show ?thesis
  proof (cases rule: px_reload_ok [OF ok, of api_ver env now])
    case (2 ms' h')
    then show ?thesis using that reload by simp
  qed (use reload in simp)
next
  case (kernel c s cli srv)
  then show ?thesis using that [of lost] px_kernel_ok [OF ok kernel(2)] by simp
qed

lemma px_start_ok:
  assumes "\<forall>m \<in> set ms. rm_ih m = []" and "length ms \<le> 2 ^ 31"
  shows "px_ok finv {#} (px_start ms)"
  by (rule px_okI) (use assms in \<open>simp_all add: px_start_def px_hold_def ledger_def store_ok_def once_def pm_ok_def
    insts_ok_def chain_linked_def px_session_def\<close>)

lemma px_reach_ok:
  assumes "px_reach process_pkt process_ev new_filter save_state load_state api_ver ms px"
    and "\<forall>m \<in> set ms. rm_ih m = []" and "length ms \<le> 2 ^ 31"
  shows "(\<exists>lost. px_ok finv lost px) \<and>
    ((\<forall>m \<in> set ms. module_ready m) \<longrightarrow> (\<forall>m \<in> set (pm_plugins (px_pm px)). module_ready m))"
  using assms(1)
proof induction
  case start
  have "px_ok finv {#} (px_start ms)" by (rule px_start_ok [OF assms(2,3)])
  then show ?case by (auto simp: px_start_def)
next
  case (step px px')
  then obtain lost where "px_ok finv lost px" by blast
  then obtain lost' where "px_ok finv lost' px'"
    "(\<forall>m \<in> set (pm_plugins (px_pm px)). module_ready m) \<longrightarrow> (\<forall>m \<in> set (pm_plugins (px_pm px')). module_ready m)"
    by (rule px_step_ok [OF step(2)]) (rule that)
  then show ?case using step.IH by blast
qed

text \<open>The account is right, and every reachable state has one.\<close>

lemma px_account_ok:
  assumes "px_account process_pkt process_ev new_filter save_state load_state api_ver ms px lost"
    and "\<forall>m \<in> set ms. rm_ih m = []" and "length ms \<le> 2 ^ 31"
  shows "px_ok finv lost px"
  using assms(1)
proof induction
  case start
  show ?case by (rule px_start_ok [OF assms(2,3)])
next
  case (stay px lost px')
  obtain lost' where "px_ok finv lost' px'" "(\<forall>c. px_session c px \<noteq> None \<longrightarrow> px_session c px' \<noteq> None) \<Longrightarrow> lost' = lost"
    by (rule px_step_ok [OF stay.hyps(2) stay.IH]) (rule that)
  then show ?case using stay.hyps(3) by blast
next
  case (closed px lost c s er d ew s1 st1 h st pm)
  have io: "session_io process_pkt process_ev d er ew s (px_store px) (px_pm px) = Some (Inr (None, st, pm))"
    by (simp add: session_io_def closed.hyps Let_def)
  show ?case
  proof (cases rule: px_io_ok [OF closed.IH closed.hyps(2), of d er ew])
    case (3 st' pm' s1' st1' h')
    then show ?thesis using closed.hyps(5,7) by simp
  qed (simp_all add: io)
qed

end

lemma px_session_step:
  assumes "px_step pp pe nf sv ld api_ver px px'"
  obtains (stay) "\<forall>c. px_session c px \<noteq> None \<longrightarrow> px_session c px' \<noteq> None"
    | (closed) c s er d ew s1 st1 h st pm where "px_session c px = Some s" "er \<longrightarrow> pp_in_on (se_pipe d s)"
      "ew \<longrightarrow> pp_out_on (se_pipe d s)"
      "session_work pp pe d er ew s (px_store px) (pm_insts (px_pm px)) = Some (Inr (s1, st1, h))" "session_done s1"
      "session_delete (session_stop s1) st1 ((px_pm px)\<lparr>pm_insts := h\<rparr>) = Inr (st, pm)" "px' = px_put c None st pm px"
  using assms
proof cases
  case (accept j1 j2 cli srv)
  then have "px_session c px' \<noteq> None" if "px_session c px \<noteq> None" for c
    using that by (auto simp: proxy_run_def px_session_def nth_append fault_simps split: if_splits)
  then show ?thesis by (intro stay) blast
next
  case (io c s er d ew so st pm)
  show ?thesis
  proof (cases so)
    case None
    obtain s1 st1 h where "session_work pp pe d er ew s (px_store px) (pm_insts (px_pm px)) = Some (Inr (s1, st1, h))"
      "session_done s1" "session_delete (session_stop s1) st1 ((px_pm px)\<lparr>pm_insts := h\<rparr>) = Inr (st, pm)"
      using io(5) None by (auto simp: session_io_def Let_def fault_simps split: if_splits)
    with io(2-4) show ?thesis by (rule closed) (use io(1) None in simp)
  next
    case (Some s')
    then show ?thesis using io(1,2) by (intro stay) (simp add: px_session_put)
  qed
next
  case (timer c s i s' st)
  then show ?thesis by (intro stay) (simp add: px_session_put)
next
  case (reload env now ms h)
  then show ?thesis by (intro stay) (simp add: px_session_def)
next
  case (kernel c s cli srv)
  then show ?thesis by (intro stay) (simp add: px_session_put)
qed

lemma px_reach_account:
  assumes "px_reach pp pe nf sv ld api_ver ms px"
  shows "\<exists>lost. px_account pp pe nf sv ld api_ver ms px lost"
  using assms
proof induction
  case start
  show ?case by (rule exI, rule px_account.start)
next
  case (step px px')
  then obtain lost where a: "px_account pp pe nf sv ld api_ver ms px lost" by blast
  from step(2) show ?case
  proof (cases rule: px_session_step)
    case stay
    then show ?thesis using px_account.stay [OF a step(2)] by blast
  next
    case (closed c s er d ew s1 st1 h st pm)
    then show ?thesis using px_account.closed [OF a closed(1-6)] by blast
  qed
qed

lemma load_plugins_fresh: "m \<in> set (load_plugins api_ver ps) \<Longrightarrow> rm_ih m = []"
  by (induction api_ver ps rule: load_plugins.induct) (auto simp: module_load_def rfx_module_new_def Let_def split: option.splits)

lemma load_plugins_length [simp]: "length (load_plugins api_ver ps) = length ps"
  by (induction api_ver ps rule: load_plugins.induct) simp_all

lemma px_ok_one:
  assumes "px_ok finv lost px"
  shows "count (px_hold (px_sessions px)) p + count lost p = (case pkts (px_store px) p of None \<Rightarrow> 0 | Some pk \<Rightarrow> 1)"
    and "pkts (px_store px) p = Some pk \<Longrightarrow> p_refc pk = 1"
proof -
  let ?hold = "px_hold (px_sessions px) + lost"
  have led: "ledger (px_store px) ?hold" and "once ?hold" using assms by (simp_all add: px_ok_def)
  then have one: "count ?hold p \<le> 1" using onceD by blast
  have b: "booked (pkts (px_store px) p) (count ?hold p)" using led by (simp add: ledger_def)
  have some: "count ?hold p = 1 \<and> unat (p_refc pk) = 1" if "pkts (px_store px) p = Some pk" for pk
  proof -
    have "0 < count ?hold p" "unat (p_refc pk) = count ?hold p" using b that unfolding booked_simps by simp_all
    then show ?thesis using one by linarith
  qed
  have none: "count ?hold p = 0" if "pkts (px_store px) p = None"
    using b that unfolding booked_simps by simp
  show "count (px_hold (px_sessions px)) p + count lost p = (case pkts (px_store px) p of None \<Rightarrow> 0 | Some pk \<Rightarrow> 1)"
    using some none unfolding count_union by (cases "pkts (px_store px) p") auto
  show "p_refc pk = 1" if "pkts (px_store px) p = Some pk"
    using some [OF that] by (metis unsigned_1 unsigned_word_eqI)
qed

section \<open>Properties\<close>

text \<open>The smallest run: the module of the loot filter is loaded, one connection is taken over.\<close>

definition demo_plugins :: "(string \<times> flt_kind dlobject option \<times> int option) list" where
  "demo_plugins = [(''dl/rfx_loot.so'', Some \<lparr>dl_sig = Some ''1'', dl_filter = Some KindLoot\<rparr>, Some 0)]"

lemma demo_run:
  "\<exists>px. px_reach flt_process_pkt (flt_process_ev fs) flt_new flt_save flt_load ''1'' (load_plugins ''1'' demo_plugins) px \<and>
     px_session 0 px \<noteq> None"
proof -
  let ?sock = "\<lparr>so_rd = [], so_wr = \<lparr>wr_script = [], wr_errno = EAGAIN, wr_out = []\<rparr>, so_shut_rd = False, so_shut_wr = False\<rparr>"
  let ?j = "(replicate 4 0, replicate WRIVCNT \<lparr>iov_pkt = 0, iov_off = 0, iov_len = 0\<rparr>) :: bytes \<times> iovec list"
  let ?px = "px_start (load_plugins ''1'' demo_plugins)"
  have "junk_ok ?j" by (simp add: junk_ok_def)
  moreover have "\<exists>px. proxy_run flt_new ?sock ?sock ?j ?j ?px = Inr px \<and> px_session 0 px \<noteq> None"
    by (simp add: px_start_def proxy_run_def build_chain_def new_instance_def add_filter_def demo_plugins_def
        module_load_def rfx_module_new_def px_session_def Let_def)
  ultimately show ?thesis
    using px_reach.start px_reach.step px_step.accept by meson
qed

text \<open>
  C4. In every state the program can reach with its plug-ins, whatever the clients, the server, the
  timers and the files on disk did, every packet in memory has reference count one and is held
  once: in one place of one session, or it is one of the packets a session closed by then was still
  reading (the account; every reachable state has one). Nothing else is in memory, and all of these are.
\<close>

theorem proxy_one_holder:
  assumes "px_reach flt_process_pkt (flt_process_ev fs) flt_new flt_save flt_load api_ver (load_plugins api_ver ps) px"
    and "length ps \<le> 2 ^ 31"
  shows "(\<exists>lost. px_account flt_process_pkt (flt_process_ev fs) flt_new flt_save flt_load api_ver (load_plugins api_ver ps) px lost) \<and>
    (\<forall>lost. px_account flt_process_pkt (flt_process_ev fs) flt_new flt_save flt_load api_ver (load_plugins api_ver ps) px lost \<longrightarrow>
      (\<forall>p. count (px_hold (px_sessions px)) p + count lost p =
        (case pkts (px_store px) p of None \<Rightarrow> 0 | Some pk \<Rightarrow> 1)) \<and>
      (\<forall>p pk. pkts (px_store px) p = Some pk \<longrightarrow> p_refc pk = 1))"
proof (intro conjI allI impI)
  show "\<exists>lost. px_account flt_process_pkt (flt_process_ev fs) flt_new flt_save flt_load api_ver (load_plugins api_ver ps) px lost"
    by (rule px_reach_account [OF assms(1)])
next
  fix lost p
  assume "px_account flt_process_pkt (flt_process_ev fs) flt_new flt_save flt_load api_ver (load_plugins api_ver ps) px lost"
  then have "px_ok flt_ok lost px"
    using plugins.px_account_ok load_plugins_fresh assms(2) by fastforce
  note one = px_ok_one [OF this]
  show "count (px_hold (px_sessions px)) p + count lost p = (case pkts (px_store px) p of None \<Rightarrow> 0 | Some pk \<Rightarrow> 1)"
    by (rule one(1))
  show "p_refc pk = 1" if "pkts (px_store px) p = Some pk" for pk
    by (rule one(2) [OF that])
qed

lemma proxy_one_holder_witness:
  "\<exists>(px :: (flt_kind, flt) proxy) lost. px_session 0 px \<noteq> None \<and>
    px_account flt_process_pkt (flt_process_ev (\<lambda>_. None)) flt_new flt_save flt_load ''1'' (load_plugins ''1'' demo_plugins) px lost \<and>
    (\<forall>p. count (px_hold (px_sessions px)) p + count lost p = (case pkts (px_store px) p of None \<Rightarrow> 0 | Some pk \<Rightarrow> 1))"
proof -
  obtain px where px: "px_reach flt_process_pkt (flt_process_ev (\<lambda>_. None)) flt_new flt_save flt_load ''1''
      (load_plugins ''1'' demo_plugins) px" "px_session 0 px \<noteq> None"
    using demo_run by blast
  have "length demo_plugins \<le> 2 ^ 31" by (simp add: demo_plugins_def)
  from proxy_one_holder [OF px(1) this] show ?thesis using px(2) by blast
qed

text \<open>
  C6. When every plug-in loads at the start (each module has its constructor and its time stamp), no
  callback of a reachable state touches a released packet, a dangling link or an unset field: taking over
  a connection and reloading modules always succeed, a timer always does, and the callback of a socket
  always returns, the only fault left being the access outside the buffer of a malformed packet by a
  plug-in or the receive queue. The answers of the kernel within one callback are a finite script, after which a
  descriptor has nothing to do; a descriptor that is interrupted for ever would keep a callback for ever.
\<close>

theorem proxy_callbacks_safe:
  assumes "px_reach flt_process_pkt (flt_process_ev fs) flt_new flt_save flt_load api_ver (load_plugins api_ver ps) px"
    and "length ps \<le> 2 ^ 31" and "\<forall>m \<in> set (load_plugins api_ver ps). module_ready m"
  shows "(\<forall>c s. px_session c px = Some s \<longrightarrow>
      (\<forall>d er ew. session_io flt_process_pkt (flt_process_ev fs) d er ew s (px_store px) (px_pm px) = Some (Inl OutOfBounds) \<or>
         (\<exists>r. session_io flt_process_pkt (flt_process_ev fs) d er ew s (px_store px) (px_pm px) = Some (Inr r))) \<and>
      (\<forall>i < length (dq_qh (se_dq s)). \<exists>r. session_timeout i s (px_store px) = Inr r)) \<and>
    (\<forall>cli srv j1 j2. junk_ok j1 \<and> junk_ok j2 \<longrightarrow> (\<exists>px'. proxy_run flt_new cli srv j1 j2 px = Inr px')) \<and>
    (\<forall>env now. \<exists>r. reload_plugins flt_new flt_save flt_load api_ver env now (pm_plugins (px_pm px)) (pm_insts (px_pm px)) = Inr r)"
proof -
  obtain lost where ok: "px_ok flt_ok lost px" and ready: "\<forall>m \<in> set (pm_plugins (px_pm px)). module_ready m"
    using plugins.px_reach_ok [OF assms(1)] load_plugins_fresh assms(2,3) by fastforce
  have "session_io flt_process_pkt (flt_process_ev fs) d er ew s (px_store px) (px_pm px) = Some (Inl OutOfBounds) \<or>
      (\<exists>r. session_io flt_process_pkt (flt_process_ev fs) d er ew s (px_store px) (px_pm px) = Some (Inr r))"
    if "px_session c px = Some s" for c s d er ew
    by (cases rule: plugins.px_io_ok [OF ok that, of fs d er ew]) auto
  moreover have "\<exists>r. session_timeout i s (px_store px) = Inr r"
    if "px_session c px = Some s" "i < length (dq_qh (se_dq s))" for c s i
    by (rule plugins.px_timer_ok [OF ok that]) blast
  moreover have "\<exists>px'. proxy_run flt_new cli srv j1 j2 px = Inr px'" if "junk_ok j1" "junk_ok j2" for cli srv j1 j2
    by (cases rule: plugins.proxy_run_ok [OF ok that, of cli srv]) (use ready in \<open>auto simp: module_ready_def\<close>)
  moreover have "\<exists>r. reload_plugins flt_new flt_save flt_load api_ver env now (pm_plugins (px_pm px)) (pm_insts (px_pm px)) = Inr r"
    for env now
    by (cases rule: plugins.px_reload_ok [OF ok, of api_ver env now]) (use ready in auto)
  ultimately show ?thesis by blast
qed

lemma proxy_callbacks_safe_witness:
  "\<exists>(px :: (flt_kind, flt) proxy) s. px_session 0 px = Some s \<and> (\<forall>d er ew.
     session_io flt_process_pkt (flt_process_ev (\<lambda>_. None)) d er ew s (px_store px) (px_pm px) = Some (Inl OutOfBounds) \<or>
     (\<exists>r. session_io flt_process_pkt (flt_process_ev (\<lambda>_. None)) d er ew s (px_store px) (px_pm px) = Some (Inr r)))"
proof -
  obtain px s where px: "px_reach flt_process_pkt (flt_process_ev (\<lambda>_. None)) flt_new flt_save flt_load ''1''
      (load_plugins ''1'' demo_plugins) px" "px_session 0 px = Some s"
    using demo_run by fastforce
  have ready: "\<forall>m \<in> set (load_plugins ''1'' demo_plugins). module_ready m"
    by (simp add: demo_plugins_def module_load_def rfx_module_new_def module_ready_def Let_def)
  have len: "length demo_plugins \<le> 2 ^ 31" by (simp add: demo_plugins_def)
  note proxy_callbacks_safe [OF px(1) len ready, THEN conjunct1, THEN spec, THEN spec, THEN mp, OF px(2), THEN conjunct1]
  with px(2) show ?thesis by (intro exI conjI)
qed

end
