(* ===== verification/Transparent.thy ===== *)
theory Transparent
  imports Proxy
begin

text \<open>
  Transparency. A packet none of the plug-ins looks at goes from the receive queue of its pipe to the
  send queue, so a connection that carries only such packets is a pair of byte channels: for each
  direction the bytes written to the one socket, followed by the bytes in flight, are the bytes
  read from the other one. The FIFO of bytes is the specification, \<open>flow\<close> its content in the state of a session.
\<close>

section \<open>Packets nobody looks at\<close>

definition watched :: "u16 set" where
  "watched = {WHITE_CHAT_OUT, PRIVMSG_OUT, PRIVMSG_IN, LOOT_DROP_NEW, LOOT_DROP_HORIZON, LOOT_DISAPPEAR}"

definition plain_frame :: "bytes \<Rightarrow> bool" where
  "plain_frame x \<longleftrightarrow> wf_frame x \<and> p_type (frame_pkt CLI_TO_SRV x) \<notin> watched"

definition plain :: "store \<Rightarrow> addr \<Rightarrow> bool" where
  "plain st p \<longleftrightarrow> (\<exists>d x. pkts st p = Some (frame_pkt d x) \<and> plain_frame x)"

lemma plain_sendable: "plain st p \<Longrightarrow> sendable st p"
  by (auto simp: plain_def sendable_def plain_frame_def wf_frame_def)

lemma flt_process_plain:
  assumes "plain (fw_store w) p"
  shows "flt_process_pkt f p w = Inr (RFX_DECLINE, f, w)"
proof -
  obtain d x where x: "pkts (fw_store w) p = Some (frame_pkt d x)" "plain_frame x"
    using assms by (auto simp: plain_def)
  have "p_type (frame_pkt d x) = p_type (frame_pkt CLI_TO_SRV x)" by (simp add: frame_pkt_def)
  then have "p_type (frame_pkt d x) \<notin> watched" using x(2) by (simp add: plain_frame_def)
  then show ?thesis
    using x(1) by (cases f) (simp_all add: watched_def chat_process_pkt_def loot_process_pkt_def debug_process_pkt_def)
qed

lemma chain_plain:
  assumes "\<forall>i \<in> set ch. h i \<noteq> None" and "plain (fw_store w) p"
  shows "chain_pkt flt_process_pkt ch p h w = Inr (h, w)"
  using assms(1)
proof (induction ch)
  case (Cons i ch)
  then obtain ri where ri: "h i = Some ri" by auto
  have "h(i \<mapsto> ri\<lparr>ri_flt := Some f\<rparr>) = h" if "ri_flt ri = Some f" for f
    using ri that by (auto simp: fun_eq_iff)
  then show ?case
    using Cons ri flt_process_plain [OF assms(2)] by (auto split: option.split)
qed simp

section \<open>Nothing to insert\<close>

text \<open>Pulling from an empty queue at most moves the window to the start of its buffer.\<close>

definition squeeze :: "sendq \<Rightarrow> sendq" where
  "squeeze q = (if sq_svc q < WRIVCNT then sq_compact q else q)"

definition se_squeeze :: "rf_session \<Rightarrow> rf_session" where
  "se_squeeze s = s\<lparr>se_c2s := (se_c2s s)\<lparr>pp_sndq := squeeze (pp_sndq (se_c2s s))\<rparr>,
     se_s2c := (se_s2c s)\<lparr>pp_sndq := squeeze (pp_sndq (se_s2c s))\<rparr>\<rparr>"

lemma squeeze_pq [simp]: "sq_pq (squeeze q) = sq_pq q"
  by (simp add: squeeze_def sq_compact_def)

lemma squeeze_stream [simp]: "sq_stream (squeeze q) st = sq_stream q st"
  by (simp add: sq_stream_def)

lemma squeeze_sync: "sendq_sync q st k \<Longrightarrow> sendq_sync (squeeze q) st k"
  by (simp add: squeeze_def sq_compact_sync)

lemma sendq_pull_empty:
  assumes "sendq_sync q st k"
  shows "\<exists>r. sendq_pull q [] st = Inr (r, st, [], squeeze q)"
proof (cases "sq_svc q < WRIVCNT")
  case True
  have "sq_svc (sq_compact q) \<le> length (sq_svbuf (sq_compact q))"
    using sq_compact_sync(1,4) [OF assms] True by (simp add: sendq_sync_def sq_rep_def)
  then show ?thesis
    using True by (simp add: sendq_pull_def squeeze_def Let_def pqh_pull_def)
qed (simp add: sendq_pull_def squeeze_def)

lemma session_enqueue_empty:
  assumes "sendq_sync (pp_sndq (se_c2s s)) st k1" and "sendq_sync (pp_sndq (se_s2c s)) st k2"
  shows "session_enqueue [] s st = Inr (se_squeeze s, st)"
  using sendq_pull_empty [OF assms(1)] sendq_pull_empty [OF assms(2)]
  by (auto simp: session_enqueue_def pipe_inject_def se_squeeze_def)

section \<open>The bytes in flight\<close>

text \<open>\<open>flow d s st k\<close>: queued for sending (without the \<open>k\<close> bytes already sent), waiting for the filters, partly received.\<close>

definition flow :: "dir \<Rightarrow> rf_session \<Rightarrow> store \<Rightarrow> nat \<Rightarrow> bytes" where
  "flow d s st k = (let p = se_pipe d s in drop k (sq_stream (pp_sndq p) st) @
     concat (map (pkt_bytes st) (rq_pq (pp_rcvq p))) @ rd_partial (pp_rcvq p) st)"

lemma rd_partial_pq [simp]: "rd_partial (q\<lparr>rq_pq := ps\<rparr>) st = rd_partial q st"
  by (simp add: rd_partial_def split: option.split)

definition flow_ok :: "dir \<Rightarrow> rf_session \<Rightarrow> store \<Rightarrow> nat \<Rightarrow> bool" where
  "flow_ok d s st k \<longleftrightarrow> sendq_sync (pp_sndq (se_pipe d s)) st k \<and> k \<le> length (sq_stream (pp_sndq (se_pipe d s)) st) \<and>
     (\<forall>p \<in> set (rq_pq (pp_rcvq (se_pipe d s))). plain st p)"

definition sent :: "dir \<Rightarrow> rf_session \<Rightarrow> bytes" where
  "sent d s = wr_out (so_wr (se_in (other_dir d) s))"

lemma se_squeeze_simps [simp]:
  "pp_rcvq (se_pipe d (se_squeeze s)) = pp_rcvq (se_pipe d s)" "pp_sndq (se_pipe d (se_squeeze s)) = squeeze (pp_sndq (se_pipe d s))"
  "se_flt (se_squeeze s) = se_flt s" "se_in d (se_squeeze s) = se_in d s" "se_cli (se_squeeze s) = se_cli s" "se_srv (se_squeeze s) = se_srv s"
  "pp_state (se_pipe d (se_squeeze s)) = pp_state (se_pipe d s)"
  by (cases d; simp add: se_squeeze_def)+

lemma squeeze_flow:
  assumes "flow_ok d s st k"
  shows "flow_ok d (se_squeeze s) st k" and "flow d (se_squeeze s) st k = flow d s st k" and "sent d (se_squeeze s) = sent d s"
  using assms squeeze_sync [of "pp_sndq (se_pipe d s)" st k] by (simp_all add: flow_ok_def flow_def sent_def Let_def)

lemma flow_enqueue:
  assumes "flow_ok d s st k" and "flow_ok (other_dir d) s st k'"
  shows "session_enqueue [] s st = Inr (se_squeeze s, st)"
proof -
  have "\<exists>k. sendq_sync (pp_sndq (se_c2s s)) st k" "\<exists>k. sendq_sync (pp_sndq (se_s2c s)) st k"
    using assms by (cases d; auto simp: flow_ok_def)+
  then show ?thesis using session_enqueue_empty by blast
qed

text \<open>One plain packet: it moves from one queue to the other.\<close>

lemma session_packet_plain:
  assumes s: "flow_ok d s st k" "flow_ok (other_dir d) s st k'" and p: "plain st p" "p \<notin> set (sq_pq (pp_sndq (se_pipe d s)))"
    and ch: "\<forall>i \<in> set (se_flt s). h i \<noteq> None"
  obtains s' where "session_packet flt_process_pkt pe d p s st h = Some (Inr (s', st, h))"
    "flow_ok d s' st k" "flow_ok (other_dir d) s' st k'" "flow (other_dir d) s' st k' = flow (other_dir d) s st k'"
    "sq_stream (pp_sndq (se_pipe d s')) st = sq_stream (pp_sndq (se_pipe d s)) st @ pkt_bytes st p"
    "sq_pq (pp_sndq (se_pipe d s')) = sq_pq (pp_sndq (se_pipe d s)) @ [p]" "pp_rcvq (se_pipe d s') = pp_rcvq (se_pipe d s)"
    "sent d s' = sent d s" "sent (other_dir d) s' = sent (other_dir d) s" "se_flt s' = se_flt s"
    "pp_state (se_pipe (other_dir d) s') = pp_state (se_pipe (other_dir d) s)"
    "sq_pq (pp_sndq (se_pipe (other_dir d) s')) = sq_pq (pp_sndq (se_pipe (other_dir d) s))"
proof -
  let ?s1 = "se_squeeze s"
  let ?s2 = "se_set_pipe d (pipe_push_out (se_pipe d ?s1) p) ?s1"
  have s1: "flow_ok d ?s1 st k" "flow_ok (other_dir d) ?s1 st k'"
    using squeeze_flow(1) s by blast+
  obtain dd x where pk: "pkts st p = Some (frame_pkt dd x)" using p(1) by (auto simp: plain_def)
  have push: "sendq_sync (sendq_push (squeeze (pp_sndq (se_pipe d s))) p) st k"
    "sq_stream (sendq_push (squeeze (pp_sndq (se_pipe d s))) p) st = sq_stream (pp_sndq (se_pipe d s)) st @ pkt_bytes st p"
    using sendq_push_sync [of "squeeze (pp_sndq (se_pipe d s))" st k p] s1(1) plain_sendable [OF p(1)] p(2)
      squeeze_sync [of "pp_sndq (se_pipe d s)" st k] s(1)
    by (simp_all add: flow_ok_def)
  have s2: "flow_ok d ?s2 st k" "flow_ok (other_dir d) ?s2 st k'"
    using s1 push by (simp_all add: flow_ok_def pipe_push_out_def)
  have fwd: "session_forward d p ?s1 st = Inr (?s2, st)"
    using pk by (simp add: session_forward_def frame_pkt_def)
  have chain: "chain_pkt flt_process_pkt (se_flt s) p h w = Inr (h, w)" if "fw_store w = st" for w
    by (rule chain_plain [OF ch]) (simp add: that p(1))
  have run: "session_packet flt_process_pkt pe d p s st h = Some (Inr (se_squeeze ?s2, st, h))"
    using chain flow_enqueue [OF s] flow_enqueue [OF s2] fwd by (simp add: session_packet_def chain_evs_empty pqh_init_def)
  have sent: "sent e ?s2 = sent e ?s1" for e by (cases e; cases d) (simp_all add: sent_def)
  have pq: "sq_pq (squeeze (sendq_push (squeeze (pp_sndq (se_pipe d s))) p)) = sq_pq (pp_sndq (se_pipe d s)) @ [p]"
    by (simp add: sendq_push_def pqh_push_def)
  show thesis
  proof (rule that [OF run])
    show "flow_ok d (se_squeeze ?s2) st k" "flow_ok (other_dir d) (se_squeeze ?s2) st k'"
      using squeeze_flow(1) s2 by blast+
    have "flow (other_dir d) ?s2 st k' = flow (other_dir d) ?s1 st k'" by (simp add: flow_def)
    then show "flow (other_dir d) (se_squeeze ?s2) st k' = flow (other_dir d) s st k'"
      using squeeze_flow(2) s s2 by metis
    show "sq_pq (pp_sndq (se_pipe d (se_squeeze ?s2))) = sq_pq (pp_sndq (se_pipe d s)) @ [p]"
      using pq by (simp add: pipe_push_out_def)
    then show "sq_stream (pp_sndq (se_pipe d (se_squeeze ?s2))) st = sq_stream (pp_sndq (se_pipe d s)) st @ pkt_bytes st p"
      by (simp add: sq_stream_def)
    show "sent d (se_squeeze ?s2) = sent d s" "sent (other_dir d) (se_squeeze ?s2) = sent (other_dir d) s"
      using sent squeeze_flow(3) s s2 by metis+
  qed (simp_all add: pipe_push_out_def)
qed

text \<open>All of them, in order.\<close>

lemma session_filter_plain:
  assumes "flow_ok d s st k" and "flow_ok (other_dir d) s st k'"
    and "distinct (sq_pq (pp_sndq (se_pipe d s)) @ rq_pq (pp_rcvq (se_pipe d s)))"
    and "\<forall>i \<in> set (se_flt s). h i \<noteq> None"
  shows "\<exists>s'. session_filter flt_process_pkt pe d s st h = Some (Inr (s', st, h)) \<and>
    flow_ok d s' st k \<and> flow_ok (other_dir d) s' st k' \<and> flow d s' st k = flow d s st k \<and>
    flow (other_dir d) s' st k' = flow (other_dir d) s st k' \<and> sent d s' = sent d s \<and>
    sent (other_dir d) s' = sent (other_dir d) s \<and> pp_state (se_pipe (other_dir d) s') = pp_state (se_pipe (other_dir d) s) \<and>
    sq_pq (pp_sndq (se_pipe (other_dir d) s')) = sq_pq (pp_sndq (se_pipe (other_dir d) s))"
  using assms
proof (induction "rq_pq (pp_rcvq (se_pipe d s))" arbitrary: s)
  case Nil
  then have "session_filter flt_process_pkt pe d s st h = Some (Inr (s, st, h))"
    by (subst session_filter.simps) (simp add: pipe_pop_in_def pqh_pop_def)
  then show ?case using Nil by blast
next
  case (Cons p ps)
  let ?p = "se_pipe d s"
  let ?s = "se_set_pipe d (?p\<lparr>pp_rcvq := pp_rcvq ?p\<lparr>rq_pq := ps\<rparr>\<rparr>) s"
  note rq = Cons.hyps(2) [symmetric]
  have pop: "pipe_pop_in ?p = (Some p, ?p\<lparr>pp_rcvq := pp_rcvq ?p\<lparr>rq_pq := ps\<rparr>\<rparr>)"
    using rq by (simp add: pipe_pop_in_def pqh_pop_def)
  have p: "plain st p" "p \<notin> set (sq_pq (pp_sndq (se_pipe d ?s)))"
    using Cons.prems(1,3) rq by (auto simp: flow_ok_def)
  have ok: "flow_ok d ?s st k" "flow_ok (other_dir d) ?s st k'"
    using Cons.prems(1,2) rq by (simp_all add: flow_ok_def)
  have ch: "\<forall>i \<in> set (se_flt ?s). h i \<noteq> None" using Cons.prems(4) by simp
  have sent: "sent e ?s = sent e s" for e by (cases e; cases d) (simp_all add: sent_def)
  obtain s1 where s1: "session_packet flt_process_pkt pe d p ?s st h = Some (Inr (s1, st, h))"
    "flow_ok d s1 st k" "flow_ok (other_dir d) s1 st k'" "flow (other_dir d) s1 st k' = flow (other_dir d) ?s st k'"
    "sq_stream (pp_sndq (se_pipe d s1)) st = sq_stream (pp_sndq (se_pipe d ?s)) st @ pkt_bytes st p"
    "sq_pq (pp_sndq (se_pipe d s1)) = sq_pq (pp_sndq (se_pipe d ?s)) @ [p]" "pp_rcvq (se_pipe d s1) = pp_rcvq (se_pipe d ?s)"
    "sent d s1 = sent d ?s" "sent (other_dir d) s1 = sent (other_dir d) ?s" "se_flt s1 = se_flt ?s"
    "pp_state (se_pipe (other_dir d) s1) = pp_state (se_pipe (other_dir d) ?s)"
    "sq_pq (pp_sndq (se_pipe (other_dir d) s1)) = sq_pq (pp_sndq (se_pipe (other_dir d) ?s))"
    by (rule session_packet_plain [OF ok p ch])
  have step: "session_filter flt_process_pkt pe d s st h = session_filter flt_process_pkt pe d s1 st h"
    by (subst session_filter.simps) (simp add: pop s1(1))
  have flow: "flow d s1 st k = flow d s st k"
    using s1(5,7) rq Cons.prems(1) by (simp add: flow_def Let_def flow_ok_def)
  have other: "flow (other_dir d) ?s st k' = flow (other_dir d) s st k'" by (simp add: flow_def)
  have "\<exists>s'. session_filter flt_process_pkt pe d s1 st h = Some (Inr (s', st, h)) \<and>
    flow_ok d s' st k \<and> flow_ok (other_dir d) s' st k' \<and> flow d s' st k = flow d s1 st k \<and>
    flow (other_dir d) s' st k' = flow (other_dir d) s1 st k' \<and> sent d s' = sent d s1 \<and>
    sent (other_dir d) s' = sent (other_dir d) s1 \<and> pp_state (se_pipe (other_dir d) s') = pp_state (se_pipe (other_dir d) s1) \<and>
    sq_pq (pp_sndq (se_pipe (other_dir d) s')) = sq_pq (pp_sndq (se_pipe (other_dir d) s1))"
    by (rule Cons.hyps(1)) (use s1 ch rq Cons.prems(3) in simp_all)
  then show ?case unfolding step flow other s1(4,8,9,11,12) sent se_set_simps .
qed

section \<open>Reading and writing\<close>

lemma flow_ok_store:
  assumes "flow_ok d s st k" and "\<And>p. p \<in># pipe_hold (se_pipe d s) \<Longrightarrow> pkts st' p = pkts st p"
  shows "flow_ok d s st' k" and "flow d s st' k = flow d s st k"
proof -
  let ?p = "se_pipe d s"
  have same: "pkts st' p = pkts st p" if "p \<in> set (sq_pq (pp_sndq ?p)) \<union> set (rq_pq (pp_rcvq ?p)) \<union> set_option (rq_rd (pp_rcvq ?p))" for p
    using assms(2) [of p] that by (auto simp: pipe_hold_def rq_hold_def opt_hold_def)
  have sq: "sendq_sync (pp_sndq ?p) st' k" "sq_stream (pp_sndq ?p) st' = sq_stream (pp_sndq ?p) st"
    using sendq_sync_store [of "pp_sndq ?p" st k st'] same assms(1) by (auto simp: flow_ok_def)
  show "flow_ok d s st' k" using sq assms(1) same by (simp add: flow_ok_def plain_def)
  have m: "map (pkt_bytes st') (rq_pq (pp_rcvq ?p)) = map (pkt_bytes st) (rq_pq (pp_rcvq ?p))"
    using same by (simp add: pkt_bytes_def)
  have r: "rd_partial (pp_rcvq ?p) st' = rd_partial (pp_rcvq ?p) st"
    using same by (simp add: rd_partial_def split: option.split)
  show "flow d s st' k = flow d s st k" unfolding flow_def Let_def by (simp only: sq(2) m r)
qed

text \<open>Reading: what the socket delivers is appended.\<close>

lemma session_read_shape:
  assumes "recvq_recv (so_rd (se_in d s)) (pp_rcvq (se_pipe d s)) st = Inr (rd_more (so_rd (se_in d s)), sc, st2, q')"
    and "session_read d s st = Inr (s', st')"
  shows "st' = st2" and "pp_rcvq (se_pipe d s') = q'" and "pp_sndq (se_pipe d s') = pp_sndq (se_pipe d s)"
    and "se_pipe (other_dir d) s' = se_pipe (other_dir d) s" and "sent e s' = sent e s"
proof -
  let ?p1 = "(se_pipe d s)\<lparr>pp_rcvq := q'\<rparr>"
  define p' where "p' = (if \<not> rd_more (so_rd (se_in d s)) then ?p1\<lparr>pp_state := pp_state ?p1 OR PIPE_EOF, pp_in_on := False\<rparr> else ?p1)"
  have p': "pp_rcvq p' = q'" "pp_sndq p' = pp_sndq (se_pipe d s)" by (simp_all add: p'_def)
  have "pipe_read (se_pipe d s) (se_in d s) st = Inr (st2, (se_in d s)\<lparr>so_rd := sc\<rparr>, p')"
    unfolding pipe_read_def assms(1) by (simp add: p'_def)
  then have r: "s' = se_set_in d ((se_in d s)\<lparr>so_rd := sc\<rparr>) (se_set_pipe d p' s)" "st' = st2"
    using assms(2) by (simp_all add: session_read_def)
  show "st' = st2" by (rule r(2))
  show "pp_rcvq (se_pipe d s') = q'" "pp_sndq (se_pipe d s') = pp_sndq (se_pipe d s)"
    "se_pipe (other_dir d) s' = se_pipe (other_dir d) s"
    using p' by (simp_all add: r(1))
  show "sent e s' = sent e s" by (cases e; cases d) (simp_all add: r(1) sent_def)
qed

text \<open>Apart from the packet that was being read, a receive leaves the packets of a session alone.\<close>

lemma recv_delivers_same:
  assumes inv: "session_inv s st hs" and del: "recv_delivers (pp_rcvq (se_pipe d s)) st fs r q' st'"
    and a: "a \<in> set (sq_pq (pp_sndq (se_pipe d s))) \<union> set (rq_pq (pp_rcvq (se_pipe d s))) \<or> a \<in># pipe_hold (se_pipe (other_dir d) s)"
  shows "pkts st' a = pkts st a"
proof -
  let ?p = "se_pipe d s" and ?o = "se_pipe (other_dir d) s"
  let ?rest = "mset (sq_pq (pp_sndq ?p)) + mset (rq_pq (pp_rcvq ?p)) + (pipe_hold ?o + dq_hold (se_dq s))"
  have hold: "session_hold s = opt_hold (rq_rd (pp_rcvq ?p)) + ?rest"
    by (simp add: session_hold_dir [of s d] pipe_hold_def rq_hold_def ac_simps)
  have in_rest: "a \<in># ?rest" using a by auto
  have led: "ledger st (session_hold s + hs)" "once (session_hold s)"
    using inv by (simp_all add: session_inv_dir [of _ _ _ d])
  have "a < brk st" using ledger_less [OF led(1), of a] in_rest by (auto simp: hold)
  moreover have "rq_rd (pp_rcvq ?p) \<noteq> Some a"
    using once_disjoint [OF led(2) [unfolded hold]] in_rest by (auto simp: opt_hold_def)
  ultimately show ?thesis using del by (simp add: recv_delivers_def)
qed

text \<open>The packets delivered are plain when their frames are, and their bytes are the frames.\<close>

lemma delivered_plain:
  assumes "map (pkts st) ps = map (\<lambda>x. Some (frame_pkt d x)) fs" and "\<forall>x \<in> set fs. plain_frame x"
  shows "\<forall>a \<in> set ps. plain st a" and "map (pkt_bytes st) ps = fs"
proof
  fix a
  assume "a \<in> set ps"
  then have "pkts st a \<in> set (map (pkts st) ps)" by simp
  then obtain x where "x \<in> set fs" "pkts st a = Some (frame_pkt d x)"
    unfolding assms(1) by auto
  then show "plain st a" using assms(2) by (auto simp: plain_def)
next
  show "map (pkt_bytes st) ps = fs"
    using arg_cong [OF assms(1), of "map (\<lambda>v. case v of None \<Rightarrow> [] | Some pk \<Rightarrow> p_data pk)"]
    by (simp add: comp_def pkt_bytes_def [abs_def])
qed

lemma session_read_flow:
  assumes inv: "session_inv s st hs" and s: "flow_ok d s st k" "flow_ok (other_dir d) s st k'"
    and fr: "frames (rd_partial (pp_rcvq (se_pipe d s)) st @ rd_avail (so_rd (se_in d s))) = Inr (fs, r)" "\<forall>x \<in> set fs. plain_frame x"
    and run: "session_read d s st = Inr (s', st')"
  shows "flow_ok d s' st' k" and "flow_ok (other_dir d) s' st' k'"
    and "flow d s' st' k = flow d s st k @ rd_avail (so_rd (se_in d s))" and "flow (other_dir d) s' st' k' = flow (other_dir d) s st k'"
    and "sent d s' = sent d s" and "sent (other_dir d) s' = sent (other_dir d) s"
proof -
  let ?p = "se_pipe d s"
  let ?q = "pp_rcvq ?p"
  have "recvq_ok ?q st" using inv by (simp add: session_inv_dir [of _ _ _ d] pipe_ok_def)
  then obtain sc q' st2 where rd: "recvq_recv (so_rd (se_in d s)) ?q st = Inr (rd_more (so_rd (se_in d s)), sc, st2, q')"
    "recv_delivers ?q st fs r q' st2"
    using recvq_recv_refines [of ?q st "so_rd (se_in d s)"] fr(1) by auto
  obtain ps where ps: "rq_pq q' = rq_pq ?q @ ps" "map (pkts st2) ps = map (\<lambda>x. Some (frame_pkt (rq_dir ?q) x)) fs"
    "rd_partial q' st2 = r"
    using rd(2) by (auto simp: recv_delivers_def)
  note s' = session_read_shape [OF rd(1) run] and new = delivered_plain [OF ps(2) fr(2)]
    and same = recv_delivers_same [OF inv rd(2)]
  have snd: "sendq_sync (pp_sndq ?p) st2 k" "sq_stream (pp_sndq ?p) st2 = sq_stream (pp_sndq ?p) st"
    using sendq_sync_store [of "pp_sndq ?p" st k st2] s(1) same by (auto simp: flow_ok_def)
  have "plain st2 a" if "a \<in> set (rq_pq ?q)" for a
    using s(1) that same by (simp add: flow_ok_def plain_def)
  then show "flow_ok d s' st' k" using s(1) snd ps(1) new(1) by (auto simp: flow_ok_def s')
  have "map (pkt_bytes st2) (rq_pq ?q) = map (pkt_bytes st) (rq_pq ?q)" using same by (simp add: pkt_bytes_def)
  then have "flow d s' st' k = drop k (sq_stream (pp_sndq ?p) st) @ concat (map (pkt_bytes st) (rq_pq ?q)) @ concat fs @ r"
    by (simp only: flow_def Let_def s' snd ps(1,3) new(2) map_append concat_append append_assoc)
  also have "concat fs @ r = rd_partial ?q st @ rd_avail (so_rd (se_in d s))" using frames_Inr [OF fr(1)] by simp
  finally show "flow d s' st' k = flow d s st k @ rd_avail (so_rd (se_in d s))" by (simp add: flow_def Let_def)
  have "flow_ok (other_dir d) s st2 k'" "flow (other_dir d) s st2 k' = flow (other_dir d) s st k'"
    using flow_ok_store [OF s(2), of st2] same by auto
  then show "flow_ok (other_dir d) s' st' k'" "flow (other_dir d) s' st' k' = flow (other_dir d) s st k'"
    by (simp_all add: flow_ok_def flow_def s')
  show "sent d s' = sent d s" "sent (other_dir d) s' = sent (other_dir d) s" using s'(5) by simp_all
qed

text \<open>Writing: what leaves the flow has been written.\<close>

lemma session_write_flow:
  assumes inv: "session_inv s st hs" and s: "flow_ok d s st k" "flow_ok (other_dir d) s st k'"
    and run: "session_write d s st = Inr (s', st')"
  obtains j where "flow_ok d s' st' j" "flow_ok (other_dir d) s' st' k'" "sent d s' @ flow d s' st' j = sent d s @ flow d s st k"
    "flow (other_dir d) s' st' k' = flow (other_dir d) s st k'" "sent (other_dir d) s' = sent (other_dir d) s"
proof -
  let ?p = "se_pipe d s" and ?o = "se_pipe (other_dir d) s"
  let ?q = "pp_sndq ?p" and ?so = "se_in (other_dir d) s"
  have sync: "sendq_sync ?q st k" and one: "once (session_hold s)" using s(1) inv by (simp_all add: flow_ok_def session_inv_def)
  obtain r fd st2 q' j n i where snd: "sendq_send ?q (so_wr ?so) st = Inr (r, fd, st2, q')" "sendq_sync q' st2 j"
    "drop (k + n) (sq_stream ?q st) = drop j (sq_stream q' st2)" "pqh_clear (take i (sq_pq ?q)) st = Inr st2"
    "wr_out fd = wr_out (so_wr ?so) @ take n (drop k (sq_stream ?q st))"
    using sendq_send_sent [OF sync, of "so_wr ?so"] unfolding sq_sent_def sq_moved_def by (elim exE conjE) (rule that)
  note w = pipe_write_eq [where si = "se_in d s", OF snd(1)]
  have s': "st' = st2" "pp_rcvq (se_pipe d s') = pp_rcvq ?p" "pp_sndq (se_pipe d s') = q'" "se_pipe (other_dir d) s' = ?o"
    "sent d s' = wr_out fd" "sent (other_dir d) s' = sent (other_dir d) s"
    using run unfolding session_write_def w by (cases d; auto simp: sent_def)+
  have same: "pkts st2 a = pkts st a" if a: "a \<in># rq_hold (pp_rcvq ?p) + (pipe_hold ?o + dq_hold (se_dq s))" for a
  proof (rule pqh_clear_frame [OF snd(4)])
    have "once (mset (sq_pq ?q) + (rq_hold (pp_rcvq ?p) + (pipe_hold ?o + dq_hold (se_dq s))))"
      using one by (simp add: session_hold_dir [of s d] pipe_hold_def ac_simps)
    from once_disjoint [OF this] show "a \<notin> set (take i (sq_pq ?q))" using a by (auto dest: in_set_takeD)
  qed
  have "j \<le> length (sq_stream q' st2)" using sq_rep_bounds snd(2) by (simp add: sendq_sync_def)
  moreover have plain: "\<forall>p \<in> set (rq_pq (pp_rcvq ?p)). plain st2 p" using s(1) same by (simp add: flow_ok_def plain_def rq_hold_def)
  ultimately have ok: "flow_ok d s' st' j" using snd(2) by (simp add: flow_ok_def s')
  have m: "map (pkt_bytes st2) (rq_pq (pp_rcvq ?p)) = map (pkt_bytes st) (rq_pq (pp_rcvq ?p))"
    using same by (simp add: pkt_bytes_def rq_hold_def)
  have part: "rd_partial (pp_rcvq ?p) st2 = rd_partial (pp_rcvq ?p) st"
    using same by (simp add: rd_partial_def rq_hold_def opt_hold_def split: option.split)
  have "take n (drop k (sq_stream ?q st)) @ drop j (sq_stream q' st2) = drop k (sq_stream ?q st)"
    unfolding snd(3) [symmetric] by (metis append_take_drop_id drop_drop add.commute)
  then have "sent d s' @ flow d s' st' j = sent d s @ flow d s st k"
    unfolding flow_def Let_def s'(1-3,5) m part snd(5) sent_def [of d s] by simp
  moreover have "flow_ok (other_dir d) s st2 k'" "flow (other_dir d) s st2 k' = flow (other_dir d) s st k'"
    using flow_ok_store [OF s(2), of st2] same by auto
  then have "flow_ok (other_dir d) s' st' k'" "flow (other_dir d) s' st' k' = flow (other_dir d) s st k'"
    by (simp_all add: flow_ok_def flow_def s')
  ultimately show thesis using that ok s'(6) by blast
qed

text \<open>A direction that carries nothing stays so.\<close>

definition idle :: "dir \<Rightarrow> rf_session \<Rightarrow> bool" where
  "idle d s \<longleftrightarrow> pp_state (se_pipe d s) = 0 \<and> sq_pq (pp_sndq (se_pipe d s)) = []"

lemma idle_start [simp]: "idle d (s\<lparr>se_dq := q\<rparr>) = idle d s"
  by (cases d) (simp_all add: idle_def)

lemma session_read_idle:
  assumes "session_read d s st = Inr (s', st')" and "idle (other_dir d) s"
  shows "idle (other_dir d) s'"
proof -
  obtain si p where "s' = se_set_in d si (se_set_pipe d p s)"
    using assms(1) by (auto simp: session_read_def rbind_eq_Inr)
  then show ?thesis using assms(2) by (simp add: idle_def)
qed

lemma sendq_send_empty:
  assumes "sendq_sync q st k" and "sq_pq q = []"
  shows "\<exists>q'. sendq_send q fd st = Inr (0, fd, st, q') \<and> sq_pq q' = []"
proof -
  obtain q' where f: "sq_fill q st = Inr q'" "sendq_sync q' st k" "sq_pq q' = sq_pq q"
    using fill_rep [of q st k] assms(1) by (auto simp: sendq_sync_def)
  then have "sq_svc q' = 0" using assms(2) by (simp add: sendq_sync_def sq_rep_def)
  then show ?thesis using f(1,3) assms(2) by (simp add: sendq_send_def sq_loop.simps)
qed

lemma session_write_idle:
  assumes s: "flow_ok e s st k" and run: "session_write e s st = Inr (s', st')" and "idle d s"
  shows "idle d s'"
proof (cases "d = e")
  case True
  obtain q' where "sendq_send (pp_sndq (se_pipe e s)) (so_wr (se_in (other_dir e) s)) st = Inr (0, so_wr (se_in (other_dir e) s), st, q')"
    "sq_pq q' = []"
    using sendq_send_empty [of "pp_sndq (se_pipe e s)" st k "so_wr (se_in (other_dir e) s)"] s assms(3) True
    by (auto simp: flow_ok_def idle_def)
  from pipe_write_eq [OF this(1), of "se_in e s"] this(2) show ?thesis
    using run assms(3) True by (auto simp: session_write_def idle_def)
next
  case False
  then have "d = other_dir e" by (cases d; cases e) simp_all
  moreover obtain si so p where "s' = se_set_in (other_dir e) so (se_set_in e si (se_set_pipe e p s))"
    using run by (auto simp: session_write_def rbind_eq_Inr)
  ultimately show ?thesis using assms(3) by (simp add: idle_def)
qed

section \<open>The channel\<close>

text \<open>\<open>history d s st k\<close>: all bytes that entered the session in direction \<open>d\<close>.\<close>

definition history :: "dir \<Rightarrow> rf_session \<Rightarrow> store \<Rightarrow> nat \<Rightarrow> bytes" where
  "history d s st k = sent d s @ flow d s st k"

lemma session_hold_distinct:
  "once (session_hold s) \<Longrightarrow> distinct (sq_pq (pp_sndq (se_pipe d s)) @ rq_pq (pp_rcvq (se_pipe d s)))"
  by (rule once_distinct, rule once_sub [of "session_hold s"])
    (simp_all add: session_hold_dir [of s d] pipe_hold_def rq_hold_def subseteq_mset_def)

lemma start_flow [simp]:
  "flow_ok d (s\<lparr>se_dq := q\<rparr>) st k = flow_ok d s st k" "flow d (s\<lparr>se_dq := q\<rparr>) st k = flow d s st k" "sent d (s\<lparr>se_dq := q\<rparr>) = sent d s"
  by (cases d; simp add: flow_ok_def flow_def sent_def)+

text \<open>Sending in both directions.\<close>

lemma session_writes_history:
  assumes inv: "session_inv s st hs" and s: "flow_ok d s st k" "flow_ok (other_dir d) s st k'"
  obtains s1 st1 s2 st2 j j' where "session_write d s st = Inr (s1, st1)" "session_write (other_dir d) s1 st1 = Inr (s2, st2)"
    "flow_ok d s2 st2 j" "flow_ok (other_dir d) s2 st2 j'" "history d s2 st2 j = history d s st k"
    "history (other_dir d) s2 st2 j' = history (other_dir d) s st k'" "idle (other_dir d) s \<longrightarrow> idle (other_dir d) s2"
proof -
  obtain s1 st1 where w: "session_write d s st = Inr (s1, st1)" "session_inv s1 st1 hs"
    by (rule session_write_ok [OF inv])
  obtain j where 1: "flow_ok d s1 st1 j" "flow_ok (other_dir d) s1 st1 k'" "sent d s1 @ flow d s1 st1 j = sent d s @ flow d s st k"
    "flow (other_dir d) s1 st1 k' = flow (other_dir d) s st k'" "sent (other_dir d) s1 = sent (other_dir d) s"
    by (rule session_write_flow [OF inv s w(1)])
  obtain s2 st2 where w': "session_write (other_dir d) s1 st1 = Inr (s2, st2)" by (rule session_write_ok [OF w(2)])
  have ok: "flow_ok (other_dir (other_dir d)) s1 st1 j" using 1(1) by simp
  obtain j' where 2: "flow_ok (other_dir d) s2 st2 j'" "flow_ok (other_dir (other_dir d)) s2 st2 j"
    "sent (other_dir d) s2 @ flow (other_dir d) s2 st2 j' = sent (other_dir d) s1 @ flow (other_dir d) s1 st1 k'"
    "flow (other_dir (other_dir d)) s2 st2 j = flow (other_dir (other_dir d)) s1 st1 j" "sent (other_dir (other_dir d)) s2 = sent (other_dir (other_dir d)) s1"
    by (rule session_write_flow [OF w(2) 1(2) ok w'])
  have ret: "flow d s2 st2 j = flow d s1 st1 j" "sent d s2 = sent d s1" "flow_ok d s2 st2 j"
    using 2(2,4,5) by simp_all
  have "history d s2 st2 j = history d s st k" unfolding history_def ret by (rule 1(3))
  moreover have "history (other_dir d) s2 st2 j' = history (other_dir d) s st k'" unfolding history_def 2(3) 1(4,5) ..
  moreover have "idle (other_dir d) s \<longrightarrow> idle (other_dir d) s2"
    using session_write_idle [OF s(1) w(1)] session_write_idle [OF 1(2) w'] by blast
  ultimately show thesis by (rule that [OF w(1) w' ret(3) 2(1)])
qed

lemma session_readable_transparent:
  assumes inv: "session_inv s st hs" and one: "once (session_hold s + hs)"
    and ch: "chain_ok flt_ok (se_flt s) h" "length (se_flt s) \<le> 2 ^ 31"
    and s: "flow_ok d s st k" "flow_ok (other_dir d) s st k'"
    and fr: "frames (rd_partial (pp_rcvq (se_pipe d s)) st @ rd_avail (so_rd (se_in d s))) = Inr (fs, r)" "\<forall>x \<in> set fs. plain_frame x"
  shows "\<exists>s' st' j j'. session_readable flt_process_pkt (flt_process_ev mf) d s st h = Some (Inr (s', st', h)) \<and>
    flow_ok d s' st' j \<and> flow_ok (other_dir d) s' st' j' \<and>
    history d s' st' j = history d s st k @ rd_avail (so_rd (se_in d s)) \<and>
    history (other_dir d) s' st' j' = history (other_dir d) s st k' \<and> (idle (other_dir d) s \<longrightarrow> idle (other_dir d) s')"
proof -
  obtain s1 st1 where r: "session_read d s st = Inr (s1, st1)" "session_inv s1 st1 hs" "once (session_hold s1 + hs)"
    "touched (set_mset (session_hold s)) st st1" "se_flt s1 = se_flt s"
  proof (cases rule: session_read_ok [OF inv one, of d])
    case 1
    have "recvq_ok (pp_rcvq (se_pipe d s)) st" using inv by (simp add: session_inv_dir [of _ _ _ d] pipe_ok_def)
    from recvq_recv_refines [OF this, of "so_rd (se_in d s)"] 1 show ?thesis
      using fr(1) by (auto simp: session_read_def pipe_read_def Let_def)
  qed
  note f1 = session_read_flow [OF inv s fr r(1)]
  have "once (session_hold s1)" using r(2) by (simp add: session_inv_def)
  moreover have "\<forall>i \<in> set (se_flt s1). h i \<noteq> None" using ch(1) r(5) by (simp add: chain_ok_def)
  ultimately obtain s2 where f2: "session_filter flt_process_pkt (flt_process_ev mf) d s1 st1 h = Some (Inr (s2, st1, h))"
    "flow_ok d s2 st1 k" "flow_ok (other_dir d) s2 st1 k'" "flow d s2 st1 k = flow d s1 st1 k"
    "flow (other_dir d) s2 st1 k' = flow (other_dir d) s1 st1 k'" "sent d s2 = sent d s1" "sent (other_dir d) s2 = sent (other_dir d) s1"
    "pp_state (se_pipe (other_dir d) s2) = pp_state (se_pipe (other_dir d) s1)"
    "sq_pq (pp_sndq (se_pipe (other_dir d) s2)) = sq_pq (pp_sndq (se_pipe (other_dir d) s1))"
    using session_filter_plain [OF f1(1,2) session_hold_distinct] by blast
  have "session_cb flt_ok s1 st1 hs h (session_filter flt_process_pkt (flt_process_ev mf) d s1 st1 h)"
    by (rule plugins.session_filter_ok [OF r(2,3)]) (use ch r(5) in simp_all)
  then have "session_cb flt_ok s1 st1 hs h (Some (Inr (s2, st1, h)))" by (simp only: f2(1))
  note cb2 = session_cb_start [OF session_cb_trans [OF inv r(2-4) insts_stay_refl r(5) this]]
  have inv2: "session_inv (s2\<lparr>se_dq := dq_start (se_dq s2)\<rparr>) st1 hs" using cb2 by (simp add: session_cb_def)
  obtain s3 st3 s4 st4 j j' where w: "session_write d (s2\<lparr>se_dq := dq_start (se_dq s2)\<rparr>) st1 = Inr (s3, st3)"
    "session_write (other_dir d) s3 st3 = Inr (s4, st4)" "flow_ok d s4 st4 j" "flow_ok (other_dir d) s4 st4 j'"
    "history d s4 st4 j = history d s2 st1 k" "history (other_dir d) s4 st4 j' = history (other_dir d) s2 st1 k'"
    "idle (other_dir d) s2 \<longrightarrow> idle (other_dir d) s4"
    by (rule session_writes_history [OF inv2, of d k k']) (use f2(2,3) in \<open>simp_all add: history_def\<close>)
  have "session_readable flt_process_pkt (flt_process_ev mf) d s st h = Some (Inr (s4, st4, h))"
    using r(1) f2(1) w(1,2) by (simp add: session_readable_def)
  moreover have "idle (other_dir d) s \<longrightarrow> idle (other_dir d) s4"
    using session_read_idle [OF r(1)] f2(8,9) w(7) by (simp add: idle_def)
  ultimately show ?thesis using w(3-6) f2(4-7) f1(3-6) by (auto simp: history_def)
qed

section \<open>A connection\<close>

text \<open>What the socket of direction \<open>d\<close> has ready is plain traffic.\<close>

definition plain_input :: "dir \<Rightarrow> rf_session \<Rightarrow> store \<Rightarrow> bool" where
  "plain_input d s st \<longleftrightarrow> (\<exists>fs r. frames (rd_partial (pp_rcvq (se_pipe d s)) st @ rd_avail (so_rd (se_in d s))) = Inr (fs, r) \<and>
     (\<forall>x \<in> set fs. plain_frame x))"

text \<open>
  \<open>traffic mf hs c s st pm R\<close>: the session \<open>s\<close>, with chain number \<open>c\<close>, has come to this state by callbacks of its sockets
  on plain traffic, and \<open>R d\<close> are the bytes read in direction \<open>d\<close>. Between the callbacks the kernel changes what
  the sockets will do, but not what was written.
\<close>

inductive traffic :: "mask_files \<Rightarrow> addr multiset \<Rightarrow> nat \<Rightarrow> rf_session \<Rightarrow> store \<Rightarrow> ('k, flt) manager \<Rightarrow> (dir \<Rightarrow> bytes) \<Rightarrow> bool"
  for mf hs c where
  start: "junk_ok j1 \<Longrightarrow> junk_ok j2 \<Longrightarrow> ledger st hs \<Longrightarrow> once hs \<Longrightarrow> pm_ok flt_ok pm \<Longrightarrow> chain_linked c ch pm \<Longrightarrow>
    length ch \<le> 2 ^ 31 \<Longrightarrow> wr_out (so_wr cli) = [] \<Longrightarrow> wr_out (so_wr srv) = [] \<Longrightarrow>
    traffic mf hs c (session_run (rf_session_new cli srv j1 j2 ch)) st pm (\<lambda>_. [])"
| kernel: "traffic mf hs c s st pm R \<Longrightarrow> wr_out (so_wr cli) = wr_out (so_wr (se_cli s)) \<Longrightarrow>
    wr_out (so_wr srv) = wr_out (so_wr (se_srv s)) \<Longrightarrow> traffic mf hs c (s\<lparr>se_cli := cli, se_srv := srv\<rparr>) st pm R"
| io: "traffic mf hs c s st pm R \<Longrightarrow> (er \<longrightarrow> plain_input d s st) \<Longrightarrow>
    session_io flt_process_pkt (flt_process_ev mf) d er ew s st pm = Some (Inr (Some s', st', pm')) \<Longrightarrow>
    traffic mf hs c s' st' pm' (if er then R(d := R d @ rd_avail (so_rd (se_in d s))) else R)"

definition channel_ok :: "rf_session \<Rightarrow> store \<Rightarrow> (dir \<Rightarrow> bytes) \<Rightarrow> bool" where
  "channel_ok s st R \<longleftrightarrow> (\<forall>d. \<exists>k. flow_ok d s st k \<and> history d s st k = R d)"

lemma all_dir: "(\<forall>d. P d) \<longleftrightarrow> P CLI_TO_SRV \<and> P SRV_TO_CLI"
  by (metis dir.exhaust)

lemma channel_ok_dir:
  "channel_ok s st R \<longleftrightarrow> (\<exists>k k'. flow_ok d s st k \<and> flow_ok (other_dir d) s st k' \<and> history d s st k = R d \<and>
     history (other_dir d) s st k' = R (other_dir d))"
  unfolding channel_ok_def all_dir by (cases d) auto

lemma session_write_channel:
  assumes "session_inv s st hs" and "channel_ok s st R" and "session_write d s st = Inr (s', st')"
  shows "channel_ok s' st' R"
proof -
  obtain k k' where k: "flow_ok d s st k" "flow_ok (other_dir d) s st k'" "history d s st k = R d"
    "history (other_dir d) s st k' = R (other_dir d)"
    using assms(2) channel_ok_dir by blast
  obtain j where "flow_ok d s' st' j" "flow_ok (other_dir d) s' st' k'" "sent d s' @ flow d s' st' j = sent d s @ flow d s st k"
    "flow (other_dir d) s' st' k' = flow (other_dir d) s st k'" "sent (other_dir d) s' = sent (other_dir d) s"
    by (rule session_write_flow [OF assms(1) k(1,2) assms(3)])
  then show ?thesis using k(3,4) unfolding channel_ok_dir [of s' st' R d] history_def by metis
qed

lemma session_new_channel:
  assumes "junk_ok j1" and "junk_ok j2" and "wr_out (so_wr cli) = []" and "wr_out (so_wr srv) = []"
  shows "channel_ok (session_run (rf_session_new cli srv j1 j2 ch)) st (\<lambda>_. [])"
proof -
  have "flow_ok d (session_run (rf_session_new cli srv j1 j2 ch)) st 0 \<and> history d (session_run (rf_session_new cli srv j1 j2 ch)) st 0 = []" for d
    using assms sendq_new_sync by (cases d)
      (simp_all add: session_run_def rf_session_new_def pipe_run_def pipe_new_def flow_ok_def history_def flow_def sent_def
        junk_ok_def recvq_new_def pqh_init_def sq_stream_def sendq_new_def rd_partial_def sendq_sync_def sq_rep_def sq_window_def)
  then show ?thesis by (auto simp: channel_ok_def)
qed

lemma session_readable_channel:
  assumes inv: "session_inv s st hs" and one: "once (session_hold s + hs)"
    and ch: "chain_ok flt_ok (se_flt s) h" "length (se_flt s) \<le> 2 ^ 31"
    and R: "channel_ok s st R" and pl: "plain_input d s st"
  obtains s' st' where "session_readable flt_process_pkt (flt_process_ev mf) d s st h = Some (Inr (s', st', h))"
    "session_inv s' st' hs" "channel_ok s' st' (R(d := R d @ rd_avail (so_rd (se_in d s))))"
    "idle (other_dir d) s \<longrightarrow> idle (other_dir d) s'"
proof -
  obtain fs r where fr: "frames (rd_partial (pp_rcvq (se_pipe d s)) st @ rd_avail (so_rd (se_in d s))) = Inr (fs, r)" "\<forall>x \<in> set fs. plain_frame x"
    using pl by (auto simp: plain_input_def)
  obtain k k' where k: "flow_ok d s st k" "flow_ok (other_dir d) s st k'" "history d s st k = R d"
    "history (other_dir d) s st k' = R (other_dir d)"
    using R channel_ok_dir by blast
  obtain s' st' j j' where t: "session_readable flt_process_pkt (flt_process_ev mf) d s st h = Some (Inr (s', st', h))"
    "flow_ok d s' st' j" "flow_ok (other_dir d) s' st' j'" "history d s' st' j = history d s st k @ rd_avail (so_rd (se_in d s))"
    "history (other_dir d) s' st' j' = history (other_dir d) s st k'" "idle (other_dir d) s \<longrightarrow> idle (other_dir d) s'"
    using session_readable_transparent [OF inv one ch k(1,2) fr, of mf] by (elim exE conjE) (rule that)
  have "session_cb flt_ok s st hs h (Some (Inr (s', st', h)))"
    using plugins.session_readable_ok [OF inv one ch, of mf d] by (simp only: t(1))
  then have inv': "session_inv s' st' hs" by (simp add: session_cb_def)
  have "d \<noteq> other_dir d" by (cases d) simp_all
  then have "channel_ok s' st' (R(d := R d @ rd_avail (so_rd (se_in d s))))"
    unfolding channel_ok_dir [where d = d] using t(2-5) k(3,4) by auto
  then show thesis by (rule that [OF t(1) inv' _ t(6)])
qed

lemma session_io_channel:
  assumes inv: "session_inv s st hs" and one: "once (session_hold s + hs)"
    and pm: "pm_ok flt_ok pm" "chain_linked c (se_flt s) pm" and len: "length (se_flt s) \<le> 2 ^ 31"
    and R: "channel_ok s st R" and pl: "er \<longrightarrow> plain_input d s st"
    and run: "session_io flt_process_pkt (flt_process_ev mf) d er ew s st pm = Some (Inr (Some s', st', pm'))"
  shows "channel_ok s' st' (if er then R(d := R d @ rd_avail (so_rd (se_in d s))) else R)" (is "channel_ok s' st' ?R")
proof -
  note ch = chain_linked_ok [OF pm]
  obtain s1 st1 h1 where 1: "(if er then session_readable flt_process_pkt (flt_process_ev mf) d s st (pm_insts pm)
      else Some (Inr (s, st, pm_insts pm))) = Some (Inr (s1, st1, h1))" "session_inv s1 st1 hs" "channel_ok s1 st1 ?R"
  proof (cases er)
    case True
    then have "plain_input d s st" using pl by simp
    from session_readable_channel [OF inv one ch len R this, of mf] show ?thesis using that True by auto
  qed (use that inv R in auto)
  obtain s2 st2 where w: "session_write d s1 st1 = Inr (s2, st2)" by (rule session_write_ok [OF 1(2)])
  have "channel_ok s2 st2 ?R" by (rule session_write_channel [OF 1(2,3) w])
  then show ?thesis
    using run 1(3) unfolding session_io_def session_work_def 1(1)
    by (cases ew) (auto simp: w Let_def rbind_eq_Inr split: if_splits)
qed

lemma traffic_channel:
  assumes "traffic mf hs c s st pm R"
  shows "session_inv s st hs \<and> once (session_hold s + hs) \<and> pm_ok flt_ok pm \<and> chain_linked c (se_flt s) pm \<and>
    length (se_flt s) \<le> 2 ^ 31 \<and> channel_ok s st R"
  using assms
proof induction
  case (start j1 j2 st pm ch cli srv)
  then show ?case using session_new_ok [OF start(1,2,3)] session_new_channel by simp
next
  case (kernel s st pm R cli srv)
  have "channel_ok (s\<lparr>se_cli := cli, se_srv := srv\<rparr>) st R \<longleftrightarrow> channel_ok s st R"
    using kernel.hyps(2,3) by (simp add: channel_ok_def all_dir flow_ok_def history_def flow_def sent_def)
  moreover have "session_hold (s\<lparr>se_cli := cli, se_srv := srv\<rparr>) = session_hold s" by (simp add: session_hold_def)
  ultimately show ?case using kernel.IH by (simp add: session_inv_def)
next
  case (io s st pm R er d ew s' st' pm')
  note i = io.IH [THEN conjunct1] io.IH [THEN conjunct2, THEN conjunct1]
  from io.IH have pm: "pm_ok flt_ok pm" "chain_linked c (se_flt s) pm" "length (se_flt s) \<le> 2 ^ 31" "channel_ok s st R" by simp_all
  have R: "channel_ok s' st' (if er then R(d := R d @ rd_avail (so_rd (se_in d s))) else R)"
    by (rule session_io_channel [OF i pm io.hyps(2,3)])
  show ?case
  proof (cases rule: plugins.session_io_ok [OF i pm(1-3), of mf d er ew])
    case (2 s2 st2 pm2)
    then show ?thesis using io.hyps(3) R pm(3) chain_linked_links [OF pm(2) 2(7)] by auto
  qed (use io.hyps(3) in simp_all)
qed

section \<open>Properties\<close>

text \<open>
  C3. Transparency, end to end: as long as a connection carries only well-formed packets of types the plug-ins do not
  look at, what it has written to the server is a prefix of what it has read from the client, and the
  same the other way round, byte for byte, however the kernel splits reads and writes; the rest of what
  was read is in flight inside the session.
\<close>

theorem connection_transparent:
  assumes "traffic mf hs c s st pm R"
  shows "\<exists>k. sent d s @ flow d s st k = R d"
proof -
  have "channel_ok s st R" using traffic_channel [OF assms] by simp
  then show ?thesis unfolding channel_ok_def history_def by blast
qed

text \<open>A client sends a packet and a half in two chunks.\<close>

definition ex_sock :: "rd_outcome list \<Rightarrow> sock" where
  "ex_sock rd = \<lparr>so_rd = rd, so_wr = \<lparr>wr_script = [WrOk 3], wr_errno = EAGAIN, wr_out = []\<rparr>, so_shut_rd = False, so_shut_wr = False\<rparr>"

definition ex_junk :: "bytes \<times> iovec list" where
  "ex_junk = ([0, 0, 0, 0], replicate WRIVCNT \<lparr>iov_pkt = 0, iov_off = 0, iov_len = 0\<rparr>)"

definition ex_session :: rf_session where
  "ex_session = session_run (rf_session_new (ex_sock [RdBytes [5, 0, 1], RdBytes [0, 9, 4]]) (ex_sock []) ex_junk ex_junk [])"

lemma ex_traffic:
  "\<exists>s st pm R. traffic (\<lambda>_. None) {#} 0 s st (pm :: (flt_kind, flt) manager) R \<and> R CLI_TO_SRV = [5, 0, 1, 0, 9, 4]"
proof -
  let ?pm = "\<lparr>pm_plugins = [], pm_insts = Map.empty, pm_next = 0\<rparr> :: (flt_kind, flt) manager"
  have t0: "traffic (\<lambda>_. None) {#} 0 ex_session st_empty ?pm (\<lambda>_. [])"
    unfolding ex_session_def by (rule traffic.start)
      (simp_all add: junk_ok_def ex_junk_def ex_sock_def ledger_def store_ok_def st_empty_def once_def pm_ok_def insts_ok_def chain_linked_def)
  from traffic_channel [OF t0] have inv: "session_inv ex_session st_empty {#}" "once (session_hold ex_session + {#})"
    "pm_ok flt_ok ?pm" "chain_linked 0 (se_flt ex_session) ?pm" "length (se_flt ex_session) \<le> 2 ^ 31" "channel_ok ex_session st_empty (\<lambda>_. [])"
    by simp_all
  have s: "rd_partial (pp_rcvq (se_c2s ex_session)) st_empty = []" "so_rd (se_cli ex_session) = [RdBytes [5, 0, 1], RdBytes [0, 9, 4]]"
    "idle SRV_TO_CLI ex_session"
    by (simp_all add: ex_session_def session_run_def rf_session_new_def pipe_run_def pipe_new_def rd_partial_def recvq_new_def
        ex_sock_def idle_def sendq_new_def pqh_init_def)
  have wf: "plain_frame [5, 0, 1, 0, 9]" unfolding plain_frame_def wf_frame_def frame_len_def frame_pkt_def watched_def
    by (simp add: get_int16_def WHITE_CHAT_OUT_def PRIVMSG_OUT_def PRIVMSG_IN_def LOOT_DROP_NEW_def LOOT_DROP_HORIZON_def LOOT_DISAPPEAR_def)
  have "frames ([5, 0, 1, 0, 9] @ [4]) = Inr ([[5, 0, 1, 0, 9]], [4])"
    using frames_wf [of "[[5, 0, 1, 0, 9]]" "[4]"] wf by (simp add: unfinished_def plain_frame_def)
  then have pl: "plain_input CLI_TO_SRV ex_session st_empty" using wf s by (simp add: plain_input_def)
  obtain s1 st1 where r: "session_readable flt_process_pkt (flt_process_ev (\<lambda>_. None)) CLI_TO_SRV ex_session st_empty Map.empty =
      Some (Inr (s1, st1, Map.empty))" "idle (other_dir CLI_TO_SRV) ex_session \<longrightarrow> idle (other_dir CLI_TO_SRV) s1"
    by (rule session_readable_channel [OF inv(1,2) _ inv(5,6) pl]) (use chain_linked_ok [OF inv(3,4)] in auto)
  have "\<not> session_done s1" using r(2) s(3) by (simp add: session_done_def pipe_done_def idle_def)
  then have "session_io flt_process_pkt (flt_process_ev (\<lambda>_. None)) CLI_TO_SRV True False ex_session st_empty ?pm = Some (Inr (Some s1, st1, ?pm))"
    using r(1) by (simp add: session_io_def session_work_def)
  from traffic.io [OF t0 _ this] pl have t1: "traffic (\<lambda>_. None) {#} 0 s1 st1 ?pm ((\<lambda>_. [])(CLI_TO_SRV := [5, 0, 1, 0, 9, 4]))"
    by (simp add: s)
  show ?thesis
    by (rule exI [of _ s1], rule exI [of _ st1], rule exI [of _ ?pm], rule exI, rule conjI, rule t1) simp
qed

lemma connection_transparent_witness:
  "\<exists>(s :: rf_session) st k. sent CLI_TO_SRV s @ flow CLI_TO_SRV s st k = [5, 0, 1, 0, 9, 4]"
proof -
  obtain s st R and pm :: "(flt_kind, flt) manager" where t: "traffic (\<lambda>_. None) {#} 0 s st pm R" "R CLI_TO_SRV = [5, 0, 1, 0, 9, 4]"
    using ex_traffic by blast
  show ?thesis using connection_transparent [OF t(1), of CLI_TO_SRV] t(2) by auto
qed

end
