(* ===== verification/Sock.thy ===== *)
theory Sock
  imports Kernel_Io Text_Util "HOL-Library.Stream"
begin

text \<open>
  The socket helpers of \<^verbatim>\<open>lib/sock.c\<close>. They wait inside the call, so here the answers of the kernel are
  endless: a stream of answers of \<open>read\<close>, \<open>write\<close> and \<open>writev\<close> and one of \<open>poll\<close> (ready or not). The loops are
  partial functions, \<open>None\<close> for a call that never returns. An iovec is the list of the byte strings it
  describes: moving its base and length is dropping bytes. Shown: \<open>writev_full_ms\<close> writes everything or
  fails having written a prefix if it returns, returns if the descriptor keeps deciding, and never returns
  if it is interrupted for ever; \<open>write_full_ms\<close> reports the whole length
  after the first successful write, however short; a trailing empty vector makes the result of
  \<open>writev_full_ms\<close> depend on a stale \<open>errno\<close>; \<open>nonblock_connect\<close> fails when the connection is made
  at once; an address printed by \<open>addr2a\<close> is read back by \<open>init_addr\<close>.
\<close>

section \<open>The kernel\<close>

text \<open>
  A write accepts at most \<open>n\<close> bytes (\<open>WrOk n\<close>) or fails with an \<open>errno\<close>; one call never transfers more than
  \<open>rw_max\<close> bytes, so that its result fits the \<open>int\<close> it is stored in.
\<close>

record ksock =
  k_wr :: "wr_outcome stream"
  k_poll :: "bool stream"
  k_errno :: errno
  k_out :: bytes

definition kwritev :: "bytes \<Rightarrow> ksock \<Rightarrow> nat option \<times> ksock" where
  "kwritev bs k =
     (case shd (k_wr k) of
        WrErr e \<Rightarrow> (None, k\<lparr>k_wr := stl (k_wr k), k_errno := e\<rparr>)
      | WrOk n \<Rightarrow> (let m = min (min n rw_max) (length bs)
                  in (Some m, k\<lparr>k_wr := stl (k_wr k), k_out := k_out k @ take m bs\<rparr>)))"

text \<open>\<open>poll(&pfd, 1, ms) == 1\<close>, with the wanted event.\<close>

definition poll_ready :: "ksock \<Rightarrow> bool \<times> ksock" where
  "poll_ready k = (shd (k_poll k), k\<lparr>k_poll := stl (k_poll k)\<rparr>)"

record krsock =
  kr_rd :: "rd_outcome stream"
  kr_poll :: "bool stream"

text \<open>A read delivers at most \<open>len\<close> bytes; what is left of them stays for the next call.\<close>

definition kread :: "nat \<Rightarrow> krsock \<Rightarrow> rd_result \<times> krsock" where
  "kread len k =
     (let s = stl (kr_rd k); cap = min len rw_max
      in case shd (kr_rd k) of
        RdEof \<Rightarrow> (RdZero, k\<lparr>kr_rd := s\<rparr>)
      | RdErr e \<Rightarrow> (RdFail e, k\<lparr>kr_rd := s\<rparr>)
      | RdBytes bs \<Rightarrow>
          if bs = [] \<or> cap = 0 then (RdZero, k\<lparr>kr_rd := s\<rparr>)
          else (RdGot (take cap bs),
                k\<lparr>kr_rd := (if length bs \<le> cap then s else SCons (RdBytes (drop cap bs)) s)\<rparr>))"

lemma kwritev_got:
  assumes "kwritev bs k = (Some n, k')"
  shows "n \<le> length bs" "n \<le> rw_max" "k_out k' = k_out k @ take n bs" "k_wr k' = stl (k_wr k)"
  using assms by (auto simp: kwritev_def Let_def split: wr_outcome.splits)

lemma kwritev_failed:
  assumes "kwritev bs k = (None, k')"
  shows "k' = k\<lparr>k_wr := stl (k_wr k), k_errno := k_errno k'\<rparr>" "shd (k_wr k) = WrErr (k_errno k')"
  using assms by (auto simp: kwritev_def Let_def split: wr_outcome.splits)

section \<open>Socket options\<close>

text \<open>The options as the kernel keeps them; \<open>ok\<close>: whether the system call succeeds.\<close>

record sock_opts =
  opt_nonblock :: bool
  opt_nodelay :: bool

definition set_nonblock :: "bool \<Rightarrow> int \<Rightarrow> sock_opts \<Rightarrow> int \<times> sock_opts" where
  "set_nonblock ok v s = (if ok then (0, s\<lparr>opt_nonblock := v \<noteq> 0\<rparr>) else (- 1, s))"

definition set_nodelay :: "bool \<Rightarrow> int \<Rightarrow> sock_opts \<Rightarrow> int \<times> sock_opts" where
  "set_nodelay ok v s = (if ok then (0, s\<lparr>opt_nodelay := v \<noteq> 0\<rparr>) else (- 1, s))"

lemma sock_options_independent:
  "snd (set_nodelay a v (snd (set_nonblock b w s))) = snd (set_nonblock b w (snd (set_nodelay a v s)))"
  by (simp add: set_nonblock_def set_nodelay_def)

section \<open>Reading and writing with a timeout\<close>

text \<open>\<open>read_ms\<close>: the result is what \<open>read\<close> gave, \<open>RdFail EAGAIN\<close> after a timeout.\<close>

partial_function (option) read_ms :: "nat \<Rightarrow> krsock \<Rightarrow> (rd_result \<times> krsock) option" where
  "read_ms len k =
     (case kread len k of
        (RdFail EINTR, k1) \<Rightarrow> read_ms len k1
      | (RdFail EAGAIN, k1) \<Rightarrow>
          if shd (kr_poll k1) then read_ms len (k1\<lparr>kr_poll := stl (kr_poll k1)\<rparr>)
          else Some (RdFail EAGAIN, k1\<lparr>kr_poll := stl (kr_poll k1)\<rparr>)
      | (r, k1) \<Rightarrow> Some (r, k1))"

partial_function (option) write_ms :: "bytes \<Rightarrow> ksock \<Rightarrow> (nat option \<times> ksock) option" where
  "write_ms bs k =
     (case kwritev bs k of
        (Some n, k1) \<Rightarrow> Some (Some n, k1)
      | (None, k1) \<Rightarrow>
          (case k_errno k1 of
             EINTR \<Rightarrow> write_ms bs k1
           | EAGAIN \<Rightarrow>
               (case poll_ready k1 of
                  (b, k2) \<Rightarrow> if b then write_ms bs k2 else Some (None, k2\<lparr>k_errno := EAGAIN\<rparr>))
           | EOTHER \<Rightarrow> Some (None, k1)))"

text \<open>\<open>pos += len\<close> after every write; \<open>buf\<close> holds at least \<open>len\<close> bytes.\<close>

partial_function (option) write_full_loop :: "bytes \<Rightarrow> u32 \<Rightarrow> u32 \<Rightarrow> ksock \<Rightarrow> (u32 \<times> ksock) option" where
  "write_full_loop buf len pos k =
     (case write_ms (take (unat (len - pos)) (drop (unat pos) buf)) k of
        None \<Rightarrow> None
      | Some (None, k1) \<Rightarrow> Some (pos, k1)
      | Some (Some l, k1) \<Rightarrow>
          if pos + len < len then write_full_loop buf len (pos + len) k1 else Some (pos + len, k1))"

definition write_full_ms :: "bytes \<Rightarrow> u32 \<Rightarrow> ksock \<Rightarrow> (int \<times> ksock) option" where
  "write_full_ms buf len k = map_option (\<lambda>(pos, k1). (sint pos, k1)) (write_full_loop buf len 0 k)"

section \<open>Vectors\<close>

text \<open>The loop over the entries written; it reads the next entry whatever the count says.\<close>

fun iov_advance :: "nat \<Rightarrow> bytes list \<Rightarrow> bytes list res" where
  "iov_advance 0 iov = Inr iov"
| "iov_advance (Suc n) [] = Inl OutOfBounds"
| "iov_advance (Suc n) (v # vs) =
     (if length v \<le> Suc n then iov_advance (Suc n - length v) vs else Inr (drop (Suc n) v # vs))"

text \<open>\<open>nwritten += bytes\<close> on \<open>int\<close>s, and the entries written.\<close>

definition iov_wrote :: "bytes list \<Rightarrow> int \<Rightarrow> nat \<Rightarrow> (bytes list \<times> int) res" where
  "iov_wrote iov nwritten m =
     (if 0x7fffffff < nwritten + int m then Inl SignedOverflow
      else rbind (iov_advance m iov) (\<lambda>iov'. Inr (iov', nwritten + int m)))"

partial_function (option) writev_full_loop ::
    "bytes list \<Rightarrow> int \<Rightarrow> ksock \<Rightarrow> (int \<times> ksock) res option" where
  "writev_full_loop iov nwritten k =
     (if iov = [] then Some (Inr (nwritten, k))
      else (case kwritev (concat iov) k of
        (r, k1) \<Rightarrow>
          if r \<noteq> None \<and> r \<noteq> Some 0 then
            (case iov_wrote iov nwritten (the r) of Inl e \<Rightarrow> Some (Inl e)
             | Inr (iov', n') \<Rightarrow> writev_full_loop iov' n' k1)
          else if k_errno k1 = EINTR \<or> k_errno k1 = EAGAIN then writev_full_loop iov nwritten k1
          else Some (Inr (-1, k1))))"

definition writev_full :: "bytes list \<Rightarrow> ksock \<Rightarrow> (int \<times> ksock) res option" where
  "writev_full iov k = writev_full_loop iov 0 k"

partial_function (option) writev_full_ms_loop ::
    "bytes list \<Rightarrow> int \<Rightarrow> ksock \<Rightarrow> (int \<times> ksock) res option" where
  "writev_full_ms_loop iov nwritten k =
     (if iov = [] then Some (Inr (nwritten, k))
      else (case kwritev (concat iov) k of
        (r, k1) \<Rightarrow>
          if r \<noteq> None \<and> r \<noteq> Some 0 then
            (case iov_wrote iov nwritten (the r) of Inl e \<Rightarrow> Some (Inl e)
             | Inr (iov', n') \<Rightarrow> writev_full_ms_loop iov' n' k1)
          else (case k_errno k1 of
              EINTR \<Rightarrow> writev_full_ms_loop iov nwritten k1
            | EAGAIN \<Rightarrow>
                (case poll_ready k1 of
                   (b, k2) \<Rightarrow> if b then writev_full_ms_loop iov nwritten k2 else Some (Inr (-1, k2)))
            | EOTHER \<Rightarrow> Some (Inr (-1, k1)))))"

definition writev_full_ms :: "bytes list \<Rightarrow> ksock \<Rightarrow> (int \<times> ksock) res option" where
  "writev_full_ms iov k = writev_full_ms_loop iov 0 k"

section \<open>Connecting\<close>

text \<open>
  What \<open>connect\<close> answers, whether \<open>poll\<close> sees the socket writable in time, and what
  \<open>getsockopt(SO_ERROR)\<close> gives (\<open>None\<close> when it fails).
\<close>

datatype conn_result = ConnOk | ConnInProgress | ConnFail

definition nonblock_connect :: "conn_result \<Rightarrow> bool \<Rightarrow> int option \<Rightarrow> int" where
  "nonblock_connect res ready err =
     (if res = ConnInProgress \<and> ready
      then (case err of None \<Rightarrow> -1 | Some e \<Rightarrow> if e = 0 then 0 else -1)
      else -1)"

section \<open>Addresses\<close>

datatype sockaddr = AfLocal bytes | AfInet u32 u16 | AfOther

text \<open>\<open>atoi\<close>: leading space, a sign, digits.\<close>

definition digits_value :: "bytes \<Rightarrow> int" where
  "digits_value ds = fold (\<lambda>c acc. 10 * acc + (uint c - 0x30)) (takeWhile isdigit ds) 0"

definition atoi :: "bytes \<Rightarrow> int" where
  "atoi s =
     (case dropWhile isspace s of
        [] \<Rightarrow> 0
      | c # r \<Rightarrow> if c = 0x2d then - digits_value r
                else if c = 0x2b then digits_value r else digits_value (c # r))"

definition htons :: "u16 \<Rightarrow> u16" where
  "htons v = push_bit 8 v OR drop_bit 8 v"

text \<open>
  \<open>init_addr\<close> on the C string \<open>s\<close>: the return value and the address. \<open>gethostbyname\<close> is the
  resolver: the address of a name in network order, as it lies in memory.
\<close>

definition init_addr :: "(bytes \<Rightarrow> u32 option) \<Rightarrow> bytes \<Rightarrow> int \<times> sockaddr option" where
  "init_addr gethostbyname s =
     (if take 5 s = asc ''file:'' then (0, Some (AfLocal (take 107 (drop 5 s))))
      else
        let host = takeWhile (\<lambda>c. c \<noteq> 0x3a) s; colon = 0x3a \<in> set s
        in if colon \<or> s \<noteq> [] \<and> isdigit (hd s) then
             let port = htons (word_of_int (atoi (if colon then drop (length host + 1) s else s)))
             in if colon \<and> host \<noteq> [] then
                  (case gethostbyname host of None \<Rightarrow> (1, None) | Some a \<Rightarrow> (0, Some (AfInet a port)))
                else (0, Some (AfInet 0 port))
           else (1, None))"

definition ip_byte :: "u32 \<Rightarrow> nat \<Rightarrow> nat" where
  "ip_byte a k = unat (drop_bit (8 * k) a AND 0xff)"

definition dotted :: "u32 \<Rightarrow> bytes" where
  "dotted a = dec (ip_byte a 0) @ [0x2e] @ dec (ip_byte a 1) @ [0x2e] @ dec (ip_byte a 2) @ [0x2e] @
     dec (ip_byte a 3)"

definition addr_text :: "sockaddr \<Rightarrow> bytes" where
  "addr_text a =
     (case a of AfLocal p \<Rightarrow> []
      | AfInet ip port \<Rightarrow> dotted ip @ [0x3a] @ dec (unat (htons port))
      | AfOther \<Rightarrow> asc ''<unknown>'')"

text \<open>
  \<open>addr2a\<close>: what \<open>snprintf\<close> leaves in a buffer of \<open>sz\<close> bytes (\<open>None\<close>: for a local address the buffer
  is not written) and the size stored.
\<close>

definition addr2a :: "sockaddr \<Rightarrow> nat \<Rightarrow> bytes option \<times> nat" where
  "addr2a a sz =
     (let l = length (addr_text a)
      in (case a of AfLocal _ \<Rightarrow> None | _ \<Rightarrow> Some (take (sz - 1) (addr_text a)),
          if sz \<le> l then sz - 1 else l))"

section \<open>Vectors: what is written\<close>

lemma iov_advance_concat:
  "n \<le> length (concat iov) \<Longrightarrow> \<exists>iov'. iov_advance n iov = Inr iov' \<and> concat iov' = drop n (concat iov) \<and>
     (iov \<noteq> [] \<and> last iov \<noteq> [] \<longrightarrow> iov' \<noteq> [] \<longrightarrow> last iov' \<noteq> []) "
proof (induction n iov rule: iov_advance.induct)
  case (3 n v vs)
  show ?case
  proof (cases "length v \<le> Suc n")
    case True
    then have "iov_advance (Suc n) (v # vs) = iov_advance (Suc n - length v) vs" by simp
    then show ?thesis using True 3 by (cases "vs = []") (auto simp del: iov_advance.simps(3))
  next
    case False
    then show ?thesis by auto
  qed
qed auto

lemma iov_wrote_concat:
  assumes "m \<le> length (concat iov)" and "n + int m \<le> 0x7fffffff" and "iov \<noteq> []" "last iov \<noteq> []"
  obtains iov' where "iov_wrote iov n m = Inr (iov', n + int m)" "concat iov' = drop m (concat iov)"
    "iov' \<noteq> [] \<Longrightarrow> last iov' \<noteq> []"
  using iov_advance_concat [OF assms(1)] assms that by (auto simp: iov_wrote_def)

text \<open>The turn of the loop, over what the rest of it does, and its cases.\<close>

definition wv_turn ::
    "(bytes list \<Rightarrow> int \<Rightarrow> ksock \<Rightarrow> (int \<times> ksock) res option) \<Rightarrow> bytes list \<Rightarrow> int \<Rightarrow> ksock \<Rightarrow> (int \<times> ksock) res option" where
  "wv_turn go iov n k =
     (case kwritev (concat iov) k of
        (r, k1) \<Rightarrow>
          if r \<noteq> None \<and> r \<noteq> Some 0 then
            (case iov_wrote iov n (the r) of Inl e \<Rightarrow> Some (Inl e) | Inr (iov', n') \<Rightarrow> go iov' n' k1)
          else (case k_errno k1 of
              EINTR \<Rightarrow> go iov n k1
            | EAGAIN \<Rightarrow>
                (case poll_ready k1 of (b, k2) \<Rightarrow> if b then go iov n k2 else Some (Inr (-1, k2)))
            | EOTHER \<Rightarrow> Some (Inr (-1, k1))))"

lemma writev_full_ms_loop_turn:
  "writev_full_ms_loop iov n k =
     (if iov = [] then Some (Inr (n, k)) else wv_turn writev_full_ms_loop iov n k)"
  unfolding wv_turn_def by (rule writev_full_ms_loop.simps)

lemma wv_turn_cases:
  fixes go iov n k
  defines "L \<equiv> wv_turn go iov n k"
  obtains (got) m k1 where "kwritev (concat iov) k = (Some m, k1)" "0 < m" "m \<le> length (concat iov)"
      "k_out k1 = k_out k @ take m (concat iov)" "k_wr k1 = stl (k_wr k)"
      "\<And>iov1 n1. iov_wrote iov n m = Inr (iov1, n1) \<Longrightarrow> L = go iov1 n1 k1"
    | (again) k1 where "k_out k1 = k_out k" "k_wr k1 = stl (k_wr k)" "L = go iov n k1"
      "shd (k_wr k) \<noteq> WrErr EOTHER" "\<And>m. shd (k_wr k) = WrOk (Suc m) \<Longrightarrow> concat iov = []"
    | (fail) k1 where "k_out k1 = k_out k" "L = Some (Inr (-1, k1))"
proof -
  note unf = wv_turn_def [of go iov n k]
  obtain r k1 where wv: "kwritev (concat iov) k = (r, k1)" by fastforce
  show thesis
  proof (cases "r \<noteq> None \<and> r \<noteq> Some 0")
    case True
    then obtain m where "r = Some m" "0 < m" by auto
    then show thesis
      using got [of m k1] wv kwritev_got [of "concat iov" k m k1] by (auto simp: L_def unf)
  next
    case no: False
    have out: "k_out k1 = k_out k" "k_wr k1 = stl (k_wr k)"
      using wv no by (auto simp: kwritev_def Let_def split: wr_outcome.splits)
    have ok: "concat iov = []" if "shd (k_wr k) = WrOk (Suc m)" for m
      using wv no that by (auto simp: kwritev_def Let_def rw_max_def min_def split: if_splits)
    have "shd (k_wr k) \<noteq> WrErr EOTHER" if "k_errno k1 \<noteq> EOTHER"
      using wv that by (auto simp: kwritev_def Let_def split: wr_outcome.splits)
    note again' = again [OF _ _ _ this ok]
    show thesis
    proof (cases "k_errno k1")
      case EINTR
      then show thesis using again' [of k1] out no wv by (auto simp: L_def unf)
    next
      case EAGAIN
      define k2 where "k2 = k1\<lparr>k_poll := stl (k_poll k1)\<rparr>"
      have "poll_ready k1 = (shd (k_poll k1), k2)" by (simp add: poll_ready_def k2_def)
      then show thesis
        using again' [of k2] fail [of k2] out EAGAIN no wv
        by (cases "shd (k_poll k1)") (auto simp: L_def unf k2_def)
    next
      case EOTHER
      then show thesis using fail [of k1] out no wv by (auto simp: L_def unf)
    qed
  qed
qed

text \<open>
  What the loop promises when it returns: it has written a prefix, and a result other than \<open>-1\<close> is the
  whole length. With a non-empty last entry, entries left over always hold bytes.
\<close>

definition wv_sent :: "bytes list \<Rightarrow> int \<Rightarrow> ksock \<Rightarrow> (int \<times> ksock) res \<Rightarrow> bool" where
  "wv_sent iov n k res \<longleftrightarrow>
     (\<exists>r k' m. res = Inr (r, k') \<and> k_out k' = k_out k @ take m (concat iov) \<and> m \<le> length (concat iov) \<and>
       (r = -1 \<and> iov \<noteq> [] \<or> m = length (concat iov) \<and> r = n + int m))"

lemma wv_sent_fail: "iov \<noteq> [] \<Longrightarrow> k_out k' = k_out k \<Longrightarrow> wv_sent iov n k (Inr (-1, k'))"
  by (auto simp: wv_sent_def intro!: exI [of _ 0])

lemma wv_sent_got:
  assumes "wv_sent iov1 (n + int m) k1 res" and "concat iov1 = drop m (concat iov)" and "m \<le> length (concat iov)"
    and "k_out k1 = k_out k @ take m (concat iov)" and "iov \<noteq> []"
  shows "wv_sent iov n k res"
proof -
  obtain r k' j where j: "res = Inr (r, k')" "k_out k' = k_out k1 @ take j (concat iov1)"
    "j \<le> length (concat iov1)" "r = -1 \<or> j = length (concat iov1) \<and> r = n + int m + int j"
    using assms(1) by (auto simp: wv_sent_def)
  then have "k_out k' = k_out k @ take (m + j) (concat iov)"
    using assms(2,4) by (simp add: take_add)
  then show ?thesis
    using j assms(2,3,5) unfolding wv_sent_def
    by (intro exI [of _ r] exI [of _ k'] exI [of _ "m + j"]) auto
qed

text \<open>
  An answer that makes progress: bytes are accepted, or the descriptor fails for good. As long as
  such an answer always comes again, the loop returns; that is the measure of its turns.
\<close>

definition decisive :: "wr_outcome \<Rightarrow> bool" where
  "decisive a = (case a of WrOk n \<Rightarrow> 0 < n | WrErr e \<Rightarrow> e = EOTHER)"

definition decides_on :: "wr_outcome stream \<Rightarrow> bool" where
  "decides_on s \<longleftrightarrow> (\<forall>i. \<exists>j \<ge> i. decisive (s !! j))"

lemma decides_on_stl: "decides_on s \<Longrightarrow> decides_on (stl s)"
  unfolding decides_on_def by (metis Suc_le_D Suc_le_mono snth.simps(2))

lemma writev_full_ms_loop_sent:
  assumes "writev_full_ms_loop iov n k = Some res" and "iov \<noteq> [] \<Longrightarrow> last iov \<noteq> []"
    and "n + int (length (concat iov)) \<le> 0x7fffffff"
  shows "wv_sent iov n k res"
proof -
  have "(iov \<noteq> [] \<longrightarrow> last iov \<noteq> []) \<and> n + int (length (concat iov)) \<le> 0x7fffffff \<longrightarrow> wv_sent iov n k res"
  proof (rule writev_full_ms_loop.raw_induct [OF _ assms(1)], intro impI, elim conjE)
    fix go :: "bytes list \<Rightarrow> int \<Rightarrow> ksock \<Rightarrow> (int \<times> ksock) res option" and iov n k res
    assume IH: "\<And>iov n k res. go iov n k = Some res \<Longrightarrow>
        (iov \<noteq> [] \<longrightarrow> last iov \<noteq> []) \<and> n + int (length (concat iov)) \<le> 0x7fffffff \<longrightarrow> wv_sent iov n k res"
      and last: "iov \<noteq> [] \<longrightarrow> last iov \<noteq> []" and int: "n + int (length (concat iov)) \<le> 0x7fffffff"
      and body: "(if iov = [] then Some (Inr (n, k))
        else case kwritev (concat iov) k of (r, k1) \<Rightarrow>
          if r \<noteq> None \<and> r \<noteq> Some 0 then
            (case iov_wrote iov n (the r) of Inl e \<Rightarrow> Some (Inl e) | Inr (iov', n') \<Rightarrow> go iov' n' k1)
          else (case k_errno k1 of EINTR \<Rightarrow> go iov n k1
            | EAGAIN \<Rightarrow> (case poll_ready k1 of (b, k2) \<Rightarrow> if b then go iov n k2 else Some (Inr (-1, k2)))
            | EOTHER \<Rightarrow> Some (Inr (-1, k1)))) = Some res"
    show "wv_sent iov n k res"
    proof (cases "iov = []")
      case True
      then show ?thesis using body by (auto simp: wv_sent_def)
    next
      case False
      then have turn: "wv_turn go iov n k = Some res" using body unfolding wv_turn_def by simp
      show ?thesis
      proof (cases rule: wv_turn_cases [where go = go and iov = iov and n = n and k = k])
        case (got m k1)
        obtain iov1 where w: "iov_wrote iov n m = Inr (iov1, n + int m)" "concat iov1 = drop m (concat iov)"
            "iov1 \<noteq> [] \<Longrightarrow> last iov1 \<noteq> []"
          by (rule iov_wrote_concat [of m iov n]) (use got int False last in auto)
        then have "wv_sent iov1 (n + int m) k1 res"
          using IH [of iov1 "n + int m" k1 res] got(3,6) int turn by simp
        then show ?thesis by (rule wv_sent_got [OF _ w(2) got(3,4) False])
      next
        case (again k1)
        then show ?thesis using IH [of iov n k1 res] turn last int by (simp add: wv_sent_def)
      next
        case (fail k1)
        then show ?thesis using turn False by (simp add: wv_sent_fail)
      qed
    qed
  qed
  then show ?thesis using assms by blast
qed

lemma writev_full_ms_loop_returns:
  assumes "decides_on (k_wr k)" and "iov \<noteq> [] \<Longrightarrow> last iov \<noteq> []" and "n + int (length (concat iov)) \<le> 0x7fffffff"
  shows "\<exists>res. writev_full_ms_loop iov n k = Some res"
  using assms
proof (induction "length (concat iov)" arbitrary: iov n k rule: less_induct)
  case less
  have "\<exists>res. writev_full_ms_loop iov n k = Some res" if "decisive (k_wr k !! j)" "decides_on (k_wr k)" for j k
    using that
  proof (induction j arbitrary: k)
    case (0 k)
    show ?case
    proof (cases "iov = []")
      case False
      show ?thesis
      proof (cases rule: wv_turn_cases [where go = writev_full_ms_loop and iov = iov and n = n and k = k])
        case (got m k1)
        obtain iov1 where w: "iov_wrote iov n m = Inr (iov1, n + int m)" "concat iov1 = drop m (concat iov)"
            "iov1 \<noteq> [] \<Longrightarrow> last iov1 \<noteq> []"
          by (rule iov_wrote_concat [of m iov n]) (use got less.prems False in auto)
        then show ?thesis
          using less.hyps [of iov1 k1 "n + int m"] got less.prems(3) 0(2) decides_on_stl False
          by (simp add: writev_full_ms_loop_turn [of iov n k])
      next
        case (again k1)
        then show ?thesis
          using 0(1) less.prems(2) False by (cases "shd (k_wr k)") (auto simp: decisive_def gr0_conv_Suc)
      qed (use False in \<open>simp add: writev_full_ms_loop_turn [of iov n k]\<close>)
    qed (simp add: writev_full_ms_loop_turn)
  next
    case (Suc j k)
    show ?case
    proof (cases "iov = []")
      case False
      show ?thesis
      proof (cases rule: wv_turn_cases [where go = writev_full_ms_loop and iov = iov and n = n and k = k])
        case (got m k1)
        obtain iov1 where w: "iov_wrote iov n m = Inr (iov1, n + int m)" "concat iov1 = drop m (concat iov)"
            "iov1 \<noteq> [] \<Longrightarrow> last iov1 \<noteq> []"
          by (rule iov_wrote_concat [of m iov n]) (use got less.prems False in auto)
        then show ?thesis
          using less.hyps [of iov1 k1 "n + int m"] got less.prems(3) Suc.prems(2) decides_on_stl False
          by (simp add: writev_full_ms_loop_turn [of iov n k])
      next
        case (again k1)
        then show ?thesis
          using Suc.IH [of k1] Suc.prems decides_on_stl False by (simp add: writev_full_ms_loop_turn [of iov n k])
      qed (use False in \<open>simp add: writev_full_ms_loop_turn [of iov n k]\<close>)
    qed (simp add: writev_full_ms_loop_turn)
  qed
  then show ?case using less.prems(1) unfolding decides_on_def by blast
qed

text \<open>A descriptor interrupted for ever keeps the loop for ever.\<close>

lemma writev_full_ms_loop_endless:
  assumes "iov \<noteq> []" and "\<And>i. k_wr k !! i = WrErr EINTR"
  shows "writev_full_ms_loop iov n k = None"
proof (rule ccontr)
  assume "writev_full_ms_loop iov n k \<noteq> None"
  then obtain res where res: "writev_full_ms_loop iov n k = Some res" by auto
  have "\<not> (iov \<noteq> [] \<and> (\<forall>i. k_wr k !! i = WrErr EINTR))"
  proof (rule writev_full_ms_loop.raw_induct [OF _ res], intro notI, elim conjE)
    fix go :: "bytes list \<Rightarrow> int \<Rightarrow> ksock \<Rightarrow> (int \<times> ksock) res option" and iov n k res
    assume IH: "\<And>iov n k res. go iov n k = Some res \<Longrightarrow> \<not> (iov \<noteq> [] \<and> (\<forall>i. k_wr k !! i = WrErr EINTR))"
      and ne: "iov \<noteq> []" and all: "\<forall>i. k_wr k !! i = WrErr EINTR"
      and body: "(if iov = [] then Some (Inr (n, k))
        else case kwritev (concat iov) k of (r, k1) \<Rightarrow>
          if r \<noteq> None \<and> r \<noteq> Some 0 then
            (case iov_wrote iov n (the r) of Inl e \<Rightarrow> Some (Inl e) | Inr (iov', n') \<Rightarrow> go iov' n' k1)
          else (case k_errno k1 of EINTR \<Rightarrow> go iov n k1
            | EAGAIN \<Rightarrow> (case poll_ready k1 of (b, k2) \<Rightarrow> if b then go iov n k2 else Some (Inr (-1, k2)))
            | EOTHER \<Rightarrow> Some (Inr (-1, k1)))) = Some res"
    let ?k = "k\<lparr>k_wr := stl (k_wr k), k_errno := EINTR\<rparr>"
    have "shd (k_wr k) = WrErr EINTR" using spec [OF all, of 0] by simp
    moreover have "k_wr ?k !! i = WrErr EINTR" for i using spec [OF all, of "Suc i"] by simp
    ultimately show False using IH [of iov n ?k res] body ne by (simp add: kwritev_def)
  qed
  then show False using assms by blast
qed

section \<open>Decimal numbers and byte order\<close>

lemma digits_value_dec: "digits_value (dec n) = int n"
proof -
  have all: "takeWhile isdigit (dec n) = dec n" for n
    using dec_digits digit_facts(1) by (auto simp: takeWhile_eq_all_conv)
  have "fold (\<lambda>c acc. 10 * acc + (uint c - 0x30)) (dec n) 0 = int n"
  proof (induction n rule: dec.induct)
    case (1 n)
    show ?case
    proof (cases "n < 10")
      case True
      then show ?thesis using digit_facts(2) [of n] by (subst dec.simps) simp
    next
      case False
      have "int n = 10 * int (n div 10) + int (n mod 10)"
        by (metis mult_div_mod_eq of_nat_add of_nat_mult of_nat_numeral)
      then show ?thesis
        using 1 False digit_facts(2) [of "n mod 10"] by (subst dec.simps) simp
    qed
  qed
  then show ?thesis by (simp add: digits_value_def all)
qed

lemma atoi_dec: "atoi (dec n) = int n"
proof -
  obtain c r where d: "dec n = c # r" using dec_not_Nil by (cases "dec n") auto
  then obtain k where "k < 10" "c = 0x30 + of_nat k" using dec_digits [of c n] by auto
  then show ?thesis
    using d digit_facts(3,4) [of k] digits_value_dec [of n] by (auto simp: atoi_def)
qed

lemma htons_htons: "htons (htons v) = v"
proof -
  have "bit (htons v) n \<longleftrightarrow> n < 16 \<and> (8 \<le> n \<and> bit v (n - 8) \<or> bit v (n + 8))" for v :: u16 and n
    by (auto simp: htons_def bit_or_iff bit_push_bit_iff bit_drop_bit_eq add.commute dest: bit_imp_le_length)
  then show ?thesis
    by (intro bit_word_eqI) (auto dest: bit_imp_le_length)
qed

section \<open>Properties\<close>

text \<open>
  C37. \<open>writev_full_ms\<close>, on vectors whose last entry is not empty and that together hold fewer than \<open>2^31\<close>
  bytes: if it returns, it returns either the total length, and then exactly the bytes of the vectors were
  written, or -1, and then a prefix of them was; it never reads past the last vector. It does return when
  the descriptor never stops deciding, that is when it again and again accepts bytes or fails for good; a
  descriptor that is interrupted for ever keeps it for ever.
\<close>

theorem writev_full_ms_all_or_prefix:
  assumes "iov \<noteq> []" and "last iov \<noteq> []" and "length (concat iov) < 2 ^ 31"
  shows "(\<forall>res. writev_full_ms iov k = Some res \<longrightarrow>
      (\<exists>r k' m. res = Inr (r, k') \<and> k_out k' = k_out k @ take m (concat iov) \<and> m \<le> length (concat iov) \<and>
        (r = -1 \<or> m = length (concat iov) \<and> r = int m))) \<and>
    ((\<forall>i. \<exists>j \<ge> i. decisive (k_wr k !! j)) \<longrightarrow> writev_full_ms iov k \<noteq> None) \<and>
    ((\<forall>i. k_wr k !! i = WrErr EINTR) \<longrightarrow> writev_full_ms iov k = None)"
proof -
  have int: "0 + int (length (concat iov)) \<le> 0x7fffffff" using assms(3) by simp
  have "wv_sent iov 0 k res" if "writev_full_ms iov k = Some res" for res
    using writev_full_ms_loop_sent [OF _ assms(2) int] that by (simp add: writev_full_ms_def)
  moreover have "writev_full_ms iov k \<noteq> None" if "decides_on (k_wr k)"
    using writev_full_ms_loop_returns [OF that assms(2) int] by (simp add: writev_full_ms_def)
  moreover have "writev_full_ms iov k = None" if "\<forall>i. k_wr k !! i = WrErr EINTR"
    using writev_full_ms_loop_endless [OF assms(1)] that by (simp add: writev_full_ms_def)
  ultimately show ?thesis unfolding wv_sent_def decides_on_def by fastforce
qed

text \<open>A descriptor that accepts two bytes, is full once, and then takes five bytes at a time.\<close>

definition demo_sock :: ksock where
  "demo_sock = \<lparr>k_wr = SCons (WrOk 2) (SCons (WrErr EAGAIN) (sconst (WrOk 5))), k_poll = sconst True,
     k_errno = EAGAIN, k_out = []\<rparr>"

lemma demo_sock_decides: "\<forall>i. \<exists>j \<ge> i. decisive (k_wr demo_sock !! j)"
proof
  fix i
  have "k_wr demo_sock !! Suc (Suc i) = WrOk 5"
    by (simp add: demo_sock_def)
  then have "decisive (k_wr demo_sock !! Suc (Suc i))"
    by (simp add: decisive_def)
  then show "\<exists>j \<ge> i. decisive (k_wr demo_sock !! j)"
    using le_Suc_eq by blast
qed

lemma writev_full_ms_all_or_prefix_witness:
  "\<exists>r k'. writev_full_ms [[1, 2], [3]] demo_sock = Some (Inr (r, k')) \<and> (r = -1 \<or> k_out k' = [1, 2, 3])"
proof -
  have "[[1, 2], [3]] \<noteq> ([] :: bytes list)" "last [[1, 2], [3]] \<noteq> ([] :: bytes)"
    "length (concat [[1, 2], [3 :: u8]]) < 2 ^ 31"
    by simp_all
  note t = writev_full_ms_all_or_prefix [OF this, of demo_sock]
  obtain res where "writev_full_ms [[1, 2], [3]] demo_sock = Some res"
    using t demo_sock_decides by blast
  then show ?thesis using t by (auto simp: demo_sock_def)
qed

text \<open>
  \<open>write_full_ms\<close> claims more than it did: as soon as one write succeeds, however short, it
  stops and returns the length of the whole buffer, so the caller cannot see that bytes are missing.
\<close>

theorem write_full_ms_overreports:
  assumes "write_ms (take (unat len) buf) k = Some (Some l, k')"
  shows "write_full_ms buf len k = Some (sint len, k')"
  using assms by (simp add: write_full_ms_def write_full_loop.simps [of buf len 0])

lemma write_full_ms_overreports_witness:
  "\<exists>k'. write_full_ms [1, 2, 3, 4, 5] 5 demo_sock = Some (5, k') \<and> k_out k' = [1, 2]"
proof -
  have "kwritev [1, 2, 3, 4, 5] demo_sock = (Some 2, demo_sock\<lparr>k_wr := stl (k_wr demo_sock), k_out := [1, 2]\<rparr>)"
    by (simp add: kwritev_def demo_sock_def rw_max_def)
  then show ?thesis
    using write_full_ms_overreports [of 5 "[1, 2, 3, 4, 5]" demo_sock 2]
    by (simp add: write_ms.simps [of _ demo_sock])
qed

text \<open>
  With an empty vector at the end, \<open>writev_full_ms\<close> has written everything when it calls \<open>writev\<close>
  once more with nothing to write; what it then returns is decided by an \<open>errno\<close> of some earlier call.
\<close>

lemma writev_full_ms_stale_errno:
  assumes "k_wr k = SCons (WrOk 1) (SCons (WrOk 0) s)" and "k_errno k = EOTHER"
  shows "\<exists>k'. writev_full_ms [[b], []] k = Some (Inr (-1, k')) \<and> k_out k' = k_out k @ [b]"
proof -
  let ?k1 = "k\<lparr>k_wr := SCons (WrOk 0) s, k_out := k_out k @ [b]\<rparr>"
  have "writev_full_ms_loop [[b], []] 0 k = writev_full_ms_loop [[]] 1 ?k1"
    by (subst writev_full_ms_loop_turn) (simp add: assms wv_turn_def kwritev_def rw_max_def iov_wrote_def)
  also have "writev_full_ms_loop [[]] 1 ?k1 = Some (Inr (-1, ?k1\<lparr>k_wr := s\<rparr>))"
    by (subst writev_full_ms_loop_turn) (simp add: assms wv_turn_def kwritev_def)
  finally show ?thesis by (simp add: writev_full_ms_def)
qed

text \<open>
  \<open>nonblock_connect\<close> succeeds exactly when the connection was in progress, became writable in
  time and has no pending error; a connection established at once is reported as a failure.
\<close>

lemma nonblock_connect_result:
  "nonblock_connect res ready err = (if res = ConnInProgress \<and> ready \<and> err = Some 0 then 0 else -1) \<and>
   nonblock_connect ConnOk ready err = -1"
  by (auto simp: nonblock_connect_def split: option.splits)

text \<open>
  C38. Addresses round-trip: the text \<open>addr2a\<close> writes for an internet address into a buffer that is
  large enough is read back by \<open>init_addr\<close> as the same address and port, when the resolver takes the
  dotted address literally.
\<close>

theorem init_addr_addr2a:
  assumes "gethostbyname (dotted ip) = Some ip" and "addr2a (AfInet ip port) sz = (Some s, l)"
    and "length (addr_text (AfInet ip port)) < sz"
  shows "init_addr gethostbyname s = (0, Some (AfInet ip port)) \<and> l = length s"
proof -
  let ?p = "dec (unat (htons port))"
  have s: "s = dotted ip @ [0x3a] @ ?p" and l: "l = length s"
    using assms(2,3) by (auto simp: addr2a_def addr_text_def Let_def)
  have dot: "c = 0x2e \<or> (\<exists>d < 10. c = 0x30 + of_nat d)" if "c \<in> set (dotted ip)" for c
    using that dec_digits by (auto simp: dotted_def)
  then have colon: "0x3a \<notin> set (dotted ip)"
    using digit_facts(4) by fastforce
  obtain c r where cr: "dotted ip = c # r" using dec_not_Nil by (cases "dotted ip") (auto simp: dotted_def)
  have "c \<in> set (dec (ip_byte ip 0))"
    using cr dec_not_Nil [of "ip_byte ip 0"] by (cases "dec (ip_byte ip 0)") (auto simp: dotted_def)
  then obtain d where "d < 10" "c = 0x30 + of_nat d" using dec_digits by blast
  then have "c \<noteq> 0x66" using digit_facts(4) by auto
  then have nofile: "take 5 s \<noteq> asc ''file:''" using s cr by (simp add: asc_def)
  have host: "takeWhile (\<lambda>c. c \<noteq> 0x3a) s = dotted ip"
    unfolding s by (subst takeWhile_append2) (use colon in auto)
  have port: "htons (word_of_int (atoi ?p)) = port"
    by (simp add: atoi_dec htons_htons)
  have "0x3a \<in> set s" "drop (length (dotted ip) + 1) s = ?p" using s by simp_all
  then have "init_addr gethostbyname s = (0, Some (AfInet ip port))"
    using nofile host port assms(1) cr by (simp add: init_addr_def Let_def)
  then show ?thesis using l by simp
qed

lemma init_addr_addr2a_witness:
  "init_addr (\<lambda>_. Some 0x0100007f) (asc ''127.0.0.1:1234'') = (0, Some (AfInet 0x0100007f 0xd204))"
proof -
  have "addr2a (AfInet 0x0100007f 0xd204) 32 = (Some (asc ''127.0.0.1:1234''), 14)"
    by code_simp
  moreover have "length (addr_text (AfInet 0x0100007f 0xd204)) < 32"
    by code_simp
  ultimately show ?thesis
    using init_addr_addr2a [of "\<lambda>_. Some 0x0100007f"] by simp
qed

end
