(* ===== verification/Frontend.thy ===== *)
theory Frontend
  imports Proxy Sock
begin

text \<open>
  The outside of the program, \<^verbatim>\<open>main.cpp\<close>: the start (\<open>main\<close>, \<open>make_listen_socket\<close>), the
  acceptance of clients (\<open>cli_connect_cb\<close>), the connection to the server while it is being established
  (\<open>bootstrap\<close>) and the descriptors all of them own. A descriptor is a number, the open ones are a
  list; as POSIX says, a new one is the lowest number free. A run of theory \<open>Proxy\<close> is inside every
  run here. Shown: each open descriptor has one owner at any time, so none leaks and none is closed twice.
\<close>

section \<open>Descriptors\<close>

record boot =
  bo_cli :: nat
  bo_srv :: nat
  bo_io_on :: bool
  bo_tmr_on :: bool

text \<open>\<open>fr_conns\<close> holds the two descriptors of each session of the proxy, \<open>fr_boots\<close> the objects of
  \<open>bootstrap\<close> by the order of their creation.\<close>

record ('k, 'f) front =
  fr_px :: "('k, 'f) proxy"
  fr_fds :: "nat list"
  fr_boots :: "boot option list"
  fr_conns :: "(nat \<times> nat) list"

definition lowest_fd :: "nat list \<Rightarrow> nat" where
  "lowest_fd fds = hd (filter (\<lambda>n. n \<notin> set fds) [0..<Suc (length fds)])"

definition open_fd :: "('k, 'f) front \<Rightarrow> nat \<times> ('k, 'f) front" where
  "open_fd fr = (lowest_fd (fr_fds fr), fr\<lparr>fr_fds := lowest_fd (fr_fds fr) # fr_fds fr\<rparr>)"

definition close_fd :: "nat \<Rightarrow> ('k, 'f) front \<Rightarrow> ('k, 'f) front res" where
  "close_fd fd fr = (if fd \<in> set (fr_fds fr) then Inr (fr\<lparr>fr_fds := remove1 fd (fr_fds fr)\<rparr>) else Inl UseAfterFree)"

definition close_both :: "nat \<Rightarrow> nat \<Rightarrow> ('k, 'f) front \<Rightarrow> ('k, 'f) front res" where
  "close_both fd srv fr = rbind (close_fd fd fr) (close_fd srv)"

section \<open>Bootstrap\<close>

text \<open>The constructor, with the two starts of \<open>cli_connect_cb\<close>.\<close>

definition bootstrap_new :: "nat \<Rightarrow> nat \<Rightarrow> boot" where
  "bootstrap_new cli srv = \<lparr>bo_cli = cli, bo_srv = srv, bo_io_on = False, bo_tmr_on = False\<rparr>"

definition bootstrap_start :: "boot \<Rightarrow> boot" where
  "bootstrap_start b = b\<lparr>bo_io_on := True, bo_tmr_on := True\<rparr>"

definition bootstrap_stop :: "boot \<Rightarrow> boot" where
  "bootstrap_stop b = b\<lparr>bo_io_on := False, bo_tmr_on := False\<rparr>"

definition boot_get :: "nat \<Rightarrow> ('k, 'f) front \<Rightarrow> boot res" where
  "boot_get i fr = (if i < length (fr_boots fr) then (case fr_boots fr ! i of None \<Rightarrow> Inl UseAfterFree | Some b \<Rightarrow> Inr b)
     else Inl UseAfterFree)"

definition boot_put :: "nat \<Rightarrow> boot \<Rightarrow> ('k, 'f) front \<Rightarrow> ('k, 'f) front" where
  "boot_put i b fr = fr\<lparr>fr_boots := (fr_boots fr)[i := Some b]\<rparr>"

text \<open>\<open>delete b\<close>: the event loop would go on using a watcher that is still active.\<close>

definition bootstrap_delete :: "nat \<Rightarrow> ('k, 'f) front \<Rightarrow> ('k, 'f) front res" where
  "bootstrap_delete i fr = rbind (boot_get i fr) (\<lambda>b.
     if bo_io_on b \<or> bo_tmr_on b then Inl UseAfterFree else Inr (fr\<lparr>fr_boots := (fr_boots fr)[i := None]\<rparr>))"

text \<open>
  One turn of the loop of \<open>cli_connect_cb\<close>: what the system calls answer, the behaviour of the two
  sockets and the contents of the new buffers, should a session start.
\<close>

datatype conn_result = Connected | InProgress | ConnFailed

record link =
  ln_cli :: sock
  ln_srv :: sock
  ln_junk1 :: "bytes \<times> iovec list"
  ln_junk2 :: "bytes \<times> iovec list"

record turn =
  tu_socket :: bool
  tu_nonblock :: bool
  tu_connect :: conn_result
  tu_link :: link

definition front_run :: "('k \<Rightarrow> 'f) \<Rightarrow> nat \<Rightarrow> nat \<Rightarrow> link \<Rightarrow> ('k, 'f) front \<Rightarrow> ('k, 'f) front res" where
  "front_run nf cli srv l fr =
     rbind (proxy_run nf (ln_cli l) (ln_srv l) (ln_junk1 l) (ln_junk2 l) (fr_px fr)) (\<lambda>px.
       Inr (fr\<lparr>fr_px := px, fr_conns := fr_conns fr @ [(cli, srv)]\<rparr>))"

text \<open>\<open>io_cb\<close>: \<open>so_error\<close> is what \<open>getsockopt\<close> gives, \<open>None\<close> when it fails.\<close>

definition bootstrap_io_cb :: "('k \<Rightarrow> 'f) \<Rightarrow> nat option \<Rightarrow> link \<Rightarrow> nat \<Rightarrow> ('k, 'f) front \<Rightarrow> ('k, 'f) front res" where
  "bootstrap_io_cb nf so_error l i fr = rbind (boot_get i fr) (\<lambda>b.
     let fr1 = boot_put i (bootstrap_stop b) fr
     in rbind (if so_error = Some 0 then front_run nf (bo_cli b) (bo_srv b) l fr1
               else close_both (bo_cli b) (bo_srv b) fr1) (bootstrap_delete i))"

text \<open>\<open>tmr_cb\<close>: \<open>pending\<close> says whether an event of the socket waits for its callback.\<close>

definition bootstrap_tmr_cb :: "bool \<Rightarrow> nat \<Rightarrow> ('k, 'f) front \<Rightarrow> ('k, 'f) front res" where
  "bootstrap_tmr_cb pending i fr = rbind (boot_get i fr) (\<lambda>b.
     if pending then Inr fr
     else rbind (close_both (bo_cli b) (bo_srv b) (boot_put i (bootstrap_stop b) fr)) (bootstrap_delete i))"

text \<open>The connection for a client that was accepted.\<close>

definition connect_turn :: "('k \<Rightarrow> 'f) \<Rightarrow> turn \<Rightarrow> ('k, 'f) front \<Rightarrow> ('k, 'f) front res" where
  "connect_turn nf t fr0 =
     (let (fd, fr) = open_fd fr0
      in if \<not> tu_socket t then close_fd fd fr
         else
           let (srv, fr) = open_fd fr
           in if \<not> tu_nonblock t then close_both fd srv fr
              else case tu_connect t of
                  InProgress \<Rightarrow> Inr (fr\<lparr>fr_boots := fr_boots fr @ [Some (bootstrap_start (bootstrap_new fd srv))]\<rparr>)
                | ConnFailed \<Rightarrow> close_both fd srv fr
                | Connected \<Rightarrow> front_run nf fd srv (tu_link t) fr)"

text \<open>One turn for each client that waits; \<open>accept\<close> fails when no more does.\<close>

fun cli_connect_cb :: "('k \<Rightarrow> 'f) \<Rightarrow> turn list \<Rightarrow> ('k, 'f) front \<Rightarrow> ('k, 'f) front res" where
  "cli_connect_cb nf [] fr = Inr fr"
| "cli_connect_cb nf (t # ts) fr = rbind (connect_turn nf t fr) (cli_connect_cb nf ts)"

text \<open>The end of a session: its destructor closes the descriptors.\<close>

definition session_close :: "nat \<Rightarrow> ('k, 'f) front \<Rightarrow> ('k, 'f) front res" where
  "session_close c fr = (case fr_conns fr ! c of (cli, srv) \<Rightarrow> close_both cli srv fr)"

section \<open>The start\<close>

datatype startup = BadBindAddr | BadServerAddr | NoSocket | NoNonblock | NoBind | NoListen

text \<open>\<open>make_listen_socket\<close>: the answers of \<open>socket\<close>, \<open>set_nonblock\<close>, \<open>bind\<close> and \<open>listen\<close>.\<close>

definition make_listen_socket :: "bool \<Rightarrow> bool \<Rightarrow> bool \<Rightarrow> bool \<Rightarrow> nat list \<Rightarrow> startup + nat \<times> nat list" where
  "make_listen_socket socket_ok nonblock_ok bind_ok listen_ok fds =
     (if \<not> socket_ok then Inl NoSocket
      else if \<not> nonblock_ok then Inl NoNonblock
      else if \<not> bind_ok then Inl NoBind
      else if \<not> listen_ok then Inl NoListen
      else Inr (lowest_fd fds, lowest_fd fds # fds))"

definition bind_addr :: bytes where
  "bind_addr = asc ''0.0.0.0:1234''"

definition rf_addr :: bytes where
  "rf_addr = asc ''127.0.0.1:27780''"

definition plugin_names :: "string list" where
  "plugin_names = [''dl/rfx_chat.so'', ''dl/rfx_loot.so'', ''dl/rfx_debug.so'']"

text \<open>
  \<open>main\<close> up to the event loop: \<open>env\<close> is what the loader and \<open>stat\<close> find, \<open>fds\<close> the descriptors open
  before. The result is the listening descriptor and the state the loop starts from.
\<close>

definition rfx_main :: "string \<Rightarrow> (string \<Rightarrow> 'k dlobject option \<times> int option) \<Rightarrow> (bytes \<Rightarrow> u32 option) \<Rightarrow>
    bool \<Rightarrow> bool \<Rightarrow> bool \<Rightarrow> bool \<Rightarrow> nat list \<Rightarrow> startup + nat \<times> ('k, 'f) front" where
  "rfx_main api_ver env resolve socket_ok nonblock_ok bind_ok listen_ok fds =
     (let ms = load_plugins api_ver (map (\<lambda>so. (so, env so)) plugin_names)
      in if fst (init_addr resolve bind_addr) \<noteq> 0 then Inl BadBindAddr
         else if fst (init_addr resolve rf_addr) \<noteq> 0 then Inl BadServerAddr
         else case make_listen_socket socket_ok nonblock_ok bind_ok listen_ok fds of
             Inl e \<Rightarrow> Inl e
           | Inr (l, fds') \<Rightarrow> Inr (l, \<lparr>fr_px = px_start ms, fr_fds = fds', fr_boots = [], fr_conns = []\<rparr>))"

section \<open>Steps\<close>

definition link_ok :: "link \<Rightarrow> bool" where
  "link_ok l \<longleftrightarrow> junk_ok (ln_junk1 l) \<and> junk_ok (ln_junk2 l)"

text \<open>A timer that does not repeat is stopped before its callback runs.\<close>

definition timer_fired :: "nat \<Rightarrow> boot \<Rightarrow> ('k, 'f) front \<Rightarrow> ('k, 'f) front" where
  "timer_fired i b fr = boot_put i (b\<lparr>bo_tmr_on := False\<rparr>) fr"

definition live_sessions :: "('k, 'f) proxy \<Rightarrow> bool list" where
  "live_sessions px = map (\<lambda>so. so \<noteq> None) (px_sessions px)"

text \<open>
  \<open>inside\<close>: a step of the proxy that neither opens nor ends a session; \<open>ended\<close>: the callback of a
  socket has ended session \<open>c\<close>.
\<close>

inductive front_step :: "'f pkt_proc \<Rightarrow> 'f ev_proc \<Rightarrow> ('k \<Rightarrow> 'f) \<Rightarrow> ('f \<Rightarrow> rfx_state \<Rightarrow> rfx_state res) \<Rightarrow>
    ('f \<Rightarrow> rfx_state \<Rightarrow> (bool \<times> 'f \<times> rfx_state) res) \<Rightarrow> string \<Rightarrow> ('k, 'f) front \<Rightarrow> ('k, 'f) front \<Rightarrow> bool"
  for pp pe nf sv ld api_ver where
  clients: "list_all (\<lambda>t. link_ok (tu_link t)) ts \<Longrightarrow> cli_connect_cb nf ts fr = Inr fr' \<Longrightarrow>
    front_step pp pe nf sv ld api_ver fr fr'"
| connected: "boot_get i fr = Inr b \<Longrightarrow> bo_io_on b \<Longrightarrow> link_ok l \<Longrightarrow> bootstrap_io_cb nf so_error l i fr = Inr fr' \<Longrightarrow>
    front_step pp pe nf sv ld api_ver fr fr'"
| expired: "boot_get i fr = Inr b \<Longrightarrow> bo_tmr_on b \<Longrightarrow> bootstrap_tmr_cb pending i (timer_fired i b fr) = Inr fr' \<Longrightarrow>
    front_step pp pe nf sv ld api_ver fr fr'"
| inside: "px_step pp pe nf sv ld api_ver (fr_px fr) px \<Longrightarrow> live_sessions px = live_sessions (fr_px fr) \<Longrightarrow>
    front_step pp pe nf sv ld api_ver fr (fr\<lparr>fr_px := px\<rparr>)"
| ended: "px_session c (fr_px fr) = Some s \<Longrightarrow> (er \<longrightarrow> pp_in_on (se_pipe d s)) \<Longrightarrow> (ew \<longrightarrow> pp_out_on (se_pipe d s)) \<Longrightarrow>
    session_io pp pe d er ew s (px_store (fr_px fr)) (px_pm (fr_px fr)) = Some (Inr (None, st, pm)) \<Longrightarrow>
    session_close c (fr\<lparr>fr_px := px_put c None st pm (fr_px fr)\<rparr>) = Inr fr' \<Longrightarrow>
    front_step pp pe nf sv ld api_ver fr fr'"

inductive front_reach :: "'f pkt_proc \<Rightarrow> 'f ev_proc \<Rightarrow> ('k \<Rightarrow> 'f) \<Rightarrow> ('f \<Rightarrow> rfx_state \<Rightarrow> rfx_state res) \<Rightarrow>
    ('f \<Rightarrow> rfx_state \<Rightarrow> (bool \<times> 'f \<times> rfx_state) res) \<Rightarrow> string \<Rightarrow> ('k, 'f) front \<Rightarrow> ('k, 'f) front \<Rightarrow> bool"
  for pp pe nf sv ld api_ver fr0 where
  start: "front_reach pp pe nf sv ld api_ver fr0 fr0"
| step: "front_reach pp pe nf sv ld api_ver fr0 fr \<Longrightarrow> front_step pp pe nf sv ld api_ver fr fr' \<Longrightarrow>
    front_reach pp pe nf sv ld api_ver fr0 fr'"

section \<open>Owners\<close>

fun boot_fds :: "boot option list \<Rightarrow> nat multiset" where
  "boot_fds [] = {#}"
| "boot_fds (None # bs) = boot_fds bs"
| "boot_fds (Some b # bs) = {#bo_cli b, bo_srv b#} + boot_fds bs"

fun conn_fds :: "bool list \<Rightarrow> (nat \<times> nat) list \<Rightarrow> nat multiset" where
  "conn_fds (l # ls) ((a, b) # cs) = (if l then {#a, b#} else {#}) + conn_fds ls cs"
| "conn_fds _ _ = {#}"

definition fd_owned :: "('k, 'f) front \<Rightarrow> nat multiset" where
  "fd_owned fr = boot_fds (fr_boots fr) + conn_fds (live_sessions (fr_px fr)) (fr_conns fr)"

text \<open>
  \<open>front_ok R ex fr\<close>: \<open>R\<close> holds of the proxy inside, the open descriptors are those owned and \<open>ex\<close>,
  and whoever waits for the server is still watched.
\<close>

definition front_ok :: "(('k, 'f) proxy \<Rightarrow> bool) \<Rightarrow> nat multiset \<Rightarrow> ('k, 'f) front \<Rightarrow> bool" where
  "front_ok R ex fr \<longleftrightarrow> R (fr_px fr) \<and> distinct (fr_fds fr) \<and> mset (fr_fds fr) = ex + fd_owned fr \<and>
     length (fr_conns fr) = length (px_sessions (fr_px fr)) \<and> (\<forall>b. Some b \<in> set (fr_boots fr) \<longrightarrow> bo_io_on b)"

lemma boot_fds_append [simp]: "boot_fds (bs @ bs') = boot_fds bs + boot_fds bs'"
  by (induction bs rule: boot_fds.induct) auto

lemma boot_fds_drop:
  "i < length bs \<Longrightarrow> bs ! i = Some b \<Longrightarrow> boot_fds bs = {#bo_cli b, bo_srv b#} + boot_fds (bs[i := None])"
  by (induction bs arbitrary: i rule: boot_fds.induct) (auto split: nat.split simp: less_Suc_eq_0_disj)

lemma conn_fds_snoc:
  "length ls = length cs \<Longrightarrow> conn_fds (ls @ [True]) (cs @ [(a, b)]) = {#a, b#} + conn_fds ls cs"
  by (induction ls cs rule: list_induct2) auto

lemma conn_fds_close:
  "length ls = length cs \<Longrightarrow> c < length ls \<Longrightarrow> ls ! c \<Longrightarrow>
   conn_fds ls cs = {#fst (cs ! c), snd (cs ! c)#} + conn_fds (ls[c := False]) cs"
  by (induction ls cs arbitrary: c rule: list_induct2) (auto split: nat.split simp: less_Suc_eq_0_disj)

lemma lowest_fd_new: "lowest_fd fds \<notin> set fds"
proof -
  have "\<not> set [0..<Suc (length fds)] \<subseteq> set fds"
  proof
    assume "set [0..<Suc (length fds)] \<subseteq> set fds"
    then have "card (set [0..<Suc (length fds)]) \<le> card (set fds)" by (rule card_mono [rotated]) simp
    then show False using card_length [of fds] by simp
  qed
  then have "filter (\<lambda>n. n \<notin> set fds) [0..<Suc (length fds)] \<noteq> []" by (auto simp: filter_empty_conv)
  from hd_in_set [OF this] show ?thesis by (simp add: lowest_fd_def del: upt_Suc)
qed

lemma live_sessions_length [simp]: "length (live_sessions px) = length (px_sessions px)"
  by (simp add: live_sessions_def)

text \<open>Opening and closing.\<close>

lemma open_fd_ok:
  assumes "front_ok R ex fr"
  shows "\<exists>fd fr'. open_fd fr = (fd, fr') \<and> front_ok R (add_mset fd ex) fr'"
  using assms lowest_fd_new [of "fr_fds fr"] by (simp add: open_fd_def front_ok_def fd_owned_def)

lemma close_fd_ok:
  assumes "front_ok R (add_mset fd ex) fr"
  obtains fr' where "close_fd fd fr = Inr fr'" "front_ok R ex fr'" "fr_boots fr' = fr_boots fr"
proof -
  have "fd \<in># mset (fr_fds fr)" using assms by (simp add: front_ok_def)
  then have fd: "fd \<in> set (fr_fds fr)" by simp
  have "front_ok R ex (fr\<lparr>fr_fds := remove1 fd (fr_fds fr)\<rparr>)"
    using assms by (simp add: front_ok_def fd_owned_def distinct_remove1)
  with fd show thesis by (intro that [of "fr\<lparr>fr_fds := remove1 fd (fr_fds fr)\<rparr>"]) (simp_all add: close_fd_def)
qed

lemma close_both_ok:
  assumes "front_ok R (add_mset cli (add_mset srv ex)) fr"
  obtains fr' where "close_both cli srv fr = Inr fr'" "front_ok R ex fr'" "fr_boots fr' = fr_boots fr"
proof -
  obtain fr1 where 1: "close_fd cli fr = Inr fr1" "front_ok R (add_mset srv ex) fr1" "fr_boots fr1 = fr_boots fr"
    by (rule close_fd_ok [OF assms])
  obtain fr2 where 2: "close_fd srv fr1 = Inr fr2" "front_ok R ex fr2" "fr_boots fr2 = fr_boots fr1"
    by (rule close_fd_ok [OF 1(2)])
  show thesis by (rule that [of fr2]) (simp_all add: close_both_def 1 2)
qed


text \<open>
  A callback of \<open>bootstrap\<close>: while the descriptors change hands the object is still there, stopped; it
  is gone afterwards.
\<close>

lemma detach_ok:
  assumes ok: "front_ok R ex fr" and b: "boot_get i fr = Inr b"
  shows "front_ok R (add_mset (bo_cli b) (add_mset (bo_srv b) ex)) (fr\<lparr>fr_boots := (fr_boots fr)[i := None]\<rparr>)"
proof -
  have i: "i < length (fr_boots fr)" "fr_boots fr ! i = Some b"
    using b by (auto simp: boot_get_def split: if_splits option.splits)
  have "set ((fr_boots fr)[i := None]) \<subseteq> insert None (set (fr_boots fr))" by (rule set_update_subset_insert)
  then show ?thesis using ok boot_fds_drop [OF i] by (auto simp: front_ok_def fd_owned_def)
qed

lemma boot_finish:
  assumes b: "boot_get i fr = Inr b" and f: "fr_boots f = (fr_boots fr)[i := None]"
    and op: "m = Inr (f\<lparr>fr_boots := (fr_boots fr)[i := Some (bootstrap_stop b)]\<rparr>)"
  shows "rbind m (bootstrap_delete i) = Inr f"
proof -
  have "i < length (fr_boots fr)" using b by (auto simp: boot_get_def split: if_splits)
  then show ?thesis using f by (simp add: op bootstrap_delete_def boot_get_def bootstrap_stop_def)
qed

lemma close_fd_boots: "close_fd fd fr = Inr f \<Longrightarrow> close_fd fd (fr\<lparr>fr_boots := bs\<rparr>) = Inr (f\<lparr>fr_boots := bs\<rparr>)"
  by (auto simp: close_fd_def split: if_splits)

lemma close_both_boots: "close_both cli srv fr = Inr f \<Longrightarrow> close_both cli srv (fr\<lparr>fr_boots := bs\<rparr>) = Inr (f\<lparr>fr_boots := bs\<rparr>)"
  by (auto simp: close_both_def rbind_eq_Inr dest: close_fd_boots)

lemma front_run_boots: "front_run nf cli srv l fr = Inr f \<Longrightarrow> front_run nf cli srv l (fr\<lparr>fr_boots := bs\<rparr>) = Inr (f\<lparr>fr_boots := bs\<rparr>)"
  by (auto simp: front_run_def rbind_eq_Inr)

lemma bootstrap_close_ok:
  assumes ok: "front_ok R ex fr" and b: "boot_get i fr = Inr b"
  obtains f where "rbind (close_both (bo_cli b) (bo_srv b) (boot_put i (bootstrap_stop b) fr)) (bootstrap_delete i) = Inr f"
    "front_ok R ex f"
proof -
  obtain f where f: "close_both (bo_cli b) (bo_srv b) (fr\<lparr>fr_boots := (fr_boots fr)[i := None]\<rparr>) = Inr f" "front_ok R ex f"
      "fr_boots f = (fr_boots fr)[i := None]"
    using close_both_ok [OF detach_ok [OF ok b]] by auto
  have "close_both (bo_cli b) (bo_srv b) (boot_put i (bootstrap_stop b) fr) =
      Inr (f\<lparr>fr_boots := (fr_boots fr)[i := Some (bootstrap_stop b)]\<rparr>)"
    using close_both_boots [OF f(1)] by (simp add: boot_put_def)
  from that [OF boot_finish [OF b f(3) this] f(2)] show thesis .
qed

lemma bootstrap_tmr_cb_ok:
  assumes ok: "front_ok R ex fr" and b: "boot_get i fr = Inr b"
  obtains f where "bootstrap_tmr_cb pending i fr = Inr f" "front_ok R ex f"
proof (cases pending)
  case True
  then show thesis using that [of fr] ok b by (simp add: bootstrap_tmr_cb_def)
next
  case False
  show thesis by (rule bootstrap_close_ok [OF ok b], rule that) (simp_all add: bootstrap_tmr_cb_def b False)
qed

lemma timer_fired_ok:
  assumes ok: "front_ok R ex fr" and b: "boot_get i fr = Inr b"
  shows "front_ok R ex (timer_fired i b fr)" "boot_get i (timer_fired i b fr) = Inr (b\<lparr>bo_tmr_on := False\<rparr>)"
proof -
  have i: "i < length (fr_boots fr)" "fr_boots fr ! i = Some b"
    using b by (auto simp: boot_get_def split: if_splits option.splits)
  then have on: "bo_io_on b" using ok nth_mem [of i "fr_boots fr"] by (simp add: front_ok_def)
  have "set ((fr_boots fr)[i := Some (b\<lparr>bo_tmr_on := False\<rparr>)]) \<subseteq> insert (Some (b\<lparr>bo_tmr_on := False\<rparr>)) (set (fr_boots fr))"
    by (rule set_update_subset_insert)
  moreover have "boot_fds ((fr_boots fr)[i := Some (b\<lparr>bo_tmr_on := False\<rparr>)]) = boot_fds (fr_boots fr)"
    using boot_fds_drop [OF i] boot_fds_drop [of i "(fr_boots fr)[i := Some (b\<lparr>bo_tmr_on := False\<rparr>)]"] i(1) by simp
  ultimately show "front_ok R ex (timer_fired i b fr)"
    using ok on by (auto simp: front_ok_def fd_owned_def timer_fired_def boot_put_def)
  show "boot_get i (timer_fired i b fr) = Inr (b\<lparr>bo_tmr_on := False\<rparr>)"
    using i by (simp add: boot_get_def timer_fired_def boot_put_def)
qed

text \<open>What the callbacks need of the proxy: a step keeps \<open>R\<close>, and a session can always be started.\<close>

locale proxy_service =
  fixes R :: "('k, 'f) proxy \<Rightarrow> bool"
    and pp :: "'f pkt_proc"
    and pe :: "'f ev_proc"
    and nf :: "'k \<Rightarrow> 'f"
    and sv :: "'f \<Rightarrow> rfx_state \<Rightarrow> rfx_state res"
    and ld :: "'f \<Rightarrow> rfx_state \<Rightarrow> (bool \<times> 'f \<times> rfx_state) res"
    and api_ver :: string
  assumes step_law: "R px \<Longrightarrow> px_step pp pe nf sv ld api_ver px px' \<Longrightarrow> R px'"
    and run_law: "R px \<Longrightarrow> junk_ok j1 \<Longrightarrow> junk_ok j2 \<Longrightarrow> \<exists>px'. proxy_run nf cli srv j1 j2 px = Inr px'"
begin

lemma front_run_ok:
  assumes ok: "front_ok R (add_mset cli (add_mset srv ex)) fr" and l: "link_ok l"
  obtains fr' where "front_run nf cli srv l fr = Inr fr'" "front_ok R ex fr'" "fr_boots fr' = fr_boots fr"
proof -
  have R: "R (fr_px fr)" using ok by (simp add: front_ok_def)
  obtain px where run: "proxy_run nf (ln_cli l) (ln_srv l) (ln_junk1 l) (ln_junk2 l) (fr_px fr) = Inr px"
    using run_law [OF R, of "ln_junk1 l" "ln_junk2 l"] l unfolding link_ok_def by blast
  have "px_step pp pe nf sv ld api_ver (fr_px fr) px"
    using l run by (auto simp: link_ok_def intro: px_step.accept)
  then have "R px" by (rule step_law [OF R])
  moreover obtain so where "px_sessions px = px_sessions (fr_px fr) @ [Some so]"
    using run by (auto simp: proxy_run_def rbind_eq_Inr)
  moreover from this have "live_sessions px = live_sessions (fr_px fr) @ [True]" by (simp add: live_sessions_def)
  ultimately have "front_ok R ex (fr\<lparr>fr_px := px, fr_conns := fr_conns fr @ [(cli, srv)]\<rparr>)"
    using ok by (simp add: front_ok_def fd_owned_def conn_fds_snoc)
  then show thesis by (intro that [of "fr\<lparr>fr_px := px, fr_conns := fr_conns fr @ [(cli, srv)]\<rparr>"])
      (simp_all add: front_run_def run)
qed

lemma connect_turn_ok:
  assumes ok: "front_ok R ex fr0" and l: "link_ok (tu_link t)"
  obtains fr' where "connect_turn nf t fr0 = Inr fr'" "front_ok R ex fr'"
proof -
  obtain cli fr where 1: "open_fd fr0 = (cli, fr)" "front_ok R (add_mset cli ex) fr"
    using open_fd_ok [OF ok] by blast
  obtain srv fr1 where 2: "open_fd fr = (srv, fr1)" "front_ok R (add_mset srv (add_mset cli ex)) fr1"
    using open_fd_ok [OF 1(2)] by blast
  then have both: "front_ok R (add_mset cli (add_mset srv ex)) fr1" by (simp add: add_mset_commute)
  obtain fr2 where 3: "close_fd cli fr = Inr fr2" "front_ok R ex fr2" by (rule close_fd_ok [OF 1(2)])
  obtain fr3 where 4: "close_both cli srv fr1 = Inr fr3" "front_ok R ex fr3" by (rule close_both_ok [OF both])
  obtain fr4 where 5: "front_run nf cli srv (tu_link t) fr1 = Inr fr4" "front_ok R ex fr4"
    by (rule front_run_ok [OF both l])
  let ?b = "bootstrap_start (bootstrap_new cli srv)"
  have 6: "front_ok R ex (fr1\<lparr>fr_boots := fr_boots fr1 @ [Some ?b]\<rparr>)"
    using both by (auto simp: front_ok_def fd_owned_def bootstrap_start_def bootstrap_new_def)
  have *: "connect_turn nf t fr0 = (if \<not> tu_socket t then Inr fr2 else if \<not> tu_nonblock t then Inr fr3
      else case tu_connect t of InProgress \<Rightarrow> Inr (fr1\<lparr>fr_boots := fr_boots fr1 @ [Some ?b]\<rparr>)
        | ConnFailed \<Rightarrow> Inr fr3 | Connected \<Rightarrow> Inr fr4)"
    by (simp add: connect_turn_def 1 2 3 4 5 cong: if_cong split: conn_result.split)
  show thesis by (cases "tu_socket t"; cases "tu_nonblock t"; cases "tu_connect t")
      (rule that; use * 3(2) 4(2) 5(2) 6 in simp)+
qed

lemma cli_connect_cb_ok:
  assumes "front_ok R ex fr" and "list_all (\<lambda>t. link_ok (tu_link t)) ts"
  shows "\<exists>fr'. cli_connect_cb nf ts fr = Inr fr' \<and> front_ok R ex fr'"
  using assms
proof (induction ts arbitrary: fr)
  case (Cons t ts)
  obtain fr1 where "connect_turn nf t fr = Inr fr1" "front_ok R ex fr1"
    using connect_turn_ok [OF Cons.prems(1), of t] Cons.prems(2) by auto
  with Cons show ?case by simp
qed simp

lemma bootstrap_io_cb_ok:
  assumes ok: "front_ok R ex fr" and b: "boot_get i fr = Inr b" and l: "link_ok l"
  obtains f where "bootstrap_io_cb nf so_error l i fr = Inr f" "front_ok R ex f"
proof (cases "so_error = Some 0")
  case True
  obtain f where f: "front_run nf (bo_cli b) (bo_srv b) l (fr\<lparr>fr_boots := (fr_boots fr)[i := None]\<rparr>) = Inr f" "front_ok R ex f"
      "fr_boots f = (fr_boots fr)[i := None]"
    using front_run_ok [OF detach_ok [OF ok b] l] by auto
  have "front_run nf (bo_cli b) (bo_srv b) l (boot_put i (bootstrap_stop b) fr) =
      Inr (f\<lparr>fr_boots := (fr_boots fr)[i := Some (bootstrap_stop b)]\<rparr>)"
    using front_run_boots [OF f(1)] by (simp add: boot_put_def)
  from boot_finish [OF b f(3) this] f(2) show thesis by (intro that) (simp_all add: bootstrap_io_cb_def b True)
next
  case False
  show thesis by (rule bootstrap_close_ok [OF ok b], rule that) (simp_all add: bootstrap_io_cb_def b False)
qed

text \<open>The end of a session.\<close>

lemma session_close_ok:
  assumes ok: "front_ok R ex fr" and c: "px_session c (fr_px fr) = Some s"
    and step: "px_step pp pe nf sv ld api_ver (fr_px fr) (px_put c None st pm (fr_px fr))"
  obtains f where "session_close c (fr\<lparr>fr_px := px_put c None st pm (fr_px fr)\<rparr>) = Inr f" "front_ok R ex f"
proof -
  obtain cli srv where p: "fr_conns fr ! c = (cli, srv)" by fastforce
  have c': "c < length (px_sessions (fr_px fr))" "px_sessions (fr_px fr) ! c = Some s"
    using c by (auto simp: px_session_Some)
  have R: "R (px_put c None st pm (fr_px fr))" using ok step step_law by (auto simp: front_ok_def)
  have "live_sessions (px_put c None st pm (fr_px fr)) = (live_sessions (fr_px fr))[c := False]"
    by (simp add: live_sessions_def map_update)
  moreover have "conn_fds (live_sessions (fr_px fr)) (fr_conns fr) =
      {#cli, srv#} + conn_fds ((live_sessions (fr_px fr))[c := False]) (fr_conns fr)"
    using conn_fds_close [of "live_sessions (fr_px fr)" "fr_conns fr" c] ok c' p by (simp add: front_ok_def live_sessions_def)
  ultimately have "front_ok R (add_mset cli (add_mset srv ex)) (fr\<lparr>fr_px := px_put c None st pm (fr_px fr)\<rparr>)"
    using ok R by (simp add: front_ok_def fd_owned_def)
  then obtain f where "close_both cli srv (fr\<lparr>fr_px := px_put c None st pm (fr_px fr)\<rparr>) = Inr f" "front_ok R ex f"
    by (rule close_both_ok)
  then show thesis by (intro that) (simp_all add: session_close_def p)
qed

lemma front_step_ok:
  assumes step: "front_step pp pe nf sv ld api_ver fr fr'" and ok: "front_ok R ex fr"
  shows "front_ok R ex fr'"
  using step
proof cases
  case (clients ts)
  then show ?thesis using cli_connect_cb_ok [OF ok, of ts] by auto
next
  case (connected i b l so_error)
  then show ?thesis using bootstrap_io_cb_ok [OF ok connected(1,3), of so_error] by auto
next
  case (expired i b pending)
  then show ?thesis using bootstrap_tmr_cb_ok [OF timer_fired_ok [OF ok expired(1)], of pending] by auto
next
  case (inside px)
  have "length (px_sessions px) = length (px_sessions (fr_px fr))"
    using arg_cong [OF inside(3), of length] by simp
  then show ?thesis using ok step_law [OF _ inside(2)] inside(3) by (simp add: inside(1) front_ok_def fd_owned_def)
next
  case (ended c s er d ew st pm)
  have "px_step pp pe nf sv ld api_ver (fr_px fr) (px_put c None st pm (fr_px fr))"
    by (rule px_step.io [OF ended(1-4)])
  from session_close_ok [OF ok ended(1) this] ended(5) show ?thesis by auto
qed

lemma front_reach_ok:
  assumes "front_reach pp pe nf sv ld api_ver fr0 fr" and "front_ok R ex fr0"
  shows "front_ok R ex fr"
  using assms by induction (auto intro: front_step_ok)

end

section \<open>The proxy of theory Proxy is such a service\<close>

definition loaded :: "(bytes \<Rightarrow> bytes option) \<Rightarrow> string \<Rightarrow> (flt_kind, flt) proxy \<Rightarrow> bool" where
  "loaded fs api_ver px \<longleftrightarrow> (\<exists>ps. length ps \<le> 2 ^ 31 \<and> (\<forall>m \<in> set (load_plugins api_ver ps). module_ready m) \<and>
     px_reach flt_process_pkt (flt_process_ev fs) flt_new flt_save flt_load api_ver (load_plugins api_ver ps) px)"

lemma loaded_ok:
  assumes "loaded fs api_ver px"
  obtains lost where "px_ok flt_ok lost px" "\<forall>m \<in> set (pm_plugins (px_pm px)). module_ready m"
proof -
  obtain ps where ps: "length ps \<le> 2 ^ 31" "\<forall>m \<in> set (load_plugins api_ver ps). module_ready m"
      "px_reach flt_process_pkt (flt_process_ev fs) flt_new flt_save flt_load api_ver (load_plugins api_ver ps) px"
    using assms unfolding loaded_def by blast
  show thesis using plugins.px_reach_ok [OF ps(3)] load_plugins_fresh ps(1,2) that by fastforce
qed

interpretation started: proxy_service "loaded fs api_ver" flt_process_pkt "flt_process_ev fs" flt_new flt_save flt_load api_ver
  for fs api_ver
proof
  fix px px' :: "(flt_kind, flt) proxy"
  assume "loaded fs api_ver px" "px_step flt_process_pkt (flt_process_ev fs) flt_new flt_save flt_load api_ver px px'"
  then show "loaded fs api_ver px'" unfolding loaded_def by (blast intro: px_reach.step)
next
  fix px :: "(flt_kind, flt) proxy" and j1 j2 cli srv
  assume "loaded fs api_ver px" and j: "junk_ok j1" "junk_ok j2"
  then obtain lost where ok: "px_ok flt_ok lost px" "\<forall>m \<in> set (pm_plugins (px_pm px)). module_ready m"
    by (auto elim: loaded_ok)
  show "\<exists>px'. proxy_run flt_new cli srv j1 j2 px = Inr px'"
    by (cases rule: plugins.proxy_run_ok [OF ok(1) j, of cli srv]) (use ok(2) in \<open>auto simp: module_ready_def\<close>)
qed

lemma main_start_ok:
  assumes main: "rfx_main api_ver env resolve a b c d fds = Inr (l, fr0)" and fds: "distinct fds"
    and ready: "list_all module_ready (pm_plugins (px_pm (fr_px fr0)))"
  shows "front_ok (loaded fs api_ver) (add_mset l (mset fds)) fr0"
proof -
  let ?ps = "map (\<lambda>so. (so, env so)) plugin_names"
  have fr0: "fr0 = \<lparr>fr_px = px_start (load_plugins api_ver ?ps), fr_fds = l # fds, fr_boots = [], fr_conns = []\<rparr>"
      "l = lowest_fd fds"
    using main by (auto simp: rfx_main_def make_listen_socket_def Let_def split: if_splits)
  have "loaded fs api_ver (fr_px fr0)"
    unfolding loaded_def using ready
    by (intro exI [of _ ?ps]) (simp add: fr0(1) plugin_names_def px_start_def list_all_iff px_reach.start [unfolded px_start_def])
  then show ?thesis using fds lowest_fd_new [of fds] fr0
    by (simp add: front_ok_def fd_owned_def px_start_def live_sessions_def)
qed

lemmas run_ok = started.front_reach_ok [OF _ main_start_ok]

section \<open>The timer of the plug-ins\<close>

text \<open>The timer \<open>pt\<close> of \<open>main\<close>: whether it is active, and the seconds until it fires again.\<close>

record poll_timer =
  pt_on :: bool
  pt_repeat :: nat

definition plugins_check_cb :: "('k \<Rightarrow> 'f) \<Rightarrow> ('f \<Rightarrow> rfx_state \<Rightarrow> rfx_state res) \<Rightarrow>
    ('f \<Rightarrow> rfx_state \<Rightarrow> (bool \<times> 'f \<times> rfx_state) res) \<Rightarrow> string \<Rightarrow>
    (string \<Rightarrow> 'k dlobject option \<times> int option) \<Rightarrow> int \<Rightarrow> poll_timer \<Rightarrow> ('k, 'f) front \<Rightarrow>
    (poll_timer \<times> ('k, 'f) front) res" where
  "plugins_check_cb nf sv ld api_ver env now t fr =
     (let t = t\<lparr>pt_on := False\<rparr>; pm = px_pm (fr_px fr)
      in rbind (reload_plugins nf sv ld api_ver env now (pm_plugins pm) (pm_insts pm)) (\<lambda>(ms, h).
           let t = t\<lparr>pt_repeat := 1\<rparr>
           in Inr (t\<lparr>pt_on := True\<rparr>, fr\<lparr>fr_px := (fr_px fr)\<lparr>px_pm := pm\<lparr>pm_plugins := ms, pm_insts := h\<rparr>\<rparr>\<rparr>)))"

text \<open>The callback always sets the timer again, and what it does to the state is a step of the run.\<close>

lemma plugins_check_step:
  assumes "plugins_check_cb nf sv ld api_ver env now t fr = Inr (t', fr')"
  shows "pt_on t' \<and> pt_repeat t' = 1 \<and> front_step pp pe nf sv ld api_ver fr fr'"
proof -
  let ?pm = "px_pm (fr_px fr)"
  obtain ms h where r: "reload_plugins nf sv ld api_ver env now (pm_plugins ?pm) (pm_insts ?pm) = Inr (ms, h)"
    and e: "t' = t\<lparr>pt_on := True, pt_repeat := 1\<rparr>" "fr' = fr\<lparr>fr_px := (fr_px fr)\<lparr>px_pm := ?pm\<lparr>pm_plugins := ms, pm_insts := h\<rparr>\<rparr>\<rparr>"
    using assms by (auto simp: plugins_check_cb_def Let_def rbind_eq_Inr)
  show ?thesis
    using front_step.inside [OF px_step.reload [OF r]] by (simp add: e live_sessions_def)
qed

lemma plugins_check_safe:
  assumes "loaded fs api_ver (fr_px fr)"
  shows "\<exists>t' fr'. plugins_check_cb flt_new flt_save flt_load api_ver env now t fr = Inr (t', fr')"
proof -
  obtain lost where ok: "px_ok flt_ok lost (fr_px fr)" "\<forall>m \<in> set (pm_plugins (px_pm (fr_px fr))). module_ready m"
    by (rule loaded_ok [OF assms])
  then show ?thesis
    by (cases rule: plugins.px_reload_ok [OF ok(1), of api_ver env now])
      (auto simp: plugins_check_cb_def Let_def)
qed

section \<open>Properties\<close>

text \<open>A small run: three modules are found, one client is connected at once, another one has to wait.\<close>

definition demo_env :: "string \<Rightarrow> flt_kind dlobject option \<times> int option" where
  "demo_env so = (Some \<lparr>dl_sig = Some ''1'', dl_filter = Some (if so = ''dl/rfx_chat.so'' then KindChat
     else if so = ''dl/rfx_loot.so'' then KindLoot else KindDebug)\<rparr>, Some 0)"

definition demo_link :: link where
  "demo_link = (let so = \<lparr>so_rd = [], so_wr = \<lparr>wr_script = [], wr_errno = EAGAIN, wr_out = []\<rparr>, so_shut_rd = False, so_shut_wr = False\<rparr>;
       j = (replicate 4 0, replicate WRIVCNT \<lparr>iov_pkt = 0, iov_off = 0, iov_len = 0\<rparr>)
     in \<lparr>ln_cli = so, ln_srv = so, ln_junk1 = j, ln_junk2 = j\<rparr>)"

definition demo_turns :: "turn list" where
  "demo_turns = [\<lparr>tu_socket = True, tu_nonblock = True, tu_connect = Connected, tu_link = demo_link\<rparr>,
     \<lparr>tu_socket = False, tu_nonblock = True, tu_connect = Connected, tu_link = demo_link\<rparr>,
     \<lparr>tu_socket = True, tu_nonblock = True, tu_connect = InProgress, tu_link = demo_link\<rparr>]"

definition demo_fds :: "nat list" where
  "demo_fds = [0, 1, 2]"

lemma demo_main:
  obtains fr0 :: "(flt_kind, flt) front"
  where "rfx_main ''1'' demo_env (\<lambda>_. Some 0) True True True True demo_fds = Inr (3, fr0)"
    "list_all module_ready (pm_plugins (px_pm (fr_px fr0)))" "fr_fds fr0 = 3 # demo_fds" "fr_boots fr0 = []" "fr_conns fr0 = []"
proof -
  let ?ms = "load_plugins ''1'' (map (\<lambda>so. (so, demo_env so)) plugin_names)"
  have "fst (init_addr (\<lambda>_. Some 0) bind_addr) = 0" "fst (init_addr (\<lambda>_. Some 0) rf_addr) = 0" by code_simp+
  moreover have "lowest_fd demo_fds = 3" by (simp add: lowest_fd_def demo_fds_def)
  ultimately have "rfx_main ''1'' demo_env (\<lambda>_. Some 0) True True True True demo_fds =
      Inr (3, \<lparr>fr_px = px_start ?ms, fr_fds = 3 # demo_fds, fr_boots = [], fr_conns = []\<rparr>)"
    by (simp add: rfx_main_def make_listen_socket_def)
  moreover have "list_all module_ready ?ms"
    by (simp add: plugin_names_def demo_env_def module_load_def rfx_module_new_def module_ready_def Let_def)
  ultimately show thesis
    by (intro that [of "\<lparr>fr_px = px_start ?ms, fr_fds = 3 # demo_fds, fr_boots = [], fr_conns = []\<rparr>"]) (simp_all add: px_start_def)
qed

lemma demo_front:
  obtains fr0 fr where "rfx_main ''1'' demo_env (\<lambda>_. Some 0) True True True True demo_fds = Inr (3, fr0)"
    "list_all module_ready (pm_plugins (px_pm (fr_px fr0)))"
    "front_reach flt_process_pkt (flt_process_ev fs) flt_new flt_save flt_load ''1'' fr0 fr"
    "fr_conns fr = [(4, 5)]" "fr_boots fr = [Some (bootstrap_start (bootstrap_new 6 7))]"
proof -
  obtain fr0 :: "(flt_kind, flt) front" where
    fr0: "rfx_main ''1'' demo_env (\<lambda>_. Some 0) True True True True demo_fds = Inr (3, fr0)"
      "list_all module_ready (pm_plugins (px_pm (fr_px fr0)))" "fr_fds fr0 = 3 # demo_fds" "fr_boots fr0 = []" "fr_conns fr0 = []"
    by (rule demo_main)
  have ok: "front_ok (loaded fs ''1'') {#3, 0, 1, 2#} fr0"
    using main_start_ok [OF fr0(1) _ fr0(2)] by (simp add: demo_fds_def)
  have links: "list_all (\<lambda>t. link_ok (tu_link t)) demo_turns"
    by (simp add: demo_turns_def demo_link_def link_ok_def junk_ok_def Let_def)
  obtain fr where fr: "cli_connect_cb flt_new demo_turns fr0 = Inr fr" using started.cli_connect_cb_ok [OF ok links] by blast
  have reach: "front_reach flt_process_pkt (flt_process_ev fs) flt_new flt_save flt_load ''1'' fr0 fr"
    by (rule front_reach.step [OF front_reach.start front_step.clients [OF links fr]])
  have "fr_conns fr = [(4, 5)]" "fr_boots fr = [Some (bootstrap_start (bootstrap_new 6 7))]"
    using fr fr0(3-5) by (auto simp: demo_turns_def demo_fds_def connect_turn_def open_fd_def lowest_fd_def Let_def front_run_def
        rbind_eq_Inr close_fd_def bootstrap_start_def bootstrap_new_def)
  with fr0(1,2) reach show thesis by (rule that)
qed

text \<open>
  C5. At any time of a run that began with all modules found, every open descriptor has exactly one owner: it was open
  before, or it is the listening socket, or it is one of the two of a connection being established or of one
  live session. So no descriptor leaks when a connection fails, times out or ends, and none is shared.
\<close>

theorem frontend_one_owner:
  assumes "rfx_main api_ver env resolve s n b k fds = Inr (l, fr0)" and "distinct fds"
    and "list_all module_ready (pm_plugins (px_pm (fr_px fr0)))"
    and "front_reach flt_process_pkt (flt_process_ev fs) flt_new flt_save flt_load api_ver fr0 fr"
  shows "distinct (fr_fds fr) \<and> mset (fr_fds fr) = add_mset l (mset fds) + fd_owned fr"
  using run_ok [OF assms(4,1,2,3)] by (simp add: front_ok_def)

lemma frontend_one_owner_witness:
  "\<exists>fr :: (flt_kind, flt) front. fr_conns fr = [(4, 5)] \<and> fr_boots fr = [Some (bootstrap_start (bootstrap_new 6 7))] \<and>
     distinct (fr_fds fr) \<and> mset (fr_fds fr) = {#3, 0, 1, 2#} + fd_owned fr"
proof -
  obtain fr0 fr where d: "rfx_main ''1'' demo_env (\<lambda>_. Some 0) True True True True demo_fds = Inr (3, fr0)"
      "list_all module_ready (pm_plugins (px_pm (fr_px fr0)))"
      "front_reach flt_process_pkt (flt_process_ev (\<lambda>_. None)) flt_new flt_save flt_load ''1'' fr0 fr"
      "fr_conns fr = [(4, 5)]" "fr_boots fr = [Some (bootstrap_start (bootstrap_new 6 7))]"
    by (rule demo_front)
  have "distinct demo_fds" by (simp add: demo_fds_def)
  from frontend_one_owner [OF d(1) this d(2,3)] show ?thesis using d(4,5) by (auto simp: demo_fds_def)
qed

text \<open>
  C7. In such a state every callback of the outside finishes without closing a descriptor that is not open,
  reaching an object that is gone or leaving a watcher of a deleted object active: the acceptance of any
  clients, both ends of an attempt to connect, and the end of a session whose callback has returned.
\<close>

theorem frontend_callbacks_safe:
  assumes "rfx_main api_ver env resolve s n b k fds = Inr (l, fr0)" and "distinct fds"
    and "list_all module_ready (pm_plugins (px_pm (fr_px fr0)))"
    and "front_reach flt_process_pkt (flt_process_ev fs) flt_new flt_save flt_load api_ver fr0 fr"
  shows "(\<forall>ts. list_all (\<lambda>t. link_ok (tu_link t)) ts \<longrightarrow> (\<exists>f. cli_connect_cb flt_new ts fr = Inr f)) \<and>
    (\<forall>i w. boot_get i fr = Inr w \<longrightarrow> bo_io_on w \<and>
       (\<forall>so_error ln. link_ok ln \<longrightarrow> (\<exists>f. bootstrap_io_cb flt_new so_error ln i fr = Inr f)) \<and>
       (\<forall>pending. \<exists>f. bootstrap_tmr_cb pending i (timer_fired i w fr) = Inr f)) \<and>
    (\<forall>c x st pm d er ew. px_session c (fr_px fr) = Some x \<and> (er \<longrightarrow> pp_in_on (se_pipe d x)) \<and> (ew \<longrightarrow> pp_out_on (se_pipe d x)) \<and>
       session_io flt_process_pkt (flt_process_ev fs) d er ew x (px_store (fr_px fr)) (px_pm (fr_px fr)) = Some (Inr (None, st, pm)) \<longrightarrow>
       (\<exists>f. session_close c (fr\<lparr>fr_px := px_put c None st pm (fr_px fr)\<rparr>) = Inr f))"
proof -
  note ok = run_ok [OF assms(4,1,2,3)]
  have "\<exists>f. cli_connect_cb flt_new ts fr = Inr f" if "list_all (\<lambda>t. link_ok (tu_link t)) ts" for ts
    using started.cli_connect_cb_ok [OF ok that] by blast
  moreover have "bo_io_on w \<and> (\<forall>so_error ln. link_ok ln \<longrightarrow> (\<exists>f. bootstrap_io_cb flt_new so_error ln i fr = Inr f)) \<and>
      (\<forall>pending. \<exists>f. bootstrap_tmr_cb pending i (timer_fired i w fr) = Inr f)" if w: "boot_get i fr = Inr w" for i w
  proof (intro conjI allI impI)
    show "bo_io_on w" using ok w nth_mem by (fastforce simp: front_ok_def boot_get_def split: if_splits option.splits)
    show "\<exists>f. bootstrap_io_cb flt_new so_error ln i fr = Inr f" if "link_ok ln" for so_error ln
      using started.bootstrap_io_cb_ok [OF ok w that] by blast
    show "\<exists>f. bootstrap_tmr_cb pending i (timer_fired i w fr) = Inr f" for pending
      using bootstrap_tmr_cb_ok [OF timer_fired_ok [OF ok w]] by blast
  qed
  moreover have "\<exists>f. session_close c (fr\<lparr>fr_px := px_put c None st pm (fr_px fr)\<rparr>) = Inr f"
    if c: "px_session c (fr_px fr) = Some x" "er \<longrightarrow> pp_in_on (se_pipe d x)" "ew \<longrightarrow> pp_out_on (se_pipe d x)"
      "session_io flt_process_pkt (flt_process_ev fs) d er ew x (px_store (fr_px fr)) (px_pm (fr_px fr)) = Some (Inr (None, st, pm))"
    for c x st pm d er ew
    using started.session_close_ok [OF ok c(1) px_step.io [OF c]] by blast
  ultimately show ?thesis by blast
qed

lemma frontend_callbacks_safe_witness:
  "\<exists>fr :: (flt_kind, flt) front. fr_conns fr = [(4, 5)] \<and> boot_get 0 fr = Inr (bootstrap_start (bootstrap_new 6 7)) \<and>
     (\<exists>f. bootstrap_io_cb flt_new (Some 111) demo_link 0 fr = Inr f) \<and>
     (\<exists>f. bootstrap_tmr_cb False 0 (timer_fired 0 (bootstrap_start (bootstrap_new 6 7)) fr) = Inr f)"
proof -
  obtain fr0 fr where d: "rfx_main ''1'' demo_env (\<lambda>_. Some 0) True True True True demo_fds = Inr (3, fr0)"
      "list_all module_ready (pm_plugins (px_pm (fr_px fr0)))"
      "front_reach flt_process_pkt (flt_process_ev (\<lambda>_. None)) flt_new flt_save flt_load ''1'' fr0 fr"
      "fr_conns fr = [(4, 5)]" "fr_boots fr = [Some (bootstrap_start (bootstrap_new 6 7))]"
    by (rule demo_front)
  have "distinct demo_fds" "link_ok demo_link" by (simp_all add: demo_fds_def demo_link_def link_ok_def junk_ok_def Let_def)
  moreover have "boot_get 0 fr = Inr (bootstrap_start (bootstrap_new 6 7))" using d(5) by (simp add: boot_get_def)
  ultimately show ?thesis using d(4) frontend_callbacks_safe [OF d(1) _ d(2,3)] by blast
qed

end
