(* ===== verification/Mconf_Values.thy ===== *)
theory Mconf_Values
  imports Text_Util
begin

text \<open>
  The values of the option parser \<^verbatim>\<open>lib/mconf.c\<close>: the setters, which read a value from text, and the
  getters, which write it into a buffer of \<open>maxlen\<close> bytes. A C string is the list of its bytes before
  the NUL; \<open>strtol\<close>, \<open>strtoul\<close> (base 0, \<open>long\<close> of 64 bits) and \<open>snprintf\<close> are written out, the tables of
  \<open>syslog.h\<close> are a parameter. A setter returns \<open>None\<close>, or \<open>False\<close>, where the code returns -1. Shown: what
  a getter prints, the setter reads back as the same value; no getter writes outside the buffer.
\<close>

section \<open>The C library\<close>

definition isalpha :: "u8 \<Rightarrow> bool" where
  "isalpha c \<longleftrightarrow> 0x41 \<le> c \<and> c \<le> 0x5a \<or> 0x61 \<le> c \<and> c \<le> 0x7a"

definition isalnum :: "u8 \<Rightarrow> bool" where
  "isalnum c \<longleftrightarrow> isalpha c \<or> isdigit c"

definition tolower :: "u8 \<Rightarrow> u8" where
  "tolower c = (if 0x41 \<le> c \<and> c \<le> 0x5a then c + 0x20 else c)"

definition strcasecmp_eq :: "bytes \<Rightarrow> bytes \<Rightarrow> bool" where
  "strcasecmp_eq a b \<longleftrightarrow> List.map tolower a = List.map tolower b"

fun strstr :: "bytes \<Rightarrow> bytes \<Rightarrow> bool" where
  "strstr [] n \<longleftrightarrow> n = []"
| "strstr (x # s) n \<longleftrightarrow> take (length n) (x # s) = n \<or> strstr s n"

definition digit_val :: "u8 \<Rightarrow> nat" where
  "digit_val c = (if isdigit c then unat (c - 0x30) else if isalpha c then unat (tolower c - 0x61) + 10 else 36)"

definition digits_val :: "nat \<Rightarrow> bytes \<Rightarrow> nat" where
  "digits_val base ds = fold (\<lambda>c v. v * base + digit_val c) ds 0"

definition strto_sign :: "bytes \<Rightarrow> bool \<times> bytes" where
  "strto_sign s = (case s of [] \<Rightarrow> (False, s) | c # r \<Rightarrow> if c = 0x2d then (True, r) else if c = 0x2b then (False, r) else (False, s))"

definition strto_base :: "bytes \<Rightarrow> nat \<times> bytes" where
  "strto_base s =
     (if 3 \<le> length s \<and> s ! 0 = 0x30 \<and> (s ! 1 = 0x78 \<or> s ! 1 = 0x58) \<and> isxdigit (s ! 2) then (16, drop 2 s)
      else if s \<noteq> [] \<and> hd s = 0x30 then (8, s) else (10, s))"

text \<open>The sign, the number and what follows it; the whole text follows when there is no number.\<close>

definition strto :: "bytes \<Rightarrow> bool \<times> nat \<times> bytes" where
  "strto s =
     (let (neg, s2) = strto_sign (dropWhile isspace s); (base, s3) = strto_base s2;
          ds = takeWhile (\<lambda>c. digit_val c < base) s3
      in if ds = [] then (False, 0, s) else (neg, digits_val base ds, drop (length ds) s3))"

definition LONG_MAX :: int where "LONG_MAX = 2 ^ 63 - 1"
definition LONG_MIN :: int where "LONG_MIN = - (2 ^ 63)"

text \<open>The value of \<open>strtol\<close>, whether it has set \<open>errno\<close> to \<open>ERANGE\<close>, and the rest.\<close>

definition strtol :: "bytes \<Rightarrow> int \<times> bool \<times> bytes" where
  "strtol s = (case strto s of (neg, m, r) \<Rightarrow>
     let v = (if neg then - int m else int m)
     in if v > LONG_MAX then (LONG_MAX, True, r) else if v < LONG_MIN then (LONG_MIN, True, r) else (v, False, r))"

definition strtoul :: "bytes \<Rightarrow> 64 word \<times> bytes" where
  "strtoul s = (case strto s of (neg, m, r) \<Rightarrow>
     (if 2 ^ 64 \<le> int m then - 1 else if neg then - of_nat m else of_nat m, r))"

text \<open>\<open>snprintf\<close> of the text \<open>t\<close>: the length of the whole text, and the buffer.\<close>

definition snprintf :: "bytes \<Rightarrow> nat \<Rightarrow> bytes \<Rightarrow> (nat \<times> bytes) res" where
  "snprintf buf maxlen t =
     (if maxlen = 0 then Inr (length t, buf)
      else rbind (poke buf 0 (take (maxlen - 1) t @ [0])) (\<lambda>b. Inr (length t, b)))"

text \<open>\<open>facilitynames\<close> and \<open>prioritynames\<close> of \<open>syslog.h\<close>, up to the entry without a name.\<close>

type_synonym codes = "(bytes \<times> u32) list"

fun find_code :: "codes \<Rightarrow> bytes \<Rightarrow> u32 option" where
  "find_code [] n = None"
| "find_code ((name, v) # cs) n = (if name = n then Some v else find_code cs n)"

abbreviation LOG_PERROR :: u32 where "LOG_PERROR \<equiv> 0x20"

record logopts =
  lo_facility :: u32
  lo_opts :: u32

section \<open>Setters\<close>

text \<open>\<open>mconf_set_aval\<close>; \<open>erange\<close>: whether \<open>errno\<close> is \<open>ERANGE\<close> already when it is called.\<close>

definition mconf_set_aval :: "bool \<Rightarrow> bytes \<Rightarrow> u32 option" where
  "mconf_set_aval erange value =
     (if strcasecmp_eq value (asc ''auto'') then Some (- 1)
      else case strtol value of (v, over, ep) \<Rightarrow>
        if (v = LONG_MIN \<or> v = LONG_MAX) \<and> (erange \<or> over) then None
        else if ep \<noteq> [] \<and> \<not> isspace (hd ep) then None
        else Some (word_of_int v))"

definition mconf_set_uint_size :: "bytes \<Rightarrow> u32 option" where
  "mconf_set_uint_size value =
     (case strtoul value of (v, ep) \<Rightarrow>
        if ep = [] \<or> hd ep \<in> {9, 10, 13, 0x23, 0x20} then Some (ucast v)
        else if hd ep = 0x6b \<or> hd ep = 0x4b then Some (ucast (push_bit 10 v))
        else if hd ep = 0x6d \<or> hd ep = 0x4d then Some (ucast (push_bit 20 v))
        else if hd ep = 0x67 \<or> hd ep = 0x47 then Some (ucast (push_bit 30 v))
        else None)"

text \<open>The structure is cleared before the name is looked up.\<close>

definition mconf_set_logopts :: "codes \<Rightarrow> bytes \<Rightarrow> bool \<times> logopts" where
  "mconf_set_logopts fac value =
     (case find_code fac (takeWhile isalnum value) of
        None \<Rightarrow> (False, \<lparr>lo_facility = 0, lo_opts = 0\<rparr>)
      | Some v \<Rightarrow> (True, \<lparr>lo_facility = v, lo_opts = (if strstr value (asc ''(stderr)'') then LOG_PERROR else 0)\<rparr>))"

definition level_sign :: "bytes \<Rightarrow> bool \<times> bytes" where
  "level_sign value = (if value \<noteq> [] \<and> hd value = 0x2d then (True, tl value) else (False, value))"

function mconf_set_loglevel :: "codes \<Rightarrow> bytes \<Rightarrow> u32 \<Rightarrow> bool \<times> u32" where
  "mconf_set_loglevel pri value lv =
     (if value = [] then (True, lv)
      else
        let (unset, v1) = level_sign value; name = takeWhile isalnum v1
        in if name = [] \<and> v1 \<noteq> [] then (False, lv)
           else case find_code pri name of
               None \<Rightarrow> (False, lv)
             | Some c \<Rightarrow>
                 let m = push_bit (unat c) 1;
                     rest = dropWhile (\<lambda>c. isspace c \<or> c = 0x2c) (drop (length name) v1)
                 in mconf_set_loglevel pri rest (if unset then lv AND NOT m else lv OR m))"
  by pat_completeness auto
termination
proof (relation "measure (\<lambda>(pri, value, lv). length value)", goal_cases)
  case (2 pri val lv x unset v1 name c m rest)
  have "length rest \<le> length (drop (length name) v1)" using 2 by (simp only: length_dropWhile_le)
  moreover have "length (drop (length name) v1) < length val"
    using 2(1-5) by (cases val; cases name) (auto simp: level_sign_def split: if_splits)
  ultimately show ?case by simp
qed simp

declare mconf_set_loglevel.simps [simp del]

section \<open>Getters\<close>

text \<open>The return value and the buffer.\<close>

definition mconf_get_string :: "bytes option \<Rightarrow> bytes \<Rightarrow> nat \<Rightarrow> (int \<times> bytes) res" where
  "mconf_get_string s buf maxlen =
     (case s of None \<Rightarrow> Inr (0, buf)
      | Some t \<Rightarrow> rbind (poke buf 0 (take maxlen t)) (\<lambda>b. Inr (int (min maxlen (length t)), b)))"

definition fit :: "nat \<Rightarrow> nat \<times> bytes \<Rightarrow> (int \<times> bytes) res" where
  "fit maxlen r = Inr (if fst r < maxlen then int (fst r) else - 1, snd r)"

definition mconf_get_aval :: "u32 \<Rightarrow> bytes \<Rightarrow> nat \<Rightarrow> (int \<times> bytes) res" where
  "mconf_get_aval v buf maxlen =
     (if v = - 1 then
        if maxlen < 4 then Inr (- 1, buf) else rbind (poke buf 0 (asc ''auto'')) (\<lambda>b. Inr (4, b))
      else rbind (snprintf buf maxlen (dec (unat v))) (fit maxlen))"

definition size_text :: "u32 \<Rightarrow> bytes" where
  "size_text v =
     (if v AND mask 30 = 0 then dec (unat (drop_bit 30 v)) @ [0x67]
      else if v AND mask 20 = 0 then dec (unat (drop_bit 20 v)) @ [0x6d]
      else if v AND mask 10 = 0 then dec (unat (drop_bit 10 v)) @ [0x6b]
      else dec (unat v))"

definition mconf_get_uint_size :: "u32 \<Rightarrow> bytes \<Rightarrow> nat \<Rightarrow> (int \<times> bytes) res" where
  "mconf_get_uint_size v buf maxlen = rbind (snprintf buf maxlen (size_text v)) (fit maxlen)"

fun find_name :: "codes \<Rightarrow> u32 \<Rightarrow> bytes option" where
  "find_name [] v = None"
| "find_name ((name, c) # cs) v = (if v = c then Some name else find_name cs v)"

definition mconf_get_logopts :: "codes \<Rightarrow> logopts \<Rightarrow> bytes \<Rightarrow> nat \<Rightarrow> (int \<times> bytes) res" where
  "mconf_get_logopts fac lo buf maxlen =
     rbind (case find_name fac (lo_facility lo) of
          None \<Rightarrow> Inr (Some (0, buf))
        | Some name \<Rightarrow> if maxlen \<le> length name then Inr None else rbind (poke buf 0 (name @ [0])) (\<lambda>b. Inr (Some (length name, b))))
       (\<lambda>r. case r of
          None \<Rightarrow> Inr (- 1, buf)
        | Some (l, b) \<Rightarrow>
            if lo_opts lo AND LOG_PERROR = 0 then Inr (int l, b)
            else if maxlen \<le> l + 8 then Inr (- 1, b)
            else rbind (poke b l (asc ''(stderr)'' @ [0])) (\<lambda>b. Inr (int (l + 8), b)))"

fun loglevel_loop :: "codes \<Rightarrow> u32 \<Rightarrow> nat \<Rightarrow> bytes \<Rightarrow> nat \<Rightarrow> (int \<times> bytes) res" where
  "loglevel_loop [] lv l buf maxlen = Inr (int l, buf)"
| "loglevel_loop ((name, c) # cs) lv l buf maxlen =
     (let m = push_bit (unat c) 1; sep = (if l = 0 then [] else [0x2c])
      in if lv AND m = 0 then loglevel_loop cs (lv AND NOT m) l buf maxlen
         else if maxlen \<le> l + length name + 1 then Inr (- 1, buf)
         else rbind (poke buf l (sep @ name @ [0])) (\<lambda>b.
                loglevel_loop cs (lv AND NOT m) (l + length (sep @ name)) b maxlen))"

definition mconf_get_loglevel :: "codes \<Rightarrow> u32 \<Rightarrow> bytes \<Rightarrow> nat \<Rightarrow> (int \<times> bytes) res" where
  "mconf_get_loglevel pri lv buf maxlen = loglevel_loop pri lv 0 buf maxlen"

section \<open>Getters stay inside the buffer\<close>

lemma snprintf_total: "maxlen \<le> length buf \<Longrightarrow> \<exists>b. snprintf buf maxlen t = Inr (length t, b) \<and> length b = length buf \<and>
    (length t < maxlen \<longrightarrow> take (length t) b = t)"
proof (cases "maxlen = 0")
  case False
  assume m: "maxlen \<le> length buf"
  have "length (take (maxlen - 1) t @ [0]) \<le> length buf" using False m by simp
  then show ?thesis using False by (simp add: snprintf_def)
qed (simp add: snprintf_def)

lemma loglevel_loop_total:
  assumes "maxlen \<le> length buf" and "l < maxlen"
  shows "\<exists>r b. loglevel_loop cs lv l buf maxlen = Inr (r, b) \<and> length b = length buf \<and> r < int maxlen"
  using assms
proof (induction cs arbitrary: lv l buf)
  case (Cons nc cs)
  obtain name c where nc: "nc = (name, c)" by (cases nc)
  show ?case
  proof (cases "lv AND push_bit (unat c) 1 = 0 \<or> maxlen \<le> l + length name + 1")
    case True
    then show ?thesis using Cons.prems Cons.IH [of buf l] by (auto simp: nc Let_def)
  next
    case False
    let ?t = "(if l = 0 then [] else [0x2c]) @ name"
    have fits: "l + length (?t @ [0]) \<le> length buf" using False Cons.prems by (simp split: if_split)
    define b where "b = take l buf @ (?t @ [0]) @ drop (l + length (?t @ [0])) buf"
    have "length b = length buf" using fits Cons.prems by (simp add: b_def)
    moreover have "poke buf l (?t @ [0]) = Inr b" using fits unfolding b_def by (rule poke_in)
    ultimately show ?thesis
      using False fits Cons.prems Cons.IH [of b "l + length ?t" "lv AND NOT (push_bit (unat c) 1)"] by (auto simp: nc Let_def)
  qed
qed simp

section \<open>Numbers\<close>

lemma digit_val_dec:
  assumes "d < 10"
  shows "digit_val (0x30 + of_nat d) = d" "tolower (0x30 + of_nat d) = 0x30 + of_nat d" "(0x30 + of_nat d :: u8) \<noteq> 0x61"
    "(0x30 + of_nat d :: u8) = 0x30 \<longleftrightarrow> d = 0"
proof -
  have 16: "d < 16" using assms by simp
  have "digit_val (0x30 + of_nat d) = d \<and> tolower (0x30 + of_nat d) = 0x30 + of_nat d \<and> (0x30 + of_nat d :: u8) \<noteq> 0x61 \<and>
      ((0x30 + of_nat d :: u8) = 0x30 \<longleftrightarrow> d = 0) \<or> \<not> d < 10"
    by (rule less_16I [OF _ 16]) code_simp
  then show "digit_val (0x30 + of_nat d) = d" "tolower (0x30 + of_nat d) = 0x30 + of_nat d" "(0x30 + of_nat d :: u8) \<noteq> 0x61"
    "(0x30 + of_nat d :: u8) = 0x30 \<longleftrightarrow> d = 0"
    using assms by auto
qed

lemma digits_val_append: "digits_val b (xs @ [c]) = digits_val b xs * b + digit_val c"
  by (simp add: digits_val_def)

lemma digits_val_dec: "digits_val 10 (dec n) = n"
proof (induction n rule: dec.induct)
  case (1 n)
  show ?case
  proof (cases "n < 10")
    case True
    then show ?thesis using digit_val_dec(1) [of n] by (subst dec.simps) (simp add: digits_val_def)
  next
    case False
    then show ?thesis using 1 digit_val_dec(1) [of "n mod 10"]
      by (subst dec.simps) (simp add: digits_val_append)
  qed
qed

lemma dec_hd: "0 < n \<Longrightarrow> \<exists>d r. 0 < d \<and> d < 10 \<and> dec n = (0x30 + of_nat d) # r"
proof (induction n rule: dec.induct)
  case (1 n)
  show ?case
  proof (cases "n < 10")
    case True
    then show ?thesis using 1(2) by (subst dec.simps) auto
  next
    case False
    then have "0 < n div 10" by (simp add: div_greater_zero_iff)
    then obtain d r where "0 < d" "d < 10" "dec (n div 10) = (0x30 + of_nat d) # r" using 1(1) False by blast
    then show ?thesis using False by (subst dec.simps) auto
  qed
qed

lemma dec_length_le: "n < 10 ^ Suc k \<Longrightarrow> length (dec n) \<le> Suc k"
proof (induction k arbitrary: n)
  case 0
  then show ?case by (subst dec.simps) simp
next
  case (Suc k)
  have "length (dec (n div 10)) \<le> Suc k" by (rule Suc.IH) (use Suc.prems in auto)
  then show ?case by (subst dec.simps) simp
qed

text \<open>A number is read back when what follows it cannot continue it.\<close>

lemma strto_dec:
  assumes r: "r = [] \<or> 10 \<le> digit_val (hd r) \<and> hd r \<noteq> 0x78 \<and> hd r \<noteq> 0x58"
  shows "strto (dec n @ r) = (False, n, r)"
proof -
  have split: "takeWhile (\<lambda>c. digit_val c < b) (ds @ r) = ds"
    if "\<forall>c \<in> set ds. digit_val c < b" "b \<le> 10" for ds and b :: nat
    using that r by (cases r) auto
  show ?thesis
  proof (cases "n = 0")
    case True
    have 0: "dec n = [0x30]" using True by (subst dec.simps) simp
    have "digit_val 0x30 = 0" using digit_val_dec(1) [of 0] by simp
    then have "takeWhile (\<lambda>c. digit_val c < 8) (0x30 # r) = [0x30]" "digits_val 8 [0x30] = 0"
      using split [of "[0x30]" 8] by (simp_all add: digits_val_def)
    moreover have "dropWhile isspace (0x30 # r) = 0x30 # r" "strto_sign (0x30 # r) = (False, 0x30 # r)"
      by (simp_all add: isspace_def strto_sign_def)
    moreover have "strto_base (0x30 # r) = (8, 0x30 # r)" using r by (cases r) (auto simp: strto_base_def)
    ultimately show ?thesis using 0 True by (simp add: strto_def Let_def)
  next
    case False
    then obtain d rs where d: "0 < d" "d < 10" "dec n = (0x30 + of_nat d) # rs" using dec_hd by blast
    have "\<forall>c \<in> set (dec n). digit_val c < 10" using dec_digits digit_val_dec(1) by fastforce
    then have "takeWhile (\<lambda>c. digit_val c < 10) (dec n @ r) = dec n" by (rule split) simp
    moreover have "dropWhile isspace (dec n @ r) = dec n @ r" "strto_sign (dec n @ r) = (False, dec n @ r)"
      using d digit_facts(3,4) [of d] by (auto simp: strto_sign_def)
    moreover have "strto_base (dec n @ r) = (10, dec n @ r)" using d digit_val_dec(4) [of d] by (simp add: strto_base_def)
    ultimately show ?thesis using digits_val_dec [of n] dec_not_Nil [of n] by (simp add: strto_def Let_def)
  qed
qed

lemma ucast_push_drop:
  fixes v :: u32
  assumes "v AND mask k = 0"
  shows "ucast (push_bit k (of_nat (unat (drop_bit k v)) :: 64 word)) = v"
proof (rule bit_eqI)
  fix i assume "possible_bit TYPE(u32) i"
  then have i: "i < 32" by simp
  have "\<not> bit v i" if "i < k"
    using arg_cong [OF assms, of "\<lambda>w. bit w i"] that i by (simp add: bit_and_iff bit_mask_iff)
  then show "bit (ucast (push_bit k (of_nat (unat (drop_bit k v)) :: 64 word)) :: u32) i \<longleftrightarrow> bit v i"
    using i by (cases "k \<le> i") (auto simp: bit_ucast_iff bit_push_bit_iff bit_drop_bit_eq dest: bit_imp_le_length)
qed

lemma set_uint_size_dec:
  fixes v :: u32
  assumes "v AND mask k = 0" and "(k, r) \<in> {(0, []), (10, [0x6b]), (20, [0x6d]), (30, [0x67])}"
  shows "mconf_set_uint_size (dec (unat (drop_bit k v)) @ r) = Some v"
proof -
  have "digit_val 0x6b = 20" "digit_val 0x6d = 22" "digit_val 0x67 = 16" by code_simp+
  then have "strto (dec (unat (drop_bit k v)) @ r) = (False, unat (drop_bit k v), r)"
    using assms(2) by (intro strto_dec) auto
  moreover have "unat (drop_bit k v) < 2 ^ LENGTH(32)" by (rule unsigned_less)
  then have "\<not> 2 ^ 64 \<le> int (unat (drop_bit k v))" by (simp del: of_nat_unat)
  ultimately have "strtoul (dec (unat (drop_bit k v)) @ r) = (of_nat (unat (drop_bit k v)), r)"
    by (simp add: strtoul_def del: of_nat_unat)
  then show ?thesis using ucast_push_drop [OF assms(1)] assms(2)
    by (auto simp: mconf_set_uint_size_def simp del: of_nat_unat)
qed

lemma set_size_text: "mconf_set_uint_size (size_text v) = Some v"
  using set_uint_size_dec [of v 30 "[0x67]"] set_uint_size_dec [of v 20 "[0x6d]"] set_uint_size_dec [of v 10 "[0x6b]"]
    set_uint_size_dec [of v 0 "[]"]
  by (auto simp: size_text_def)

lemma size_text_length: "length (size_text v) \<le> 10"
proof -
  have "unat v < 2 ^ LENGTH(32)" by (rule unsigned_less)
  then have n: "unat v < 10 ^ Suc 9" by simp
  have *: "length (dec (unat (drop_bit k v))) \<le> 9" if "10 \<le> k" for k
  proof -
    have "unat (drop_bit k v) = unat v div 2 ^ k" by (simp only: unat_drop_bit_eq flip: drop_bit_eq_div)
    moreover have "(2::nat) ^ 10 \<le> 2 ^ k" using that by (rule power_increasing) simp
    then have "unat v div 2 ^ k \<le> unat v div 2 ^ 10" by (rule div_le_mono2 [rotated]) simp
    ultimately have "unat (drop_bit k v) < 10 ^ Suc 8" using n by simp
    from dec_length_le [OF this] show ?thesis by simp
  qed
  show ?thesis using * [of 30] * [of 20] * [of 10] dec_length_le [OF n] by (simp add: size_text_def)
qed

lemma set_aval_dec: "v \<noteq> - 1 \<Longrightarrow> mconf_set_aval erange (dec (unat v)) = Some v"
proof -
  have "dec (unat v) \<noteq> []" by (rule dec_not_Nil)
  then have "hd (dec (unat v)) \<in> set (dec (unat v))" by simp
  then obtain d where "d < 10" "hd (dec (unat v)) = 0x30 + of_nat d" using dec_digits by blast
  then have "\<not> strcasecmp_eq (dec (unat v)) (asc ''auto'')"
    using digit_val_dec(2,3) [of d] dec_not_Nil [of "unat v"]
    by (cases "dec (unat v)") (auto simp: strcasecmp_eq_def asc_def tolower_def)
  moreover have "strto (dec (unat v)) = (False, unat v, [])" using strto_dec [of "[]" "unat v"] by simp
  moreover have "unat v < 2 ^ LENGTH(32)" by (rule unsigned_less)
  then have "int (unat v) < LONG_MAX" "LONG_MIN < int (unat v)" by (simp_all add: LONG_MAX_def LONG_MIN_def del: of_nat_unat)
  ultimately show ?thesis by (simp add: mconf_set_aval_def strtol_def Let_def)
qed

section \<open>Levels\<close>

definition codes_ok :: "codes \<Rightarrow> bool" where
  "codes_ok cs \<longleftrightarrow> list_all (\<lambda>(n, c). n \<noteq> [] \<and> list_all isalnum n \<and> c < 32) cs \<and> distinct (map fst cs)"

text \<open>The bits a table has names for, the names printed, and their list.\<close>

fun level_bits :: "codes \<Rightarrow> u32" where
  "level_bits [] = 0"
| "level_bits ((name, c) # cs) = push_bit (unat c) 1 OR level_bits cs"

fun level_names :: "codes \<Rightarrow> u32 \<Rightarrow> bytes list" where
  "level_names [] lv = []"
| "level_names ((name, c) # cs) lv =
     (if lv AND push_bit (unat c) 1 = 0 then [] else [name]) @ level_names cs (lv AND NOT (push_bit (unat c) 1))"

fun commas :: "bytes list \<Rightarrow> bytes" where
  "commas [] = []"
| "commas (n # ns) = n @ (if ns = [] then [] else 0x2c # commas ns)"

definition commas_after :: "nat \<Rightarrow> bytes list \<Rightarrow> bytes" where
  "commas_after l ns = (if l = 0 \<or> ns = [] then commas ns else 0x2c # commas ns)"

lemma loglevel_loop_text:
  assumes "loglevel_loop cs lv l buf maxlen = Inr (int n, b)" and "maxlen \<le> length buf" and "l \<le> length buf"
    and "\<forall>(n, c) \<in> set cs. n \<noteq> []"
  shows "take n b = take l buf @ commas_after l (level_names cs lv)"
  using assms
proof (induction cs arbitrary: lv l buf)
  case Nil
  then show ?case by (auto simp: commas_after_def)
next
  case (Cons nc cs)
  obtain name c where nc: "nc = (name, c)" by (cases nc)
  show ?case
  proof (cases "lv AND push_bit (unat c) 1 = 0")
    case True
    then show ?thesis using Cons by (simp add: nc Let_def)
  next
    case False
    let ?t = "(if l = 0 then [] else [0x2c]) @ name"
    have room: "\<not> maxlen \<le> l + length name + 1" using Cons.prems(1) False by (auto simp: nc Let_def)
    then have fits: "l + length (?t @ [0]) \<le> length buf" using Cons.prems(2) by (simp split: if_split)
    define b1 where "b1 = take l buf @ (?t @ [0]) @ drop (l + length (?t @ [0])) buf"
    have len: "length b1 = length buf" using fits Cons.prems(3) by (simp add: b1_def)
    have pre: "take (l + length ?t) b1 = take l buf @ ?t" using Cons.prems(3) by (simp add: b1_def)
    have "poke buf l (?t @ [0]) = Inr b1" using fits unfolding b1_def by (rule poke_in)
    then have "loglevel_loop cs (lv AND NOT (push_bit (unat c) 1)) (l + length ?t) b1 maxlen = Inr (int n, b)"
      using Cons.prems(1) False room by (simp add: nc Let_def)
    from Cons.IH [OF this] have "take n b = take (l + length ?t) b1 @
        commas_after (l + length ?t) (level_names cs (lv AND NOT (push_bit (unat c) 1)))"
      using Cons.prems(2,4) fits len by simp
    then show ?thesis using pre Cons.prems(4) False by (auto simp: nc commas_after_def)
  qed
qed

lemma find_code_in: "distinct (map fst cs) \<Longrightarrow> (name, c) \<in> set cs \<Longrightarrow> find_code cs name = Some c"
  by (induction cs) (auto simp: image_iff)

lemma set_loglevel_Cons:
  assumes ok: "codes_ok pri" and n: "(n, c) \<in> set pri"
    and r: "r = [] \<or> (\<exists>n' c' r'. (n', c') \<in> set pri \<and> r = 0x2c # n' @ r')"
  shows "mconf_set_loglevel pri (n @ r) lv = mconf_set_loglevel pri (drop 1 r) (lv OR push_bit (unat c) 1)"
proof -
  have alnum: "n' \<noteq> [] \<and> (\<forall>x \<in> set n'. isalnum x)" if "(n', c') \<in> set pri" for n' c'
    using ok that by (auto simp: codes_ok_def list_all_iff)
  have no: "\<not> isspace x \<and> x \<noteq> 0x2c \<and> x \<noteq> 0x2d" if "isalnum x" for x
    using that by (auto simp: isalnum_def isalpha_def isdigit_def isspace_def word_le_nat_alt)
  have tw: "takeWhile isalnum (n @ r) = n"
    using alnum [OF n] r by (auto simp: isalnum_def isalpha_def isdigit_def)
  have dw: "dropWhile (\<lambda>c. isspace c \<or> c = 0x2c) r = drop 1 r"
  proof (cases "r = []")
    case False
    with r obtain n' c' r' where r': "(n', c') \<in> set pri" "r = 0x2c # n' @ r'" by blast
    then show ?thesis using alnum [OF r'(1)] no by (cases n') auto
  qed simp
  have "hd n \<noteq> 0x2d" using alnum [OF n] no by (metis hd_in_set)
  then have "level_sign (n @ r) = (False, n @ r)" using alnum [OF n] by (simp add: level_sign_def)
  then show ?thesis using alnum [OF n] tw dw find_code_in [of pri n c] n ok
    by (subst mconf_set_loglevel.simps) (simp add: codes_ok_def Let_def)
qed

lemma set_loglevel_names:
  assumes ok: "codes_ok pri" and cs: "set cs \<subseteq> set pri"
  shows "mconf_set_loglevel pri (commas (level_names cs lv)) lv0 = (True, lv0 OR (lv AND level_bits cs))"
  using cs
proof (induction cs arbitrary: lv lv0)
  case Nil
  then show ?case by (subst mconf_set_loglevel.simps) simp
next
  case (Cons nc cs)
  obtain n c where nc: "nc = (n, c)" by (cases nc)
  let ?m = "push_bit (unat c) 1 :: u32" and ?ns = "level_names cs (lv AND NOT (push_bit (unat c) 1))"
  have bits: "lv0 OR (lv AND (?m OR level_bits cs)) = (lv0 OR (lv AND ?m)) OR (lv AND NOT ?m AND level_bits cs)"
    by (rule bit_eqI) (auto simp: bit_simps)
  have names: "\<exists>n' c' r'. (n', c') \<in> set pri \<and> commas ns = n' @ r'" if ns: "ns \<noteq> []" "set ns \<subseteq> fst ` set cs" for ns
  proof -
    obtain n' ns' where ns': "ns = n' # ns'" using ns(1) by (cases ns) auto
    then obtain c' where "(n', c') \<in> set pri" using ns(2) Cons.prems by auto
    then show ?thesis by (intro exI conjI) (simp_all add: ns')
  qed
  have sub: "set (level_names cs lv) \<subseteq> fst ` set cs" for lv by (induction cs lv rule: level_names.induct) auto
  show ?case
  proof (cases "lv AND ?m = 0")
    case True
    then show ?thesis using Cons bits by (simp add: nc and.assoc)
  next
    case False
    have "bit lv (unat c)" using False by (simp add: and_exp_eq_0_iff_not_bit push_bit_of_1)
    then have "lv AND ?m = ?m" by (intro bit_eqI) (auto simp: bit_simps)
    moreover have "mconf_set_loglevel pri (commas (n # ?ns)) lv0 = mconf_set_loglevel pri (commas ?ns) (lv0 OR ?m)"
      using set_loglevel_Cons [OF ok, of n c "if ?ns = [] then [] else 0x2c # commas ?ns" lv0] Cons.prems names [OF _ sub]
      by (auto simp: nc)
    ultimately show ?thesis using Cons bits False by (simp add: nc and.assoc)
  qed
qed

section \<open>Properties\<close>

text \<open>
  C39. A number an option prints is read back as the same number, for every value of 32 bits: a size with its suffix, and
  an automatic value, where -1 is \<open>auto\<close> (whatever \<open>errno\<close> was before). Eleven bytes are enough.
\<close>

theorem mconf_number_roundtrip:
  assumes "11 \<le> maxlen" and "maxlen \<le> length buf"
  shows "(\<exists>l b. mconf_get_uint_size v buf maxlen = Inr (int l, b) \<and> mconf_set_uint_size (take l b) = Some v) \<and>
    (\<exists>l b. mconf_get_aval v buf maxlen = Inr (int l, b) \<and> mconf_set_aval erange (take l b) = Some v)"
proof
  have printed: "\<exists>b. rbind (snprintf buf maxlen t) (fit maxlen) = Inr (int (length t), b) \<and> take (length t) b = t"
    if "length t \<le> 10" for t
    using snprintf_total [OF assms(2), of t] that assms(1) by (auto simp: fit_def)
  show "\<exists>l b. mconf_get_uint_size v buf maxlen = Inr (int l, b) \<and> mconf_set_uint_size (take l b) = Some v"
    using printed [OF size_text_length [of v]] set_size_text [of v] by (auto simp: mconf_get_uint_size_def)
  show "\<exists>l b. mconf_get_aval v buf maxlen = Inr (int l, b) \<and> mconf_set_aval erange (take l b) = Some v"
  proof (cases "v = - 1")
    case True
    have "mconf_get_aval v buf maxlen = Inr (int 4, asc ''auto'' @ drop 4 buf)"
      using assms True by (simp add: mconf_get_aval_def asc_def eval_nat_numeral)
    moreover have "take 4 (asc ''auto'' @ drop 4 buf) = asc ''auto''" by (simp add: asc_def)
    ultimately show ?thesis using True
      by (intro exI [of _ 4] exI [of _ "asc ''auto'' @ drop 4 buf"]) (simp add: mconf_set_aval_def strcasecmp_eq_def del: take_append)
  next
    case False
    have "unat v < 2 ^ LENGTH(32)" by (rule unsigned_less)
    then have "length (dec (unat v)) \<le> 10" using dec_length_le [of "unat v" 9] by simp
    from printed [OF this] show ?thesis using set_aval_dec [OF False] False by (auto simp: mconf_get_aval_def)
  qed
qed

lemma mconf_number_roundtrip_witness:
  "\<exists>l b. mconf_get_uint_size 0x100000 (replicate 11 0) 11 = Inr (int l, b) \<and> mconf_set_uint_size (take l b) = Some 0x100000"
  using mconf_number_roundtrip [where maxlen = 11 and buf = "replicate 11 0" and v = "0x100000" and erange = False] by simp

text \<open>
  C40. The log levels an option prints, with the names of any table, aliases included, are read back as the same levels,
  those without a name apart: reading adds them to the levels that were set.
\<close>

theorem mconf_loglevel_roundtrip:
  assumes "codes_ok pri" and "maxlen \<le> length buf" and "mconf_get_loglevel pri lv buf maxlen = Inr (int n, b)"
  shows "mconf_set_loglevel pri (take n b) lv0 = (True, lv0 OR (lv AND level_bits pri))"
proof -
  have "\<forall>(n, c) \<in> set pri. n \<noteq> []" using assms(1) by (auto simp: codes_ok_def list_all_iff)
  then have "take n b = commas (level_names pri lv)"
    using loglevel_loop_text [of pri lv 0 buf maxlen n b] assms(2,3) by (simp add: mconf_get_loglevel_def commas_after_def)
  then show ?thesis using set_loglevel_names [OF assms(1) subset_refl] by simp
qed

definition ex_levels :: codes where
  "ex_levels = [(asc ''crit'', 2), (asc ''err'', 3), (asc ''error'', 3), (asc ''warn'', 4), (asc ''warning'', 4)]"

lemma mconf_loglevel_roundtrip_witness:
  "\<exists>b. mconf_get_loglevel ex_levels 0x18 (replicate 20 0) 20 = Inr (int 8, b) \<and> take 8 b = asc ''err,warn'' \<and>
     mconf_set_loglevel ex_levels (take 8 b) 4 = (True, 0x1c)"
proof -
  define b :: bytes where "b = asc ''err,warn'' @ replicate 12 0"
  have get: "mconf_get_loglevel ex_levels 0x18 (replicate 20 0) 20 = Inr (int 8, b)" unfolding b_def by code_simp
  have "codes_ok ex_levels" by code_simp
  moreover have "take 8 b = asc ''err,warn''" by (simp add: b_def asc_def)
  moreover have "(4 :: u32) OR (0x18 AND level_bits ex_levels) = 0x1c" by code_simp
  ultimately show ?thesis
    using mconf_loglevel_roundtrip [OF _ _ get, of 4] get by (intro exI [of _ b]) simp
qed

end
