(* ===== verification/Mconf_Table.thy ===== *)
theory Mconf_Table
  imports Mconf_Values
begin

text \<open>
  The data of the option parser \<^verbatim>\<open>lib/mconf.c\<close>: the options and the blocks of them a client adds
  (\<open>mconf_init\<close>, \<open>mconf_add\<close>), the variables they point to and the setting of one. The variables are
  cells of a store; a string is a literal or lives on the heap. Shown: a setter called through an option as
  the macros of \<^verbatim>\<open>mconf.h\<close> make it accesses its variable at its type, keeps the types of all
  variables, and frees a string only if it is on the heap, where each belongs to one variable.
\<close>

section \<open>Data\<close>

datatype strptr = StrNull | StrLit bytes | StrHeap addr

datatype mval = VInt u32 | VStr strptr | VLog logopts

text \<open>The functions \<open>set\<close> and \<open>to_string\<close> point to; \<open>SetCb k\<close> is a function of the client.\<close>

datatype setter = SetString | SetAval | SetSize | SetLogopts | SetLoglevel | SetCb nat
datatype getter = GetString | GetAval | GetSize | GetLogopts | GetLoglevel

record metad_param =
  mp_short :: u8
  mp_long :: "bytes option"
  mp_conf :: "bytes option"
  mp_set :: setter
  mp_to_string :: "getter option"
  mp_ptr :: addr
  mp_is_set :: bool
  mp_args :: nat
  mp_comment :: "bytes option"
  mp_idx :: int

record mconf_block =
  mb_opts :: "metad_param list"
  mb_section :: "bytes option"

record loption =
  ol_name :: "bytes option"
  ol_has_arg :: nat
  ol_val :: int

record mconf =
  mc_path :: "bytes option"
  mc_argv :: "bytes list"
  mc_blocks :: "mconf_block list"
  mc_short_len :: nat
  mc_opt_short :: "bytes option"
  mc_long_count :: nat
  mc_long_idx :: int
  mc_opt_long :: "loption list option"
  mc_help_only :: bool

text \<open>
  The memory of the client: its variables, the heap of the strings with the next new address, the number of
  setter calls so far (the value of \<open>errno\<close> each finds is a parameter) and what its callbacks change.
\<close>

record 'w menv =
  me_cells :: "addr \<rightharpoonup> mval"
  me_strs :: "addr \<rightharpoonup> bytes"
  me_next :: addr
  me_calls :: nat
  me_client :: 'w

record 'w mlib =
  ml_erange :: "nat \<Rightarrow> bool"
  ml_facilities :: codes
  ml_priorities :: codes
  ml_callback :: "nat \<Rightarrow> bytes option \<Rightarrow> bytes option \<Rightarrow> 'w \<Rightarrow> bool \<times> 'w"

section \<open>Setting a value\<close>

text \<open>\<open>free\<close> of the old string, if this option has set it, then \<open>strdup\<close>.\<close>

definition mconf_set_string :: "bool \<Rightarrow> addr \<Rightarrow> strptr \<Rightarrow> bytes \<Rightarrow> 'w menv \<Rightarrow> 'w menv res" where
  "mconf_set_string is_set x old v m =
     rbind (if is_set \<and> old \<noteq> StrNull then
              (case old of StrHeap a \<Rightarrow> rbind (deref (me_strs m) a) (\<lambda>_. Inr (m\<lparr>me_strs := (me_strs m)(a := None)\<rparr>))
               | _ \<Rightarrow> Inl UseAfterFree)
            else Inr m)
       (\<lambda>m. Inr (m\<lparr>me_cells := (me_cells m)(x \<mapsto> VStr (StrHeap (me_next m))),
                   me_strs := (me_strs m)(me_next m \<mapsto> v), me_next := me_next m + 1\<rparr>))"

text \<open>Storing an integer that was read, or not.\<close>

definition store_int :: "addr \<Rightarrow> u32 option \<Rightarrow> 'w menv \<Rightarrow> bool \<times> 'w menv" where
  "store_int x v m = (case v of None \<Rightarrow> (False, m) | Some n \<Rightarrow> (True, m\<lparr>me_cells := (me_cells m)(x \<mapsto> VInt n)\<rparr>))"

text \<open>
  \<open>p->set(p, section, value)\<close>: whether it returned 0. A variable of another type than the setter takes it
  for is an access outside its object.
\<close>

definition param_set :: "'w mlib \<Rightarrow> metad_param \<Rightarrow> bytes option \<Rightarrow> bytes option \<Rightarrow> 'w menv \<Rightarrow> (bool \<times> 'w menv) res" where
  "param_set lib p section value m0 =
     (let m = m0\<lparr>me_calls := me_calls m0 + 1\<rparr>; x = mp_ptr p
      in case mp_set p of
          SetCb k \<Rightarrow> (case ml_callback lib k section value (me_client m) of (ok, w) \<Rightarrow> Inr (ok, m\<lparr>me_client := w\<rparr>))
        | _ \<Rightarrow> (case value of None \<Rightarrow> Inl NullDeref | Some v \<Rightarrow>
            rbind (deref (me_cells m) x) (\<lambda>c. case (mp_set p, c) of
                (SetString, VStr s) \<Rightarrow> rbind (mconf_set_string (mp_is_set p) x s v m) (\<lambda>m. Inr (True, m))
              | (SetAval, VInt _) \<Rightarrow> Inr (store_int x (mconf_set_aval (ml_erange lib (me_calls m0)) v) m)
              | (SetSize, VInt _) \<Rightarrow> Inr (store_int x (mconf_set_uint_size v) m)
              | (SetLogopts, VLog _) \<Rightarrow> (case mconf_set_logopts (ml_facilities lib) v of (ok, lo) \<Rightarrow>
                    Inr (ok, m\<lparr>me_cells := (me_cells m)(x \<mapsto> VLog lo)\<rparr>))
              | (SetLoglevel, VInt n) \<Rightarrow> (case mconf_set_loglevel (ml_priorities lib) v n of (ok, n) \<Rightarrow>
                    Inr (ok, m\<lparr>me_cells := (me_cells m)(x \<mapsto> VInt n)\<rparr>))
              | _ \<Rightarrow> Inl OutOfBounds)))"

text \<open>The mark that the option has set its variable.\<close>

definition param_mark :: "bool \<Rightarrow> metad_param \<Rightarrow> metad_param" where
  "param_mark ok p = (if ok then p\<lparr>mp_is_set := True\<rparr> else p)"

section \<open>Tables\<close>

text \<open>\<open>mconf_init\<close>: the loop over the arguments finds the configuration file, or the wish for help.\<close>

fun init_scan :: "bytes option \<Rightarrow> bytes list \<Rightarrow> bytes option \<times> bool" where
  "init_scan path [] = (path, False)"
| "init_scan path (a # rest) =
     (if (a = asc ''--conf'' \<or> a = asc ''-c'') \<and> rest \<noteq> [] then (Some (hd rest), False)
      else if take 7 a = asc ''--conf='' then (Some (drop 7 a), False)
      else if a = asc ''-h'' \<or> a = asc ''--help'' then (path, True)
      else init_scan path rest)"

definition mconf_init :: "bytes option \<Rightarrow> bytes list \<Rightarrow> mconf" where
  "mconf_init cfg_path argv =
     (let (conf, help) = init_scan cfg_path (drop 1 argv)
      in \<lparr>mc_path = conf, mc_argv = argv, mc_blocks = [], mc_short_len = 0, mc_opt_short = None,
          mc_long_count = 0, mc_long_idx = 256, mc_opt_long = None, mc_help_only = help\<rparr>)"

definition mc_options :: "mconf \<Rightarrow> metad_param list" where
  "mc_options cf = concat (map mb_opts (mc_blocks cf))"

definition param_conflict :: "bytes option \<Rightarrow> metad_param \<Rightarrow> bytes option \<Rightarrow> metad_param \<Rightarrow> bool res" where
  "param_conflict sec p section opt =
     rbind (if mp_conf p \<noteq> None \<and> mp_conf p = mp_conf opt
            then if sec = None \<or> section = None then Inl NullDeref else Inr (sec = section) else Inr False) (\<lambda>same.
     Inr (same \<or> mp_short p \<noteq> 0 \<and> mp_short p = mp_short opt \<or> mp_long p \<noteq> None \<and> mp_long p = mp_long opt))"

fun any_res :: "('a \<Rightarrow> bool res) \<Rightarrow> 'a list \<Rightarrow> bool res" where
  "any_res f [] = Inr False"
| "any_res f (x # xs) = rbind (f x) (\<lambda>b. if b then Inr True else any_res f xs)"

definition mconf_check_conflict :: "mconf \<Rightarrow> bytes option \<Rightarrow> metad_param \<Rightarrow> bool res" where
  "mconf_check_conflict cf section opt =
     any_res (\<lambda>cb. any_res (\<lambda>p. param_conflict (mb_section cb) p section opt) (mb_opts cb)) (mc_blocks cf)"

text \<open>What one option adds to the counts; the index of its long name.\<close>

definition short_size :: "metad_param \<Rightarrow> nat" where
  "short_size p = (if mp_short p = 0 then 0 else if mp_args p = 1 then 2 else if mp_args p = 2 then 3 else 1)"

definition long_size :: "metad_param \<Rightarrow> nat" where
  "long_size p = (if mp_long p = None then 0 else 1)"

definition count_option :: "metad_param \<Rightarrow> mconf \<Rightarrow> mconf \<times> metad_param" where
  "count_option p cf =
     (let cf = cf\<lparr>mc_short_len := mc_short_len cf + short_size p\<rparr>
      in if mp_long p = None then (cf, p)
         else if mp_short p \<noteq> 0 then (cf\<lparr>mc_long_count := mc_long_count cf + 1\<rparr>, p\<lparr>mp_idx := sint (mp_short p)\<rparr>)
         else (cf\<lparr>mc_long_count := mc_long_count cf + 1, mc_long_idx := mc_long_idx cf + 1\<rparr>, p\<lparr>mp_idx := mc_long_idx cf\<rparr>))"

text \<open>The loop of \<open>mconf_add\<close>: whether it came to its end, and the options it has numbered.\<close>

fun add_loop :: "bytes option \<Rightarrow> metad_param list \<Rightarrow> mconf \<Rightarrow> (bool \<times> metad_param list \<times> mconf) res" where
  "add_loop section [] cf = Inr (True, [], cf)"
| "add_loop section (p # ps) cf =
     rbind (mconf_check_conflict cf section p) (\<lambda>conflict.
       if conflict then Inr (False, p # ps, cf)
       else case count_option p cf of (cf, p) \<Rightarrow>
         rbind (add_loop section ps cf) (\<lambda>(ok, ps, cf). Inr (ok, p # ps, cf)))"

definition mconf_add :: "bytes option \<Rightarrow> metad_param list \<Rightarrow> mconf \<Rightarrow> (bool \<times> mconf) res" where
  "mconf_add section opts cf =
     rbind (add_loop section opts cf) (\<lambda>(ok, ps, cf).
       if ok then Inr (True, cf\<lparr>mc_blocks := mc_blocks cf @ [\<lparr>mb_opts = ps, mb_section = section\<rparr>]\<rparr>) else Inr (False, cf))"

section \<open>Types\<close>

datatype vkind = KInt | KStr | KLog

fun kind :: "mval \<Rightarrow> vkind" where
  "kind (VInt _) = KInt"
| "kind (VStr _) = KStr"
| "kind (VLog _) = KLog"

text \<open>The type of variable a setter works on; nothing is known of a callback.\<close>

fun wants :: "setter \<Rightarrow> vkind option" where
  "wants SetString = Some KStr"
| "wants SetAval = Some KInt"
| "wants SetSize = Some KInt"
| "wants SetLogopts = Some KLog"
| "wants SetLoglevel = Some KInt"
| "wants (SetCb _) = None"

text \<open>
  An option as the macros of \<^verbatim>\<open>mconf.h\<close> make it: a setter that needs a value has a required argument, and the
  character is one of ASCII that means nothing to \<open>getopt\<close>. In a block the characters differ, and a block whose
  options have names in the configuration file has a section.
\<close>

definition declared :: "metad_param \<Rightarrow> bool" where
  "declared p \<longleftrightarrow> (wants (mp_set p) \<noteq> None \<longrightarrow> mp_args p = 1) \<and> mp_short p < 0x80 \<and> mp_short p \<noteq> 0x3a \<and> mp_short p \<noteq> 0x3b"

definition shorts_apart :: "metad_param list \<Rightarrow> bool" where
  "shorts_apart ps \<longleftrightarrow> sorted_wrt (\<lambda>p q. mp_short p \<noteq> 0 \<longrightarrow> mp_short p \<noteq> mp_short q) ps"

definition conf_sections :: "bytes option \<times> metad_param list \<Rightarrow> bool" where
  "conf_sections b \<longleftrightarrow> (fst b = None \<longrightarrow> list_all (\<lambda>p. mp_conf p = None) (snd b))"

definition block_declared :: "bytes option \<times> metad_param list \<Rightarrow> bool" where
  "block_declared b \<longleftrightarrow> list_all declared (snd b) \<and> shorts_apart (snd b) \<and> conf_sections b"

text \<open>A string an option has set is one it may free.\<close>

definition param_ok :: "'w menv \<Rightarrow> metad_param \<Rightarrow> bool" where
  "param_ok m p \<longleftrightarrow> (\<forall>k. wants (mp_set p) = Some k \<longrightarrow> (\<exists>c. me_cells m (mp_ptr p) = Some c \<and> kind c = k)) \<and>
     (mp_set p = SetString \<and> mp_is_set p \<longrightarrow> (\<exists>a. me_cells m (mp_ptr p) = Some (VStr (StrHeap a))))"

definition menv_ok :: "'w menv \<Rightarrow> bool" where
  "menv_ok m \<longleftrightarrow> (\<forall>x a. me_cells m x = Some (VStr (StrHeap a)) \<longrightarrow> me_strs m a \<noteq> None) \<and>
     (\<forall>x y a. me_cells m x = Some (VStr (StrHeap a)) \<and> me_cells m y = Some (VStr (StrHeap a)) \<longrightarrow> x = y) \<and>
     (\<forall>a. me_strs m a \<noteq> None \<longrightarrow> a < me_next m)"

fun on_heap :: "mval \<Rightarrow> bool" where
  "on_heap (VStr (StrHeap _)) = True"
| "on_heap _ = False"

text \<open>Variables keep their types, and strings that can be freed stay so.\<close>

definition extends :: "'w menv \<Rightarrow> 'w menv \<Rightarrow> bool" where
  "extends m m' \<longleftrightarrow> (\<forall>x. rel_option (\<lambda>c c'. kind c' = kind c \<and> (on_heap c \<longrightarrow> on_heap c')) (me_cells m x) (me_cells m' x))"

lemma on_heap_iff: "on_heap c \<longleftrightarrow> (\<exists>a. c = VStr (StrHeap a))"
  by (cases c rule: on_heap.cases) auto

lemma extends_refl [simp]: "extends m m"
  by (simp add: extends_def option.rel_refl)

lemma extends_trans: "extends m m' \<Longrightarrow> extends m' m'' \<Longrightarrow> extends m m''"
  unfolding extends_def by (smt (verit) option.rel_cases option.rel_inject(2) option.rel_distinct)

lemma extends_upd:
  "me_cells m x = Some c \<Longrightarrow> kind c' = kind c \<Longrightarrow> (on_heap c \<Longrightarrow> on_heap c') \<Longrightarrow>
   me_cells m' = (me_cells m)(x \<mapsto> c') \<Longrightarrow> extends m m'"
  by (simp add: extends_def option.rel_refl)

lemma param_ok_extends:
  assumes "param_ok m p" and "extends m m'"
  shows "param_ok m' p"
proof -
  have e: "rel_option (\<lambda>c c'. kind c' = kind c \<and> (on_heap c \<longrightarrow> on_heap c')) (me_cells m x) (me_cells m' x)" for x
    using assms(2) by (simp add: extends_def)
  show ?thesis
    using assms(1) e [of "mp_ptr p"] unfolding param_ok_def
    by (cases "me_cells m (mp_ptr p)"; cases "me_cells m' (mp_ptr p)") (auto simp: on_heap_iff)
qed

text \<open>One call of a setter.\<close>

definition param_steps :: "metad_param \<Rightarrow> bool \<Rightarrow> 'w menv \<Rightarrow> 'w menv \<Rightarrow> bool" where
  "param_steps p ok m m' \<longleftrightarrow> menv_ok m' \<and> extends m m' \<and> param_ok m' (param_mark ok p)"

lemma menv_ok_int: "menv_ok m \<Longrightarrow> me_cells m' = (me_cells m)(x \<mapsto> c) \<Longrightarrow> \<not> on_heap c \<Longrightarrow> me_strs m' = me_strs m \<Longrightarrow>
    me_next m' = me_next m \<Longrightarrow> menv_ok m'"
  by (auto simp: menv_ok_def split: if_splits)

lemma param_steps_cell:
  assumes "menv_ok m" "param_ok m p" "me_cells m (mp_ptr p) = Some c" "kind c' = kind c" "kind c \<noteq> KStr"
    and "me_cells m' = (me_cells m)(mp_ptr p \<mapsto> c')" "me_strs m' = me_strs m" "me_next m' = me_next m"
  shows "param_steps p ok m m'"
proof -
  have no: "\<not> on_heap c" "\<not> on_heap c'" "mp_set p \<noteq> SetString" using assms(2-5) by (auto simp: on_heap_iff param_ok_def)
  have "extends m m'" by (rule extends_upd [OF assms(3,4) _ assms(6)]) (use no in simp)
  moreover from param_ok_extends [OF assms(2) this] have "param_ok m' (param_mark ok p)"
    using no by (simp add: param_ok_def param_mark_def)
  ultimately show ?thesis using menv_ok_int [OF assms(1,6) no(2) assms(7,8)] by (simp add: param_steps_def)
qed

lemma set_string_ok:
  assumes m: "menv_ok m" and p: "param_ok m p" and s: "mp_set p = SetString" and c: "me_cells m (mp_ptr p) = Some (VStr old)"
  shows "\<exists>m'. mconf_set_string (mp_is_set p) (mp_ptr p) old v m = Inr m' \<and> param_steps p True m m'"
proof -
  define st where "st = (if mp_is_set p then (case old of StrHeap a \<Rightarrow> (me_strs m)(a := None) | _ \<Rightarrow> me_strs m) else me_strs m)"
  define m' where "m' = m\<lparr>me_cells := (me_cells m)(mp_ptr p \<mapsto> VStr (StrHeap (me_next m))), me_strs := st(me_next m \<mapsto> v),
      me_next := me_next m + 1\<rparr>"
  have heap: "mp_is_set p \<Longrightarrow> \<exists>a. old = StrHeap a \<and> me_strs m a \<noteq> None"
    using p s c m by (auto simp: param_ok_def menv_ok_def)
  have "mconf_set_string (mp_is_set p) (mp_ptr p) old v m = Inr m'"
  proof (cases "mp_is_set p")
    case True
    then obtain a y where "old = StrHeap a" "me_strs m a = Some y" using heap by blast
    then show ?thesis using True by (simp add: mconf_set_string_def m'_def st_def)
  qed (simp add: mconf_set_string_def m'_def st_def)
  moreover have "menv_ok m'"
  proof -
    have next_fresh: "me_cells m x \<noteq> Some (VStr (StrHeap (me_next m)))" for x
      using m unfolding menv_ok_def by (metis less_irrefl)
    have live: "st a \<noteq> None" if "me_cells m x = Some (VStr (StrHeap a))" "x \<noteq> mp_ptr p" for x a
      using that m c by (auto simp: st_def menv_ok_def split: strptr.splits)
    have old: "st a \<noteq> None \<Longrightarrow> a < me_next m" for a
      using m by (auto simp: st_def menv_ok_def split: strptr.splits if_splits)
    show ?thesis using m next_fresh live less_SucI [OF old] by (auto simp: menv_ok_def m'_def)
  qed
  moreover have "extends m m'" by (rule extends_upd [OF c]) (simp_all add: m'_def)
  moreover have "param_ok m' (param_mark True p)" by (simp add: param_ok_def param_mark_def m'_def s)
  ultimately show ?thesis by (auto simp: param_steps_def)
qed

lemma store_int_ok:
  assumes "menv_ok m" "param_ok m p" "me_cells m (mp_ptr p) = Some (VInt n)"
  shows "\<exists>ok m'. store_int (mp_ptr p) v m = (ok, m') \<and> param_steps p ok m m'"
proof (cases v)
  case None
  then show ?thesis using assms by (intro exI [of _ False] exI [of _ m]) (simp add: store_int_def param_steps_def param_mark_def)
next
  case (Some n')
  have "param_steps p True m (m\<lparr>me_cells := (me_cells m)(mp_ptr p \<mapsto> VInt n')\<rparr>)"
    by (rule param_steps_cell [OF assms]) simp_all
  then show ?thesis using Some by (simp add: store_int_def ex_bool_eq)
qed

fun_cases kind_IntE: "kind c = KInt" and kind_StrE: "kind c = KStr" and kind_LogE: "kind c = KLog"

fun_cases wants_NoneE: "wants s = None"

text \<open>A setter of the parser finds its variable at the type it wants, and keeps that type.\<close>

lemma param_set_typed:
  fixes m0
  defines "m \<equiv> m0\<lparr>me_calls := Suc (me_calls m0)\<rparr>"
  assumes m: "menv_ok m" "param_ok m p" and k: "wants (mp_set p) = Some k"
  shows "\<exists>ok m'. param_set lib p section (Some v) m0 = Inr (ok, m') \<and> param_steps p ok m m'"
proof -
  have cells: "me_cells m0 = me_cells m" by (simp add: m_def)
  obtain c where c: "me_cells m (mp_ptr p) = Some c" "kind c = k" using m(2) k by (auto simp: param_ok_def)
  note simps = param_set_def Let_def cells ex_bool_eq
  show ?thesis
  proof (cases "mp_set p")
    case SetString
    then obtain old where "c = VStr old" using c(2) k by (auto elim: kind_StrE)
    then show ?thesis using set_string_ok [OF m SetString, of old v] c SetString by (auto simp add: simps simp flip: m_def)
  next
    case SetAval
    then obtain n where "c = VInt n" using c(2) k by (auto elim: kind_IntE)
    then show ?thesis
      using store_int_ok [OF m, of n "mconf_set_aval (ml_erange lib (me_calls m0)) v"] c SetAval
      by (auto simp add: simps simp flip: m_def)
  next
    case SetSize
    then obtain n where "c = VInt n" using c(2) k by (auto elim: kind_IntE)
    then show ?thesis using store_int_ok [OF m, of n "mconf_set_uint_size v"] c SetSize by (auto simp add: simps simp flip: m_def)
  next
    case SetLogopts
    then obtain l0 where l0: "c = VLog l0" using c(2) k by (auto elim: kind_LogE)
    obtain ok l where l: "mconf_set_logopts (ml_facilities lib) v = (ok, l)" by fastforce
    have "param_steps p ok m (m\<lparr>me_cells := (me_cells m)(mp_ptr p \<mapsto> VLog l)\<rparr>)"
      by (rule param_steps_cell [OF m c(1)]) (use l0 in simp_all)
    then show ?thesis using c l0 l SetLogopts by (simp add: simps flip: m_def)
  next
    case SetLoglevel
    then obtain n where n: "c = VInt n" using c(2) k by (auto elim: kind_IntE)
    obtain ok n' where l: "mconf_set_loglevel (ml_priorities lib) v n = (ok, n')" by fastforce
    have "param_steps p ok m (m\<lparr>me_cells := (me_cells m)(mp_ptr p \<mapsto> VInt n')\<rparr>)"
      by (rule param_steps_cell [OF m c(1)]) (use n in simp_all)
    then show ?thesis using c n l SetLoglevel by (simp add: simps flip: m_def)
  qed (use k in simp)
qed

lemma param_set_ok:
  assumes "menv_ok m0" and "param_ok m0 p" and arg: "val \<noteq> None \<or> wants (mp_set p) = None"
  obtains ok m' where "param_set lib p section val m0 = Inr (ok, m')" "param_steps p ok m0 m'"
proof -
  define m where "m = m0\<lparr>me_calls := Suc (me_calls m0)\<rparr>"
  have m: "menv_ok m" "param_ok m p" using assms(1,2) by (simp_all add: m_def menv_ok_def param_ok_def)
  have "\<exists>ok m'. param_set lib p section val m0 = Inr (ok, m') \<and> param_steps p ok m m'"
  proof (cases "wants (mp_set p)")
    case None
    then obtain k where k: "mp_set p = SetCb k" by (elim wants_NoneE)
    obtain ok w where w: "ml_callback lib k section val (me_client m) = (ok, w)" by fastforce
    have "param_steps p ok m (m\<lparr>me_client := w\<rparr>)"
      using m k by (simp add: param_steps_def menv_ok_def param_ok_def param_mark_def extends_def option.rel_refl)
    then show ?thesis using k w by (simp add: param_set_def m_def)
  next
    case (Some k)
    then show ?thesis using param_set_typed [of m0 p k lib "section"] m arg unfolding m_def by auto
  qed
  moreover have "param_steps p ok m m' \<Longrightarrow> param_steps p ok m0 m'" for ok m'
    by (simp add: param_steps_def extends_def m_def)
  ultimately show thesis using that by blast
qed

end
