(* ===== verification/Mconf_Help.thy ===== *)
theory Mconf_Help
  imports Mconf_Table
begin

text \<open>
  The help text of the option parser, \<open>mconf_help_msg\<close> of \<^verbatim>\<open>lib/mconf.c\<close>: for each option a line
  buffer of 128 bytes is filled with the option column, then with the words of the description, one
  output line after the other, and at last with the default value. Each write is checked against the buffer.
  The loop over the lines is a partial function: it is undefined (\<open>None\<close>) when it does not end. Shown: when
  the words fit between the option column and the width, it ends, stays inside the buffer and prints every
  word of the description in order; a word that is too long makes it print lines for ever.
\<close>

section \<open>Reading a value back\<close>

text \<open>\<open>p->to_string(p, buf, maxlen)\<close>.\<close>

definition param_get :: "'w mlib \<Rightarrow> metad_param \<Rightarrow> getter \<Rightarrow> bytes \<Rightarrow> nat \<Rightarrow> 'w menv \<Rightarrow> (int \<times> bytes) res" where
  "param_get lib p g buf maxlen m =
     rbind (deref (me_cells m) (mp_ptr p)) (\<lambda>c. case (g, c) of
         (GetString, VStr s) \<Rightarrow>
            (case s of StrNull \<Rightarrow> mconf_get_string None buf maxlen
             | StrLit t \<Rightarrow> mconf_get_string (Some t) buf maxlen
             | StrHeap a \<Rightarrow> rbind (deref (me_strs m) a) (\<lambda>t. mconf_get_string (Some t) buf maxlen))
       | (GetAval, VInt v) \<Rightarrow> mconf_get_aval v buf maxlen
       | (GetSize, VInt v) \<Rightarrow> mconf_get_uint_size v buf maxlen
       | (GetLogopts, VLog lo) \<Rightarrow> mconf_get_logopts (ml_facilities lib) lo buf maxlen
       | (GetLoglevel, VInt v) \<Rightarrow> mconf_get_loglevel (ml_priorities lib) v buf maxlen
       | _ \<Rightarrow> Inl OutOfBounds)"

section \<open>The option column\<close>

definition is_ws :: "u8 \<Rightarrow> bool" where
  "is_ws c \<longleftrightarrow> c = 0x20 \<or> c = 9 \<or> c = 13 \<or> c = 10"

text \<open>\<open>strchr (comment, '|')\<close>: the text before the bar and the text after it.\<close>

definition bar_split :: "bytes \<Rightarrow> (bytes \<times> bytes) option" where
  "bar_split s = (if 0x7c \<in> set s then Some (takeWhile (\<lambda>c. c \<noteq> 0x7c) s, tl (dropWhile (\<lambda>c. c \<noteq> 0x7c) s)) else None)"

definition opt_width :: "metad_param \<Rightarrow> nat" where
  "opt_width p =
     (if mp_short p = 0 then 0 else 2) +
     (case mp_long p of None \<Rightarrow> 0 | Some n \<Rightarrow> 2 + length n + (if mp_short p = 0 then 0 else 2)) +
     (case mp_comment p of None \<Rightarrow> 0 | Some s \<Rightarrow> (case bar_split s of None \<Rightarrow> 0 | Some (a, _) \<Rightarrow> length a + 1))"

definition opt_columns :: "mconf \<Rightarrow> nat" where
  "opt_columns cf = fold (\<lambda>p w. max w (opt_width p)) (mc_options cf) 0"

text \<open>What is written into the column, and the description that is left (\<open>None\<close>: a null pointer).\<close>

definition opt_column :: "metad_param \<Rightarrow> bytes \<times> bytes option" where
  "opt_column p =
     ([0x20, 0x20] @ (if mp_short p = 0 then [] else [0x2d, mp_short p]) @
      (case mp_long p of None \<Rightarrow> [] | Some n \<Rightarrow> (if mp_short p = 0 then [] else [0x2c, 0x20]) @ [0x2d, 0x2d] @ n) @
      (case mp_comment p of None \<Rightarrow> [] | Some s \<Rightarrow> (case bar_split s of None \<Rightarrow> [] | Some (a, _) \<Rightarrow> 0x20 # a)),
      case mp_comment p of None \<Rightarrow> None | Some s \<Rightarrow> (case bar_split s of None \<Rightarrow> Some s | Some (_, r) \<Rightarrow> Some r))"

section \<open>The description column\<close>

text \<open>The words of one line: from position \<open>d\<close> with the description \<open>s\<close>, up to position \<open>e\<close>.\<close>

function fill_words :: "nat \<Rightarrow> bytes \<Rightarrow> nat \<Rightarrow> bytes \<Rightarrow> (bytes \<times> nat \<times> bytes) res" where
  "fill_words e line d s =
     (if e \<le> d \<or> s = [] then Inr (line, d, s)
      else
        let w = take (e - d) (takeWhile (\<lambda>c. \<not> is_ws c) s); j = length w
        in rbind (poke line d w) (\<lambda>line.
          if e \<le> d + j then Inr (line, d, s)
          else
            let s' = drop j s
            in if s' \<noteq> [] \<and> is_ws (hd s') then
                 rbind (poke line (d + j) [0x20]) (\<lambda>line. fill_words e line (d + j + 1) (dropWhile is_ws s'))
               else fill_words e line (d + j) s'))"
  by pat_completeness auto

termination
proof (relation "measure (\<lambda>(e, line, d, s). length s)", goal_cases)
  case (2 e line d s w j line1 s' line2)
  then have "s' \<noteq> []" "is_ws (hd s')" by simp_all
  then have "length (dropWhile is_ws s') < length s'" by (cases s') (auto simp: length_dropWhile_le le_imp_less_Suc)
  moreover have "length s' \<le> length s" using 2 by (metis length_drop diff_le_self)
  ultimately show ?case by simp
next
  case (3 e line d s w j line1 s')
  then have "j \<noteq> 0 \<or> is_ws (hd s)" by (cases s) auto
  then show ?case using 3 by (cases s) auto
qed simp

declare fill_words.simps [simp del]

text \<open>The spaces at the end of a line are overwritten from behind.\<close>

fun strip_line :: "nat \<Rightarrow> bytes \<Rightarrow> (nat \<times> bytes) res" where
  "strip_line 0 line = Inr (0, line)"
| "strip_line (Suc d) line =
     rbind (peek line d) (\<lambda>c. if c = 0x20 then rbind (poke line (Suc d) [0]) (strip_line d) else Inr (Suc d, line))"

text \<open>One line: the padding up to the description column at \<open>e0\<close>, the words, the end. What is printed, the
  buffer, and the rest of the description.\<close>

definition desc_line :: "nat \<Rightarrow> nat \<Rightarrow> bytes \<Rightarrow> nat \<Rightarrow> bytes \<Rightarrow> (bytes \<times> bytes \<times> bytes) res" where
  "desc_line e0 width line d s =
     rbind (poke line d (replicate (e0 - d) 0x20)) (\<lambda>line.
     rbind (fill_words width line (max d e0) s) (\<lambda>(line, d, s).
     rbind (strip_line d line) (\<lambda>(d, line).
     rbind (poke line d [0]) (\<lambda>line.
     rbind (cstr_at line 0) (\<lambda>out. Inr (out, line, s))))))"

partial_function (option) desc_loop :: "nat \<Rightarrow> nat \<Rightarrow> bytes \<Rightarrow> nat \<Rightarrow> bytes \<Rightarrow> (bytes list \<times> bytes) res option" where
  "desc_loop e0 width line d s =
     (case desc_line e0 width line d s of
        Inl e \<Rightarrow> Some (Inl e)
      | Inr (out, line, s') \<Rightarrow>
          if s' = [] then Some (Inr ([out], line))
          else Option.bind (desc_loop e0 width line 0 s') (\<lambda>r. Some (rbind r (\<lambda>(outs, line). Inr (out # outs, line)))))"

section \<open>The message\<close>

definition help_default :: "'w mlib \<Rightarrow> metad_param \<Rightarrow> getter \<Rightarrow> nat \<Rightarrow> bytes \<Rightarrow> 'w menv \<Rightarrow> bytes list res" where
  "help_default lib p g e0 line m =
     rbind (poke line 0 (replicate e0 0x20)) (\<lambda>line.
     rbind (poke line e0 (asc ''default: '' @ [0])) (\<lambda>line.
       let d = e0 + 9
       in rbind (param_get lib p g (drop d line) (128 - d) m) (\<lambda>(l, b).
            if l > 0 then
              rbind (poke (take d line @ b) (d + nat l) [0]) (\<lambda>line.
              rbind (cstr_at line 0) (\<lambda>out. Inr [out]))
            else Inr [])))"

text \<open>One option: the lines printed. \<open>junk\<close> is what the buffer contains, \<open>e0\<close> the description column.\<close>

definition help_option :: "'w mlib \<Rightarrow> (nat \<Rightarrow> u8) \<Rightarrow> nat \<Rightarrow> nat \<Rightarrow> metad_param \<Rightarrow> 'w menv \<Rightarrow> bytes list res option" where
  "help_option lib junk e0 width p m =
     (if mp_short p = 0 \<and> mp_long p = None then Some (Inr [])
      else case opt_column p of (col, desc) \<Rightarrow>
        (case poke (map junk [0..<128]) 0 col of
           Inl e \<Rightarrow> Some (Inl e)
         | Inr line \<Rightarrow> (case desc of
              None \<Rightarrow> Some (rbind (poke line (length col) (replicate (e0 - length col) 0x20)) (\<lambda>_. Inl NullDeref))
            | Some s \<Rightarrow> Option.bind (desc_loop e0 width line (length col) s) (\<lambda>r. Some (rbind r (\<lambda>(outs, line).
                case mp_to_string p of
                  None \<Rightarrow> Inr outs
                | Some g \<Rightarrow> rbind (help_default lib p g e0 line m) (\<lambda>ds. Inr (outs @ ds))))))))"

fun help_options :: "'w mlib \<Rightarrow> (nat \<Rightarrow> u8) \<Rightarrow> nat \<Rightarrow> nat \<Rightarrow> metad_param list \<Rightarrow> 'w menv \<Rightarrow> bytes list res option" where
  "help_options lib junk e0 width [] m = Some (Inr [])"
| "help_options lib junk e0 width (p # ps) m =
     (case help_option lib junk e0 width p m of
        None \<Rightarrow> None
      | Some (Inl e) \<Rightarrow> Some (Inl e)
      | Some (Inr outs) \<Rightarrow> Option.bind (help_options lib junk e0 width ps m) (\<lambda>r. Some (rbind r (\<lambda>ls. Inr (outs @ ls)))))"

definition mconf_help_msg :: "'w mlib \<Rightarrow> (nat \<Rightarrow> u8) \<Rightarrow> mconf \<Rightarrow> nat \<Rightarrow> 'w menv \<Rightarrow> bytes list res option" where
  "mconf_help_msg lib junk cf width m = help_options lib junk (opt_columns cf + 6) width (mc_options cf) m"

section \<open>Words\<close>

fun words_from :: "bytes \<Rightarrow> bytes \<Rightarrow> bytes list" where
  "words_from cur [] = (if cur = [] then [] else [cur])"
| "words_from cur (x # s) =
     (if is_ws x then (if cur = [] then [] else [cur]) @ words_from [] s else words_from (cur @ [x]) s)"

definition words :: "bytes \<Rightarrow> bytes list" where
  "words s = words_from [] s"

lemma words_Nil [simp]: "words [] = []"
  by (simp add: words_def)

lemma words_from_split: "is_ws x \<Longrightarrow> words_from cur (a @ x # b) = words_from cur a @ words b"
  by (induction a arbitrary: cur) (simp_all add: words_def)

lemma words_split: "is_ws x \<Longrightarrow> words (a @ x # b) = words a @ words b"
  using words_from_split [of x "[]" a b] by (simp add: words_def)

lemma words_ws_Cons: "is_ws x \<Longrightarrow> words (x # b) = words b"
  using words_split [of x "[]" b] by simp

lemma words_from_word: "\<forall>x \<in> set w. \<not> is_ws x \<Longrightarrow> words_from cur w = (if cur @ w = [] then [] else [cur @ w])"
  by (induction w arbitrary: cur) auto

lemma words_word: "\<forall>x \<in> set w. \<not> is_ws x \<Longrightarrow> words w = (if w = [] then [] else [w])"
  by (simp add: words_def words_from_word)

lemma words_dropWhile: "words (dropWhile is_ws s) = words s"
  by (induction s) (simp_all add: words_ws_Cons)

text \<open>A text that is open at its end: what is put behind it starts a new word.\<close>

definition open_end :: "bytes \<Rightarrow> bool" where
  "open_end a \<longleftrightarrow> a = [] \<or> is_ws (last a)"

lemma open_end_snoc [simp]: "open_end (a @ [x]) = is_ws x" "open_end []"
  by (simp_all add: open_end_def)

lemma words_open: "open_end a \<Longrightarrow> words (a @ b) = words a @ words b"
proof (cases a rule: rev_cases)
  case (snoc ys y)
  assume "open_end a"
  then have "is_ws y" by (simp add: snoc)
  then show ?thesis using words_split [of y ys b] words_split [of y ys "[]"] by (simp add: snoc)
qed simp

lemma is_ws_space [simp]: "is_ws 0x20"
  by (simp add: is_ws_def)

lemma words_spaces: "words (a @ replicate n 0x20) = words a"
proof (cases n)
  case (Suc k)
  have "words (replicate k 0x20) = []" by (induction k) (simp_all add: words_ws_Cons)
  then show ?thesis by (simp add: Suc words_split)
qed simp

lemma words_first:
  assumes "s \<noteq> []" and "\<not> is_ws (hd s)"
  shows "takeWhile (\<lambda>c. \<not> is_ws c) s \<in> set (words s)"
proof -
  let ?w = "takeWhile (\<lambda>c. \<not> is_ws c) s" and ?r = "dropWhile (\<lambda>c. \<not> is_ws c) s"
  have w: "?w \<noteq> []" "\<forall>x \<in> set ?w. \<not> is_ws x" using assms by (cases s) (auto dest: set_takeWhileD)
  have s: "s = ?w @ ?r" by simp
  show ?thesis
  proof (cases ?r)
    case Nil
    then have "s = ?w" using s by (metis append_Nil2)
    then have "words s = [?w]" using words_word [OF w(2)] w(1) by metis
    then show ?thesis by simp
  next
    case (Cons x r)
    then have "is_ws x" using hd_dropWhile [of "\<lambda>c. \<not> is_ws c" s] by simp
    then have "words (?w @ x # r) = [?w] @ words r" using words_split words_word [OF w(2)] w(1) by simp
    moreover have "words s = words (?w @ x # r)" using s Cons by metis
    ultimately show ?thesis by simp
  qed
qed

section \<open>One line\<close>

text \<open>
  \<open>filled e line d s line' d' s'\<close>: from the text in front of \<open>d\<close> and the description \<open>s\<close> words that
  fit in front of \<open>e\<close> have moved to the text in front of \<open>d'\<close>.
\<close>

definition filled :: "nat \<Rightarrow> bytes \<Rightarrow> nat \<Rightarrow> bytes \<Rightarrow> bytes \<Rightarrow> nat \<Rightarrow> bytes \<Rightarrow> bool" where
  "filled e line d s line' d' s' \<longleftrightarrow> length line' = length line \<and> d \<le> d' \<and>
     (\<exists>ws. words (take d' line') = words (take d line) @ ws \<and> words s = ws @ words s' \<and> (\<forall>x \<in> set ws. length x + d < e)) \<and>
     set (take d' line') \<subseteq> insert 0x20 (set (take d line) \<union> set s) \<and> set s' \<subseteq> set s \<and> length s' \<le> length s"

lemma filled_refl: "length line' = length line \<Longrightarrow> take d line' = take d line \<Longrightarrow> filled e line d s line' d s"
  by (auto simp: filled_def)

lemma filled_trans:
  assumes "filled e line d s line1 d1 s1" and "filled e line1 d1 s1 line2 d2 s2"
  shows "filled e line d s line2 d2 s2"
proof -
  obtain ws ws' where "words (take d1 line1) = words (take d line) @ ws" "words s = ws @ words s1" "\<forall>x \<in> set ws. length x + d < e"
      "words (take d2 line2) = words (take d1 line1) @ ws'" "words s1 = ws' @ words s2" "\<forall>x \<in> set ws'. length x + d1 < e"
    using assms unfolding filled_def by (elim conjE exE) (rule that)
  moreover have "d \<le> d1" using assms(1) by (simp add: filled_def)
  ultimately have "words (take d2 line2) = words (take d line) @ (ws @ ws') \<and> words s = (ws @ ws') @ words s2 \<and>
      (\<forall>x \<in> set (ws @ ws'). length x + d < e)" by auto
  then show ?thesis using assms unfolding filled_def by (intro conjI exI [of _ "ws @ ws'"]) auto
qed

lemma open_end_pad: "n \<noteq> 0 \<Longrightarrow> open_end (a @ replicate n 0x20)"
  by (simp add: open_end_def)

lemma first_word:
  fixes s
  defines "w \<equiv> takeWhile (\<lambda>c. \<not> is_ws c) s" and "s1 \<equiv> dropWhile (\<lambda>c. \<not> is_ws c) s"
  shows "drop (length w) s = s1" and "s = w @ s1" and "s1 = [] \<or> is_ws (hd s1)"
    and "words s = words w @ words s1" and "\<forall>x \<in> set (words w). length x = length w"
proof -
  show "drop (length w) s = s1" by (simp add: w_def s1_def dropWhile_eq_drop)
  show s: "s = w @ s1" by (simp add: w_def s1_def)
  show ws: "s1 = [] \<or> is_ws (hd s1)" using hd_dropWhile [of "\<lambda>c. \<not> is_ws c" s] by (auto simp: s1_def)
  show "words s = words w @ words s1"
  proof (cases s1)
    case Nil
    then show ?thesis using s by simp
  next
    case (Cons x r)
    then show ?thesis using s ws words_split [of x w r] words_ws_Cons [of x r] by simp
  qed
  have "\<forall>x \<in> set w. \<not> is_ws x" by (auto simp: w_def dest: set_takeWhileD)
  from words_word [OF this] show "\<forall>x \<in> set (words w). length x = length w" by simp
qed

text \<open>One turn of the loop: the word ends the line, ends the text, or is followed by a space.\<close>

lemma fill_words_turn:
  fixes s
  assumes open_d: "open_end (take d line)" and len: "d \<le> length line" "e < length line" and ne: "d < e" "s \<noteq> []"
  defines "w \<equiv> takeWhile (\<lambda>c. \<not> is_ws c) s"
  obtains (full) line1 where "fill_words e line d s = Inr (line1, d, s)" "filled e line d s line1 d s" "e - d \<le> length w"
    | (last) line1 where "fill_words e line d s = Inr (line1, d + length w, [])" "filled e line d s line1 (d + length w) []"
      "d + length w < e"
    | (more) line2 s2 where "fill_words e line d s = fill_words e line2 (d + length w + 1) s2"
      "filled e line d s line2 (d + length w + 1) s2" "length s2 < length s" "d + length w < e"
      "open_end (take (d + length w + 1) line2)" "length line2 = length line"
proof (cases "e - d \<le> length w")
  case True
  let ?line = "take d line @ take (e - d) w @ drop e line"
  have "fill_words e line d s = Inr (?line, d, s)"
    using True len ne by (subst fill_words.simps) (simp add: Let_def flip: w_def)
  moreover have "filled e line d s ?line d s" using len ne(1) True by (intro filled_refl) simp_all
  ultimately show thesis using full True by blast
next
  case short: False
  define s1 where "s1 = dropWhile (\<lambda>c. \<not> is_ws c) s"
  note fw = first_word [of s, folded w_def s1_def]
  define line1 where "line1 = take d line @ w @ drop (d + length w) line"
  have take_w: "take (e - d) w = w" using short by simp
  have unf: "fill_words e line d s = (if s1 \<noteq> [] then rbind (poke line1 (d + length w) [0x20])
      (\<lambda>line. fill_words e line (d + length w + 1) (dropWhile is_ws s1)) else Inr (line1, d + length w, []))"
    using short len ne fw(1,3) fill_words.simps [of e line1 "d + length w" "[]"]
    by (subst fill_words.simps) (auto simp: Let_def take_w line1_def simp flip: w_def)
  have line1: "length line1 = length line" "take (d + length w) line1 = take d line @ w"
    using len short by (simp_all add: line1_def)
  have now: "words (take d line @ w) = words (take d line) @ words w" by (rule words_open [OF open_d])
  have fits: "\<forall>x \<in> set (words w). length x + d < e" using fw(5) short by auto
  show thesis
  proof (cases "s1 = []")
    case True
    have "filled e line d s line1 (d + length w) []"
      using line1 now True fw(2,4) fits by (auto simp: filled_def)
    then show thesis using last unf True short by simp
  next
    case False
    define line2 where "line2 = take (d + length w) line1 @ [0x20] @ drop (d + length w + 1) line1"
    have line2: "poke line1 (d + length w) [0x20] = Inr line2" "length line2 = length line"
      "take (d + length w + 1) line2 = take d line @ w @ [0x20]"
      using line1 short len(2) by (simp_all add: line2_def)
    have shorter: "length (dropWhile is_ws s1) < length s1"
      using False fw(3) by (cases s1) (auto simp: length_dropWhile_le le_imp_less_Suc)
    have sub: "set (dropWhile is_ws s1) \<subseteq> set s1" by (meson set_dropWhileD subsetI)
    have "words (take d line @ w @ [0x20]) = words (take d line) @ words w"
      using now words_split [of "0x20" "take d line @ w" "[]"] by simp
    then have "filled e line d s line2 (d + length w + 1) (dropWhile is_ws s1)"
      using line2(2,3) shorter sub fw(2,4) fits by (auto simp: filled_def words_dropWhile)
    moreover have "open_end (take (d + length w + 1) line2)" using line2(3) by (simp flip: append_assoc)
    moreover have "length (dropWhile is_ws s1) < length s" using shorter fw(2) by (metis length_append trans_less_add2)
    ultimately show thesis using more line2 unf False short by simp
  qed
qed

lemma fill_words_ok:
  assumes "open_end (take d line)" and "d \<le> length line" and "e < length line"
  shows "\<exists>line' d' s'. fill_words e line d s = Inr (line', d', s') \<and> filled e line d s line' d' s' \<and> d' \<le> max d e \<and>
    (length (takeWhile (\<lambda>c. \<not> is_ws c) s) < e - d \<and> s \<noteq> [] \<longrightarrow> length s' < length s)"
  using assms
proof (induction "length s" arbitrary: line d s rule: less_induct)
  case less
  let ?w = "takeWhile (\<lambda>c. \<not> is_ws c) s"
  show ?case
  proof (cases "e \<le> d \<or> s = []")
    case True
    then show ?thesis by (subst fill_words.simps) (auto simp: filled_refl)
  next
    case False
    then have d: "d < e" "s \<noteq> []" by simp_all
    from less.prems d show ?thesis
    proof (cases rule: fill_words_turn)
      case (full line1)
      then show ?thesis by auto
    next
      case (last line1)
      then show ?thesis using d by auto
    next
      case (more line2 s2)
      have "d + length ?w + 1 \<le> length line2" "e < length line2" using more(4,6) less.prems(3) by simp_all
      from less.hyps [OF more(3,5) this] obtain line' d' s' where
        r: "fill_words e line2 (d + length ?w + 1) s2 = Inr (line', d', s')"
        "filled e line2 (d + length ?w + 1) s2 line' d' s'" "d' \<le> max (d + length ?w + 1) e"
        by blast
      have "length s' < length s" using r(2) more(3) by (simp add: filled_def)
      then show ?thesis using more(1,4) r filled_trans [OF more(2) r(2)] by auto
    qed
  qed
qed

lemma strip_line_ok:
  assumes "d < length line"
  shows "\<exists>d' line'. strip_line d line = Inr (d', line') \<and> length line' = length line \<and> d' \<le> d \<and>
    take d' line' = take d' line \<and> take d line = take d' line @ replicate (d - d') 0x20"
  using assms
proof (induction d arbitrary: line)
  case (Suc d)
  show ?case
  proof (cases "line ! d = 0x20")
    case True
    define line1 where "line1 = take (Suc d) line @ [0] @ drop (Suc d + 1) line"
    have poke: "poke line (Suc d) [0] = Inr line1" using poke_in [of "Suc d" "[0]" line] Suc.prems by (simp add: line1_def)
    have len: "length line1 = length line" "take d line1 = take d line" using Suc.prems by (simp_all add: line1_def min_def)
    obtain d' line' where r: "strip_line d line1 = Inr (d', line')" "length line' = length line1" "d' \<le> d"
        "take d' line' = take d' line1" "take d line1 = take d' line1 @ replicate (d - d') 0x20"
      using Suc.IH [of line1] Suc.prems len(1) by auto
    have "take d' line1 = take d' line" using arg_cong [OF len(2), of "take d'"] r(3) by (simp add: min_def)
    moreover have "take (Suc d) line = take d line @ [0x20]" using Suc.prems True by (simp add: take_Suc_conv_app_nth)
    ultimately show ?thesis using r len poke True Suc.prems by (auto simp: Suc_diff_le replicate_append_same)
  next
    case False
    then show ?thesis using Suc.prems by simp
  qed
qed simp

lemma desc_line_ok:
  assumes d: "d < e0 \<or> d = 0" and sizes: "d \<le> length line" "e0 < length line" "width < length line"
    and nz: "0 \<notin> set (take d line)" "0 \<notin> set s"
  shows "\<exists>out line' s'. desc_line e0 width line d s = Inr (out, line', s') \<and> length line' = length line \<and>
    (\<exists>ws. words out = words (take d line) @ ws \<and> words s = ws @ words s' \<and> (\<forall>x \<in> set ws. length x + e0 < width)) \<and> 0 \<notin> set s' \<and> length s' \<le> length s \<and>
    (length (takeWhile (\<lambda>c. \<not> is_ws c) s) + e0 < width \<and> s \<noteq> [] \<longrightarrow> length s' < length s)"
proof -
  let ?pad = "replicate (e0 - d) (0x20 :: u8)"
  define line1 where "line1 = take d line @ ?pad @ drop (d + length ?pad) line"
  have p1: "poke line d ?pad = Inr line1" using d sizes unfolding line1_def by (intro poke_in) auto
  have me: "max d e0 = e0" using d by auto
  have T1: "take e0 line1 = take d line @ ?pad" using d sizes by (auto simp: line1_def)
  have "open_end (take e0 line1)" using d T1 open_end_pad [of "e0 - d" "take d line"] by (cases "e0 = 0") auto
  moreover have len1: "length line1 = length line" using d sizes by (auto simp: line1_def)
  ultimately obtain line2 d2 s2 where f: "fill_words width line1 e0 s = Inr (line2, d2, s2)" "filled width line1 e0 s line2 d2 s2"
      "d2 \<le> max e0 width" "length (takeWhile (\<lambda>c. \<not> is_ws c) s) < width - e0 \<and> s \<noteq> [] \<longrightarrow> length s2 < length s"
    using fill_words_ok [of e0 line1 width s] sizes by auto
  have d2: "d2 < length line2" using f(2,3) sizes len1 by (auto simp: filled_def)
  obtain d3 line3 where st: "strip_line d2 line2 = Inr (d3, line3)" "length line3 = length line2" "d3 \<le> d2"
      "take d3 line3 = take d3 line2" "take d2 line2 = take d3 line2 @ replicate (d2 - d3) 0x20"
    using strip_line_ok [OF d2] by blast
  define line4 where "line4 = take d3 line3 @ [0] @ drop (d3 + 1) line3"
  have p4: "poke line3 d3 [0] = Inr line4" using poke_in [of d3 "[0]" line3] st(2,3) d2 by (simp add: line4_def)
  have "set (take d2 line2) \<subseteq> insert 0x20 (set (take e0 line1) \<union> set s)" using f(2) by (auto simp: filled_def)
  then have "0 \<notin> set (take d2 line2)" using nz T1 by (auto split: if_splits)
  then have nz3: "0 \<notin> set (take d3 line3)" using st(4,5) by auto
  have out: "cstr_at line4 0 = Inr (take d3 line3)"
    using nz3 by (auto simp: cstr_at_def line4_def takeWhile_tail takeWhile_append)
  have "words (take d3 line3) = words (take d2 line2)" using words_spaces [of "take d3 line2" "d2 - d3"] st(4,5) by simp
  moreover have "\<exists>ws. words (take d2 line2) = words (take d line) @ ws \<and> words s = ws @ words s2 \<and> (\<forall>x \<in> set ws. length x + e0 < width)"
    using f(2) T1 words_spaces [of "take d line" "e0 - d"] by (simp add: filled_def)
  moreover have "length line4 = length line" using st(2,3) d2 f(2) len1 by (simp add: line4_def filled_def)
  moreover have "desc_line e0 width line d s = Inr (take d3 line3, line4, s2)"
    by (simp add: desc_line_def p1 me f(1) st(1) p4 out)
  ultimately show ?thesis using f(2,4) nz(2) by (auto simp: filled_def)
qed

lemma desc_loop_ok:
  assumes "d < e0 \<or> d = 0" and "d \<le> length line" "e0 < width" "width < length line"
    and "0 \<notin> set (take d line)" "0 \<notin> set s" and "\<forall>w \<in> set (words s). length w + e0 < width"
  shows "\<exists>outs line'. desc_loop e0 width line d s = Some (Inr (outs, line')) \<and> length line' = length line \<and>
    concat (map words outs) = words (take d line) @ words s"
  using assms
proof (induction s arbitrary: line d rule: measure_induct_rule [of length])
  case (less s)
  obtain out line1 s1 where l: "desc_line e0 width line d s = Inr (out, line1, s1)" "length line1 = length line"
      "\<exists>ws. words out = words (take d line) @ ws \<and> words s = ws @ words s1 \<and> (\<forall>x \<in> set ws. length x + e0 < width)" "0 \<notin> set s1" "length s1 \<le> length s"
      "length (takeWhile (\<lambda>c. \<not> is_ws c) s) + e0 < width \<and> s \<noteq> [] \<longrightarrow> length s1 < length s"
    using desc_line_ok [of d e0 line width s] less.prems by auto
  show ?case
  proof (cases "s1 = []")
    case True
    then show ?thesis using l by (subst desc_loop.simps) auto
  next
    case False
    then have s: "s \<noteq> []" using l(5) by auto
    have "length (takeWhile (\<lambda>c. \<not> is_ws c) s) + e0 < width"
      using words_first [OF s] less.prems(3,7) s by (cases s; cases "is_ws (hd s)") auto
    then have shorter: "length s1 < length s" using l(6) s by simp
    have "set (words s1) \<subseteq> set (words s)"
      using l(3) by auto
    then obtain outs line' where "desc_loop e0 width line1 0 s1 = Some (Inr (outs, line'))" "length line' = length line1"
        "concat (map words outs) = words s1"
      using less.IH [OF shorter, of 0 line1] less.prems l(2,4) by auto
    then show ?thesis using l False by (subst desc_loop.simps) auto
  qed
qed

text \<open>If the loop ends then every word fits.\<close>

lemma desc_loop_ends:
  assumes "desc_loop e0 width line d s = Some r"
  shows "(d < e0 \<or> d = 0) \<and> d \<le> length line \<and> e0 < width \<and> width < length line \<and> 0 \<notin> set (take d line) \<and> 0 \<notin> set s \<longrightarrow>
    (\<forall>w \<in> set (words s). length w + e0 < width)"
proof (rule desc_loop.raw_induct [OF _ assms], intro impI)
  fix rec :: "nat \<Rightarrow> nat \<Rightarrow> bytes \<Rightarrow> nat \<Rightarrow> bytes \<Rightarrow> (bytes list \<times> bytes) res option" and e0 width line d s r
  assume IH: "\<And>e0 width line d s r. rec e0 width line d s = Some r \<Longrightarrow>
      (d < e0 \<or> d = 0) \<and> d \<le> length line \<and> e0 < width \<and> width < length line \<and> 0 \<notin> set (take d line) \<and> 0 \<notin> set s \<longrightarrow>
      (\<forall>w \<in> set (words s). length w + e0 < width)"
    and body: "(case desc_line e0 width line d s of
        Inl e \<Rightarrow> Some (Inl e)
      | Inr (out, line, s') \<Rightarrow>
          if s' = [] then Some (Inr ([out], line))
          else Option.bind (rec e0 width line 0 s') (\<lambda>r. Some (rbind r (\<lambda>(outs, line). Inr (out # outs, line))))) = Some r"
    and pre: "(d < e0 \<or> d = 0) \<and> d \<le> length line \<and> e0 < width \<and> width < length line \<and> 0 \<notin> set (take d line) \<and> 0 \<notin> set s"
  obtain out line1 s1 ws where l: "desc_line e0 width line d s = Inr (out, line1, s1)" "length line1 = length line"
      "words s = ws @ words s1" "\<forall>x \<in> set ws. length x + e0 < width" "0 \<notin> set s1"
    using desc_line_ok [of d e0 line width s] pre by auto
  show "\<forall>w \<in> set (words s). length w + e0 < width"
  proof (cases "s1 = []")
    case False
    then obtain r1 where "rec e0 width line1 0 s1 = Some r1" using body l(1) by (auto simp: bind_eq_Some_conv)
    from IH [OF this] pre l show ?thesis by auto
  qed (use l in simp)
qed

section \<open>The default value\<close>

fun shows_kind :: "getter \<Rightarrow> vkind" where
  "shows_kind GetString = KStr"
| "shows_kind GetAval = KInt"
| "shows_kind GetSize = KInt"
| "shows_kind GetLogopts = KLog"
| "shows_kind GetLoglevel = KInt"

text \<open>The variable has the type its getter expects; a string is there and short enough.\<close>

definition string_fits :: "'w menv \<Rightarrow> nat \<Rightarrow> strptr \<Rightarrow> bool" where
  "string_fits m n s = (case s of StrNull \<Rightarrow> True | StrLit t \<Rightarrow> length t < n
     | StrHeap a \<Rightarrow> (case me_strs m a of None \<Rightarrow> False | Some t \<Rightarrow> length t < n))"

definition default_fits :: "'w menv \<Rightarrow> nat \<Rightarrow> metad_param \<Rightarrow> bool" where
  "default_fits m n p \<longleftrightarrow> (case mp_to_string p of None \<Rightarrow> True
     | Some g \<Rightarrow> (case me_cells m (mp_ptr p) of None \<Rightarrow> False
         | Some c \<Rightarrow> kind c = shows_kind g \<and> (case c of VStr s \<Rightarrow> string_fits m n s | _ \<Rightarrow> True)))"

lemma snprintf_fit:
  "\<exists>l b. rbind (snprintf buf (length buf) t) (fit (length buf)) = Inr (l, b) \<and> length b = length buf \<and> l < int (length buf)"
  if "buf \<noteq> []"
  using snprintf_total [of "length buf" buf t] that by (auto simp: fit_def)

lemma get_logopts_fits:
  "\<exists>l b. mconf_get_logopts fac lo buf (length buf) = Inr (l, b) \<and> length b = length buf \<and> l < int (length buf)" if "buf \<noteq> []"
proof -
  have "\<exists>r. (case find_name fac (lo_facility lo) of None \<Rightarrow> Inr (Some (0, buf))
      | Some name \<Rightarrow> if length buf \<le> length name then Inr None
          else rbind (poke buf 0 (name @ [0])) (\<lambda>b. Inr (Some (length name, b)))) = Inr r \<and>
      (\<forall>l b. r = Some (l, b) \<longrightarrow> length b = length buf \<and> l < length buf)"
    using that by (auto split: option.split)
  then obtain r where r: "(case find_name fac (lo_facility lo) of None \<Rightarrow> Inr (Some (0, buf))
      | Some name \<Rightarrow> if length buf \<le> length name then Inr None
          else rbind (poke buf 0 (name @ [0])) (\<lambda>b. Inr (Some (length name, b)))) = Inr r"
      "\<And>l b. r = Some (l, b) \<Longrightarrow> length b = length buf \<and> l < length buf" by blast
  have "length (asc ''(stderr)'') = 8" by (simp add: asc_def)
  then show ?thesis using r(2) that unfolding mconf_get_logopts_def r(1) by (cases r) (auto simp: not_le)
qed

lemma param_get_ok:
  assumes "default_fits m (length buf) p" and "mp_to_string p = Some g" and "4 < length buf"
  shows "\<exists>l b. param_get lib p g buf (length buf) m = Inr (l, b) \<and> length b = length buf \<and> l < int (length buf)"
proof -
  obtain c where c: "me_cells m (mp_ptr p) = Some c" "kind c = shows_kind g"
      "(case c of VStr s \<Rightarrow> string_fits m (length buf) s | _ \<Rightarrow> True)"
    using assms(1,2) by (auto simp: default_fits_def split: option.splits)
  have ne: "buf \<noteq> []" using assms(3) by auto
  show ?thesis
  proof (cases g)
    case GetString
    then obtain s where s: "c = VStr s" using c(2) by (auto elim: kind_StrE)
    then show ?thesis using c(1) c(3) [unfolded s, simplified] GetString ne
      by (auto simp: param_get_def string_fits_def mconf_get_string_def split: strptr.splits option.splits)
  next
    case GetAval
    then obtain v where "c = VInt v" using c(2) by (auto elim: kind_IntE)
    then show ?thesis using c(1) GetAval snprintf_fit [OF ne] assms(3)
      by (auto simp: param_get_def mconf_get_aval_def asc_def)
  next
    case GetSize
    then obtain v where "c = VInt v" using c(2) by (auto elim: kind_IntE)
    then show ?thesis using c(1) GetSize snprintf_fit [OF ne] by (simp add: param_get_def mconf_get_uint_size_def)
  next
    case GetLogopts
    then obtain lo where "c = VLog lo" using c(2) by (auto elim: kind_LogE)
    then show ?thesis using c(1) GetLogopts get_logopts_fits [OF ne] by (simp add: param_get_def)
  next
    case GetLoglevel
    then obtain v where "c = VInt v" using c(2) by (auto elim: kind_IntE)
    then show ?thesis using c(1) GetLoglevel loglevel_loop_total [of "length buf" buf 0 "ml_priorities lib" v] ne
      by (simp add: param_get_def mconf_get_loglevel_def)
  qed
qed

lemma help_default_ok:
  assumes fits: "default_fits m (128 - (e0 + 9)) p" and g: "mp_to_string p = Some g" and line: "length line = 128" and e0: "e0 < 114"
  shows "\<exists>ds. help_default lib p g e0 line m = Inr ds"
proof -
  have l9: "length (asc ''default: '') = 9" by (simp add: asc_def)
  define line1 where "line1 = replicate e0 0x20 @ drop e0 line"
  define line2 where "line2 = take e0 line1 @ (asc ''default: '' @ [0]) @ drop (e0 + 10) line1"
  have p1: "poke line 0 (replicate e0 0x20) = Inr line1" using e0 line by (simp add: line1_def)
  have len1: "length line1 = 128" using e0 line by (simp add: line1_def)
  have p2: "poke line1 e0 (asc ''default: '' @ [0]) = Inr line2"
    using poke_in [of e0 "asc ''default: '' @ [0]" line1] e0 len1 l9 by (simp add: line2_def)
  have len2: "length line2 = 128" using e0 len1 l9 by (simp add: line2_def)
  then have len3: "length (drop (e0 + 9) line2) = 128 - (e0 + 9)" by simp
  have room: "4 < 128 - (e0 + 9)" using e0 by simp
  obtain l b where get: "param_get lib p g (drop (e0 + 9) line2) (128 - (e0 + 9)) m = Inr (l, b)" "length b = 128 - (e0 + 9)"
      "l < int (128 - (e0 + 9))"
    using param_get_ok [of m "drop (e0 + 9) line2" p g lib, unfolded len3, OF fits g room] by blast
  let ?line3 = "take (e0 + 9) line2 @ b"
  have len: "length ?line3 = 128" using len2 get(2) e0 by simp
  have "e0 + 9 + nat l < 128" using get(3) e0 by linarith
  then obtain line4 where line4: "poke ?line3 (e0 + 9 + nat l) [0] = Inr line4" "0 \<in> set line4"
    using poke_in [of "e0 + 9 + nat l" "[0]" ?line3] len by simp
  then have "\<exists>out. cstr_at line4 0 = Inr out" by (simp add: cstr_at_def)
  then show ?thesis unfolding help_default_def by (auto simp: p1 p2 get(1) [simplified] line4(1) Let_def)
qed

section \<open>The whole message\<close>

text \<open>What the message assumes of an option: C strings, a description when it is shown, a default value that fits.\<close>

definition option_fits :: "'w menv \<Rightarrow> nat \<Rightarrow> metad_param \<Rightarrow> bool" where
  "option_fits m e0 p \<longleftrightarrow> mp_comment p \<noteq> None \<and> (\<forall>t. mp_long p = Some t \<or> mp_comment p = Some t \<longrightarrow> 0 \<notin> set t) \<and>
     default_fits m (128 - (e0 + 9)) p"

definition hidden :: "metad_param \<Rightarrow> bool" where
  "hidden p \<longleftrightarrow> mp_short p = 0 \<and> mp_long p = None"

definition description :: "metad_param \<Rightarrow> bytes" where
  "description p = (case snd (opt_column p) of None \<Rightarrow> [] | Some s \<Rightarrow> s)"

definition words_fit :: "nat \<Rightarrow> nat \<Rightarrow> metad_param \<Rightarrow> bool" where
  "words_fit e0 width p \<longleftrightarrow> hidden p \<or> list_all (\<lambda>w. length w + e0 < width) (words (description p))"

definition shown_words :: "metad_param \<Rightarrow> bytes list" where
  "shown_words p = (if hidden p then [] else words (fst (opt_column p)) @ words (description p))"

lemma opt_column_length: "length (fst (opt_column p)) = 2 + opt_width p"
  by (simp add: opt_column_def opt_width_def split: option.split prod.split)

lemma opt_columns_ge: "p \<in> set (mc_options cf) \<Longrightarrow> opt_width p \<le> opt_columns cf"
proof -
  have "w \<le> fold (\<lambda>p w. max w (opt_width p)) ps w \<and>
      (p \<in> set ps \<longrightarrow> opt_width p \<le> fold (\<lambda>p w. max w (opt_width p)) ps w)" for ps w
    by (induction ps arbitrary: w) (auto intro: order_trans [OF max.cobounded2] order_trans [OF max.cobounded1])
  then show "p \<in> set (mc_options cf) \<Longrightarrow> opt_width p \<le> opt_columns cf" by (simp add: opt_columns_def)
qed

lemma bar_split_sub: "bar_split s = Some (a, b) \<Longrightarrow> set a \<subseteq> set s \<and> set b \<subseteq> set s"
  by (cases "dropWhile (\<lambda>c. c \<noteq> 0x7c) s")
    (auto simp: bar_split_def split: if_splits dest: set_takeWhileD, metis list.set_intros(2) set_dropWhileD)

lemma opt_column_nz:
  assumes "option_fits m e0 p"
  obtains s where "opt_column p = (fst (opt_column p), Some s)" "description p = s" "0 \<notin> set (fst (opt_column p))" "0 \<notin> set s"
proof -
  obtain c where c: "mp_comment p = Some c" "0 \<notin> set c" using assms by (auto simp: option_fits_def)
  have long: "0 \<notin> set t" if "mp_long p = Some t" for t using assms that by (simp add: option_fits_def)
  show thesis
  proof (cases "bar_split c")
    case None
    then show thesis using that c long by (auto simp: opt_column_def description_def split: option.split)
  next
    case (Some ab)
    then obtain a b where ab: "bar_split c = Some (a, b)" "0 \<notin> set a" "0 \<notin> set b"
      using bar_split_sub [of c] c(2) by (cases ab) auto
    then show thesis using that c long by (auto simp: opt_column_def description_def split: option.split)
  qed
qed

lemma help_option_cases:
  assumes fits: "option_fits m e0 p" and c: "opt_width p + 6 \<le> e0" and w: "e0 < width" "width < 115"
  shows "words_fit e0 width p \<Longrightarrow> \<exists>os ds. help_option lib junk e0 width p m = Some (Inr os) \<and>
      concat (map words os) = shown_words p @ ds \<and> (mp_to_string p = None \<longrightarrow> ds = [])"
    and "\<not> words_fit e0 width p \<Longrightarrow> help_option lib junk e0 width p m = None"
proof -
  define col where "col = fst (opt_column p)"
  define line where "line = col @ drop (length col) (map junk [0..<128])"
  obtain s where s: "opt_column p = (col, Some s)" "description p = s" "0 \<notin> set col" "0 \<notin> set s"
    using opt_column_nz [OF fits] by (auto simp: col_def)
  have len: "length col < e0" using c by (simp add: opt_column_length col_def)
  have p1: "poke (map junk [0..<128]) 0 col = Inr line" using len w by (simp add: line_def)
  have l: "length line = 128" "take (length col) line = col" using len w by (simp_all add: line_def)
  have nz: "0 \<notin> set (take (length col) line)" "0 \<notin> set s" using l s by simp_all
  have unf: "help_option lib junk e0 width p m = Option.bind (desc_loop e0 width line (length col) s) (\<lambda>r. Some (rbind r (\<lambda>(outs, line).
      case mp_to_string p of None \<Rightarrow> Inr outs | Some g \<Rightarrow> rbind (help_default lib p g e0 line m) (\<lambda>ds. Inr (outs @ ds)))))"
    if "\<not> hidden p" using that s(1) p1 by (auto simp: help_option_def hidden_def)
  show "\<exists>os ds. help_option lib junk e0 width p m = Some (Inr os) \<and> concat (map words os) = shown_words p @ ds \<and>
      (mp_to_string p = None \<longrightarrow> ds = [])" if fit: "words_fit e0 width p"
  proof (cases "hidden p")
    case True
    then show ?thesis by (simp add: help_option_def hidden_def shown_words_def)
  next
    case False
    obtain outs line' where d: "desc_loop e0 width line (length col) s = Some (Inr (outs, line'))" "length line' = 128"
        "concat (map words outs) = words col @ words s"
      using desc_loop_ok [of "length col" e0 line width s] len w l nz fit False s(2) by (auto simp: words_fit_def list_all_iff)
    show ?thesis
    proof (cases "mp_to_string p")
      case None
      then show ?thesis using unf [OF False] d False s(2) by (simp add: shown_words_def flip: col_def)
    next
      case (Some g)
      obtain ds where "help_default lib p g e0 line' m = Inr ds"
        using help_default_ok [of m e0 p g line' lib] fits Some d(2) w by (auto simp: option_fits_def)
      then show ?thesis using unf [OF False] d Some False s(2) by (simp add: shown_words_def flip: col_def)
    qed
  qed
  show "help_option lib junk e0 width p m = None" if "\<not> words_fit e0 width p"
    using that unf desc_loop_ends [of e0 width line "length col" s] len w l nz s(2)
    by (cases "desc_loop e0 width line (length col) s") (auto simp: words_fit_def list_all_iff)
qed

lemma help_options_cases:
  assumes "\<forall>p \<in> set ps. option_fits m e0 p \<and> opt_width p + 6 \<le> e0" and w: "e0 < width" "width < 115"
  shows "if list_all (words_fit e0 width) ps
    then \<exists>oss. help_options lib junk e0 width ps m = Some (Inr (concat oss)) \<and> list_all2 (\<lambda>p os. \<exists>ds.
      concat (map words os) = shown_words p @ ds \<and> (mp_to_string p = None \<longrightarrow> ds = [])) ps oss
    else help_options lib junk e0 width ps m = None"
  using assms(1)
proof (induction ps)
  case Nil
  then show ?case by (simp add: exI [of _ "[]"])
next
  case (Cons p ps)
  note here = help_option_cases [of m e0 p width lib junk] and IH = Cons.IH
  show ?case
  proof (cases "words_fit e0 width p")
    case True
    obtain os ds where o: "help_option lib junk e0 width p m = Some (Inr os)" "concat (map words os) = shown_words p @ ds"
        "mp_to_string p = None \<longrightarrow> ds = []"
      using here(1) True Cons.prems w by auto
    show ?thesis
    proof (cases "list_all (words_fit e0 width) ps")
      case True
      then obtain oss where "help_options lib junk e0 width ps m = Some (Inr (concat oss))"
          "list_all2 (\<lambda>p os. \<exists>ds. concat (map words os) = shown_words p @ ds \<and> (mp_to_string p = None \<longrightarrow> ds = [])) ps oss"
        using IH Cons.prems by auto
      then show ?thesis using True \<open>words_fit e0 width p\<close> o by (auto intro!: exI [of _ "os # oss"])
    qed (use IH Cons.prems o in auto)
  qed (use here(2) Cons.prems w in simp)
qed

text \<open>
  C17. The help message, for options that all have a description, whose names and descriptions are C strings and whose default
  values are short (\<open>option_fits\<close>), when the option column leaves room before the width and the width is below 115: if every
  word of the descriptions fits between the option column and the width, the message is complete, it writes inside
  its line buffer and its lines contain for each option, in order, the words of the option column and of the
  description; and if a single word is too long, it runs for ever.
\<close>

theorem mconf_help_msg_prints:
  assumes "opt_columns cf + 6 < width" and "width < 115" and "list_all (option_fits m (opt_columns cf + 6)) (mc_options cf)"
  shows "if list_all (words_fit (opt_columns cf + 6) width) (mc_options cf)
    then \<exists>oss. mconf_help_msg lib junk cf width m = Some (Inr (concat oss)) \<and> list_all2 (\<lambda>p os. \<exists>ds.
      concat (map words os) = shown_words p @ ds \<and> (mp_to_string p = None \<longrightarrow> ds = [])) (mc_options cf) oss
    else mconf_help_msg lib junk cf width m = None"
  unfolding mconf_help_msg_def
  by (rule help_options_cases) (use assms opt_columns_ge in \<open>auto simp: list_all_iff\<close>)

text \<open>A client with two options and their descriptions.\<close>

definition help_param :: "u8 \<Rightarrow> string \<Rightarrow> getter option \<Rightarrow> addr \<Rightarrow> string \<Rightarrow> metad_param" where
  "help_param c name g x text = \<lparr>mp_short = c, mp_long = Some (asc name), mp_conf = None, mp_set = SetSize, mp_to_string = g,
     mp_ptr = x, mp_is_set = False, mp_args = 1, mp_comment = Some (asc text), mp_idx = 0\<rparr>"

definition help_mconf :: mconf where
  "help_mconf = (mconf_init None [])\<lparr>mc_blocks := [\<lparr>mb_opts = [help_param 0x73 ''size'' (Some GetSize) 1 ''n|size of the send buffer'',
     help_param 0 ''wait'' None 1 ''time to wait for the server''], mb_section = None\<rparr>]\<rparr>"

definition help_menv :: "unit menv" where
  "help_menv = \<lparr>me_cells = [1 \<mapsto> VInt 4096], me_strs = Map.empty, me_next = 0, me_calls = 0, me_client = ()\<rparr>"

lemma mconf_help_msg_prints_witness:
  "\<forall>lib junk. (\<exists>oss. mconf_help_msg lib junk help_mconf 40 help_menv = Some (Inr (concat oss)) \<and> list_all2 (\<lambda>p os. \<exists>ds.
      concat (map words os) = shown_words p @ ds \<and> (mp_to_string p = None \<longrightarrow> ds = [])) (mc_options help_mconf) oss) \<and>
   mconf_help_msg lib junk help_mconf 22 help_menv = None"
proof -
  have cols: "opt_columns help_mconf = 12" by code_simp
  have fits: "list_all (option_fits help_menv 18) (mc_options help_mconf)"
    by (auto simp: help_mconf_def mc_options_def option_fits_def help_param_def default_fits_def help_menv_def asc_def)
  have "list_all (words_fit 18 40) (mc_options help_mconf)" "\<not> list_all (words_fit 18 22) (mc_options help_mconf)" by code_simp+
  then show ?thesis
    using mconf_help_msg_prints [of help_mconf 40 help_menv] mconf_help_msg_prints [of help_mconf 22 help_menv]
    by (simp add: cols fits)
qed

end
