(* ===== verification/Mconf_Getopt.thy ===== *)
theory Mconf_Getopt
  imports Mconf_Help
begin

text \<open>
  What \<open>mconf_parse_cmdline\<close> of \<^verbatim>\<open>lib/mconf.c\<close> hands to \<open>getopt_long\<close>, and what it may expect back: the option string
  and the array of long options built from the options of all blocks, and the documented results of
  \<open>getopt_long\<close> on such tables. Shown: the options \<open>mconf_add\<close> has accepted are told apart by their characters and
  the numbers they are given, the tables are what the options say and are written inside their memory, and a
  documented result selects only options whose arguments were asked for as the options want them.
\<close>

section \<open>The tables\<close>

text \<open>
  The tables for \<open>getopt_long\<close>: the string and the position \<open>d\<close> in it, the array and the position \<open>i\<close>.
  The table \<open>cmap\<close> of 256 pointers is written, never read; its index is a signed character.
\<close>

type_synonym tables = "(bytes \<times> nat) \<times> loption list \<times> nat"

definition colons :: "metad_param \<Rightarrow> bytes" where
  "colons p = (if mp_args p = 2 then [0x3a, 0x3a] else if mp_args p = 1 then [0x3a] else [])"

definition zero_option :: loption where
  "zero_option = \<lparr>ol_name = None, ol_has_arg = 0, ol_val = 0\<rparr>"

definition table_short :: "metad_param \<Rightarrow> bytes \<times> nat \<Rightarrow> (bytes \<times> nat) res" where
  "table_short p bd =
     (case bd of (buf, d) \<Rightarrow>
        if mp_short p = 0 then Inr bd
        else rbind (poke buf d (mp_short p # colons p)) (\<lambda>buf.
          if mp_short p < 0x80 then Inr (buf, d + 1 + length (colons p)) else Inl OutOfBounds))"

definition table_option :: "metad_param \<Rightarrow> tables \<Rightarrow> tables res" where
  "table_option p t =
     (case t of (bd, longs, i) \<Rightarrow> rbind (table_short p bd) (\<lambda>bd.
        if mp_long p = None then Inr (bd, longs, i)
        else rbind (poke longs i [\<lparr>ol_name = mp_long p, ol_has_arg = (if mp_args p \<le> 2 then mp_args p else 0),
                                   ol_val = mp_idx p\<rparr>]) (\<lambda>longs. Inr (bd, longs, i + 1))))"

fun tables_loop :: "metad_param list \<Rightarrow> tables \<Rightarrow> tables res" where
  "tables_loop [] t = Inr t"
| "tables_loop (p # ps) t = rbind (table_option p t) (tables_loop ps)"

text \<open>\<open>junk\<close>: what the allocated string contains.\<close>

definition build_tables :: "(nat \<Rightarrow> u8) \<Rightarrow> mconf \<Rightarrow> (bytes \<times> loption list) res" where
  "build_tables junk cf =
     rbind (poke (map junk [0..<mc_short_len cf + 1 + 2]) 0 [0x63, 0x3a]) (\<lambda>buf.
     rbind (tables_loop (mc_options cf) ((buf, 2), replicate (mc_long_count cf + 1) zero_option, 0)) (\<lambda>((buf, d), longs, i).
     rbind (poke buf d [0]) (\<lambda>buf.
     rbind (poke longs i [zero_option]) (\<lambda>longs. Inr (buf, longs)))))"

text \<open>One result of \<open>getopt_long\<close>: the value, the index of a long option or -1, and \<open>optarg\<close>.\<close>

record gopt =
  go_c :: int
  go_index :: int
  go_arg :: "bytes option"

type_synonym getopt = "bytes list \<Rightarrow> bytes \<Rightarrow> loption list \<Rightarrow> gopt list"

definition selected :: "loption list \<Rightarrow> gopt \<Rightarrow> metad_param \<Rightarrow> bool res" where
  "selected longs g p =
     (if mp_short p \<noteq> 0 \<and> sint (mp_short p) = go_c g then Inr True
      else if go_index g \<noteq> - 1 \<and> mp_long p \<noteq> None then
        rbind (if 0 \<le> go_index g then peek longs (nat (go_index g)) else Inl OutOfBounds) (\<lambda>lo. Inr (ol_val lo = mp_idx p))
      else Inr False)"

text \<open>
  What the manual page of \<open>getopt_long\<close> says of a result for the string \<open>s\<close> and the array \<open>ls\<close>: it is a question mark, or
  a character of the string, or the value of a long option before the end of the array; and an option that requires an argument
  comes with one. A character is followed by one colon if it requires an argument, and by two if it may have one.
\<close>

definition argspec :: "bytes \<Rightarrow> nat" where
  "argspec b = (if take 2 b = [0x3a, 0x3a] then 2 else if take 1 b = [0x3a] then 1 else 0)"

definition cstring :: "bytes \<Rightarrow> bytes" where
  "cstring s = takeWhile (\<lambda>c. c \<noteq> 0) s"

definition named :: "loption list \<Rightarrow> loption list" where
  "named ls = takeWhile (\<lambda>l. ol_name l \<noteq> None) ls"

definition gopt_short :: "bytes \<Rightarrow> gopt \<Rightarrow> bool" where
  "gopt_short s g \<longleftrightarrow> go_index g = - 1 \<and> (\<exists>a ch b. cstring s = a @ ch # b \<and> ch \<noteq> 0x3a \<and> go_c g = sint ch \<and>
     (argspec b = 1 \<longrightarrow> go_arg g \<noteq> None))"

definition gopt_long :: "loption list \<Rightarrow> gopt \<Rightarrow> bool" where
  "gopt_long ls g \<longleftrightarrow> (\<exists>i < length (named ls). go_index g = int i \<and> go_c g = ol_val (ls ! i) \<and>
     (ol_has_arg (ls ! i) = 1 \<longrightarrow> go_arg g \<noteq> None))"

definition gopt_doc :: "bytes \<Rightarrow> loption list \<Rightarrow> gopt \<Rightarrow> bool" where
  "gopt_doc s ls g \<longleftrightarrow> go_c g = 0x3f \<or> gopt_short s g \<or> gopt_long ls g"

text \<open>
  This is said of a terminated string that does not start with a character for another mode and has no semicolon,
  and of a terminated array.
\<close>

definition getopt_doc :: "getopt \<Rightarrow> bool" where
  "getopt_doc getopt_long \<longleftrightarrow> (\<forall>argv s ls. 0 \<in> set s \<and> take 1 s \<notin> {[0x2b], [0x2d], [0x3a]} \<and> 0x3b \<notin> set (cstring s) \<and>
     (\<exists>l \<in> set ls. ol_name l = None) \<longrightarrow> list_all (gopt_doc s ls) (getopt_long argv s ls))"

section \<open>What the tables contain\<close>

definition shorts_of :: "metad_param list \<Rightarrow> nat" where
  "shorts_of ps = sum_list (map short_size ps)"

definition longs_of :: "metad_param list \<Rightarrow> nat" where
  "longs_of ps = sum_list (map long_size ps)"

lemma counts_simps [simp]:
  "shorts_of [] = 0" "shorts_of (p # ps) = short_size p + shorts_of ps" "shorts_of (ps @ qs) = shorts_of ps + shorts_of qs"
  "longs_of [] = 0" "longs_of (p # ps) = long_size p + longs_of ps" "longs_of (ps @ qs) = longs_of ps + longs_of qs"
  by (simp_all add: shorts_of_def longs_of_def)

text \<open>The entry of an option in the string and in the array.\<close>

definition entry :: "metad_param \<Rightarrow> bytes" where
  "entry p = (if mp_short p = 0 then [] else mp_short p # colons p)"

definition lentry :: "metad_param \<Rightarrow> loption list" where
  "lentry p = (if mp_long p = None then []
     else [\<lparr>ol_name = mp_long p, ol_has_arg = (if mp_args p \<le> 2 then mp_args p else 0), ol_val = mp_idx p\<rparr>])"

lemma entry_length [simp]: "length (entry p) = short_size p" "length (lentry p) = long_size p"
  by (simp_all add: entry_def short_size_def colons_def lentry_def long_size_def)

lemma poke_prefix:
  assumes "off + length src \<le> length dst"
  obtains d where "poke dst off src = Inr d" "length d = length dst" "take (off + length src) d = take off dst @ src"
    "drop (off + length src) d = drop (off + length src) dst"
  using assms by (intro that [of "take off dst @ src @ drop (off + length src) dst"]) simp_all

lemma table_option_fills:
  assumes "mp_short p < 0x80" and "d + short_size p < length buf" and "i + long_size p < length ls"
  obtains buf' ls' where "table_option p ((buf, d), ls, i) = Inr ((buf', d + short_size p), ls', i + long_size p)"
    "length buf' = length buf" "length ls' = length ls"
    "take (d + short_size p) buf' = take d buf @ entry p" "take (i + long_size p) ls' = take i ls @ lentry p"
proof -
  obtain buf' where b: "poke buf d (entry p) = Inr buf'" "length buf' = length buf" "take (d + short_size p) buf' = take d buf @ entry p"
    using poke_prefix [of d "entry p" buf] assms(2) by auto
  obtain ls' where l: "poke ls i (lentry p) = Inr ls'" "length ls' = length ls" "take (i + long_size p) ls' = take i ls @ lentry p"
    using poke_prefix [of i "lentry p" ls] assms(3) by auto
  have 1: "table_short p (buf, d) = Inr (buf', d + short_size p)"
  proof (cases "mp_short p = 0")
    case True
    then show ?thesis using b assms(2) by (simp add: table_short_def entry_def short_size_def poke_def split: if_splits)
  next
    case False
    then show ?thesis using b assms(1) by (simp add: table_short_def entry_def short_size_def colons_def)
  qed
  have "table_option p ((buf, d), ls, i) = Inr ((buf', d + short_size p), ls', i + long_size p)"
  proof (cases "mp_long p = None")
    case True
    then show ?thesis using 1 l assms(3) by (simp add: table_option_def lentry_def long_size_def poke_def split: if_splits)
  next
    case False
    then obtain name where "mp_long p = Some name" by auto
    then show ?thesis using 1 l by (simp add: table_option_def lentry_def long_size_def)
  qed
  then show thesis using that b l by blast
qed

lemma tables_loop_fills:
  assumes "\<forall>p \<in> set ps. mp_short p < 0x80" and "d + shorts_of ps < length buf" and "i + longs_of ps < length ls"
  shows "\<exists>buf' ls'. tables_loop ps ((buf, d), ls, i) = Inr ((buf', d + shorts_of ps), ls', i + longs_of ps) \<and>
    length buf' = length buf \<and> length ls' = length ls \<and>
    take (d + shorts_of ps) buf' = take d buf @ concat (map entry ps) \<and> take (i + longs_of ps) ls' = take i ls @ concat (map lentry ps)"
  using assms
proof (induction ps arbitrary: buf d ls i)
  case (Cons p ps)
  obtain buf1 ls1 where 1: "table_option p ((buf, d), ls, i) = Inr ((buf1, d + short_size p), ls1, i + long_size p)"
      "length buf1 = length buf" "length ls1 = length ls"
      "take (d + short_size p) buf1 = take d buf @ entry p" "take (i + long_size p) ls1 = take i ls @ lentry p"
    by (rule table_option_fills [of p d buf i ls]) (use Cons.prems in auto)
  have "\<forall>p \<in> set ps. mp_short p < 0x80" "d + short_size p + shorts_of ps < length buf1" "i + long_size p + longs_of ps < length ls1"
    using Cons.prems 1 by (simp_all add: add.assoc)
  from Cons.IH [OF this] show ?case using 1 by (auto simp: add.assoc)
qed simp

definition counts_ok :: "mconf \<Rightarrow> bool" where
  "counts_ok cf \<longleftrightarrow> shorts_of (mc_options cf) \<le> mc_short_len cf \<and> longs_of (mc_options cf) \<le> mc_long_count cf"

lemma build_tables_fills:
  assumes "counts_ok cf" and "\<forall>p \<in> set (mc_options cf). mp_short p < 0x80"
  obtains s ls where "build_tables junk cf = Inr (s, ls)" "\<exists>r. s = [0x63, 0x3a] @ concat (map entry (mc_options cf)) @ 0 # r"
    "\<exists>r. ls = concat (map lentry (mc_options cf)) @ zero_option # r"
proof -
  let ?n = "2 + shorts_of (mc_options cf)" and ?k = "longs_of (mc_options cf)"
  obtain buf0 where p: "poke (map junk [0..<mc_short_len cf + 1 + 2]) 0 [0x63, 0x3a] = Inr buf0"
      "length buf0 = mc_short_len cf + 3" "take 2 buf0 = [0x63, 0x3a]"
    by (rule poke_prefix [of 0 "[0x63, 0x3a]" "map junk [0..<mc_short_len cf + 1 + 2]"]) (auto simp: numeral_2_eq_2)
  obtain buf ls where t: "tables_loop (mc_options cf) ((buf0, 2), replicate (mc_long_count cf + 1) zero_option, 0) = Inr ((buf, ?n), ls, ?k)"
      "length buf = mc_short_len cf + 3" "length ls = mc_long_count cf + 1"
      "take ?n buf = [0x63, 0x3a] @ concat (map entry (mc_options cf))" "take ?k ls = concat (map lentry (mc_options cf))"
    using tables_loop_fills [of "mc_options cf" 2 buf0 0 "replicate (mc_long_count cf + 1) zero_option"] assms p
    by (auto simp: counts_ok_def)
  have "poke buf ?n [0] = Inr (take ?n buf @ 0 # drop (?n + 1) buf)" "poke ls ?k [zero_option] = Inr (take ?k ls @ zero_option # drop (?k + 1) ls)"
    using assms(1) t by (simp_all add: counts_ok_def)
  then have "build_tables junk cf = Inr (take ?n buf @ 0 # drop (?n + 1) buf, take ?k ls @ zero_option # drop (?k + 1) ls)"
    using p t by (simp add: build_tables_def)
  then show thesis using t by (intro that) auto
qed

section \<open>The numbers of the options\<close>

text \<open>A long option has the number of its character, or one of its own between \<open>l\<close> and \<open>u\<close>.\<close>

definition idx_in :: "int \<Rightarrow> int \<Rightarrow> metad_param \<Rightarrow> bool" where
  "idx_in l u p \<longleftrightarrow> (mp_long p \<noteq> None \<longrightarrow> (if mp_short p \<noteq> 0 then mp_idx p = sint (mp_short p) else l \<le> mp_idx p \<and> mp_idx p < u))"

text \<open>What tells two options apart.\<close>

definition differ :: "metad_param \<Rightarrow> metad_param \<Rightarrow> bool" where
  "differ p q \<longleftrightarrow> (mp_short p \<noteq> 0 \<longrightarrow> mp_short p \<noteq> mp_short q) \<and>
     (mp_long p \<noteq> None \<and> mp_long q \<noteq> None \<and> mp_short p = 0 \<and> mp_short q = 0 \<longrightarrow> mp_idx p \<noteq> mp_idx q)"

definition numbered :: "int \<Rightarrow> metad_param list \<Rightarrow> bool" where
  "numbered u ps \<longleftrightarrow> 256 \<le> u \<and> list_all (idx_in 256 u) ps \<and> sorted_wrt differ ps"

text \<open>A table of options as \<open>mconf_add\<close> builds it.\<close>

definition tables_ok :: "mconf \<Rightarrow> bool" where
  "tables_ok cf \<longleftrightarrow> counts_ok cf \<and> numbered (mc_long_idx cf) (mc_options cf) \<and>
     list_all (\<lambda>b. conf_sections (mb_section b, mb_opts b)) (mc_blocks cf)"

lemma any_res_False: "(\<And>x. x \<in> set xs \<Longrightarrow> \<exists>b. f x = Inr b) \<Longrightarrow> \<exists>b. any_res f xs = Inr b \<and> (\<not> b \<longrightarrow> (\<forall>x \<in> set xs. f x = Inr False))"
proof (induction xs)
  case (Cons x xs)
  obtain b c where "f x = Inr b" "any_res f xs = Inr c" "\<not> c \<longrightarrow> (\<forall>x \<in> set xs. f x = Inr False)" using Cons by fastforce
  then show ?case by (intro exI [of _ "b \<or> c"]) simp
qed (simp add: exI [of _ False])

text \<open>The check for conflicts compares no missing section names, and finds the character and the name of an option.\<close>

lemma mconf_check_conflict_total:
  assumes "list_all (\<lambda>b. conf_sections (mb_section b, mb_opts b)) (mc_blocks cf)" and "sec = None \<longrightarrow> mp_conf opt = None"
  obtains b where "mconf_check_conflict cf sec opt = Inr b"
    "\<not> b \<Longrightarrow> \<forall>p \<in> set (mc_options cf). mp_short p \<noteq> 0 \<longrightarrow> mp_short p \<noteq> mp_short opt"
proof -
  have one: "\<exists>c. param_conflict (mb_section b) p sec opt = Inr c \<and> (\<not> c \<longrightarrow> mp_short p \<noteq> 0 \<longrightarrow> mp_short p \<noteq> mp_short opt)"
    if "b \<in> set (mc_blocks cf)" "p \<in> set (mb_opts b)" for b p
    using assms that by (auto simp: param_conflict_def conf_sections_def list_all_iff)
  define f where "f b = any_res (\<lambda>p. param_conflict (mb_section b) p sec opt) (mb_opts b)" for b :: mconf_block
  have blk: "\<exists>c. f b = Inr c \<and> (\<not> c \<longrightarrow> (\<forall>p \<in> set (mb_opts b). param_conflict (mb_section b) p sec opt = Inr False))"
    if "b \<in> set (mc_blocks cf)" for b
    unfolding f_def by (rule any_res_False) (use one [OF that] in blast)
  obtain c where c: "any_res f (mc_blocks cf) = Inr c" "\<not> c \<longrightarrow> (\<forall>b \<in> set (mc_blocks cf). f b = Inr False)"
    using any_res_False [of "mc_blocks cf" f] blk by blast
  have "mp_short p \<noteq> 0 \<longrightarrow> mp_short p \<noteq> mp_short opt" if "\<not> c" "b \<in> set (mc_blocks cf)" "p \<in> set (mb_opts b)" for b p
  proof -
    have "f b = Inr False" using c(2) that by blast
    then have "param_conflict (mb_section b) p sec opt = Inr False" using blk [OF that(2)] that(3) by auto
    then show ?thesis using one [OF that(2,3)] by auto
  qed
  then show thesis using c(1) by (intro that [of c]) (auto simp: mconf_check_conflict_def mc_options_def f_def [abs_def])
qed

lemma count_option_facts:
  assumes "count_option p cf = (cf', p')"
  shows "mc_blocks cf' = mc_blocks cf" "mc_short_len cf' = mc_short_len cf + short_size p'" "mc_long_count cf' = mc_long_count cf + long_size p'"
    "\<exists>i. p' = p\<lparr>mp_idx := i\<rparr>" "mc_long_idx cf \<le> mc_long_idx cf'" "idx_in (mc_long_idx cf) (mc_long_idx cf') p'"
proof -
  have p: "\<exists>i. p = p\<lparr>mp_idx := i\<rparr>" by (rule exI [of _ "mp_idx p"]) simp
  define i where "i = (if mp_short p \<noteq> 0 then sint (mp_short p) else mc_long_idx cf)"
  consider "mp_long p = None" "p' = p" "cf' = cf\<lparr>mc_short_len := mc_short_len cf + short_size p\<rparr>"
    | "mp_long p \<noteq> None" "p' = p\<lparr>mp_idx := i\<rparr>" "cf' = cf\<lparr>mc_short_len := mc_short_len cf + short_size p,
        mc_long_count := mc_long_count cf + 1, mc_long_idx := mc_long_idx cf + (if mp_short p \<noteq> 0 then 0 else 1)\<rparr>"
    using assms by (cases "mp_long p = None") (auto simp: count_option_def Let_def i_def split: if_splits)
  then have "mc_blocks cf' = mc_blocks cf \<and> mc_short_len cf' = mc_short_len cf + short_size p' \<and>
    mc_long_count cf' = mc_long_count cf + long_size p' \<and> (\<exists>i. p' = p\<lparr>mp_idx := i\<rparr>) \<and> mc_long_idx cf \<le> mc_long_idx cf' \<and>
    idx_in (mc_long_idx cf) (mc_long_idx cf') p'"
    by cases (use p in \<open>auto simp: long_size_def short_size_def idx_in_def i_def\<close>)
  then show "mc_blocks cf' = mc_blocks cf" "mc_short_len cf' = mc_short_len cf + short_size p'"
    "mc_long_count cf' = mc_long_count cf + long_size p'" "\<exists>i. p' = p\<lparr>mp_idx := i\<rparr>" "mc_long_idx cf \<le> mc_long_idx cf'"
    "idx_in (mc_long_idx cf) (mc_long_idx cf') p'" by blast+
qed

text \<open>The loop over a block: the options it has numbered, up to the first that conflicts with those before.\<close>

lemma idx_in_mono: "idx_in l u p \<Longrightarrow> l' \<le> l \<Longrightarrow> u \<le> u' \<Longrightarrow> idx_in l' u' p"
  by (auto simp: idx_in_def)

lemma differ_idx: "idx_in l m p \<Longrightarrow> idx_in m u q \<Longrightarrow> (mp_short p \<noteq> 0 \<Longrightarrow> mp_short p \<noteq> mp_short q) \<Longrightarrow> differ p q"
  by (auto simp: idx_in_def differ_def)

definition same_but_idx :: "metad_param \<Rightarrow> metad_param \<Rightarrow> bool" where
  "same_but_idx p' p \<longleftrightarrow> (\<exists>i. p' = p\<lparr>mp_idx := i\<rparr>)"

lemma same_but_idx_facts: "same_but_idx p' p \<Longrightarrow> mp_short p' = mp_short p \<and> mp_conf p' = mp_conf p \<and> mp_long p' = mp_long p"
  by (auto simp: same_but_idx_def)

lemma same_but_idx_all:
  assumes "list_all2 same_but_idx ps' ps" and "\<And>p i. P (p\<lparr>mp_idx := i\<rparr>) = P p"
  shows "list_all P ps' = list_all P ps"
  using assms(1) by (induction rule: list_all2_induct) (auto simp: same_but_idx_def assms(2))

lemma shorts_apart_Cons:
  assumes "shorts_apart (p # ps)" and "same_but_idx p1 p" and "list_all2 same_but_idx ps1 ps" and "q \<in> set ps1" and "mp_short p1 \<noteq> 0"
  shows "mp_short p1 \<noteq> mp_short q"
proof -
  have "\<exists>q0 \<in> set ps. same_but_idx q q0" using assms(3,4) by (metis in_set_conv_nth list_all2_conv_all_nth)
  then obtain q0 where "q0 \<in> set ps" "same_but_idx q q0" by blast
  then show ?thesis using assms(1,2,5) same_but_idx_facts by (simp add: shorts_apart_def)
qed

lemma numbers_Cons:
  assumes "idx_in l k p" "list_all (idx_in k u) ps" "sorted_wrt differ ps" "l \<le> k" "k \<le> u"
    and "\<And>q. q \<in> set ps \<Longrightarrow> mp_short p \<noteq> 0 \<Longrightarrow> mp_short p \<noteq> mp_short q"
  shows "list_all (idx_in l u) (p # ps) \<and> sorted_wrt differ (p # ps)"
proof -
  have "\<forall>q \<in> set ps. differ p q" using differ_idx [OF assms(1)] assms(2,6) by (auto simp: list_all_iff)
  moreover have "list_all (idx_in l u) ps" using assms(2) idx_in_mono [OF _ assms(4) order_refl] by (auto simp: list_all_iff)
  ultimately show ?thesis using assms(3) idx_in_mono [OF assms(1) order_refl assms(5)] by simp
qed

lemma add_loop_numbers:
  assumes "list_all (\<lambda>b. conf_sections (mb_section b, mb_opts b)) (mc_blocks cf)" and "conf_sections (sec, ps)" and "shorts_apart ps"
  shows "\<exists>ok ps' cf'. add_loop sec ps cf = Inr (ok, ps', cf') \<and> mc_blocks cf' = mc_blocks cf \<and> mc_long_idx cf \<le> mc_long_idx cf' \<and>
    mc_short_len cf \<le> mc_short_len cf' \<and> mc_long_count cf \<le> mc_long_count cf' \<and>
    (ok \<longrightarrow> mc_short_len cf' = mc_short_len cf + shorts_of ps' \<and> mc_long_count cf' = mc_long_count cf + longs_of ps' \<and>
      list_all2 same_but_idx ps' ps \<and> list_all (idx_in (mc_long_idx cf) (mc_long_idx cf')) ps' \<and> sorted_wrt differ ps' \<and>
      (\<forall>e \<in> set (mc_options cf). \<forall>p \<in> set ps'. mp_short e \<noteq> 0 \<longrightarrow> mp_short e \<noteq> mp_short p))"
  using assms
proof (induction ps arbitrary: cf)
  case (Cons p ps)
  obtain c where c: "mconf_check_conflict cf sec p = Inr c"
      "\<not> c \<Longrightarrow> \<forall>e \<in> set (mc_options cf). mp_short e \<noteq> 0 \<longrightarrow> mp_short e \<noteq> mp_short p"
    using mconf_check_conflict_total [OF Cons.prems(1), of sec p] Cons.prems(2) by (auto simp: conf_sections_def)
  show ?case
  proof (cases c)
    case True
    then show ?thesis using c by (intro exI [of _ False] exI [of _ "p # ps"] exI [of _ cf]) simp
  next
    case False
    obtain cf1 p1 where 1: "count_option p cf = (cf1, p1)" by fastforce
    note f = count_option_facts [OF 1]
    have opts: "mc_options cf1 = mc_options cf" using f(1) by (simp add: mc_options_def)
    have same: "same_but_idx p1 p" using f(4) by (simp add: same_but_idx_def)
    obtain ok ps2 cf2 where 2: "add_loop sec ps cf1 = Inr (ok, ps2, cf2)" "mc_blocks cf2 = mc_blocks cf1"
        "mc_long_idx cf1 \<le> mc_long_idx cf2" "mc_short_len cf1 \<le> mc_short_len cf2" "mc_long_count cf1 \<le> mc_long_count cf2"
      and ok: "ok \<longrightarrow> mc_short_len cf2 = mc_short_len cf1 + shorts_of ps2 \<and> mc_long_count cf2 = mc_long_count cf1 + longs_of ps2 \<and>
        list_all2 same_but_idx ps2 ps \<and> list_all (idx_in (mc_long_idx cf1) (mc_long_idx cf2)) ps2 \<and> sorted_wrt differ ps2 \<and>
        (\<forall>e \<in> set (mc_options cf1). \<forall>p \<in> set ps2. mp_short e \<noteq> 0 \<longrightarrow> mp_short e \<noteq> mp_short p)"
      using Cons.IH [of cf1] Cons.prems f(1) by (auto simp: conf_sections_def shorts_apart_def)
    have r: "add_loop sec (p # ps) cf = Inr (ok, p1 # ps2, cf2)" using c(1) False 1 2(1) by simp
    have "list_all (idx_in (mc_long_idx cf) (mc_long_idx cf2)) (p1 # ps2) \<and> sorted_wrt differ (p1 # ps2)" if ok
    proof (rule numbers_Cons [OF f(6) _ _ f(5) 2(3)])
      have k: "list_all2 same_but_idx ps2 ps" using ok that by blast
      show "q \<in> set ps2 \<Longrightarrow> mp_short p1 \<noteq> 0 \<Longrightarrow> mp_short p1 \<noteq> mp_short q" for q
        by (rule shorts_apart_Cons [OF Cons.prems(3) same k])
    qed (use ok that in blast)+
    then show ?thesis using r 2 f(1-3,5) ok same c(2) [OF False] opts same_but_idx_facts [OF same] by auto
  qed
qed (simp add: exI [of _ True])

lemma mconf_add_ok:
  assumes cf: "tables_ok cf" and b: "block_declared (sec, opts)"
    and P: "list_all P (mc_options cf)" "list_all P opts" "\<And>p i. P (p\<lparr>mp_idx := i\<rparr>) = P p"
  obtains ok cf' where "mconf_add sec opts cf = Inr (ok, cf')" "tables_ok cf'" "list_all P (mc_options cf')"
proof -
  have c: "counts_ok cf" "256 \<le> mc_long_idx cf" "list_all (idx_in 256 (mc_long_idx cf)) (mc_options cf)" "sorted_wrt differ (mc_options cf)"
      "list_all (\<lambda>b. conf_sections (mb_section b, mb_opts b)) (mc_blocks cf)"
    using cf by (simp_all add: tables_ok_def numbered_def)
  have d: "conf_sections (sec, opts)" "shorts_apart opts" using b by (simp_all add: block_declared_def)
  obtain ok ps cf1 where 1: "add_loop sec opts cf = Inr (ok, ps, cf1)" "mc_blocks cf1 = mc_blocks cf" "mc_long_idx cf \<le> mc_long_idx cf1"
      "mc_short_len cf \<le> mc_short_len cf1" "mc_long_count cf \<le> mc_long_count cf1"
    and ok: "ok \<longrightarrow> mc_short_len cf1 = mc_short_len cf + shorts_of ps \<and> mc_long_count cf1 = mc_long_count cf + longs_of ps \<and>
      list_all2 same_but_idx ps opts \<and> list_all (idx_in (mc_long_idx cf) (mc_long_idx cf1)) ps \<and> sorted_wrt differ ps \<and>
      (\<forall>e \<in> set (mc_options cf). \<forall>p \<in> set ps. mp_short e \<noteq> 0 \<longrightarrow> mp_short e \<noteq> mp_short p)"
    using add_loop_numbers [OF c(5) d] by auto
  have old: "list_all (idx_in 256 (mc_long_idx cf1)) (mc_options cf)"
    using c(3) idx_in_mono [OF _ order_refl 1(3)] by (auto simp: list_all_iff)
  show thesis
  proof (cases ok)
    case False
    have "mc_options cf1 = mc_options cf" using 1(2) by (simp add: mc_options_def)
    then have "tables_ok cf1" using c 1 old by (simp add: tables_ok_def numbered_def counts_ok_def)
    then show thesis using that 1 False P(1) by (simp add: mconf_add_def mc_options_def)
  next
    case True
    define cf2 where "cf2 = cf1\<lparr>mc_blocks := mc_blocks cf @ [\<lparr>mb_opts = ps, mb_section = sec\<rparr>]\<rparr>"
    have k: "list_all2 same_but_idx ps opts" "list_all (idx_in (mc_long_idx cf) (mc_long_idx cf1)) ps" "sorted_wrt differ ps"
      using ok True by blast+
    have opts: "mc_options cf2 = mc_options cf @ ps" by (simp add: cf2_def mc_options_def)
    have "\<forall>e \<in> set (mc_options cf). \<forall>p \<in> set ps. differ e p"
      using differ_idx [of 256 "mc_long_idx cf" _ "mc_long_idx cf1"] c(3) k(2) ok True by (simp add: list_all_iff)
    then have "sorted_wrt differ (mc_options cf2)" using c(4) k(3) by (simp add: opts sorted_wrt_append)
    moreover have "list_all (idx_in 256 (mc_long_idx cf1)) (mc_options cf2)"
      using old k(2) idx_in_mono [OF _ c(2) order_refl] by (auto simp: opts list_all_iff)
    moreover have "conf_sections (sec, ps)" using d(1) same_but_idx_all [OF k(1), of "\<lambda>p. mp_conf p = None"] by (simp add: conf_sections_def)
    moreover have "counts_ok cf2" using c(1) ok True by (auto simp: counts_ok_def opts) (simp_all add: cf2_def)
    ultimately have "tables_ok cf2" using c(2,5) 1(3) by (auto simp: tables_ok_def numbered_def) (simp_all add: cf2_def)
    moreover have "list_all P (mc_options cf2)" using P same_but_idx_all [OF k(1), of P] by (simp add: opts)
    ultimately show thesis using that 1 True by (simp add: mconf_add_def cf2_def)
  qed
qed

text \<open>The tables of a client: blocks of options, added one after the other, some of which may be refused.\<close>

fun add_blocks :: "(bytes option \<times> metad_param list) list \<Rightarrow> mconf \<Rightarrow> mconf res" where
  "add_blocks [] cf = Inr cf"
| "add_blocks ((sec, opts) # bs) cf = rbind (mconf_add sec opts cf) (\<lambda>(ok, cf). add_blocks bs cf)"

definition mconf_build :: "bytes option \<Rightarrow> bytes list \<Rightarrow> (bytes option \<times> metad_param list) list \<Rightarrow> mconf res" where
  "mconf_build cfg argv adds = add_blocks adds (mconf_init cfg argv)"

lemma mconf_build_ok:
  assumes "list_all block_declared adds" and "list_all (\<lambda>b. list_all P (snd b)) adds" and P: "\<And>p i. P (p\<lparr>mp_idx := i\<rparr>) = P p"
  obtains cf where "mconf_build cfg argv adds = Inr cf" "tables_ok cf" "list_all P (mc_options cf)"
proof -
  have "\<exists>cf'. add_blocks adds cf = Inr cf' \<and> tables_ok cf' \<and> list_all P (mc_options cf')"
    if "tables_ok cf" "list_all P (mc_options cf)" for cf
    using assms(1,2) that
  proof (induction adds arbitrary: cf)
    case (Cons b adds)
    obtain sec opts where b: "b = (sec, opts)" by (cases b)
    obtain ok cf1 where "mconf_add sec opts cf = Inr (ok, cf1)" "tables_ok cf1" "list_all P (mc_options cf1)"
      by (rule mconf_add_ok [of cf sec opts P]) (use Cons.prems b P in auto)
    then show ?case using Cons b by simp
  qed simp
  moreover have "tables_ok (mconf_init cfg argv)" "list_all P (mc_options (mconf_init cfg argv))"
    by (simp_all add: mconf_init_def tables_ok_def numbered_def counts_ok_def mc_options_def split: prod.split)
  ultimately show thesis using that by (auto simp: mconf_build_def)
qed

section \<open>The options a result selects\<close>

text \<open>What the tables ask for comes back: an option that is selected and needs an argument has one.\<close>

definition gopt_ok :: "loption list \<Rightarrow> metad_param list \<Rightarrow> gopt \<Rightarrow> bool" where
  "gopt_ok ls ps g \<longleftrightarrow> (go_index g = - 1 \<or> 0 \<le> go_index g \<and> nat (go_index g) < length ls) \<and>
     list_all (\<lambda>p. selected ls g p = Inr True \<and> mp_args p = 1 \<longrightarrow> go_arg g \<noteq> None) ps"

lemma argspec_colons: "take 1 r \<noteq> [0x3a] \<Longrightarrow> argspec (colons p @ r) = length (colons p)"
  by (cases r) (auto simp: argspec_def colons_def numeral_2_eq_2)

lemma entries_start: "\<forall>p \<in> set ps. mp_short p \<noteq> 0x3a \<Longrightarrow> take 1 (concat (map entry ps)) \<noteq> [0x3a]"
  by (induction ps) (auto simp: entry_def)

text \<open>A character of the string that is no colon is that of an option, with its colons behind it.\<close>

lemma entries_split:
  assumes "concat (map entry ps) = a @ ch # b" and "ch \<noteq> 0x3a" and "\<forall>p \<in> set ps. mp_short p \<noteq> 0x3a"
  shows "\<exists>p \<in> set ps. mp_short p = ch \<and> ch \<noteq> 0 \<and> argspec b = length (colons p)"
  using assms
proof (induction ps arbitrary: a)
  case (Cons p ps)
  let ?r = "concat (map entry ps)"
  show ?case
  proof (cases "mp_short p = 0")
    case True
    then show ?thesis using Cons by (simp add: entry_def)
  next
    case False
    then have e: "mp_short p # colons p @ ?r = a @ ch # b" using Cons.prems(1) by (simp add: entry_def [of p])
    show ?thesis
    proof (cases a)
      case Nil
      then have "ch = mp_short p" "b = colons p @ ?r" using e by simp_all
      then show ?thesis using argspec_colons [of ?r p] entries_start [of ps] Cons.prems(3) False by auto
    next
      case (Cons x a')
      then have "colons p @ ?r = a' @ ch # b" using e by simp
      then obtain us where us: "colons p = a' @ us \<and> us @ ?r = ch # b \<or> ?r = us @ ch # b" by (auto simp: append_eq_append_conv2)
      have "ch \<notin> set (colons p)" using Cons.prems(2) by (auto simp: colons_def)
      then have "?r = ch # b \<or> ?r = us @ ch # b" using us by (cases us) auto
      then show ?thesis using Cons.IH [of "[]"] Cons.IH [of us] Cons.prems(2,3) by auto
    qed
  qed
qed simp

lemma sint_char: "(a :: u8) < 0x80 \<Longrightarrow> 0 \<le> sint a \<and> sint a < 256"
proof -
  assume "a < 0x80"
  then have "uint a < 128" by (simp add: word_less_def)
  have "- 128 \<le> uint a" using uint_ge_0 [of a] by linarith
  with \<open>uint a < 128\<close> have "signed_take_bit 7 (uint a) = uint a" by (intro signed_take_bit_int_eq_self) simp_all
  then have "sint a = uint a" by (simp add: sint_uint)
  then show ?thesis using \<open>uint a < 128\<close> by simp
qed

text \<open>Two options of the table that are not told apart are one.\<close>

lemma numbered_unique:
  assumes "numbered u ps" and "p \<in> set ps" "q \<in> set ps" and "\<not> differ p q" "\<not> differ q p"
  shows "p = q"
proof (rule ccontr)
  assume "p \<noteq> q"
  moreover obtain i j where "i < length ps" "ps ! i = p" "j < length ps" "ps ! j = q" using assms(2,3) by (auto simp: in_set_conv_nth)
  ultimately show False using assms(1,4,5) by (cases i j rule: linorder_cases) (auto simp: numbered_def sorted_wrt_iff_nth_less)
qed

text \<open>A selection by the number of a long option.\<close>

lemma selected_long:
  assumes n: "numbered u ps" and d: "list_all declared ps" and p: "p \<in> set ps" and q: "q \<in> set ps" "mp_long q \<noteq> None"
    and sel: "mp_short p \<noteq> 0 \<and> sint (mp_short p) = mp_idx q \<or> mp_long p \<noteq> None \<and> mp_idx p = mp_idx q"
  shows "p = q"
proof -
  have idx: "idx_in 256 u p" "idx_in 256 u q" using n p q by (auto simp: numbered_def list_all_iff)
  have lt: "0 \<le> sint (mp_short p) \<and> sint (mp_short p) < 256" "0 \<le> sint (mp_short q) \<and> sint (mp_short q) < 256"
    using d p q sint_char by (auto simp: list_all_iff declared_def)
  have "mp_short q \<noteq> 0 \<and> mp_short p = mp_short q \<or>
      mp_short p = 0 \<and> mp_short q = 0 \<and> mp_long p \<noteq> None \<and> mp_idx p = mp_idx q"
    using sel idx lt q(2) by (auto simp: idx_in_def intro: signed_word_eqI split: if_splits)
  then show ?thesis using numbered_unique [OF n p q(1)] q(2) by (auto simp: differ_def)
qed

lemma takeWhile_stop: "\<forall>x \<in> set xs. P x \<Longrightarrow> \<not> P y \<Longrightarrow> takeWhile P (xs @ y # zs) = xs"
  by (induction xs) simp_all

lemma lentries_named:
  assumes "ls = concat (map lentry ps) @ zero_option # r"
  shows "named ls = concat (map lentry ps)"
  unfolding named_def assms
  by (rule takeWhile_stop) (auto simp: zero_option_def lentry_def split: if_splits)

lemma entries_cstring:
  assumes "s = [0x63, 0x3a] @ concat (map entry ps) @ 0 # r"
  shows "cstring s = [0x63, 0x3a] @ concat (map entry ps)"
  unfolding cstring_def assms append_assoc [symmetric]
  by (rule takeWhile_stop) (auto simp: entry_def colons_def split: if_splits)

lemma gopt_long_selects:
  assumes n: "numbered u ps" and d: "list_all declared ps" and ls: "ls = concat (map lentry ps) @ zero_option # r"
    and g: "gopt_long ls g"
  shows "gopt_ok ls ps g"
proof -
  obtain i where i: "i < length (named ls)" "go_index g = int i" "go_c g = ol_val (ls ! i)"
      "ol_has_arg (ls ! i) = 1 \<longrightarrow> go_arg g \<noteq> None"
    using g by (auto simp: gopt_long_def)
  have len: "i < length ls" using i(1) by (auto simp: named_def dest: less_le_trans [OF _ length_takeWhile_le])
  have "i < length (concat (map lentry ps))" using i(1) lentries_named [OF ls] by simp
  then have "ls ! i \<in> set (concat (map lentry ps))" unfolding ls nth_append by (simp only: if_True nth_mem)
  then obtain q where q: "q \<in> set ps" "mp_long q \<noteq> None" "ol_val (ls ! i) = mp_idx q" "mp_args q = 1 \<longrightarrow> ol_has_arg (ls ! i) = 1"
    by (auto simp: lentry_def split: if_splits)
  have "go_arg g \<noteq> None" if "p \<in> set ps" "selected ls g p = Inr True" "mp_args p = 1" for p
  proof -
    have "p = q"
      by (rule selected_long [OF n d that(1) q(1,2)]) (use that(2) i(2,3) len q(3) in \<open>auto simp: selected_def split: if_splits\<close>)
    then show ?thesis using q(4) i(4) that(3) by simp
  qed
  then show ?thesis using i(2) len by (auto simp: gopt_ok_def list_all_iff)
qed

lemma gopt_short_selects:
  assumes n: "numbered u ps" and d: "list_all declared ps" and s: "s = [0x63, 0x3a] @ concat (map entry ps) @ 0 # r"
    and g: "gopt_short s g" and c: "go_c g \<noteq> 0x63"
  shows "gopt_ok ls ps g"
proof -
  note str = entries_cstring [OF s]
  obtain a ch b where ab: "cstring s = a @ ch # b" "ch \<noteq> 0x3a" "go_c g = sint ch" "argspec b = 1 \<longrightarrow> go_arg g \<noteq> None"
      and i: "go_index g = - 1"
    using g by (auto simp: gopt_short_def)
  have "ch \<noteq> 0x63" using ab(3) c by auto
  then obtain a' where "concat (map entry ps) = a' @ ch # b"
    using ab(1,2) str by (auto simp: Cons_eq_append_conv)
  then obtain q where q: "q \<in> set ps" "mp_short q = ch" "ch \<noteq> 0" "argspec b = length (colons q)"
    using entries_split [of ps a' ch b] ab(2) d by (auto simp: list_all_iff declared_def)
  have "go_arg g \<noteq> None" if "p \<in> set ps" "selected ls g p = Inr True" "mp_args p = 1" for p
  proof -
    have "sint (mp_short p) = sint (mp_short q)" "mp_short p \<noteq> 0" using that(2) i ab(3) q(2) by (auto simp: selected_def split: if_splits)
    then have "mp_short p = mp_short q" by (intro signed_word_eqI)
    then have "p = q" using numbered_unique [OF n that(1) q(1)] q by (auto simp: differ_def)
    then show ?thesis using q(4) ab(4) that(3) by (simp add: colons_def)
  qed
  then show ?thesis using i by (auto simp: gopt_ok_def list_all_iff)
qed

text \<open>On the tables of the parser every documented result but a question mark and the configuration file is safe.\<close>

lemma getopt_doc_ok:
  assumes "getopt_doc getopt_long" and n: "counts_ok cf" "numbered u (mc_options cf)" and cf: "list_all declared (mc_options cf)"
  obtains s ls where "build_tables junk cf = Inr (s, ls)"
    "list_all (\<lambda>g. go_c g \<noteq> 0x3f \<and> go_c g \<noteq> 0x63 \<longrightarrow> gopt_ok ls (mc_options cf) g) (getopt_long argv s ls)"
proof -
  let ?ps = "mc_options cf"
  have low: "\<forall>p \<in> set ?ps. mp_short p < 0x80" using cf by (auto simp: list_all_iff declared_def)
  obtain s ls r1 r2 where t: "build_tables junk cf = Inr (s, ls)" and s: "s = [0x63, 0x3a] @ concat (map entry ?ps) @ 0 # r1"
      and ls: "ls = concat (map lentry ?ps) @ zero_option # r2"
    by (rule build_tables_fills [OF n(1) low, of junk]) blast
  have "0x3b \<notin> set (concat (map entry ?ps))" using cf by (auto simp: entry_def colons_def list_all_iff declared_def split: if_splits)
  then have "0x3b \<notin> set (cstring s)" by (simp add: entries_cstring [OF s])
  moreover have "\<exists>l \<in> set ls. ol_name l = None" by (simp add: ls zero_option_def)
  ultimately have "list_all (gopt_doc s ls) (getopt_long argv s ls)" using assms(1) by (simp add: getopt_doc_def s)
  moreover have "gopt_ok ls ?ps g" if "gopt_doc s ls g" "go_c g \<noteq> 0x3f" "go_c g \<noteq> 0x63" for g
    using that gopt_long_selects [OF n(2) cf ls, of g] gopt_short_selects [OF n(2) cf s, of g] by (auto simp: gopt_doc_def)
  ultimately show thesis using that [OF t] by (simp add: list_all_iff)
qed

end
