(* ===== verification/Ini.thy ===== *)
theory Ini
  imports Text_Util
begin

text \<open>
  The configuration file parser of \<^verbatim>\<open>lib/ini.c\<close>. A C string is the list of its bytes before the
  NUL; a pointer into one is an offset. The file is the list of the bytes not yet read, the handler
  a function that returns its result and the new user state. \<open>INI_ALLOW_BOM\<close> is 1, \<open>INI_USE_STACK\<close>
  is 1 and \<open>INI_ALLOW_MULTILINE\<close> is 0, as \<^verbatim>\<open>include/ini.h\<close> sets them. The line number is a natural
  number: files are shorter than 2^31 lines. Shown: a file printed from sections of names and values is
  parsed back into the same handler calls; and for every file the parser agrees with a reference that first
  says of every line what it is: the return value is the number of the first bad line, and an error changes
  neither the handler calls before it nor those after.
\<close>

section \<open>Strings\<close>

text \<open>\<open>rstrip\<close>: the loop at position \<open>p\<close>.\<close>

fun rstrip_from :: "nat \<Rightarrow> bytes \<Rightarrow> bytes" where
  "rstrip_from 0 s = s"
| "rstrip_from (Suc p) s = (if isspace (s ! p) then rstrip_from p (take p s) else s)"

definition rstrip :: "bytes \<Rightarrow> bytes" where
  "rstrip s = rstrip_from (length s) s"

definition lskip :: "bytes \<Rightarrow> bytes" where
  "lskip s = dropWhile isspace s"

text \<open>The offset found; at the end of the string it is the length.\<close>

fun find_coc_loop :: "bool \<Rightarrow> bytes \<Rightarrow> u8 \<Rightarrow> nat" where
  "find_coc_loop was_whitespace [] c = 0"
| "find_coc_loop was_whitespace (x # s) c =
     (if x = c \<or> was_whitespace \<and> x = 0x3b then 0 else Suc (find_coc_loop (isspace x) s c))"

definition find_char_or_comment :: "bytes \<Rightarrow> u8 \<Rightarrow> nat" where
  "find_char_or_comment s c = find_coc_loop False s c"

definition strncpy0 :: "bytes \<Rightarrow> nat \<Rightarrow> bytes" where
  "strncpy0 src sz = take (sz - 1) src"

text \<open>\<open>*(s + i)\<close>, with the NUL at the end.\<close>

definition char_at :: "bytes \<Rightarrow> nat \<Rightarrow> u8" where
  "char_at s i = (if i < length s then s ! i else 0)"

section \<open>Lines\<close>

text \<open>\<open>fgets(line, sz, file)\<close>: the bytes stored, and what is left of the file.\<close>

definition fgets :: "nat \<Rightarrow> bytes \<Rightarrow> (bytes \<times> bytes) option" where
  "fgets sz f =
     (if f = [] then None
      else let k = min (sz - 1) (Suc (length (takeWhile (\<lambda>c. c \<noteq> 10) f))) in Some (take k f, drop k f))"

abbreviation INI_MAX_LINE :: nat where "INI_MAX_LINE \<equiv> 200"
abbreviation MAX_SECTION :: nat where "MAX_SECTION \<equiv> 50"
abbreviation MAX_NAME :: nat where "MAX_NAME \<equiv> 50"

type_synonym 'u ini_handler = "'u \<Rightarrow> bytes \<Rightarrow> bytes \<Rightarrow> bytes \<Rightarrow> bool \<times> 'u"

record 'u ini =
  ini_section :: bytes
  prev_name :: bytes
  lineno :: nat
  ini_error :: nat
  ini_user :: 'u

definition set_error :: "'u ini \<Rightarrow> 'u ini" where
  "set_error st = (if ini_error st = 0 then st\<lparr>ini_error := lineno st\<rparr> else st)"

text \<open>\<open>[section]\<close>.\<close>

definition ini_section_line :: "bytes \<Rightarrow> 'u ini \<Rightarrow> 'u ini" where
  "ini_section_line start st =
     (let s = drop 1 start; e = find_char_or_comment s 0x5d
      in if char_at s e = 0x5d
         then st\<lparr>ini_section := strncpy0 (take e s) MAX_SECTION, prev_name := []\<rparr>
         else set_error st)"

text \<open>\<open>name = value\<close> or \<open>name : value\<close>.\<close>

definition ini_value :: "bytes \<Rightarrow> bytes" where
  "ini_value rest = (let v = lskip rest in rstrip (take (find_char_or_comment v 0) v))"

definition ini_pair_line :: "'u ini_handler \<Rightarrow> bytes \<Rightarrow> 'u ini \<Rightarrow> 'u ini" where
  "ini_pair_line handler start st =
     (let e0 = find_char_or_comment start 0x3d;
          e = (if char_at start e0 \<noteq> 0x3d then find_char_or_comment start 0x3a else e0)
      in if char_at start e = 0x3d \<or> char_at start e = 0x3a then
           (let name = rstrip (take e start); val = ini_value (drop (e + 1) start);
                (ok, u) = handler (ini_user st) (ini_section st) name val;
                st' = st\<lparr>prev_name := strncpy0 name MAX_NAME, ini_user := u\<rparr>
            in if ok then st' else set_error st')
         else set_error st)"

text \<open>One turn of the loop over the lines.\<close>

definition ini_line :: "'u ini_handler \<Rightarrow> bytes \<Rightarrow> 'u ini \<Rightarrow> 'u ini" where
  "ini_line handler line st0 =
     (let st = st0\<lparr>lineno := lineno st0 + 1\<rparr>;
          l = takeWhile (\<lambda>c. c \<noteq> 0) line;
          l' = (if lineno st = 1 \<and> take 3 l = [0xef, 0xbb, 0xbf] then drop 3 l else l);
          start = lskip (rstrip l');
          c = char_at start 0
      in if c = 0x3b \<or> c = 0x23 then st
         else if c = 0x5b then ini_section_line start st
         else if c \<noteq> 0 \<and> c \<noteq> 0x3b then ini_pair_line handler start st
         else st)"

function ini_loop :: "'u ini_handler \<Rightarrow> bytes \<Rightarrow> 'u ini \<Rightarrow> 'u ini" where
  "ini_loop handler f st =
     (case fgets INI_MAX_LINE f of None \<Rightarrow> st
      | Some (line, f') \<Rightarrow> ini_loop handler f' (ini_line handler line st))"
  by pat_completeness auto
termination
  by (relation "measure (\<lambda>(h, f, st). length f)") (auto simp: fgets_def Let_def split: if_splits)

declare ini_loop.simps [simp del]

definition ini_init :: "'u \<Rightarrow> 'u ini" where
  "ini_init u = \<lparr>ini_section = [], prev_name = [], lineno = 0, ini_error = 0, ini_user = u\<rparr>"

definition ini_parse_file :: "'u ini_handler \<Rightarrow> bytes \<Rightarrow> 'u \<Rightarrow> nat \<times> 'u" where
  "ini_parse_file handler f u =
     (let st = ini_loop handler f (ini_init u) in (ini_error st, ini_user st))"

text \<open>\<open>ini_parse\<close>: \<open>None\<close> when the file cannot be opened.\<close>

definition ini_parse :: "'u ini_handler \<Rightarrow> bytes option \<Rightarrow> 'u \<Rightarrow> int \<times> 'u" where
  "ini_parse handler file u =
     (case file of None \<Rightarrow> (-1, u)
      | Some f \<Rightarrow> (case ini_parse_file handler f u of (e, u') \<Rightarrow> (int e, u')))"

section \<open>Strings: what the helpers do\<close>

lemma rstrip_eq: "rstrip s = rev (dropWhile isspace (rev s))"
  by (induction s rule: rev_induct) (simp_all add: rstrip_def)

lemma rstrip_id [simp]: "s = [] \<or> \<not> isspace (last s) \<Longrightarrow> rstrip s = s"
  by (cases s rule: rev_cases) (auto simp: rstrip_eq)

lemma rstrip_newline: "rstrip (s @ [10]) = rstrip s"
  by (simp add: rstrip_eq isspace_def)

lemma lskip_id [simp]: "s = [] \<or> \<not> isspace (hd s) \<Longrightarrow> lskip s = s"
  by (cases s) (auto simp: lskip_def)

lemma find_coc_le: "find_coc_loop w s c \<le> length s"
  by (induction w s c rule: find_coc_loop.induct) auto

lemma find_coc_append:
  "find_coc_loop w s c = length s \<Longrightarrow> find_coc_loop w (s @ c # t) c = length s"
  by (induction w s c rule: find_coc_loop.induct) (auto split: if_splits)

lemma fgets_line:
  assumes "10 \<notin> set l" and "length l < 199"
  shows "fgets INI_MAX_LINE (l @ 10 # f) = Some (l @ [10], f)"
proof -
  have "takeWhile (\<lambda>c. c \<noteq> 10) (l @ 10 # f) = l"
    using assms(1) by (subst takeWhile_append2) auto
  then show ?thesis using assms(2) by (simp add: fgets_def)
qed

lemma ini_loop_line:
  assumes "10 \<notin> set l" and "length l < 199"
  shows "ini_loop handler (l @ 10 # f) st = ini_loop handler f (ini_line handler (l @ [10]) st)"
  by (subst ini_loop.simps) (simp only: fgets_line [OF assms] option.case prod.case)

section \<open>A printer\<close>

text \<open>
  What can stand in a file: no NUL and no newline, no comment and no separator inside, no space at
  the ends, and no line too long for the buffers.
\<close>

definition clean :: "bytes \<Rightarrow> u8 \<Rightarrow> bool" where
  "clean s c \<longleftrightarrow> 0 \<notin> set s \<and> 10 \<notin> set s \<and> find_char_or_comment s c = length s \<and>
     (s = [] \<or> \<not> isspace (hd s) \<and> \<not> isspace (last s))"

definition name_ok :: "bytes \<Rightarrow> bool" where
  "name_ok n \<longleftrightarrow> clean n 0x3d \<and> n \<noteq> [] \<and> hd n \<notin> {0x3b, 0x23, 0x5b}"

definition pair_ok :: "bytes \<times> bytes \<Rightarrow> bool" where
  "pair_ok p \<longleftrightarrow> name_ok (fst p) \<and> clean (snd p) 0 \<and> length (fst p) + length (snd p) < 198"

definition section_ok :: "bytes \<times> (bytes \<times> bytes) list \<Rightarrow> bool" where
  "section_ok x \<longleftrightarrow> clean (fst x) 0x5d \<and> length (fst x) < MAX_SECTION \<and> list_all pair_ok (snd x)"

definition print_pair :: "bytes \<times> bytes \<Rightarrow> bytes" where
  "print_pair p = fst p @ [0x3d] @ snd p @ [10]"

definition print_section :: "bytes \<times> (bytes \<times> bytes) list \<Rightarrow> bytes" where
  "print_section x = [0x5b] @ fst x @ [0x5d, 10] @ concat (map print_pair (snd x))"

definition print_ini :: "(bytes \<times> (bytes \<times> bytes) list) list \<Rightarrow> bytes" where
  "print_ini xs = concat (map print_section xs)"

definition calls :: "(bytes \<times> (bytes \<times> bytes) list) list \<Rightarrow> (bytes \<times> bytes \<times> bytes) list" where
  "calls xs = concat (map (\<lambda>(s, ps). map (\<lambda>(n, v). (s, n, v)) ps) xs)"

lemma takeWhile_nz: "0 \<notin> set s \<Longrightarrow> takeWhile (\<lambda>c. c \<noteq> 0) (s @ t) = s @ takeWhile (\<lambda>c. c \<noteq> (0 :: u8)) t"
  by (rule takeWhile_append2) auto

lemma char_at_length [simp]: "char_at (s @ c # t) (length s) = c"
  by (simp add: char_at_def)

lemma ini_line_section:
  assumes "clean s 0x5d" and "length s < MAX_SECTION"
  shows "ini_line handler (0x5b # s @ [0x5d, 10]) st =
    st\<lparr>lineno := lineno st + 1, ini_section := s, prev_name := []\<rparr>"
proof -
  have nz: "takeWhile (\<lambda>c. c \<noteq> 0) (0x5b # s @ [0x5d, 10]) = (0x5b # s @ [0x5d]) @ [10]"
    using assms(1) takeWhile_nz [of s "[0x5d, 10]"] by (simp add: clean_def)
  have strip: "rstrip ((0x5b # s @ [0x5d]) @ [10]) = 0x5b # s @ [0x5d]"
    unfolding rstrip_newline by (rule rstrip_id) (simp add: isspace_def)
  have fnd: "find_char_or_comment (s @ [0x5d]) 0x5d = length s"
    using assms(1) find_coc_append [of False s "0x5d" "[]"] by (simp add: clean_def find_char_or_comment_def)
  have "lskip (0x5b # s @ [0x5d]) = 0x5b # s @ [0x5d]"
    by (simp add: isspace_def)
  then show ?thesis
    using assms(2) nz strip fnd
    by (simp add: ini_line_def Let_def char_at_def [of "0x5b # s @ [0x5d]"] ini_section_line_def strncpy0_def)
qed

lemma ini_line_pair:
  assumes "pair_ok (n, v)" and "lineno st \<noteq> 0"
    and "handler (ini_user st) (ini_section st) n v = (True, u)"
  shows "ini_line handler (print_pair (n, v)) st =
    st\<lparr>lineno := lineno st + 1, prev_name := strncpy0 n MAX_NAME, ini_user := u\<rparr>"
proof -
  have n: "clean n 0x3d" "n \<noteq> []" "hd n \<notin> {0x3b, 0x23, 0x5b}" and v: "clean v 0"
    using assms(1) by (auto simp: pair_ok_def name_ok_def)
  have nz: "takeWhile (\<lambda>c. c \<noteq> 0) (print_pair (n, v)) = n @ 0x3d # v @ [10]"
    using n(1) v takeWhile_nz [of n] takeWhile_nz [of v "[10]"] by (simp add: clean_def print_pair_def)
  have "rstrip (n @ 0x3d # v) = n @ 0x3d # v"
    by (rule rstrip_id) (use v in \<open>auto simp: clean_def isspace_def\<close>)
  then have strip: "rstrip (n @ 0x3d # v @ [10]) = n @ 0x3d # v"
    using rstrip_newline [of "n @ 0x3d # v"] by simp
  have skip: "lskip (n @ 0x3d # v) = n @ 0x3d # v"
    by (rule lskip_id) (use n in \<open>auto simp: clean_def\<close>)
  have fnd: "find_char_or_comment (n @ 0x3d # v) 0x3d = length n"
    using n(1) find_coc_append [of False n "0x3d" v] by (simp add: clean_def find_char_or_comment_def)
  have val: "ini_value v = v"
    using v by (auto simp: ini_value_def clean_def)
  have name: "rstrip n = n"
    using n(1) by (auto simp: clean_def)
  have c: "char_at (n @ 0x3d # v) 0 = hd n" "hd n \<noteq> 0"
    using n by (cases n; auto simp: char_at_def clean_def)+
  show ?thesis
    using assms(2,3) n(3) c(2) unfolding ini_line_def nz
    by (simp add: Let_def strip skip c(1) ini_pair_line_def fnd val name)
qed

lemma print_pair_line: "\<exists>l. print_pair p = l @ [10] \<and> (pair_ok p \<longrightarrow> 10 \<notin> set l \<and> length l < 199)"
  by (rule exI [of _ "fst p @ [0x3d] @ snd p"])
    (auto simp: print_pair_def pair_ok_def name_ok_def clean_def)

lemma ini_loop_pairs:
  assumes "\<forall>u s n v. fst (handler u s n v)" and "list_all pair_ok ps" and "lineno st \<noteq> 0"
  shows "\<exists>st'. ini_loop handler (concat (map print_pair ps) @ f) st = ini_loop handler f st' \<and>
    lineno st' \<noteq> 0 \<and> ini_section st' = ini_section st \<and> ini_error st' = ini_error st \<and>
    ini_user st' = fold (\<lambda>(n, v) u. snd (handler u (ini_section st) n v)) ps (ini_user st)"
  using assms(2,3)
proof (induction ps arbitrary: st)
  case (Cons p ps)
  obtain n v where p: "p = (n, v)" by fastforce
  obtain l where l: "print_pair p = l @ [10]" "10 \<notin> set l" "length l < 199"
    using print_pair_line [of p] Cons.prems(1) by auto
  obtain u where u: "handler (ini_user st) (ini_section st) n v = (True, u)"
    using assms(1) by (metis prod.collapse)
  let ?st = "st\<lparr>lineno := lineno st + 1, prev_name := strncpy0 n MAX_NAME, ini_user := u\<rparr>"
  have "ini_loop handler (concat (map print_pair (p # ps)) @ f) st =
      ini_loop handler (concat (map print_pair ps) @ f) ?st"
    using ini_line_pair [of n v st handler, OF _ Cons.prems(2) u] Cons.prems(1) l(1) p
    by (simp add: ini_loop_line [OF l(2,3)])
  then show ?case
    using Cons.IH [of ?st] Cons.prems(1) p u by simp
qed auto

lemma ini_loop_sections:
  assumes "\<forall>u s n v. fst (handler u s n v)" and "list_all section_ok xs"
  shows "\<exists>st'. ini_loop handler (print_ini xs @ f) st = ini_loop handler f st' \<and>
    ini_error st' = ini_error st \<and>
    ini_user st' = fold (\<lambda>(s, n, v) u. snd (handler u s n v)) (calls xs) (ini_user st)"
  using assms(2)
proof (induction xs arbitrary: st)
  case (Cons x xs)
  obtain s ps where x: "x = (s, ps)" by fastforce
  have ok: "clean s 0x5d" "length s < MAX_SECTION" "list_all pair_ok ps"
    using Cons.prems x by (auto simp: section_ok_def)
  let ?rest = "print_ini xs @ f"
  let ?st = "st\<lparr>lineno := lineno st + 1, ini_section := s, prev_name := []\<rparr>"
  have "ini_loop handler ((0x5b # s @ [0x5d]) @ 10 # concat (map print_pair ps) @ ?rest) st =
      ini_loop handler (concat (map print_pair ps) @ ?rest) ?st"
    using ok(1,2) by (subst ini_loop_line) (auto simp: clean_def ini_line_section [OF ok(1,2)])
  then have sec: "ini_loop handler (print_ini (x # xs) @ f) st =
      ini_loop handler (concat (map print_pair ps) @ ?rest) ?st"
    by (simp add: x print_ini_def print_section_def)
  have fold_map: "fold (\<lambda>(s, n, v) u. snd (handler u s n v)) (map (Pair s) ps) u =
      fold (\<lambda>(n, v) u. snd (handler u s n v)) ps u" for u
    by (induction ps arbitrary: u) auto
  obtain st1 where st1: "ini_loop handler (concat (map print_pair ps) @ ?rest) ?st = ini_loop handler ?rest st1"
      "ini_error st1 = ini_error st"
      "ini_user st1 = fold (\<lambda>(n, v) u. snd (handler u s n v)) ps (ini_user st)"
    using ini_loop_pairs [OF assms(1) ok(3), of ?st] by auto
  show ?case
    using Cons.IH [of st1] Cons.prems sec st1 by (simp add: calls_def x fold_map)
qed (auto simp: print_ini_def calls_def)

section \<open>What a line is\<close>

text \<open>The lines of a file, as \<open>fgets\<close> delivers them.\<close>

function ini_lines :: "bytes \<Rightarrow> bytes list" where
  "ini_lines f = (case fgets INI_MAX_LINE f of None \<Rightarrow> [] | Some (line, f') \<Rightarrow> line # ini_lines f')"
  by pat_completeness auto
termination
  by (relation "measure length") (auto simp: fgets_def Let_def split: if_splits)

declare ini_lines.simps [simp del]

lemma ini_lines_Nil [simp]: "ini_lines [] = []"
  by (simp add: ini_lines.simps [of "[]"] fgets_def)

lemma ini_loop_lines: "ini_loop handler f st = fold (ini_line handler) (ini_lines f) st"
proof (induction handler f st rule: ini_loop.induct)
  case (1 handler f st)
  then show ?case
    by (subst ini_loop.simps, subst ini_lines.simps) (auto split: option.split prod.split)
qed

text \<open>What \<open>fgets\<close> stores: a newline only at the end, and a whole line unless the buffer is full or the file ends.\<close>

lemma fgets_shape:
  assumes "fgets INI_MAX_LINE f = Some (line, f')"
  shows "f = line @ f'" and "line \<noteq> []" and "length line \<le> 199" and "10 \<notin> set (butlast line)"
    and "f' \<noteq> [] \<Longrightarrow> length line = 199 \<or> last line = 10"
proof -
  let ?t = "takeWhile (\<lambda>c. c \<noteq> 10) f"
  have f: "f \<noteq> []" "line = take (min 199 (Suc (length ?t))) f" "f' = drop (min 199 (Suc (length ?t))) f"
    using assms by (auto simp: fgets_def Let_def split: if_splits)
  then show "f = line @ f'" "line \<noteq> []" "length line \<le> 199" by auto
  have "x \<noteq> 10" if x: "x \<in> set (butlast line)" for x
  proof -
    obtain i where i: "i < length line - 1" "x = line ! i"
      using x by (auto simp: in_set_conv_nth nth_butlast)
    then have "i < length ?t" "x = f ! i" using f(2) by auto
    moreover from this have "x \<in> set ?t" using takeWhile_nth [of i "\<lambda>c. c \<noteq> 10" f] nth_mem [of i ?t] by simp
    ultimately show ?thesis by (auto dest: set_takeWhileD)
  qed
  then show "10 \<notin> set (butlast line)" by blast
  assume "f' \<noteq> []"
  then have l: "min 199 (Suc (length ?t)) < length f" using f(3) by simp
  show "length line = 199 \<or> last line = 10"
  proof (cases "199 \<le> Suc (length ?t)")
    case True
    then show ?thesis using f(2) l by simp
  next
    case False
    then have n: "min 199 (Suc (length ?t)) = Suc (length ?t)" by simp
    have "length ?t < length f" using l unfolding n by simp
    then have "last line = f ! length ?t" using l unfolding f(2) n by (simp add: take_Suc_conv_app_nth)
    then show ?thesis using nth_length_takeWhile [of "\<lambda>c. c \<noteq> 10" f] \<open>length ?t < length f\<close> by simp
  qed
qed

lemma ini_lines_shape:
  "concat (ini_lines f) = f \<and> (\<forall>l \<in> set (ini_lines f). l \<noteq> [] \<and> length l \<le> 199 \<and> 10 \<notin> set (butlast l))"
proof (induction f rule: ini_lines.induct)
  case (1 f)
  show ?case
  proof (cases "fgets INI_MAX_LINE f")
    case None
    then show ?thesis by (simp add: ini_lines.simps [of f] fgets_def Let_def split: if_splits)
  next
    case (Some a)
    obtain line f' where a: "fgets INI_MAX_LINE f = Some (line, f')" using Some by (cases a) auto
    have "ini_lines f = line # ini_lines f'" using a by (subst ini_lines.simps) simp
    then show ?thesis using 1 [OF a refl] fgets_shape [OF a] by simp
  qed
qed

section \<open>A reference\<close>

text \<open>
  What a line says, without the state of the parser: nothing (empty or a comment), the head of a section, a
  pair of a name and a value, or it is bad: a section head without its bracket, or no separator. \<open>ini_cut c s\<close> is
  the text before and after the first \<open>c\<close> of \<open>s\<close> that no comment precedes.
\<close>

datatype ini_item = BlankLine | SectionHead bytes | NameValue bytes bytes | BadLine

definition ini_cut :: "u8 \<Rightarrow> bytes \<Rightarrow> (bytes \<times> bytes) option" where
  "ini_cut c s =
     (let e = find_char_or_comment s c
      in if e < length s \<and> s ! e = c then Some (take e s, drop (Suc e) s) else None)"

definition ini_text :: "bool \<Rightarrow> bytes \<Rightarrow> bytes" where
  "ini_text bom line =
     (let l = takeWhile (\<lambda>c. c \<noteq> 0) line
      in lskip (rstrip (if bom \<and> take 3 l = [0xef, 0xbb, 0xbf] then drop 3 l else l)))"

definition ini_item :: "bool \<Rightarrow> bytes \<Rightarrow> ini_item" where
  "ini_item bom line =
     (let s = ini_text bom line
      in if s = [] \<or> hd s = 0x3b \<or> hd s = 0x23 then BlankLine
         else if hd s = 0x5b then
           (case ini_cut 0x5d (tl s) of Some (n, r) \<Rightarrow> SectionHead (take 49 n) | None \<Rightarrow> BadLine)
         else (case ini_cut 0x3d s of Some (n, v) \<Rightarrow> NameValue (rstrip n) (ini_value v)
           | None \<Rightarrow> (case ini_cut 0x3a s of Some (n, v) \<Rightarrow> NameValue (rstrip n) (ini_value v) | None \<Rightarrow> BadLine)))"

text \<open>Only the first line may begin with a byte order mark.\<close>

fun ini_items :: "bool \<Rightarrow> bytes list \<Rightarrow> ini_item list" where
  "ini_items bom [] = []"
| "ini_items bom (l # ls) = ini_item bom l # ini_items False ls"

text \<open>The run over the items: for each whether it went well, and the final user state.\<close>

fun ini_run :: "'u ini_handler \<Rightarrow> ini_item list \<Rightarrow> bytes \<Rightarrow> 'u \<Rightarrow> bool list \<times> 'u" where
  "ini_run h [] sec u = ([], u)"
| "ini_run h (BlankLine # its) sec u = (let (oks, u') = ini_run h its sec u in (True # oks, u'))"
| "ini_run h (SectionHead n # its) sec u = (let (oks, u') = ini_run h its n u in (True # oks, u'))"
| "ini_run h (NameValue n v # its) sec u =
     (let (ok, u1) = h u sec n v; (oks, u') = ini_run h its sec u1 in (ok # oks, u'))"
| "ini_run h (BadLine # its) sec u = (let (oks, u') = ini_run h its sec u in (False # oks, u'))"

text \<open>The number of the first item that did not go well, counted from 1, or 0.\<close>

definition first_bad :: "bool list \<Rightarrow> nat" where
  "first_bad oks = (if list_all (\<lambda>b. b) oks then 0 else Suc (length (takeWhile (\<lambda>b. b) oks)))"

lemma first_bad_simps [simp]:
  "first_bad [] = 0" "first_bad (False # bs) = 1"
  "first_bad (True # bs) = (if first_bad bs = 0 then 0 else Suc (first_bad bs))"
  by (simp_all add: first_bad_def)

lemma ini_text_nz: "0 \<notin> set (ini_text bom line)"
proof -
  have "0 \<notin> set (takeWhile (\<lambda>c. c \<noteq> 0) line)" by (auto dest: set_takeWhileD)
  then show ?thesis
    by (auto simp: ini_text_def lskip_def rstrip_eq Let_def dest!: set_dropWhileD in_set_dropD split: if_splits)
qed

text \<open>A position the search stops at holds the character, a semicolon, or the end.\<close>

lemma find_coc_stop:
  "find_coc_loop w s c < length s \<Longrightarrow> s ! find_coc_loop w s c = c \<or> s ! find_coc_loop w s c = 0x3b"
  by (induction w s c rule: find_coc_loop.induct) auto

lemma ini_cut_char_at:
  assumes "c \<noteq> 0"
  shows "ini_cut c s = (let e = find_char_or_comment s c in if char_at s e = c then Some (take e s, drop (e + 1) s) else None)"
  using assms by (simp add: ini_cut_def char_at_def Let_def)

lemma ini_line_item:
  "ini_line handler line st =
    (let st1 = st\<lparr>lineno := lineno st + 1\<rparr>
     in case ini_item (lineno st = 0) line of
          BlankLine \<Rightarrow> st1
        | SectionHead n \<Rightarrow> st1\<lparr>ini_section := n, prev_name := []\<rparr>
        | NameValue n v \<Rightarrow> (let (ok, u) = handler (ini_user st) (ini_section st) n v;
             st2 = st1\<lparr>prev_name := strncpy0 n MAX_NAME, ini_user := u\<rparr> in if ok then st2 else set_error st2)
        | BadLine \<Rightarrow> set_error st1)"
proof -
  define s where "s = ini_text (lineno st = 0) line"
  let ?st1 = "st\<lparr>lineno := lineno st + 1\<rparr>"
  have nz: "s = [] \<longleftrightarrow> char_at s 0 = 0" "s \<noteq> [] \<Longrightarrow> char_at s 0 = hd s"
    using ini_text_nz [of "lineno st = 0" line] unfolding s_def [symmetric] by (cases s; auto simp: char_at_def)+
  have line: "ini_line handler line st =
      (if char_at s 0 = 0x3b \<or> char_at s 0 = 0x23 then ?st1
       else if char_at s 0 = 0x5b then ini_section_line s ?st1
       else if char_at s 0 \<noteq> 0 \<and> char_at s 0 \<noteq> 0x3b then ini_pair_line handler s ?st1 else ?st1)"
    by (simp add: ini_line_def s_def ini_text_def Let_def)
  have colon: "char_at s (find_char_or_comment s 0x3a) \<noteq> 0x3d"
    using find_coc_stop [of False s "0x3a"] by (auto simp: char_at_def find_char_or_comment_def)
  show ?thesis
    unfolding line ini_item_def s_def [symmetric]
    using nz colon
    by (cases "s = []")
      (auto simp: ini_section_line_def ini_pair_line_def ini_cut_char_at strncpy0_def drop_Suc Let_def split: prod.split)
qed

lemma set_error_sel [simp]:
  "lineno (set_error st) = lineno st" "ini_section (set_error st) = ini_section st" "ini_user (set_error st) = ini_user st"
  "ini_error (set_error st) = (if ini_error st = 0 then lineno st else ini_error st)"
  by (simp_all add: set_error_def)

lemma ini_line_step:
  obtains ok where "lineno (ini_line handler l st) = lineno st + 1"
    "ini_error (ini_line handler l st) = (if ok \<or> ini_error st \<noteq> 0 then ini_error st else lineno st + 1)"
    "\<And>its. ini_run handler (ini_item (lineno st = 0) l # its) (ini_section st) (ini_user st) =
      (let (oks, u) = ini_run handler its (ini_section (ini_line handler l st)) (ini_user (ini_line handler l st)) in (ok # oks, u))"
proof (cases "ini_item (lineno st = 0) l")
  case (NameValue n v)
  obtain ok u where h: "handler (ini_user st) (ini_section st) n v = (ok, u)" by fastforce
  show ?thesis by (rule that [of ok]) (use NameValue h in \<open>simp_all add: ini_line_item Let_def\<close>)
next
  case BadLine
  show ?thesis by (rule that [of False]) (use BadLine in \<open>simp_all add: ini_line_item Let_def\<close>)
qed (rule that [of True]; simp add: ini_line_item Let_def)+

lemma ini_fold_run:
  assumes "ini_run handler (ini_items (lineno st = 0) ls) (ini_section st) (ini_user st) = (oks, u)"
  shows "ini_user (fold (ini_line handler) ls st) = u \<and> ini_error (fold (ini_line handler) ls st) =
      (if ini_error st \<noteq> 0 \<or> first_bad oks = 0 then ini_error st else lineno st + first_bad oks)"
  using assms
proof (induction ls arbitrary: st oks)
  case (Cons l ls)
  let ?st = "ini_line handler l st"
  obtain ok where step: "lineno ?st = lineno st + 1"
    "ini_error ?st = (if ok \<or> ini_error st \<noteq> 0 then ini_error st else lineno st + 1)"
    "\<And>its. ini_run handler (ini_item (lineno st = 0) l # its) (ini_section st) (ini_user st) =
      (let (oks, u) = ini_run handler its (ini_section ?st) (ini_user ?st) in (ok # oks, u))"
    by (rule ini_line_step [of handler l st]) (rule that)
  obtain bs where r: "ini_run handler (ini_items False ls) (ini_section ?st) (ini_user ?st) = (bs, u)" "oks = ok # bs"
    using Cons.prems step(3) by (auto simp: Let_def split: prod.splits)
  then show ?case using Cons.IH [of ?st bs] step(1,2) by (cases ok) auto
qed simp

section \<open>Properties\<close>

text \<open>
  C19. A configuration file survives printing and parsing: the file printed from sections of names and
  values (each section name shorter than 50 bytes, each line shorter than 200, no comment or separator
  inside) makes \<open>ini_parse_file\<close> call the handler for exactly those, in order, and return 0.
\<close>

theorem ini_parse_print:
  assumes "\<forall>u s n v. fst (handler u s n v)" and "list_all section_ok xs"
  shows "ini_parse_file handler (print_ini xs) u =
    (0, fold (\<lambda>(s, n, v) u. snd (handler u s n v)) (calls xs) u)"
proof -
  have "ini_loop handler [] st = st" for st
    by (simp add: ini_loop.simps [of _ "[]"] fgets_def)
  then show ?thesis
    using ini_loop_sections [OF assms, of "[]" "ini_init u"] by (auto simp: ini_parse_file_def Let_def ini_init_def)
qed

lemma ini_parse_print_witness:
  "ini_parse_file (\<lambda>u s n v. (True, u @ [(s, n, v)])) (asc ''[net]'' @ [10] @ asc ''port=80'' @ [10]) [] =
    (0, [(asc ''net'', asc ''port'', asc ''80'')])"
proof -
  have "list_all section_ok [(asc ''net'', [(asc ''port'', asc ''80'')])]"
    by code_simp
  moreover have "print_ini [(asc ''net'', [(asc ''port'', asc ''80'')])] =
      asc ''[net]'' @ [10] @ asc ''port=80'' @ [10]"
    by code_simp
  ultimately show ?thesis
    using ini_parse_print [of "\<lambda>u s n v. (True, u @ [(s, n, v)])" "[(asc ''net'', [(asc ''port'', asc ''80'')])]" "[]"]
    by (simp add: calls_def)
qed

text \<open>
  C20. For every file and handler, \<open>ini_parse_file\<close> does what the reference does: it takes the lines one by one (a line
  of more than 199 bytes counts as several), each of which is blank, a section head, a pair or bad; the handler is
  called for every pair, before and after an error, with the section it stands in; and the return value is the number of
  the first line that is bad or that the handler refuses, 0 if there is none.
\<close>

theorem ini_parse_first_error:
  "ini_parse_file handler f u =
    (case ini_run handler (ini_items True (ini_lines f)) [] u of (oks, u') \<Rightarrow> (first_bad oks, u'))"
proof -
  obtain oks u' where r: "ini_run handler (ini_items True (ini_lines f)) [] u = (oks, u')" by fastforce
  have init: "lineno (ini_init u) = 0" "ini_section (ini_init u) = []" "ini_user (ini_init u) = u" "ini_error (ini_init u) = 0"
    by (simp_all add: ini_init_def)
  have "ini_run handler (ini_items (lineno (ini_init u) = 0) (ini_lines f)) (ini_section (ini_init u)) (ini_user (ini_init u)) = (oks, u')"
    using r by (simp add: init)
  from ini_fold_run [OF this] show ?thesis
    by (simp add: ini_parse_file_def ini_loop_lines r init Let_def)
qed

text \<open>The second line is bad, the handler refuses the fourth; the section head of the last line is not closed.\<close>

lemma ini_parse_first_error_run:
  "ini_parse_file (\<lambda>u s n v. (v \<noteq> asc ''2'', u @ [n]))
     (asc ''a=1'' @ [10] @ asc ''bad'' @ [10] @ asc ''# x'' @ [10] @ asc ''b:2'' @ [10] @ asc ''[x'') [] =
   (2, [asc ''a'', asc ''b''])"
  by code_simp

text \<open>
  A comment that follows the separator directly is taken for the value: the space before the
  semicolon is skipped before comments are looked for.
\<close>

lemma ini_comment_as_value:
  "ini_value (asc '' ; comment'') = asc ''; comment''" and "ini_value (asc '' v ; comment'') = asc ''v''"
  by code_simp+

end
