(* ===== verification/Mconf.thy ===== *)
theory Mconf
  imports Mconf_Getopt Ini
begin

text \<open>
  The option parser of \<^verbatim>\<open>lib/mconf.c\<close> over the options of theory \<open>Mconf_Table\<close> and the tables of theory
  \<open>Mconf_Getopt\<close>: the reading of the command line and, by the parser of theory \<open>Ini\<close>, of the configuration file.
  \<open>getopt_long\<close> is a function that gives the list of its results, callbacks of the client are a parameter. Shown: for
  options declared with the macros of \<^verbatim>\<open>mconf.h\<close> a whole parse accesses every variable at its type, frees
  only what it has allocated, and stays inside the tables it allocates, for every command line and every file.
\<close>

section \<open>The command line\<close>

definition cmd_param :: "'w mlib \<Rightarrow> loption list \<Rightarrow> gopt \<Rightarrow> bytes option \<Rightarrow> metad_param \<Rightarrow> 'w menv \<Rightarrow> (metad_param \<times> 'w menv) res" where
  "cmd_param lib longs g section p m =
     rbind (selected longs g p) (\<lambda>sel.
       if sel then rbind (param_set lib p section (go_arg g) m) (\<lambda>(ok, m). Inr (param_mark ok p, m))
       else Inr (p, m))"

fun cmd_params :: "'w mlib \<Rightarrow> loption list \<Rightarrow> gopt \<Rightarrow> bytes option \<Rightarrow> metad_param list \<Rightarrow> 'w menv \<Rightarrow> (metad_param list \<times> 'w menv) res" where
  "cmd_params lib longs g section [] m = Inr ([], m)"
| "cmd_params lib longs g section (p # ps) m =
     rbind (cmd_param lib longs g section p m) (\<lambda>(p, m).
     rbind (cmd_params lib longs g section ps m) (\<lambda>(ps, m). Inr (p # ps, m)))"

fun cmd_blocks :: "'w mlib \<Rightarrow> loption list \<Rightarrow> gopt \<Rightarrow> mconf_block list \<Rightarrow> 'w menv \<Rightarrow> (mconf_block list \<times> 'w menv) res" where
  "cmd_blocks lib longs g [] m = Inr ([], m)"
| "cmd_blocks lib longs g (b # bs) m =
     rbind (cmd_params lib longs g (mb_section b) (mb_opts b) m) (\<lambda>(ps, m).
     rbind (cmd_blocks lib longs g bs m) (\<lambda>(bs, m). Inr (b\<lparr>mb_opts := ps\<rparr> # bs, m)))"

text \<open>The results up to -1; a question mark ends the loop, the option \<open>-c\<close> was taken by \<open>mconf_init\<close>.\<close>

fun cmd_loop :: "'w mlib \<Rightarrow> loption list \<Rightarrow> gopt list \<Rightarrow> mconf_block list \<Rightarrow> 'w menv \<Rightarrow> (int \<times> mconf_block list \<times> 'w menv) res" where
  "cmd_loop lib longs [] bs m = Inr (0, bs, m)"
| "cmd_loop lib longs (g # gs) bs m =
     (if go_c g = 0x3f then Inr (- 1, bs, m)
      else if go_c g = 0x63 then cmd_loop lib longs gs bs m
      else rbind (cmd_blocks lib longs g bs m) (\<lambda>(bs, m). cmd_loop lib longs gs bs m))"

definition mconf_parse_cmdline :: "'w mlib \<Rightarrow> (nat \<Rightarrow> u8) \<Rightarrow> getopt \<Rightarrow> mconf \<Rightarrow> 'w menv \<Rightarrow> (int \<times> mconf \<times> 'w menv) res" where
  "mconf_parse_cmdline lib junk getopt_long cf m =
     rbind (build_tables junk cf) (\<lambda>(s, longs).
       let cf = cf\<lparr>mc_opt_short := Some s, mc_opt_long := Some longs\<rparr>
       in rbind (cmd_loop lib longs (getopt_long (mc_argv cf) s longs) (mc_blocks cf) m) (\<lambda>(r, bs, m).
            Inr (r, cf\<lparr>mc_blocks := bs\<rparr>, m)))"

section \<open>The configuration file\<close>

text \<open>\<open>ini_handler\<close>: the options of a block, then the blocks.\<close>

fun ini_params :: "'w mlib \<Rightarrow> bytes \<Rightarrow> bytes \<Rightarrow> bytes \<Rightarrow> metad_param list \<Rightarrow> 'w menv \<Rightarrow>
    (bool option \<times> metad_param list \<times> 'w menv) res" where
  "ini_params lib section name val [] m = Inr (None, [], m)"
| "ini_params lib section name val (p # ps) m =
     (if mp_conf p = Some name then
        rbind (param_set lib p (Some section) (Some val) m) (\<lambda>(ok, m). Inr (Some ok, param_mark ok p # ps, m))
      else rbind (ini_params lib section name val ps m) (\<lambda>(r, ps, m). Inr (r, p # ps, m)))"

fun ini_blocks :: "'w mlib \<Rightarrow> bytes \<Rightarrow> bytes \<Rightarrow> bytes \<Rightarrow> mconf_block list \<Rightarrow> 'w menv \<Rightarrow> (bool \<times> mconf_block list \<times> 'w menv) res" where
  "ini_blocks lib section name val [] m = Inr (False, [], m)"
| "ini_blocks lib section name val (b # bs) m =
     rbind (if mb_section b = Some section then ini_params lib section name val (mb_opts b) m else Inr (None, mb_opts b, m))
       (\<lambda>(r, ps, m). case r of
          Some ok \<Rightarrow> Inr (ok, b\<lparr>mb_opts := ps\<rparr> # bs, m)
        | None \<Rightarrow> rbind (ini_blocks lib section name val bs m) (\<lambda>(ok, bs, m). Inr (ok, b\<lparr>mb_opts := ps\<rparr> # bs, m)))"

text \<open>A fault ends the program; here it stays in the state that goes through the file parser.\<close>

definition ini_handler :: "'w mlib \<Rightarrow> (mconf_block list \<times> 'w menv) res ini_handler" where
  "ini_handler lib u section name val =
     (case u of Inl e \<Rightarrow> (False, Inl e)
      | Inr (bs, m) \<Rightarrow> (case ini_blocks lib section name val bs m of
            Inl e \<Rightarrow> (False, Inl e) | Inr (ok, bs, m) \<Rightarrow> (ok, Inr (bs, m))))"

definition mconf_parse_conf :: "'w mlib \<Rightarrow> bytes option \<Rightarrow> mconf \<Rightarrow> 'w menv \<Rightarrow> (int \<times> mconf \<times> 'w menv) res" where
  "mconf_parse_conf lib contents cf m =
     (case ini_parse (ini_handler lib) contents (Inr (mc_blocks cf, m)) of (e, u) \<Rightarrow>
        rbind u (\<lambda>(bs, m). Inr (if e \<noteq> 0 then - 1 else 0, cf\<lparr>mc_blocks := bs\<rparr>, m)))"

section \<open>The whole parse\<close>

text \<open>With help wanted the program ends: the help is shown by the option \<open>-h\<close>, or by \<open>mconf_help_msg\<close>.\<close>

datatype 'w parsed = HelpOption "'w menv" | HelpMessage "bytes list res option" | Parsed int mconf "'w menv"

definition mconf_parse :: "'w mlib \<Rightarrow> (bytes \<Rightarrow> bytes option) \<Rightarrow> (nat \<Rightarrow> u8) \<Rightarrow> getopt \<Rightarrow> mconf \<Rightarrow> 'w menv \<Rightarrow> 'w parsed res" where
  "mconf_parse lib fs junk getopt_long cf m =
     (if mc_help_only cf then
        (case find (\<lambda>p. mp_short p = 0x68) (mc_options cf) of
           Some p \<Rightarrow> rbind (param_set lib p None None m) (\<lambda>(_, m). Inr (HelpOption m))
         | None \<Rightarrow> Inr (HelpMessage (mconf_help_msg lib junk cf 79 m)))
      else
        rbind (case mc_path cf of None \<Rightarrow> Inr (0, cf, m) | Some path \<Rightarrow> mconf_parse_conf lib (fs path) cf m) (\<lambda>(r, cf, m).
          if r \<noteq> 0 then Inr (Parsed (- 1) cf m)
          else rbind (mconf_parse_cmdline lib junk getopt_long cf m) (\<lambda>(r, cf, m). Inr (Parsed r cf m))))"

section \<open>Going over the options\<close>

text \<open>An option but for the mark that it is set, which is all a parse changes of it.\<close>

definition bare :: "metad_param \<Rightarrow> metad_param" where
  "bare p = p\<lparr>mp_is_set := False\<rparr>"

lemma bare_simps [simp]: "bare (param_mark ok p) = bare p" "selected ls g (bare p) = selected ls g p"
  "declared (bare p) = declared p" "mp_args (bare p) = mp_args p" "mp_short (bare p) = mp_short p"
  "short_size (bare p) = short_size p" "long_size (bare p) = long_size p" "wants (mp_set (bare p)) = wants (mp_set p)"
  by (simp_all add: bare_def param_mark_def selected_def declared_def short_size_def long_size_def)

lemma list_all_bare:
  assumes "map bare ps' = map bare ps" and "\<And>p. P (bare p) = P p"
  shows "list_all P ps' = list_all P ps"
proof -
  have "list_all P (map bare qs) = list_all P qs" for qs by (induction qs) (simp_all add: assms(2))
  then show ?thesis using assms(1) by metis
qed

lemma sizes_bare: "map bare ps' = map bare ps \<Longrightarrow> shorts_of ps' = shorts_of ps \<and> longs_of ps' = longs_of ps"
proof -
  have "shorts_of (map bare qs) = shorts_of qs \<and> longs_of (map bare qs) = longs_of qs" for qs by (induction qs) simp_all
  then show "map bare ps' = map bare ps \<Longrightarrow> shorts_of ps' = shorts_of ps \<and> longs_of ps' = longs_of ps" by metis
qed

text \<open>\<open>went ps m ps' m'\<close>: from the options \<open>ps\<close> and the memory \<open>m\<close> a traversal has come to \<open>ps'\<close> and \<open>m'\<close>.\<close>

definition went :: "metad_param list \<Rightarrow> 'w menv \<Rightarrow> metad_param list \<Rightarrow> 'w menv \<Rightarrow> bool" where
  "went ps m ps' m' \<longleftrightarrow> menv_ok m' \<and> extends m m' \<and> list_all (param_ok m') ps' \<and> map bare ps' = map bare ps"

lemma went_refl: "menv_ok m \<Longrightarrow> list_all (param_ok m) ps \<Longrightarrow> went ps m ps m"
  by (simp add: went_def)

lemma went_trans: "went ps m ps' m' \<Longrightarrow> went ps' m' ps'' m'' \<Longrightarrow> went ps m ps'' m''"
  by (auto simp: went_def intro: extends_trans)

lemma went_append:
  assumes "went ps m ps' m'" and "went qs m' qs' m''"
  shows "went (ps @ qs) m (ps' @ qs') m''"
proof -
  have "list_all (param_ok m'') ps'" using assms param_ok_extends by (auto simp: went_def list_all_iff)
  then show ?thesis using assms by (auto simp: went_def intro: extends_trans)
qed

lemma went_later: "went ps m ps' m' \<Longrightarrow> list_all (param_ok m) qs \<Longrightarrow> list_all (param_ok m') qs"
  using param_ok_extends by (auto simp: went_def list_all_iff)

lemma went_set:
  assumes "menv_ok m" "param_ok m p" "val \<noteq> None \<or> wants (mp_set p) = None"
  obtains ok m' where "param_set lib p section val m = Inr (ok, m')" "went [p] m [param_mark ok p] m'"
  by (rule param_set_ok [OF assms]) (rule that, assumption, simp add: went_def param_steps_def)

lemma gopt_ok_append [simp]: "gopt_ok ls (ps @ qs) g \<longleftrightarrow> gopt_ok ls ps g \<and> gopt_ok ls qs g"
  by (auto simp: gopt_ok_def)

lemma gopt_ok_Cons: "gopt_ok ls (p # ps) g \<Longrightarrow> gopt_ok ls [p] g \<and> gopt_ok ls ps g"
  by (simp add: gopt_ok_def)

lemma gopt_ok_bare: "map bare ps' = map bare ps \<Longrightarrow> gopt_ok ls ps' g = gopt_ok ls ps g"
  unfolding gopt_ok_def by (subst list_all_bare [of ps' ps]) simp_all

lemma cmd_param_ok:
  assumes m: "menv_ok m" "param_ok m p" and d: "declared p" and g: "gopt_ok ls [p] g"
  obtains p' m' where "cmd_param lib ls g section p m = Inr (p', m')" "went [p] m [p'] m'"
proof -
  have "go_index g = - 1 \<or> 0 \<le> go_index g \<and> nat (go_index g) < length ls" using g by (simp add: gopt_ok_def)
  then have "\<exists>sel. selected ls g p = Inr sel" unfolding selected_def by auto
  then obtain sel where sel: "selected ls g p = Inr sel" by blast
  show thesis
  proof (cases sel)
    case True
    have "go_arg g \<noteq> None \<or> wants (mp_set p) = None" using g d sel True by (auto simp: gopt_ok_def declared_def)
    from went_set [OF m this, of lib "section"] obtain ok m' where
      "param_set lib p section (go_arg g) m = Inr (ok, m')" "went [p] m [param_mark ok p] m'" .
    then show thesis using that sel True by (simp add: cmd_param_def)
  next
    case False
    then show thesis using that [of p m] sel m by (simp add: cmd_param_def went_refl)
  qed
qed

lemma cmd_params_ok:
  assumes "menv_ok m" "list_all (param_ok m) ps" "list_all declared ps" "gopt_ok ls ps g"
  shows "\<exists>ps' m'. cmd_params lib ls g section ps m = Inr (ps', m') \<and> went ps m ps' m'"
  using assms
proof (induction ps arbitrary: m)
  case Nil
  then show ?case by (simp add: went_refl)
next
  case (Cons p ps)
  obtain p' m1 where 1: "cmd_param lib ls g section p m = Inr (p', m1)" "went [p] m [p'] m1"
    by (rule cmd_param_ok [of m p ls g]) (use Cons.prems gopt_ok_Cons in auto)
  obtain ps' m' where 2: "cmd_params lib ls g section ps m1 = Inr (ps', m')" "went ps m1 ps' m'"
    using Cons.IH [of m1] Cons.prems gopt_ok_Cons [OF Cons.prems(4)] went_later [OF 1(2)] 1(2) by (auto simp: went_def)
  show ?case using went_append [OF 1(2) 2(2)] 1(1) 2(1) by simp
qed

definition options :: "mconf_block list \<Rightarrow> metad_param list" where
  "options bs = concat (map mb_opts bs)"

lemma options_simps [simp]: "options [] = []" "options (b # bs) = mb_opts b @ options bs" "mc_options cf = options (mc_blocks cf)"
  by (simp_all add: options_def mc_options_def)

lemma cmd_blocks_ok:
  assumes "menv_ok m" "list_all (param_ok m) (options bs)" "list_all declared (options bs)" "gopt_ok ls (options bs) g"
  shows "\<exists>bs' m'. cmd_blocks lib ls g bs m = Inr (bs', m') \<and> went (options bs) m (options bs') m'"
  using assms
proof (induction bs arbitrary: m)
  case Nil
  then show ?case by (simp add: went_refl)
next
  case (Cons b bs)
  obtain ps m1 where 1: "cmd_params lib ls g (mb_section b) (mb_opts b) m = Inr (ps, m1)" "went (mb_opts b) m ps m1"
    using cmd_params_ok [of m "mb_opts b" ls g lib "mb_section b"] Cons.prems by auto
  obtain bs' m' where 2: "cmd_blocks lib ls g bs m1 = Inr (bs', m')" "went (options bs) m1 (options bs') m'"
    using Cons.IH [of m1] Cons.prems went_later [OF 1(2)] 1(2) by (auto simp: went_def)
  show ?case using went_append [OF 1(2) 2(2)] 1(1) 2(1) by simp
qed

lemma cmd_loop_ok:
  assumes "menv_ok m" "list_all (param_ok m) (options bs)" "list_all declared (options bs)"
    and "list_all (\<lambda>g. go_c g \<noteq> 0x3f \<and> go_c g \<noteq> 0x63 \<longrightarrow> gopt_ok ls (options bs) g) gs"
  shows "\<exists>r bs' m'. cmd_loop lib ls gs bs m = Inr (r, bs', m') \<and> went (options bs) m (options bs') m'"
  using assms
proof (induction gs arbitrary: bs m)
  case Nil
  then show ?case by (simp add: went_refl)
next
  case (Cons g gs)
  show ?case
  proof (cases "go_c g = 0x3f \<or> go_c g = 0x63")
    case True
    then show ?thesis using Cons went_refl by auto
  next
    case False
    obtain bs1 m1 where 1: "cmd_blocks lib ls g bs m = Inr (bs1, m1)" "went (options bs) m (options bs1) m1"
      using cmd_blocks_ok [of m bs ls g lib] Cons.prems False by auto
    have b: "map bare (options bs1) = map bare (options bs)" using 1(2) by (simp add: went_def)
    have "list_all declared (options bs1)" "list_all (\<lambda>g. go_c g \<noteq> 0x3f \<and> go_c g \<noteq> 0x63 \<longrightarrow> gopt_ok ls (options bs1) g) gs"
      using Cons.prems(3,4) list_all_bare [OF b, of declared] gopt_ok_bare [OF b] by (simp_all add: list_all_iff)
    then obtain r bs' m' where 2: "cmd_loop lib ls gs bs1 m1 = Inr (r, bs', m')" "went (options bs1) m1 (options bs') m'"
      using Cons.IH [of m1 bs1] 1(2) by (auto simp: went_def)
    show ?thesis using went_trans [OF 1(2) 2(2)] False 1(1) 2(1) by simp
  qed
qed

text \<open>The same for the file.\<close>

lemma ini_params_ok:
  assumes "menv_ok m" "list_all (param_ok m) ps"
  shows "\<exists>r ps' m'. ini_params lib section name val ps m = Inr (r, ps', m') \<and> went ps m ps' m'"
  using assms
proof (induction ps)
  case Nil
  then show ?case by (simp add: went_refl)
next
  case (Cons p ps)
  show ?case
  proof (cases "mp_conf p = Some name")
    case True
    obtain ok m1 where 1: "param_set lib p (Some section) (Some val) m = Inr (ok, m1)" "went [p] m [param_mark ok p] m1"
      by (rule went_set [of m p "Some val"]) (use Cons.prems in auto)
    have "went ps m1 ps m1" using 1(2) went_later [OF 1(2)] Cons.prems(2) by (simp add: went_def)
    from went_append [OF 1(2) this] 1(1) True show ?thesis by simp
  next
    case False
    obtain r ps' m' where "ini_params lib section name val ps m = Inr (r, ps', m')" "went ps m ps' m'" using Cons by auto
    then show ?thesis using False went_append [OF went_refl [of m "[p]"], of ps ps' m'] Cons.prems by simp
  qed
qed

lemma ini_blocks_ok:
  assumes "menv_ok m" "list_all (param_ok m) (options bs)"
  shows "\<exists>ok bs' m'. ini_blocks lib section name val bs m = Inr (ok, bs', m') \<and> went (options bs) m (options bs') m'"
  using assms
proof (induction bs arbitrary: m)
  case Nil
  then show ?case by (intro exI [of _ False] exI [of _ "[]"] exI [of _ m]) (simp add: went_refl)
next
  case (Cons b bs)
  have b: "menv_ok m" "list_all (param_ok m) (mb_opts b)" using Cons.prems by simp_all
  have "\<exists>r ps m1. (if mb_section b = Some section then ini_params lib section name val (mb_opts b) m
      else Inr (None, mb_opts b, m)) = Inr (r, ps, m1) \<and> went (mb_opts b) m ps m1"
    using ini_params_ok [OF b] went_refl [OF b] by simp
  then obtain r ps m1 where 1: "(if mb_section b = Some section then ini_params lib section name val (mb_opts b) m
      else Inr (None, mb_opts b, m)) = Inr (r, ps, m1)" "went (mb_opts b) m ps m1" by blast
  have rest: "list_all (param_ok m1) (options bs)" using went_later [OF 1(2)] Cons.prems by simp
  have m1: "menv_ok m1" using 1(2) by (simp add: went_def)
  show ?case
  proof (cases r)
    case None
    obtain ok bs' m' where 2: "ini_blocks lib section name val bs m1 = Inr (ok, bs', m')" "went (options bs) m1 (options bs') m'"
      using Cons.IH [OF m1 rest] by blast
    show ?thesis using went_append [OF 1(2) 2(2)] 1(1) 2(1) None by simp
  next
    case (Some ok)
    show ?thesis using went_append [OF 1(2) went_refl [OF m1 rest]] 1(1) Some by simp
  qed
qed

text \<open>What every call of the handler keeps is kept by the file parser.\<close>

lemma ini_line_user:
  assumes "\<And>u s n v. J u \<Longrightarrow> J (snd (h u s n v))" and "J (ini_user st)"
  shows "J (ini_user (ini_line h l st))"
proof -
  have e: "J (ini_user (set_error st))" if "J (ini_user st)" for st using that by (simp add: set_error_def)
  have s: "J (ini_user (ini_section_line start st))" if "J (ini_user st)" for start st
    using that e by (simp add: ini_section_line_def Let_def)
  have p: "J (ini_user (ini_pair_line h start st))" if J: "J (ini_user st)" for start st
  proof -
    have "J b" if "h (ini_user st) s n v = (a, b)" for a b s n v using assms(1) [OF J, of s n v] that by simp
    then show ?thesis using J e by (auto simp: ini_pair_line_def Let_def split: prod.splits)
  qed
  show ?thesis using assms(2) s p by (simp add: ini_line_def Let_def)
qed

lemma ini_parse_user:
  assumes "\<And>u s n v. J u \<Longrightarrow> J (snd (h u s n v))" and "J u"
  shows "J (snd (ini_parse h contents u))"
proof -
  have "J (ini_user (ini_loop h f st))" if "J (ini_user st)" for f st
    using that
  proof (induction f arbitrary: st rule: measure_induct_rule [of length])
    case (less f)
    have "length f' < length f" if "fgets INI_MAX_LINE f = Some (l, f')" for l f'
      using that by (auto simp: fgets_def Let_def split: if_splits)
    then show ?case using less ini_line_user [of J h st, OF assms(1)]
      by (subst ini_loop.simps) (auto split: option.split)
  qed
  then show ?thesis using assms(2) by (auto simp: ini_parse_def ini_parse_file_def ini_init_def Let_def split: option.split)
qed

lemma mconf_parse_conf_ok:
  assumes m: "menv_ok m" and ps: "list_all (param_ok m) (mc_options cf)"
  shows "\<exists>r bs m'. mconf_parse_conf lib contents cf m = Inr (r, cf\<lparr>mc_blocks := bs\<rparr>, m') \<and> went (mc_options cf) m (options bs) m'"
proof -
  define J where "J u \<longleftrightarrow> (\<exists>bs m'. u = Inr (bs, m') \<and> went (mc_options cf) m (options bs) m')" for u :: "(mconf_block list \<times> 'a menv) res"
  have "J (snd (ini_handler lib u s n v))" if u: "J u" for u s n v
  proof -
    obtain bs m1 where 1: "u = Inr (bs, m1)" "went (mc_options cf) m (options bs) m1" using u unfolding J_def by blast
    then obtain ok bs' m' where "ini_blocks lib s n v bs m1 = Inr (ok, bs', m')" "went (options bs) m1 (options bs') m'"
      using ini_blocks_ok [of m1 bs lib s n v] by (auto simp: went_def)
    then show ?thesis using 1 by (auto simp: ini_handler_def J_def intro: went_trans)
  qed
  moreover have "J (Inr (mc_blocks cf, m))" using went_refl [OF m ps] by (simp add: J_def)
  ultimately have "J (snd (ini_parse (ini_handler lib) contents (Inr (mc_blocks cf, m))))" by (rule ini_parse_user)
  then show ?thesis by (auto simp: J_def mconf_parse_conf_def split: prod.splits)
qed

text \<open>A traversal keeps what tells the options apart.\<close>

lemma numbered_bare: "map bare ps' = map bare ps \<Longrightarrow> numbered u ps' = numbered u ps"
proof -
  have "idx_in l u (bare p) = idx_in l u p" "differ (bare p) (bare q) = differ p q" for l p q
    by (simp_all add: idx_in_def differ_def bare_def)
  then have "numbered u (map bare qs) = numbered u qs" for qs
    by (simp add: numbered_def sorted_wrt_map list.pred_map o_def)
  then show "map bare ps' = map bare ps \<Longrightarrow> numbered u ps' = numbered u ps" by metis
qed

lemma mconf_parse_cmdline_ok:
  assumes m: "menv_ok m" and ps: "list_all (param_ok m) (mc_options cf)" "list_all declared (mc_options cf)"
    and cf: "counts_ok cf" "numbered (mc_long_idx cf) (mc_options cf)" and g: "getopt_doc getopt_long"
  shows "\<exists>r cf' m'. mconf_parse_cmdline lib junk getopt_long cf m = Inr (r, cf', m') \<and> went (mc_options cf) m (mc_options cf') m'"
proof -
  obtain s ls where t: "build_tables junk cf = Inr (s, ls)"
      "list_all (\<lambda>g. go_c g \<noteq> 0x3f \<and> go_c g \<noteq> 0x63 \<longrightarrow> gopt_ok ls (mc_options cf) g) (getopt_long (mc_argv cf) s ls)"
    by (rule getopt_doc_ok [OF g cf ps(2)])
  obtain r bs m' where "cmd_loop lib ls (getopt_long (mc_argv cf) s ls) (mc_blocks cf) m = Inr (r, bs, m')"
      "went (mc_options cf) m (options bs) m'"
    using cmd_loop_ok [of m "mc_blocks cf" ls "getopt_long (mc_argv cf) s ls" lib] m ps t(2) by auto
  then show ?thesis using t(1) by (simp add: mconf_parse_cmdline_def)
qed

section \<open>A client\<close>

definition parse_typed :: "'w menv \<Rightarrow> 'w parsed res \<Rightarrow> bool" where
  "parse_typed m r \<longleftrightarrow> (case r of Inl e \<Rightarrow> False
     | Inr (HelpMessage out) \<Rightarrow> (\<forall>e. out \<noteq> Some (Inl e))
     | Inr (HelpOption m') \<Rightarrow> menv_ok m' \<and> extends m m'
     | Inr (Parsed r cf m') \<Rightarrow> menv_ok m' \<and> extends m m' \<and> list_all (param_ok m') (mc_options cf))"

text \<open>What a wish for help needs: a callback, or options the message of theory \<open>Mconf_Help\<close> can show.\<close>

definition help_ready :: "'w menv \<Rightarrow> mconf \<Rightarrow> bool" where
  "help_ready m cf \<longleftrightarrow> (case find (\<lambda>p. mp_short p = 0x68) (mc_options cf) of
       Some p \<Rightarrow> wants (mp_set p) = None
     | None \<Rightarrow> opt_columns cf + 6 < 79 \<and> list_all (option_fits m (opt_columns cf + 6)) (mc_options cf))"

lemma help_message_safe:
  assumes "opt_columns cf + 6 < 79" and "list_all (option_fits m (opt_columns cf + 6)) (mc_options cf)"
  shows "mconf_help_msg lib junk cf 79 m \<noteq> Some (Inl e)"
proof -
  have "\<forall>p \<in> set (mc_options cf). option_fits m (opt_columns cf + 6) p \<and> opt_width p + 6 \<le> opt_columns cf + 6"
    using assms(2) opt_columns_ge [of _ cf] by (simp add: list_all_iff)
  from help_options_cases [where lib = lib and junk = junk, OF this assms(1)] show ?thesis by (auto simp: mconf_help_msg_def simp del: options_simps split: if_splits)
qed

lemma parse_help_typed:
  assumes "menv_ok m" "list_all (param_ok m) (mc_options cf)" and "mc_help_only cf" and "help_ready m cf"
  shows "parse_typed m (mconf_parse lib fs junk getopt_long cf m)"
proof (cases "find (\<lambda>p. mp_short p = 0x68) (mc_options cf)")
  case None
  then show ?thesis using assms(3,4) help_message_safe [of cf m lib junk]
    by (simp add: mconf_parse_def parse_typed_def help_ready_def)
next
  case (Some p)
  then have p: "p \<in> set (mc_options cf)" by (auto simp: find_Some_iff)
  then have "param_ok m p" "wants (mp_set p) = None" using assms(2,4) Some by (auto simp: list_all_iff help_ready_def)
  then obtain ok m' where "param_set lib p None None m = Inr (ok, m')" "param_steps p ok m m'"
    using param_set_ok [OF assms(1), of p None lib None] by auto
  then show ?thesis using Some assms(3) by (simp add: mconf_parse_def parse_typed_def param_steps_def)
qed

lemma parse_options_typed:
  assumes m: "menv_ok m" and cf: "tables_ok cf" and ps: "list_all (param_ok m) (mc_options cf)" "list_all declared (mc_options cf)"
    and g: "getopt_doc getopt_long" and "\<not> mc_help_only cf"
  shows "parse_typed m (mconf_parse lib fs junk getopt_long cf m)"
proof -
  obtain r bs m1 where 1: "(case mc_path cf of None \<Rightarrow> Inr (0, cf, m) | Some path \<Rightarrow> mconf_parse_conf lib (fs path) cf m) =
      Inr (r, cf\<lparr>mc_blocks := bs\<rparr>, m1)" "went (mc_options cf) m (options bs) m1"
  proof (cases "mc_path cf")
    case None
    then show ?thesis using that [of 0 "mc_blocks cf" m] went_refl [OF m ps(1)] by simp
  next
    case (Some path)
    then show ?thesis using that mconf_parse_conf_ok [OF m ps(1), of lib "fs path"] by auto
  qed
  define cf1 where "cf1 = cf\<lparr>mc_blocks := bs\<rparr>"
  have b: "map bare (options bs) = map bare (mc_options cf)" using 1(2) by (simp add: went_def)
  have "list_all (param_ok m1) (mc_options cf1)" "list_all declared (mc_options cf1)" "counts_ok cf1"
      "numbered (mc_long_idx cf1) (mc_options cf1)"
    using 1(2) list_all_bare [OF b, of declared] ps(2) sizes_bare [OF b] numbered_bare [OF b] cf
    by (simp_all add: cf1_def went_def counts_ok_def tables_ok_def)
  then obtain r2 cf2 m2 where 2: "mconf_parse_cmdline lib junk getopt_long cf1 m1 = Inr (r2, cf2, m2)"
      "went (mc_options cf1) m1 (mc_options cf2) m2"
    using mconf_parse_cmdline_ok [OF _ _ _ _ _ g, of m1 cf1 lib junk] 1(2) by (auto simp: went_def)
  then show ?thesis using assms(6) 1 went_trans [OF 1(2), of "mc_options cf2" m2]
    by (auto simp: mconf_parse_def parse_typed_def went_def cf1_def)
qed

text \<open>
  C15. Type safety of the option parser. A client adds blocks of options declared with the macros of \<open>mconf.h\<close> over
  variables of the types the setters expect; their characters are ASCII, no colon or semicolon, and differ within a
  block, and a block with names for the configuration file has a section. Then adding the blocks and the whole parse
  access no variable at another type, no missing argument or section and no memory outside the tables and the line of the
  help message, free no string they have not allocated and none twice, and leave every variable of the type it had. This is so
  for every configuration file, every command line and every \<open>getopt_long\<close> that gives the documented results; a
  wish for help needs an option \<open>-h\<close> that is a callback, or, for the help message, options with a description, an
  option column below 73 characters and default values that fit.
\<close>

theorem mconf_parse_types:
  assumes "menv_ok m" and "list_all block_declared adds" and "list_all (\<lambda>b. list_all (param_ok m) (snd b)) adds"
    and "getopt_doc getopt_long"
    and "\<And>cf. mconf_build cfg argv adds = Inr cf \<Longrightarrow> mc_help_only cf \<Longrightarrow> help_ready m cf"
  shows "parse_typed m (rbind (mconf_build cfg argv adds) (\<lambda>cf. mconf_parse lib fs junk getopt_long cf m))"
proof -
  obtain cf where cf: "mconf_build cfg argv adds = Inr cf" "tables_ok cf" "list_all (\<lambda>p. declared p \<and> param_ok m p) (mc_options cf)"
    by (rule mconf_build_ok [OF assms(2), of "\<lambda>p. declared p \<and> param_ok m p"])
      (use assms(2,3) in \<open>auto simp: list_all_iff block_declared_def declared_def param_ok_def\<close>)
  then have ps: "list_all (param_ok m) (mc_options cf)" "list_all declared (mc_options cf)" by (auto simp: list_all_iff)
  show ?thesis
    using parse_help_typed [OF assms(1) ps(1)] assms(5) [OF cf(1)] parse_options_typed [OF assms(1) cf(2) ps assms(4)] cf(1)
    by (cases "mc_help_only cf") simp_all
qed

text \<open>A client with a string, a size and a mask of levels, a file that sets all three and a command line that sets the string again.\<close>

definition ex_param :: "u8 \<Rightarrow> string \<Rightarrow> setter \<Rightarrow> addr \<Rightarrow> metad_param" where
  "ex_param c name s x = \<lparr>mp_short = c, mp_long = Some (asc name), mp_conf = Some (asc name), mp_set = s, mp_to_string = None,
     mp_ptr = x, mp_is_set = False, mp_args = 1, mp_comment = None, mp_idx = 0\<rparr>"

definition ex_adds :: "(bytes option \<times> metad_param list) list" where
  "ex_adds = [(Some (asc ''net''), [ex_param 0x6e ''name'' SetString 0, ex_param 0 ''size'' SetSize 1]), (Some (asc ''log''), [ex_param 0 ''level'' SetLoglevel 2])]"

definition ex_menv :: "unit menv" where
  "ex_menv = \<lparr>me_cells = [0 \<mapsto> VStr (StrLit (asc ''none'')), 1 \<mapsto> VInt 0, 2 \<mapsto> VInt 0], me_strs = Map.empty, me_next = 0,
     me_calls = 0, me_client = ()\<rparr>"

definition ex_lib :: "unit mlib" where
  "ex_lib = \<lparr>ml_erange = (\<lambda>_. False), ml_facilities = [], ml_priorities = ex_levels, ml_callback = (\<lambda>_ _ _ w. (True, w))\<rparr>"

definition ex_file :: "bytes \<Rightarrow> bytes option" where
  "ex_file _ = Some (asc ''[net]'' @ [10] @ asc ''name=abc'' @ [10] @ asc ''size=4k'' @ [10] @ asc ''[log]'' @ [10] @ asc ''level=err'')"

text \<open>A \<open>getopt_long\<close> for a command line of single short options, as documented.\<close>

definition ex_result :: "int \<Rightarrow> bytes option \<Rightarrow> gopt" where
  "ex_result c v = \<lparr>go_c = c, go_index = - 1, go_arg = v\<rparr>"

fun ex_shorts :: "bytes \<Rightarrow> bytes list \<Rightarrow> gopt list" where
  "ex_shorts s [] = []"
| "ex_shorts s (a # rest) =
     (if length a \<noteq> 2 \<or> hd a \<noteq> 0x2d then ex_shorts s rest
      else case dropWhile (\<lambda>c. c \<noteq> a ! 1) (cstring s) of
          [] \<Rightarrow> [ex_result 0x3f None]
        | c # b \<Rightarrow>
          if c = 0x3a then [ex_result 0x3f None]
          else if argspec b \<noteq> 1 then ex_result (sint c) None # ex_shorts s rest
          else (case rest of [] \<Rightarrow> [ex_result 0x3f None] | v # rest \<Rightarrow> ex_result (sint c) (Some v) # ex_shorts s rest))"

definition ex_getopt :: getopt where
  "ex_getopt argv s ls = ex_shorts s (drop 1 argv)"

lemma ex_getopt_doc: "getopt_doc ex_getopt"
proof -
  have here: "gopt_doc s ls (ex_result (sint c) v)"
    if "dropWhile P (cstring s) = c # b" "c \<noteq> 0x3a" "argspec b = 1 \<longrightarrow> v \<noteq> None" for s ls c b v P
  proof -
    have "cstring s = takeWhile P (cstring s) @ c # b" using takeWhile_dropWhile_id [of P "cstring s"] that(1) by simp
    then have "gopt_short s (ex_result (sint c) v)" using that(2,3) unfolding gopt_short_def ex_result_def by fastforce
    then show ?thesis by (simp add: gopt_doc_def)
  qed
  have bad: "gopt_doc s ls (ex_result 0x3f None)" for s ls by (simp add: gopt_doc_def ex_result_def)
  have "list_all (gopt_doc s ls) (ex_shorts s argv)" for s ls argv
    by (induction s argv rule: ex_shorts.induct) (auto simp: bad here split: list.split)
  then show ?thesis by (simp add: getopt_doc_def ex_getopt_def)
qed

definition ex_build :: "mconf res" where
  "ex_build = mconf_build (Some (asc ''rfx.ini'')) [asc ''rfx'', asc ''-n'', asc ''xyz''] ex_adds"

definition ex_parse :: "unit parsed res" where
  "ex_parse = rbind ex_build (\<lambda>cf. mconf_parse ex_lib ex_file (\<lambda>_. 0) ex_getopt cf ex_menv)"

lemma ex_parse_value:
  "(case ex_parse of Inr (Parsed r cf m) \<Rightarrow> r = 0 \<and> me_cells m 0 = Some (VStr (StrHeap 1)) \<and> me_strs m 0 = None \<and>
     me_strs m 1 = Some (asc ''xyz'') \<and> me_cells m 1 = Some (VInt 4096) \<and> me_cells m 2 = Some (VInt 8) | _ \<Rightarrow> False)"
  by code_simp

lemma mconf_parse_types_witness:
  "parse_typed ex_menv ex_parse \<and>
   (case ex_parse of Inr (Parsed r cf m) \<Rightarrow> r = 0 \<and> me_cells m 0 = Some (VStr (StrHeap 1)) \<and> me_strs m 0 = None \<and>
     me_strs m 1 = Some (asc ''xyz'') \<and> me_cells m 1 = Some (VInt 4096) \<and> me_cells m 2 = Some (VInt 8) | _ \<Rightarrow> False)"
proof
  have "menv_ok ex_menv" by (auto simp: menv_ok_def ex_menv_def split: if_splits)
  moreover have "list_all block_declared ex_adds"
    by (simp add: ex_adds_def ex_param_def block_declared_def declared_def shorts_apart_def conf_sections_def)
  moreover have "list_all (\<lambda>b. list_all (param_ok ex_menv) (snd b)) ex_adds"
    by (simp add: ex_adds_def ex_param_def param_ok_def ex_menv_def)
  moreover have "case ex_build of Inr cf \<Rightarrow> \<not> mc_help_only cf | _ \<Rightarrow> False" by code_simp
  ultimately show "parse_typed ex_menv ex_parse"
    unfolding ex_parse_def ex_build_def by (intro mconf_parse_types ex_getopt_doc) auto
qed (rule ex_parse_value)

end
