(* ===== verification/Mconf_Memory.thy ===== *)
theory Mconf_Memory
  imports Rfx_Prelude
begin

text \<open>
  What the option parser \<^verbatim>\<open>lib/mconf.c\<close> allocates for itself: the handle with its strings and tables, and
  the chain of blocks that \<open>mconf_add\<close> extends through their \<open>next\<close> pointers and \<open>mconf_free\<close> releases. Shown:
  a handle that was set up, given any number of blocks and used for one parse is released completely, each
  object once and none after its release; a second parse leaks the tables of the first.
\<close>

text \<open>The blocks with their \<open>next\<close> pointers, the other objects that are allocated, the next new address.\<close>

record cfg_heap =
  ch_next :: "addr \<rightharpoonup> addr option"
  ch_objs :: "addr set"
  ch_brk :: addr

record cfg =
  cg_self :: addr
  cg_path :: "addr option"
  cg_short :: "addr option"
  cg_long :: "addr option"
  cg_cb :: "addr option"

definition alloc_obj :: "cfg_heap \<Rightarrow> addr \<times> cfg_heap" where
  "alloc_obj h = (ch_brk h, h\<lparr>ch_objs := insert (ch_brk h) (ch_objs h), ch_brk := ch_brk h + 1\<rparr>)"

definition free_obj :: "addr option \<Rightarrow> cfg_heap \<Rightarrow> cfg_heap res" where
  "free_obj x h =
     (case x of None \<Rightarrow> Inr h
      | Some a \<Rightarrow> if a \<in> ch_objs h then Inr (h\<lparr>ch_objs := ch_objs h - {a}\<rparr>) else Inl UseAfterFree)"

section \<open>Operations\<close>

definition init_mem :: "bool \<Rightarrow> cfg_heap \<Rightarrow> cfg \<times> cfg_heap" where
  "init_mem has_path h =
     (case alloc_obj h of (cf, h) \<Rightarrow>
        if has_path then (case alloc_obj h of (s, h) \<Rightarrow>
          (\<lparr>cg_self = cf, cg_path = Some s, cg_short = None, cg_long = None, cg_cb = None\<rparr>, h))
        else (\<lparr>cg_self = cf, cg_path = None, cg_short = None, cg_long = None, cg_cb = None\<rparr>, h))"

text \<open>The walk to the last \<open>next\<close> pointer, from a block.\<close>

partial_function (option) last_block :: "(addr \<rightharpoonup> addr option) \<Rightarrow> addr \<Rightarrow> addr res option" where
  "last_block h a =
     (case h a of None \<Rightarrow> Some (Inl UseAfterFree)
      | Some None \<Rightarrow> Some (Inr a)
      | Some (Some b) \<Rightarrow> last_block h b)"

definition add_mem :: "cfg \<Rightarrow> cfg_heap \<Rightarrow> (cfg \<times> cfg_heap) res option" where
  "add_mem cf h =
     (let n = ch_brk h; h1 = h\<lparr>ch_next := (ch_next h)(n \<mapsto> None), ch_brk := n + 1\<rparr>
      in case cg_cb cf of
           None \<Rightarrow> Some (Inr (cf\<lparr>cg_cb := Some n\<rparr>, h1))
         | Some a \<Rightarrow> map_option (\<lambda>r. rbind r (\<lambda>l. Inr (cf, h1\<lparr>ch_next := (ch_next h1)(l \<mapsto> Some n)\<rparr>))) (last_block (ch_next h1) a))"

definition cmdline_mem :: "cfg \<Rightarrow> cfg_heap \<Rightarrow> cfg \<times> cfg_heap" where
  "cmdline_mem cf h =
     (case alloc_obj h of (s, h) \<Rightarrow> (case alloc_obj h of (l, h) \<Rightarrow> (cf\<lparr>cg_short := Some s, cg_long := Some l\<rparr>, h)))"

partial_function (option) free_blocks :: "addr option \<Rightarrow> cfg_heap \<Rightarrow> cfg_heap res option" where
  "free_blocks cb h =
     (case cb of None \<Rightarrow> Some (Inr h)
      | Some a \<Rightarrow> (case ch_next h a of
            None \<Rightarrow> Some (Inl UseAfterFree)
          | Some cn \<Rightarrow> free_blocks cn (h\<lparr>ch_next := (ch_next h)(a := None)\<rparr>)))"

definition mconf_free :: "cfg \<Rightarrow> cfg_heap \<Rightarrow> cfg_heap res option" where
  "mconf_free cf h =
     (case rbind (free_obj (cg_short cf) h) (\<lambda>h. rbind (free_obj (cg_long cf) h) (free_obj (cg_path cf))) of
        Inl e \<Rightarrow> Some (Inl e)
      | Inr h \<Rightarrow> map_option (\<lambda>r. rbind r (free_obj (Some (cg_self cf)))) (free_blocks (cg_cb cf) h))"

section \<open>Chains of blocks\<close>

fun chain :: "(addr \<rightharpoonup> addr option) \<Rightarrow> addr option \<Rightarrow> addr list \<Rightarrow> bool" where
  "chain h cb [] \<longleftrightarrow> cb = None"
| "chain h cb (a # as) \<longleftrightarrow> cb = Some a \<and> (\<exists>n. h a = Some n \<and> chain h n as)"

lemma chain_cong: "(\<And>a. a \<in> set as \<Longrightarrow> h' a = h a) \<Longrightarrow> chain h' cb as = chain h cb as"
  by (induction as arbitrary: cb) auto

lemma last_block_chain: "chain h (Some a) (as @ [b]) \<Longrightarrow> last_block h a = Some (Inr b)"
proof (induction as arbitrary: a)
  case Nil
  then show ?case by (simp add: last_block.simps)
next
  case (Cons c as)
  then obtain n where n: "h a = Some n" "chain h n (as @ [b])" by auto
  then obtain a' where "n = Some a'" by (cases as) auto
  with n Cons.IH [of a'] show ?case by (simp add: last_block.simps [of h a])
qed

lemma chain_append:
  "chain h cb (as @ [b]) \<Longrightarrow> distinct (as @ [b, n]) \<Longrightarrow> chain (h(n \<mapsto> None, b \<mapsto> Some n)) cb (as @ [b, n])"
proof (induction as arbitrary: cb)
  case (Cons a as)
  then obtain m where "cb = Some a" "h a = Some m" "chain h m (as @ [b])" by auto
  with Cons.IH [of m] Cons.prems(2) show ?case by auto
qed simp

lemma free_blocks_chain:
  "chain (ch_next h) cb as \<Longrightarrow> distinct as \<Longrightarrow>
   free_blocks cb h = Some (Inr (h\<lparr>ch_next := (ch_next h) |` (- set as)\<rparr>))"
proof (induction as arbitrary: cb h)
  case Nil
  then show ?case by (simp add: free_blocks.simps)
next
  case (Cons a as)
  then obtain n where n: "cb = Some a" "ch_next h a = Some n" "chain (ch_next h) n as" by auto
  let ?h = "h\<lparr>ch_next := (ch_next h)(a := None)\<rparr>"
  have "chain (ch_next ?h) n as"
    using n(3) Cons.prems(2) by (subst chain_cong [of as "ch_next ?h" "ch_next h"]) auto
  then have "free_blocks n ?h = Some (Inr (?h\<lparr>ch_next := (ch_next ?h) |` (- set as)\<rparr>))"
    by (rule Cons.IH) (use Cons.prems(2) in simp)
  moreover have "ch_next ?h |` (- set as) = ch_next h |` (- set (a # as))"
    by (auto simp: restrict_map_def fun_eq_iff)
  moreover have "free_blocks cb h = free_blocks n ?h"
    using n by (simp add: free_blocks.simps [of "Some a"])
  ultimately show ?case by (simp only:) simp
qed

section \<open>A handle from its beginning to its end\<close>

text \<open>\<open>h0\<close> is the heap without the handle, \<open>as\<close> its blocks.\<close>

definition ptr_list :: "addr option \<Rightarrow> addr list" where
  "ptr_list x = (case x of None \<Rightarrow> [] | Some a \<Rightarrow> [a])"

lemma ptr_list_simps [simp]: "ptr_list None = []" "ptr_list (Some a) = [a]"
  by (simp_all add: ptr_list_def)

definition handle_objs :: "cfg \<Rightarrow> addr list" where
  "handle_objs cf = ptr_list (cg_short cf) @ ptr_list (cg_long cf) @ ptr_list (cg_path cf) @ [cg_self cf]"

definition owns :: "cfg_heap \<Rightarrow> cfg \<Rightarrow> addr list \<Rightarrow> cfg_heap \<Rightarrow> bool" where
  "owns h0 cf as h \<longleftrightarrow>
     chain (ch_next h) (cg_cb cf) as \<and> distinct as \<and> (\<forall>a \<in> set as. a < ch_brk h) \<and> ch_next h |` (- set as) = ch_next h0 \<and>
     ch_objs h = ch_objs h0 \<union> set (handle_objs cf) \<and> distinct (handle_objs cf) \<and> ch_objs h0 \<inter> set (handle_objs cf) = {} \<and>
     (\<forall>a. ch_brk h \<le> a \<longrightarrow> a \<notin> ch_objs h \<and> ch_next h a = None)"

definition heap_ok :: "cfg_heap \<Rightarrow> bool" where
  "heap_ok h \<longleftrightarrow> (\<forall>a. ch_brk h \<le> a \<longrightarrow> a \<notin> ch_objs h \<and> ch_next h a = None)"

lemma init_owns:
  assumes "heap_ok h0" and "init_mem p h0 = (cf, h)"
  shows "owns h0 cf [] h" and "cg_short cf = None" and "cg_long cf = None"
  using assms by (auto simp: init_mem_def alloc_obj_def owns_def heap_ok_def handle_objs_def split: if_splits)

lemma owns_fresh:
  assumes "owns h0 cf as h" and "ch_brk h \<le> a"
  shows "ch_next h a = None" and "ch_next h0 a = None" and "a \<notin> ch_objs h0" and "a \<notin> set (handle_objs cf)" and "a \<notin> set as"
proof -
  show n: "ch_next h a = None" and "a \<notin> ch_objs h0" "a \<notin> set (handle_objs cf)" "a \<notin> set as"
    using assms by (auto simp: owns_def)
  have "ch_next h0 a = (ch_next h |` (- set as)) a" using assms(1) by (simp add: owns_def)
  then show "ch_next h0 a = None" using n by (simp add: restrict_map_def)
qed

lemma handle_objs_cb [simp]: "handle_objs (cf\<lparr>cg_cb := x\<rparr>) = handle_objs cf"
  by (simp add: handle_objs_def)

lemma add_owns:
  assumes o: "owns h0 cf as h"
  shows "\<exists>cf' h'. add_mem cf h = Some (Inr (cf', h')) \<and> owns h0 cf' (as @ [ch_brk h]) h' \<and>
    cg_short cf' = cg_short cf \<and> cg_long cf' = cg_long cf"
proof (cases as rule: rev_cases)
  case Nil
  let ?n = "ch_brk h"
  let ?h = "h\<lparr>ch_next := (ch_next h)(?n \<mapsto> None), ch_brk := ?n + 1\<rparr>"
  have "cg_cb cf = None" "ch_next h = ch_next h0" using o Nil by (auto simp: owns_def restrict_map_def)
  then have "add_mem cf h = Some (Inr (cf\<lparr>cg_cb := Some ?n\<rparr>, ?h))" by (simp add: add_mem_def Let_def)
  moreover have "ch_next ?h |` (- {?n}) = ch_next h0"
    using owns_fresh(2) [OF o, of ?n] \<open>ch_next h = ch_next h0\<close> by (auto simp: restrict_map_def fun_eq_iff)
  then have "owns h0 (cf\<lparr>cg_cb := Some ?n\<rparr>) (as @ [?n]) ?h"
    using o Nil unfolding owns_def by (simp del: fun_upd_apply) auto
  ultimately show ?thesis by (intro exI [of _ "cf\<lparr>cg_cb := Some ?n\<rparr>"] exI [of _ ?h]) simp
next
  case (snoc bs b)
  let ?n = "ch_brk h"
  let ?h = "h\<lparr>ch_next := (ch_next h)(?n \<mapsto> None, b \<mapsto> Some ?n), ch_brk := ?n + 1\<rparr>"
  have ch: "chain (ch_next h) (cg_cb cf) (bs @ [b])" and n: "?n \<notin> set as" "distinct as"
    and rest: "ch_next h |` (- set as) = ch_next h0"
    using o owns_fresh(5) [OF o, of ?n] snoc by (auto simp: owns_def)
  then obtain a where a: "cg_cb cf = Some a" by (cases bs) auto
  have "chain ((ch_next h)(?n \<mapsto> None)) (Some a) (bs @ [b])"
    using ch a n snoc by (subst chain_cong [where h = "ch_next h"]) auto
  from last_block_chain [OF this] have "add_mem cf h = Some (Inr (cf, ?h))"
    using a by (simp add: add_mem_def Let_def)
  moreover have "chain (ch_next ?h) (cg_cb cf) (as @ [?n])"
    using chain_append [OF ch, of ?n] n snoc by simp
  moreover have "ch_next ?h |` (- set (as @ [?n])) = ch_next h0"
  proof
    show "(ch_next ?h |` (- set (as @ [?n]))) x = ch_next h0 x" for x
      using fun_cong [OF rest, of x] snoc owns_fresh(2) [OF o, of ?n]
      by (auto simp: restrict_map_def split: if_splits)
  qed
  ultimately have "add_mem cf h = Some (Inr (cf, ?h)) \<and> owns h0 cf (as @ [?n]) ?h"
    using o n snoc by (auto simp: owns_def)
  then show ?thesis by blast
qed

lemma cmdline_owns:
  assumes o: "owns h0 cf as h" and "cg_short cf = None" and "cg_long cf = None" and "cmdline_mem cf h = (cf', h')"
  shows "owns h0 cf' as h'"
  using assms owns_fresh [OF o, of "ch_brk h"] owns_fresh [OF o, of "Suc (ch_brk h)"]
  by (auto simp: cmdline_mem_def alloc_obj_def owns_def handle_objs_def)

lemma free_obj_list:
  "free_obj x h = (if set (ptr_list x) \<subseteq> ch_objs h then Inr (h\<lparr>ch_objs := ch_objs h - set (ptr_list x)\<rparr>) else Inl UseAfterFree)"
  by (cases x) (auto simp: free_obj_def)

lemma free_owns:
  assumes "owns h0 cf as h"
  shows "\<exists>h'. mconf_free cf h = Some (Inr h') \<and> ch_next h' = ch_next h0 \<and> ch_objs h' = ch_objs h0"
proof -
  let ?h1 = "h\<lparr>ch_objs := ch_objs h - set (ptr_list (cg_short cf) @ ptr_list (cg_long cf) @ ptr_list (cg_path cf))\<rparr>"
  have o: "ch_objs h = ch_objs h0 \<union> set (handle_objs cf)" "distinct (handle_objs cf)"
    "ch_objs h0 \<inter> set (handle_objs cf) = {}"
    using assms by (simp_all add: owns_def)
  have "rbind (free_obj (cg_short cf) h) (\<lambda>h. rbind (free_obj (cg_long cf) h) (free_obj (cg_path cf))) = Inr ?h1"
    using o by (auto simp: free_obj_list handle_objs_def Diff_eq Int_assoc)
  moreover have "free_blocks (cg_cb cf) ?h1 = Some (Inr (?h1\<lparr>ch_next := ch_next h0\<rparr>))"
    using free_blocks_chain [of ?h1 "cg_cb cf" as] assms by (simp add: owns_def)
  moreover have "cg_self cf \<in> ch_objs ?h1" "ch_objs ?h1 - {cg_self cf} = ch_objs h0"
    using o by (auto simp: handle_objs_def)
  ultimately show ?thesis by (simp add: mconf_free_def free_obj_def)
qed

text \<open>A handle with \<open>n\<close> blocks, used for one parse or none.\<close>

fun add_all :: "nat \<Rightarrow> cfg \<Rightarrow> cfg_heap \<Rightarrow> (cfg \<times> cfg_heap) res option" where
  "add_all 0 cf h = Some (Inr (cf, h))"
| "add_all (Suc n) cf h =
     (case add_mem cf h of Some (Inr (cf, h)) \<Rightarrow> add_all n cf h | r \<Rightarrow> r)"

lemma add_all_owns:
  assumes "owns h0 cf as h"
  shows "\<exists>cf' as' h'. add_all n cf h = Some (Inr (cf', h')) \<and> owns h0 cf' as' h' \<and>
    cg_short cf' = cg_short cf \<and> cg_long cf' = cg_long cf"
  using assms
proof (induction n arbitrary: cf as h)
  case (Suc n)
  obtain cf1 h1 where 1: "add_mem cf h = Some (Inr (cf1, h1))" "owns h0 cf1 (as @ [ch_brk h]) h1"
    "cg_short cf1 = cg_short cf" "cg_long cf1 = cg_long cf"
    using add_owns [OF Suc.prems] by blast
  from Suc.IH [OF 1(2)] 1 show ?case by simp
qed auto

lemma mconf_memory_released:
  assumes "heap_ok h0" and "init_mem has_path h0 = (cf0, h1)"
  shows "\<exists>cf1 h2 h3. add_all n cf0 h1 = Some (Inr (cf1, h2)) \<and>
    (let (cf2, h) = (if parse then cmdline_mem cf1 h2 else (cf1, h2))
     in mconf_free cf2 h = Some (Inr h3) \<and> ch_next h3 = ch_next h0 \<and> ch_objs h3 = ch_objs h0)"
proof -
  note i = init_owns [OF assms]
  obtain cf1 as h2 where 1: "add_all n cf0 h1 = Some (Inr (cf1, h2))" "owns h0 cf1 as h2"
    "cg_short cf1 = None" "cg_long cf1 = None"
    using add_all_owns [OF i(1)] i(2,3) by metis
  obtain cf2 h where 2: "(if parse then cmdline_mem cf1 h2 else (cf1, h2)) = (cf2, h)" by fastforce
  then have "owns h0 cf2 as h" using 1(2) cmdline_owns [OF 1(2-4)] by (cases parse) auto
  from free_owns [OF this] obtain h3 where "mconf_free cf2 h = Some (Inr h3)" "ch_next h3 = ch_next h0" "ch_objs h3 = ch_objs h0"
    by blast
  with 1(1) 2 show ?thesis by (intro exI [of _ cf1] exI [of _ h2] exI [of _ h3]) simp
qed

text \<open>The tables of a first parse are lost when there is a second one.\<close>

lemma owns_forget:
  assumes "owns h0 cf as h"
  shows "owns (h0\<lparr>ch_objs := ch_objs h0 \<union> set (ptr_list (cg_short cf) @ ptr_list (cg_long cf))\<rparr>)
    (cf\<lparr>cg_short := None, cg_long := None\<rparr>) as h"
proof -
  let ?t = "set (ptr_list (cg_short cf) @ ptr_list (cg_long cf))"
  have "set (handle_objs cf) = ?t \<union> set (ptr_list (cg_path cf) @ [cg_self cf])"
    and "distinct (handle_objs cf) \<Longrightarrow> distinct (ptr_list (cg_path cf) @ [cg_self cf]) \<and>
      ?t \<inter> set (ptr_list (cg_path cf) @ [cg_self cf]) = {}"
    and "handle_objs (cf\<lparr>cg_short := None, cg_long := None\<rparr>) = ptr_list (cg_path cf) @ [cg_self cf]"
    by (auto simp: handle_objs_def)
  then show ?thesis
    using assms by (simp add: owns_def del: set_append distinct_append) blast
qed

lemma mconf_memory_leaks:
  assumes "owns h0 cf as h" and "cg_short cf = None" and "cg_long cf = None"
    and "cmdline_mem cf h = (cf1, h1)" and "cmdline_mem cf1 h1 = (cf2, h2)"
  shows "\<exists>h3. mconf_free cf2 h2 = Some (Inr h3) \<and> ch_objs h3 = ch_objs h0 \<union> {ch_brk h, ch_brk h + 1}"
proof -
  let ?h0 = "h0\<lparr>ch_objs := ch_objs h0 \<union> {ch_brk h, ch_brk h + 1}\<rparr>"
  have cf1: "cg_short cf1 = Some (ch_brk h)" "cg_long cf1 = Some (ch_brk h + 1)"
    using assms(4) by (auto simp: cmdline_mem_def alloc_obj_def)
  then have "set (ptr_list (cg_short cf1) @ ptr_list (cg_long cf1)) = {ch_brk h, ch_brk h + 1}" by simp
  from owns_forget [OF cmdline_owns [OF assms(1-4)], unfolded this]
  have "owns ?h0 (cf1\<lparr>cg_short := None, cg_long := None\<rparr>) as h1" .
  then have "owns ?h0 cf2 as h2"
  proof (rule cmdline_owns)
    show "cmdline_mem (cf1\<lparr>cg_short := None, cg_long := None\<rparr>) h1 = (cf2, h2)"
      using assms(5) by (simp add: cmdline_mem_def alloc_obj_def)
  qed simp_all
  from free_owns [OF this] obtain h3 where "mconf_free cf2 h2 = Some (Inr h3)" "ch_objs h3 = ch_objs ?h0" by blast
  then show ?thesis by simp
qed

end
