(* ===== verification/Daemon.thy ===== *)
theory Daemon
  imports Text_Util
begin

text \<open>
  \<^verbatim>\<open>lib/daemonize.c\<close>: becoming a daemon, as the list of the system calls made and how the function
  ends; the answers of the system and of the user data base are arguments. Shown: when it returns for a given
  user, the group was given up before the user, after which it could not be changed any more.
\<close>

datatype fork_result = ForkFailed | InChild | InParent

datatype action = Setsid | WritePid bytes | Setregid nat | Setreuid nat | SetDumpable | Chdir bytes

datatype ending = Returned | ExitSuccess | ExitFailure | Fatal

record host =
  ho_fork :: fork_result
  ho_setsid :: bool
  ho_pidfile :: bool
  ho_getpwnam :: "bytes \<Rightarrow> (nat \<times> nat) option"
  ho_getgrnam :: "bytes \<Rightarrow> nat option"
  ho_setregid :: bool
  ho_setreuid :: bool
  ho_chdir :: bool

text \<open>
  The user and the group of \<open>user:group\<close> or \<open>user\<close>; the names go through a buffer of 32 bytes, in which
  a group of 32 characters or more is not terminated.
\<close>

definition run_ids :: "host \<Rightarrow> bytes \<Rightarrow> (nat \<times> nat) option res" where
  "run_ids h run_as =
     (let user = takeWhile (\<lambda>c. c \<noteq> 0x3a) run_as
      in if 0x3a \<in> set run_as \<and> length user < 30 then
           (case ho_getpwnam h user of None \<Rightarrow> Inr None
            | Some (uid, _) \<Rightarrow>
                let group = drop (length user + 1) run_as
                in if 32 \<le> length group then Inl OutOfBounds
                   else Inr (map_option (\<lambda>gid. (uid, gid)) (ho_getgrnam h group)))
         else Inr (ho_getpwnam h run_as))"

definition change_user :: "host \<Rightarrow> bytes option \<Rightarrow> (action list \<times> ending) res" where
  "change_user h run_as =
     (case run_as of None \<Rightarrow> Inr ([], Returned)
      | Some u \<Rightarrow> rbind (run_ids h u) (\<lambda>ids. case ids of
            None \<Rightarrow> Inr ([], ExitFailure)
          | Some (uid, gid) \<Rightarrow>
              if \<not> ho_setregid h then Inr ([], ExitFailure)
              else if \<not> ho_setreuid h then Inr ([Setregid gid], ExitFailure)
              else Inr ([Setregid gid, Setreuid uid, SetDumpable], Returned)))"

definition daemonize :: "host \<Rightarrow> bytes \<Rightarrow> bool \<Rightarrow> bool \<Rightarrow> bytes option \<Rightarrow> (action list \<times> ending) res" where
  "daemonize h pid do_daemonize pidfile run_as =
     (if do_daemonize \<and> ho_fork h = ForkFailed then Inr ([], Fatal)
      else if do_daemonize \<and> ho_fork h = InParent then Inr ([], ExitSuccess)
      else if do_daemonize \<and> \<not> ho_setsid h then Inr ([], Fatal)
      else
        let a1 = (if do_daemonize then [Setsid] else [])
        in if pidfile \<and> \<not> ho_pidfile h then Inr (a1, Fatal)
           else
             let a2 = a1 @ (if pidfile then [WritePid pid] else [])
             in rbind (change_user h run_as) (\<lambda>(a3, e).
                  if e \<noteq> Returned then Inr (a2 @ a3, e)
                  else if do_daemonize \<and> \<not> ho_chdir h then Inr (a2 @ a3, Fatal)
                  else Inr (a2 @ a3 @ (if do_daemonize then [Chdir (asc ''/'')] else []), Returned)))"

lemma daemonize_user:
  assumes "daemonize h pid dd pf (Some u) = Inr (as, Returned)"
  shows "\<exists>uid gid before after. run_ids h u = Inr (Some (uid, gid)) \<and> as = before @ [Setregid gid, Setreuid uid, SetDumpable] @ after \<and>
    (\<forall>n. Setreuid n \<notin> set before \<union> set after \<and> Setregid n \<notin> set before \<union> set after)"
proof -
  obtain uid gid where ids: "run_ids h u = Inr (Some (uid, gid))" "ho_setregid h" "ho_setreuid h"
    using assms by (auto simp: daemonize_def change_user_def Let_def rbind_eq_Inr split: if_splits option.splits)
  define before where "before = (if dd then [Setsid] else []) @ (if pf then [WritePid pid] else [])"
  define after where "after = (if dd then [Chdir (asc ''/'')] else [])"
  have "as = before @ [Setregid gid, Setreuid uid, SetDumpable] @ after"
    using assms ids by (auto simp: daemonize_def change_user_def Let_def before_def after_def split: if_splits)
  moreover have "\<forall>n. Setreuid n \<notin> set before \<union> set after \<and> Setregid n \<notin> set before \<union> set after"
    by (simp add: before_def after_def)
  ultimately show ?thesis using ids(1) by blast
qed

text \<open>
  \<open>close_stdx\<close> on the table of open descriptors: \<open>fd\<close> is the answer of \<open>open\<close>, the flags those of the
  three \<open>dup2\<close> and of \<open>close\<close>; \<open>None\<close> when the program ends with an error.
\<close>

definition close_stdx :: "'f \<Rightarrow> nat option \<Rightarrow> bool \<times> bool \<times> bool \<Rightarrow> bool \<Rightarrow> (nat \<rightharpoonup> 'f) \<Rightarrow> (nat \<rightharpoonup> 'f) option" where
  "close_stdx null fd dups close_ok fds =
     (case (fd, dups) of
        (None, _) \<Rightarrow> None
      | (Some n, d0, d1, d2) \<Rightarrow>
          if \<not> d0 \<or> \<not> d1 \<or> \<not> d2 then None
          else
            let t = (((fds(n \<mapsto> null))(0 \<mapsto> null))(1 \<mapsto> null))(2 \<mapsto> null)
            in if 2 < n then (if close_ok then Some (t(n := None)) else None) else Some t)"

lemma close_stdx_null:
  assumes "close_stdx null (Some n) dups close_ok fds = Some t" and "fds n = None"
  shows "t i = (if i \<le> 2 then Some null else fds i)"
  using assms by (auto simp: close_stdx_def Let_def split: if_splits prod.splits)

end
