(* ===== verification/Spec2Isabelle.thy ===== *)
theory Spec2Isabelle
  imports Pktq_Impl Queue_Families Ring_Buffer Log_Output Transparent Frontend Mconf Mconf_Memory Daemon
begin

text \<open>
  rfx is a transparent proxy for the RF Online game. It accepts game clients, opens a connection to the game
  server for each of them and forwards what both sides send. The byte streams are cut into packets, which
  plug-ins may look at, change, drop, delay or answer, and which are put together again on the other side.

  \<^bold>\<open>The program\<close> (under \<^verbatim>\<open>src/\<close>). \<^verbatim>\<open>main.cpp\<close> starts up, accepts clients, waits for
  the connection to the server (\<open>bootstrap\<close>) and hands both sockets to a session (\<open>rf_session\<close>). A session
  has a pipe for each direction (\<^verbatim>\<open>proxy.cpp\<close>: \<open>proxy_pipe\<close>), made of a receive queue that reassembles packets
  (\<open>recvq\<close>) and a send queue that writes them with \<open>writev\<close> (\<open>sendq\<close>), a chain of filter instances and a
  queue of delayed packets. Packets are counted references in intrusive tail queues (\<^verbatim>\<open>pktq.c\<close>,
  \<^verbatim>\<open>include/queue.h\<close>). Filters come from shared objects that are loaded and replaced while the
  program runs (\<open>rfx_module\<close>); they talk to the core by \<^verbatim>\<open>rfx_api.h\<close> and through events
  (\<^verbatim>\<open>evq.cpp\<close>, \<^verbatim>\<open>rfx_modules.cpp\<close>): \<^verbatim>\<open>rfx_chat.cpp\<close>, \<^verbatim>\<open>rfx_loot.cpp\<close>,
  \<^verbatim>\<open>rfx_debug.cpp\<close>. \<^verbatim>\<open>lib/\<close> holds sockets and addresses, helpers, a parser of configuration
  files, a parser of options and the start as a daemon.

  \<^bold>\<open>Conventions.\<close> A C struct or class is a record, an enumeration a datatype, an integer whose width matters a
  word, a pointer a natural number into a store. A fault of the C program (null or dangling pointer, access outside
  an object, use of a value never written, overflow of a signed integer) is a value \<open>Inl e\<close> of the result type; no definition
  ignores it. A loop whose end is not evident is a partial function into \<open>option\<close>, where \<open>None\<close> means that it
  does not return. The kernel is quantified in every theorem. What one callback of a session meets is a finite script:
  the outcomes of \<open>readv\<close> and \<open>writev\<close> are a list the calls consume, and an exhausted list answers \<open>EAGAIN\<close>, so
  that a descriptor interrupted for ever is outside that model. For the blocking functions of \<open>Sock\<close>, whose loops
  depend on it, the answers of \<open>read\<close>, \<open>write\<close>, \<open>writev\<close> and \<open>poll\<close> are infinite streams.

  \<^bold>\<open>Theories, in the order of their dependence.\<close>
  \<^item> \<open>Rfx_Prelude\<close>: machine types, faults, the bind of the fault monad, checked reads and writes of arrays.
  \<^item> \<open>Tailq\<close>: the \<open>TAILQ\<close> macros over pointer memory, and the locale \<open>tail_queue\<close> they provide.
    \<open>Tailq_Ends\<close>: the rest of these macros, with the loops (locale \<open>two_way_queue\<close>), and the locale
    \<open>linked_seq\<close>, the contract of every family of \<^verbatim>\<open>queue.h\<close>. The other families provide it too:
    \<open>Queue_Lists\<close> (\<open>SLIST\<close>, \<open>LIST\<close>), \<open>Queue_Simple\<close> (\<open>STAILQ\<close>, \<open>SIMPLEQ\<close>) and
    \<open>Queue_Circle\<close> (\<open>CIRCLEQ\<close>); \<open>Queue_Families\<close>: all of them agree. \<open>Ring_Buffer\<close>: the macros of
    \<^verbatim>\<open>include/ring_buffer.h\<close>.
  \<^item> \<open>Pktq\<close>: packets, their store, reference counts and the packet queues as lists; \<open>Pktq_Impl\<close>: the same
    operations over the pointers of \<open>Tailq\<close>, with the simulation that makes the lists sound.
    \<open>Pkt_Dump\<close>: the debugging output of a packet. \<open>Log_Output\<close>: the log functions.
  \<^item> \<open>Kernel_Io\<close>: \<open>readv\<close> and \<open>writev\<close>. \<open>Recvq\<close>: \<open>recvq::recv\<close> against the frames of the
    byte stream. \<open>Sendq\<close>: \<open>sendq::send\<close>, \<open>sendq::pull\<close> against the queued byte stream.
  \<^item> \<open>Ledger\<close>: the account of references: \<open>ledger st hs\<close> says that the count of each packet is the
    number of its holders in \<open>hs\<close>, \<open>once hs\<close> that no packet has two. \<open>Ledger_Queues\<close>: both queues keep it.
  \<^item> \<open>Text_Util\<close>: characters, decimal and hexadecimal digits, C strings.
  \<^item> \<open>Rfx_Api\<close>: serialised state, events, the actions of a filter. \<open>Rfx_Loot\<close>, \<open>Rfx_Chat\<close>: the two
    filters. \<open>Filters\<close>: all filters behind the virtual functions; the locales \<open>event_filter\<close> and
    \<open>reloadable_filter\<close> are what the core relies on, interpreted by the three plug-ins (\<open>plugins\<close>).
  \<^item> \<open>Chain\<close>: a chain of instances over a packet and over its events. \<open>Modules\<close>: loading, instances,
    building and deleting a chain. \<open>Reload\<close>: the replacement of a module.
  \<^item> \<open>Pipe\<close>: the pipes and the delayed packets. \<open>Session\<close>: the callbacks of a session.
    \<open>Proxy\<close>: all sessions with the module manager, the step relation \<open>px_step\<close> and its reachable states.
    \<open>Transparent\<close>: what a connection does to the byte streams.
  \<^item> \<open>Sock\<close>: \<^verbatim>\<open>lib/sock.c\<close>. \<open>Misc\<close>: \<^verbatim>\<open>lib/misc.c\<close>. \<open>Ini\<close>: \<^verbatim>\<open>lib/ini.c\<close>.
    \<open>Mconf_Values\<close>, \<open>Mconf_Table\<close>, \<open>Mconf_Help\<close>, \<open>Mconf_Getopt\<close>, \<open>Mconf\<close>: \<^verbatim>\<open>lib/mconf.c\<close>: values, options,
    help, the tables for \<open>getopt_long\<close> with its documented results, parse.
    \<open>Mconf_Memory\<close>: what that parser allocates for itself, and \<open>mconf_free\<close>.
    \<open>Daemon\<close>: \<^verbatim>\<open>lib/daemonize.c\<close>.
  \<^item> \<open>Frontend\<close>: \<open>main\<close>, the listening socket, \<open>cli_connect_cb\<close>, \<open>bootstrap\<close> and the table of
    descriptors around \<open>Proxy\<close>; the locale \<open>proxy_service\<close> is what it needs of the proxy (\<open>started\<close>).

  \<^bold>\<open>What the properties show.\<close>
  \<^item> The byte streams: the receive queue delivers exactly the packets of the stream however the kernel cuts it, and
    is safe exactly when no packet announces a length below four; the send queue writes the queued bytes in order and once, for
    every sequence of short writes, and empties itself on a descriptor that keeps accepting. Together, a
    connection whose packets no plug-in looks at is transparent, byte for byte.
  \<^item> Memory: in every reachable state of the proxy each packet has one reference and is counted once, in one place of a
    session or in the account of what closed sessions were reading (\<open>px_account\<close>); a closed session releases all
    else it held. When the plug-ins load at the start, no callback meets a released packet, a dangling link or an
    unset field. The queue macros of all families do to pointer memory what the list operations do.
  \<^item> Descriptors: each open descriptor has one owner, at any time between the start and the end.
  \<^item> Plug-ins: the loop over the events of a packet ends; replacing a plug-in keeps the state of all its instances;
    the loot filter is a set of item numbers, its commands are set operations; the chat filter writes
    well-formed packets and parses private messages.
  \<^item> Helpers: what is printed is read back (addresses, URIs, configuration files, option values); the parser of
    configuration files equals a reference that sorts the lines (\<open>ini_item\<close>) and reports the first bad one; the
    timed vector write ends with all or a prefix written unless it is interrupted for ever; the option parser is
    type-safe for every \<open>getopt_long\<close> with the documented results; the help text of options that fit its buffers is
    complete when the words fit the line, and endless otherwise.
  \<^item> Where the code goes wrong, the theorems say when: \<open>sendq_pull_desync\<close> (packets queued behind a blocked window),
    \<open>read_file_to_string_chunks\<close> (several reads), \<open>hexdump_total\<close> and \<open>rfx_state_roundtrip\<close> (sizes at the end of
    32 bits), \<open>recvq_recv_safe_iff\<close> (short length fields).

  \<^bold>\<open>Bounds.\<close> A filter chain has at most \<open>2 ^ 31\<close> instances, so that the counts of events and references
  stay below \<open>2 ^ 32\<close>; the vectors have the sizes of the source (\<open>WRIVCNT\<close>, the 4-byte header and the
  receive buffer); lines of a configuration file have 200 bytes, help lines 128. There is no fuel:
  loops are structural, have a proved measure, or are partial functions with a proof that they return.

  \<^bold>\<open>Parameters\<close>: the kernel's outcomes, the list files of the loot filter, what \<open>dlopen\<close>, \<open>dlsym\<close>,
  \<open>stat\<close> and \<open>time\<close> answer, the generated version of the plug-in interface, \<open>gethostbyname\<close>,
  \<open>vasprintf\<close>, \<open>getopt_long\<close>, the tables of \<open>syslog.h\<close>, the user data base and the contents of
  memory the code has not written. Allocation succeeds. Between two callbacks the event loop may run any callback whose
  watcher is active, and the kernel may change the sockets.

  \<^bold>\<open>Not modelled\<close>: the functions of \<^verbatim>\<open>include/ring_buffer.h\<close>, which are declared there and defined nowhere;
  \<open>libev\<close> beyond the flags of its watchers, since its loop is not part of the repository; and the variants of
  \<^verbatim>\<open>lib/ini.c\<close> that the build does not choose.
\<close>

end
